(* ===== verification/Prelude.thy ===== *)
theory Prelude
  imports Main "HOL-Library.Word" "HOL-Library.Monad_Syntax" "HOL-Library.Product_Lexorder"
begin

text \<open>
  Shared vocabulary of the development: the fixed-width integer types of
  \<open>futurehead/lib/numbers.hpp\<close>, the collections of rewrite rules the component theories
  extend, and generic facts about words, options and lists.

  A \<open>uint128_union\<close>, \<open>uint256_union\<close> or \<open>uint512_union\<close> of the source is a byte array read as a
  big-endian number (\<open>number ()\<close>); it is modelled by the word of that width, which is that
  number, and \<open>Byte_Codec\<close> gives its bytes. A \<open>uint64_t\<close> is a 64-bit word.
\<close>

named_theorems codec_simps \<open>decode after encode, lengths of encodings\<close>
named_theorems table_simps \<open>lookups in updated tables\<close>
named_theorems block_simps \<open>accessors of the five kinds of block\<close>
named_theorems store_simps \<open>reads of the block store after a write\<close>

type_synonym u8 = "8 word"
type_synonym u16 = "16 word"
type_synonym u32 = "32 word"
type_synonym u64 = "64 word"
type_synonym u128 = "128 word"
type_synonym u256 = "256 word"
type_synonym u512 = "512 word"

type_synonym account = u256
type_synonym block_hash = u256
type_synonym amount = u128
type_synonym link = u256
type_synonym root = u256
type_synonym signature = u512

text \<open>\<open>std::numeric_limits<...>::max ()\<close> of an unsigned type is the word with every bit set.\<close>

abbreviation u64_max :: u64 where
  "u64_max \<equiv> - 1"

abbreviation u128_max :: u128 where
  "u128_max \<equiv> - 1"

subsection \<open>Options as computations that may abort\<close>

text \<open>
  \<open>release_assert (c)\<close> ends the process when \<open>c\<close> is false. An operation that contains one returns
  an option, \<open>None\<close> being the abort; operations are sequenced with \<^const>\<open>Option.bind\<close>.
\<close>

definition release_assert :: "bool \<Rightarrow> unit option" where
  "release_assert c = (if c then Some () else None)"

lemma release_assert_simps [simp]:
  "release_assert True = Some ()"
  "release_assert False = None"
  by (simp_all add: release_assert_def)

lemma bind_eq_SomeD:
  assumes "Option.bind m f = Some y"
  obtains x where "m = Some x" and "f x = Some y"
  using assms by (cases m) auto

subsection \<open>Words as naturals\<close>

lemma unat_diff_le:
  fixes a b :: "'a::len word"
  assumes "b \<le> a"
  shows "unat (a - b) = unat a - unat b"
  using assms by (simp add: unat_sub)

lemma unat_diff_add:
  fixes a b :: "'a::len word"
  assumes "b \<le> a"
  shows "unat b + unat (a - b) = unat a"
  using assms by (simp add: unat_diff_le word_le_nat_alt)

lemma unat_add_bounded:
  fixes a b :: "'a::len word"
  assumes "unat a + unat b < 2 ^ LENGTH('a)"
  shows "unat (a + b) = unat a + unat b"
  using assms by (simp add: unat_word_ariths)

lemma unat_lt_2p: "unat (w :: 'a::len word) < 2 ^ LENGTH('a)"
  by (rule unsigned_less)

lemma unat_minus_1: "unat (- 1 :: 'a::len word) = 2 ^ LENGTH('a) - 1"
  by (simp add: unat_eq_nat_uint uint_word_of_int_eq take_bit_minus_one_eq_mask mask_eq_exp_minus_1
      nat_diff_distrib nat_power_eq unsigned_minus_1_eq_mask)

lemma word_less_plus_one:
  fixes a x :: "'a::len word"
  assumes "a \<noteq> - 1"
  shows "x < a + 1 \<longleftrightarrow> x < a \<or> x = a"
proof -
  have "1 + a \<noteq> 0" using assms max_word_wrap [of a] by (auto simp: add.commute)
  then have "unat (a + 1) = Suc (unat a)" using unatSuc [of a] by (simp add: add.commute)
  then show ?thesis by (auto simp: word_less_nat_alt word_unat_eq_iff)
qed

subsection \<open>Lists\<close>

lemma take_append_exact [simp]: "length xs = n \<Longrightarrow> take n (xs @ ys) = xs"
  by simp

lemma drop_append_exact [simp]: "length xs = n \<Longrightarrow> drop n (xs @ ys) = ys"
  by simp

lemma sum_list_filter_split:
  fixes f :: "'a \<Rightarrow> 'b::comm_monoid_add"
  shows "sum_list (map f xs) =
    sum_list (map f (filter P xs)) + sum_list (map f (filter (\<lambda>x. \<not> P x) xs))"
  by (induction xs) (simp_all add: algebra_simps)

end
