(* ===== verification/Byte_Codec.thy ===== *)
theory Byte_Codec
  imports Prelude
begin

text \<open>
  Byte streams (\<open>futurehead/lib/stream.hpp\<close>) and the byte layout of the fixed-width numbers
  (\<open>futurehead/lib/numbers.cpp\<close>). A stream is the list of bytes still to be read; \<open>read\<close> returns
  \<open>None\<close> where the source throws because fewer bytes are left than the value has. Unions hold
  their number big-endian (\<open>export_bits\<close> into \<open>bytes.rbegin ()\<close>); a plain integer is written in
  host order, which is little-endian on the platforms of the build.

  The locale \<open>stream_codec\<close> is the contract between a serializer and its deserializer.
\<close>

subsection \<open>Bytes of a number\<close>

fun nat_to_le :: "nat \<Rightarrow> nat \<Rightarrow> u8 list" where
  "nat_to_le 0 v = []"
| "nat_to_le (Suc n) v = word_of_nat (v mod 256) # nat_to_le n (v div 256)"

fun nat_of_le :: "u8 list \<Rightarrow> nat" where
  "nat_of_le [] = 0"
| "nat_of_le (b # bs) = unat b + 256 * nat_of_le bs"

definition bytes_be :: "nat \<Rightarrow> 'a::len word \<Rightarrow> u8 list" where
  "bytes_be n w = rev (nat_to_le n (unat w))"

definition word_be :: "u8 list \<Rightarrow> 'a::len word" where
  "word_be bs = word_of_nat (nat_of_le (rev bs))"

definition bytes_native :: "nat \<Rightarrow> 'a::len word \<Rightarrow> u8 list" where
  "bytes_native n w = nat_to_le n (unat w)"

definition word_native :: "u8 list \<Rightarrow> 'a::len word" where
  "word_native bs = word_of_nat (nat_of_le bs)"

text \<open>\<open>boost::endian::native_to_big\<close> and \<open>big_to_native\<close> on a little-endian host swap the bytes.\<close>

definition native_to_big :: "u64 \<Rightarrow> u64" where
  "native_to_big w = word_be (bytes_native 8 w)"

definition big_to_native :: "u64 \<Rightarrow> u64" where
  "big_to_native w = word_be (bytes_native 8 w)"

lemma length_nat_to_le [simp, codec_simps]: "length (nat_to_le n v) = n"
  by (induction n arbitrary: v) auto

lemma nat_of_le_bound: "nat_of_le bs < 256 ^ length bs"
proof (induction bs)
  case Nil
  then show ?case by simp
next
  case (Cons b bs)
  have "unat b < 256" using unat_lt_2p [of b] by simp
  with Cons.IH have "unat b + 256 * nat_of_le bs < 256 + 256 * (256 ^ length bs - 1)"
    by (intro add_less_le_mono mult_le_mono2) auto
  also have "\<dots> = 256 ^ length (b # bs)"
    by (simp add: algebra_simps diff_mult_distrib2)
  finally show ?case by simp
qed

lemma nat_of_to_le [codec_simps]: "v < 256 ^ n \<Longrightarrow> nat_of_le (nat_to_le n v) = v"
proof (induction n arbitrary: v)
  case 0
  then show ?case by simp
next
  case (Suc n)
  then have "v div 256 < 256 ^ n" by (simp add: less_mult_imp_div_less mult.commute)
  with Suc.IH show ?case by (simp add: unat_of_nat)
qed

lemma nat_to_of_le [codec_simps]: "nat_to_le (length bs) (nat_of_le bs) = bs"
proof (induction bs)
  case Nil
  then show ?case by simp
next
  case (Cons b bs)
  have "unat b < 256" using unat_lt_2p [of b] by simp
  with Cons.IH show ?case by simp
qed

lemma length_bytes_be [simp, codec_simps]: "length (bytes_be n w) = n"
  by (simp add: bytes_be_def)

lemma length_bytes_native [simp, codec_simps]: "length (bytes_native n w) = n"
  by (simp add: bytes_native_def)

lemma bytes_be_eq_Nil [simp, codec_simps]: "bytes_be n w = [] \<longleftrightarrow> n = 0"
  by (metis length_0_conv length_bytes_be)

lemma bytes_native_eq_Nil [simp, codec_simps]: "bytes_native n w = [] \<longleftrightarrow> n = 0"
  by (metis length_0_conv length_bytes_native)

lemma unat_bytes_bound:
  fixes w :: "'a::len word"
  assumes "LENGTH('a) = 8 * n"
  shows "unat w < 256 ^ n"
proof -
  have "(256::nat) ^ n = 2 ^ LENGTH('a)" by (simp add: assms power_mult)
  then show ?thesis using unat_lt_2p [of w] by simp
qed

lemma unat_word_of_le:
  assumes "LENGTH('a::len) = 8 * length bs"
  shows "unat (word_of_nat (nat_of_le bs) :: 'a word) = nat_of_le bs"
proof -
  have "(256::nat) ^ length bs = 2 ^ LENGTH('a)" by (simp add: assms power_mult)
  then show ?thesis using nat_of_le_bound [of bs] by (simp add: unat_of_nat)
qed

lemma word_be_bytes_be [codec_simps]:
  fixes w :: "'a::len word"
  assumes "LENGTH('a) = 8 * n"
  shows "word_be (bytes_be n w) = w"
  using unat_bytes_bound [OF assms, of w]
  by (simp add: word_be_def bytes_be_def nat_of_to_le)

lemma bytes_be_word_be [codec_simps]:
  assumes "LENGTH('a::len) = 8 * n" "length bs = n"
  shows "bytes_be n (word_be bs :: 'a word) = bs"
  using unat_word_of_le [where 'a = 'a and bs = "rev bs"] nat_to_of_le [of "rev bs"] assms
  by (simp add: word_be_def bytes_be_def)

lemma word_native_bytes_native [codec_simps]:
  fixes w :: "'a::len word"
  assumes "LENGTH('a) = 8 * n"
  shows "word_native (bytes_native n w) = w"
  using unat_bytes_bound [OF assms, of w]
  by (simp add: word_native_def bytes_native_def nat_of_to_le)

lemma bytes_native_word_native [codec_simps]:
  assumes "LENGTH('a::len) = 8 * n" "length bs = n"
  shows "bytes_native n (word_native bs :: 'a word) = bs"
  using unat_word_of_le [where 'a = 'a and bs = bs] nat_to_of_le [of bs] assms
  by (simp add: word_native_def bytes_native_def)

lemma bytes_native_rev: "bytes_native n w = rev (bytes_be n w)"
  by (simp add: bytes_native_def bytes_be_def)

lemma bytes_native_to_big [codec_simps]: "bytes_native 8 (native_to_big w) = bytes_be 8 w"
proof -
  have "bytes_be 8 (native_to_big w) = bytes_native 8 w"
    by (simp add: native_to_big_def bytes_be_word_be)
  then show ?thesis by (simp add: bytes_native_rev [of 8 "native_to_big w"] bytes_native_rev)
qed

lemma big_to_native_to_big [codec_simps]: "big_to_native (native_to_big w) = w"
  by (simp add: big_to_native_def bytes_native_to_big word_be_bytes_be)

lemma native_to_big_to_native [codec_simps]: "native_to_big (big_to_native w) = w"
  using big_to_native_to_big [of w] by (simp add: big_to_native_def native_to_big_def)

text \<open>
  \<open>operator<\<close> of the unions is \<open>memcmp\<close> over the bytes; on big-endian bytes of one width it is the
  order of the numbers.
\<close>

fun memcmp_less :: "u8 list \<Rightarrow> u8 list \<Rightarrow> bool" where
  "memcmp_less (a # as) (b # bs) = (a < b \<or> (a = b \<and> memcmp_less as bs))"
| "memcmp_less _ _ = False"

lemma nat_of_le_append: "nat_of_le (as @ bs) = nat_of_le as + 256 ^ length as * nat_of_le bs"
  by (induction as) (auto simp: algebra_simps)

lemma memcmp_less_number:
  assumes "length as = length bs"
  shows "memcmp_less as bs \<longleftrightarrow> nat_of_le (rev as) < nat_of_le (rev bs)"
  using assms
proof (induction as bs rule: list_induct2)
  case Nil
  then show ?case by simp
next
  case (Cons a as b bs)
  let ?n = "256 ^ length as :: nat" and ?x = "nat_of_le (rev as)" and ?y = "nat_of_le (rev bs)"
  have lt: "?x < ?n" "?y < ?n"
    using nat_of_le_bound [of "rev as"] nat_of_le_bound [of "rev bs"] Cons.hyps by simp_all
  have "?x + ?n * unat a < ?y + ?n * unat b \<longleftrightarrow> unat a < unat b \<or> (unat a = unat b \<and> ?x < ?y)"
  proof (cases "unat a" "unat b" rule: linorder_cases)
    case less
    then have "?n * (unat a + 1) \<le> ?n * unat b" by (intro mult_le_mono2) simp
    with less lt show ?thesis by (simp add: algebra_simps)
  next
    case equal
    then show ?thesis by simp
  next
    case greater
    then have "?n * (unat b + 1) \<le> ?n * unat a" by (intro mult_le_mono2) simp
    with greater lt show ?thesis by (simp add: algebra_simps)
  qed
  with Cons show ?case
    by (simp add: nat_of_le_append word_less_nat_alt word_unat_eq_iff)
qed

lemma memcmp_less_bytes_be:
  fixes v w :: "'a::len word"
  assumes "LENGTH('a) = 8 * n"
  shows "memcmp_less (bytes_be n v) (bytes_be n w) \<longleftrightarrow> v < w"
  using unat_bytes_bound [OF assms, of v] unat_bytes_bound [OF assms, of w]
  by (simp add: memcmp_less_number) (simp add: bytes_be_def nat_of_to_le word_less_nat_alt)

subsection \<open>Reading from a stream\<close>

definition read_bytes :: "nat \<Rightarrow> u8 list \<Rightarrow> (u8 list \<times> u8 list) option" where
  "read_bytes n s = (if length s < n then None else Some (take n s, drop n s))"

definition read_be :: "nat \<Rightarrow> u8 list \<Rightarrow> ('a::len word \<times> u8 list) option" where
  "read_be n s = do { (bs, s') \<leftarrow> read_bytes n s; Some (word_be bs, s') }"

definition read_native :: "nat \<Rightarrow> u8 list \<Rightarrow> ('a::len word \<times> u8 list) option" where
  "read_native n s = do { (bs, s') \<leftarrow> read_bytes n s; Some (word_native bs, s') }"

abbreviation read_u256 :: "u8 list \<Rightarrow> (u256 \<times> u8 list) option" where
  "read_u256 \<equiv> read_be 32"

abbreviation read_u128 :: "u8 list \<Rightarrow> (u128 \<times> u8 list) option" where
  "read_u128 \<equiv> read_be 16"

abbreviation read_u512 :: "u8 list \<Rightarrow> (u512 \<times> u8 list) option" where
  "read_u512 \<equiv> read_be 64"

abbreviation read_u64 :: "u8 list \<Rightarrow> (u64 \<times> u8 list) option" where
  "read_u64 \<equiv> read_native 8"

abbreviation read_u8 :: "u8 list \<Rightarrow> (u8 \<times> u8 list) option" where
  "read_u8 \<equiv> read_native 1"

subsection \<open>The contract of a serializer and its deserializer\<close>

locale stream_codec =
  fixes enc :: "'a \<Rightarrow> u8 list"
    and dec :: "u8 list \<Rightarrow> ('a \<times> u8 list) option"
    and valid :: "'a \<Rightarrow> bool"
  assumes dec_enc: "valid a \<Longrightarrow> dec (enc a @ r) = Some (a, r)"
    and dec_sound: "dec s = Some (a, r) \<Longrightarrow> valid a \<and> s = enc a @ r"
begin

lemma dec_enc_exact: "valid a \<Longrightarrow> dec (enc a) = Some (a, [])"
  using dec_enc [of a "[]"] by simp

lemma enc_prefix_free:
  assumes "valid a" "valid b"
  shows "enc a @ r = enc b @ r' \<longleftrightarrow> a = b \<and> r = r'"
proof
  assume "enc a @ r = enc b @ r'"
  then have "dec (enc a @ r) = dec (enc b @ r')" by simp
  then show "a = b \<and> r = r'" using assms by (simp only: dec_enc option.inject prod.inject)
qed simp

lemma enc_inject: "valid a \<Longrightarrow> valid b \<Longrightarrow> enc a = enc b \<longleftrightarrow> a = b"
  using enc_prefix_free [of a b "[]" "[]"] by simp

lemma dec_iff: "dec s = Some (a, r) \<longleftrightarrow> valid a \<and> s = enc a @ r"
  using dec_enc dec_sound by auto

lemma dec_None: "dec s = None \<longleftrightarrow> (\<forall>a r. valid a \<longrightarrow> s \<noteq> enc a @ r)"
  by (metis dec_iff not_None_eq surj_pair)

end

text \<open>A codec whose encodings all have one length.\<close>

locale fixed_codec = stream_codec +
  fixes width :: nat
  assumes enc_length: "valid a \<Longrightarrow> length (enc a) = width"
    and dec_total: "width \<le> length s \<Longrightarrow> dec s \<noteq> None"
begin

lemma dec_short: "dec s = None \<longleftrightarrow> length s < width"
proof
  assume "dec s = None"
  then show "length s < width" using dec_total [of s] by (cases "length s < width") auto
next
  assume "length s < width"
  then show "dec s = None" using dec_sound enc_length by (cases "dec s") force+
qed

end

abbreviation any_value :: "'a \<Rightarrow> bool" where
  "any_value \<equiv> \<lambda>_. True"

lemma read_be_enc [codec_simps]:
  fixes w :: "'a::len word"
  assumes "LENGTH('a) = 8 * n"
  shows "read_be n (bytes_be n w @ r) = Some (w, r)"
  by (simp add: read_be_def read_bytes_def word_be_bytes_be [OF assms])

lemma read_native_enc [codec_simps]:
  fixes w :: "'a::len word"
  assumes "LENGTH('a) = 8 * n"
  shows "read_native n (bytes_native n w @ r) = Some (w, r)"
  by (simp add: read_native_def read_bytes_def word_native_bytes_native [OF assms])

lemma read_be_sound:
  assumes "LENGTH('a::len) = 8 * n" "read_be n s = Some (w :: 'a word, r)"
  shows "s = bytes_be n w @ r"
  using assms by (auto simp: read_be_def read_bytes_def bytes_be_word_be split: if_splits)

lemma read_native_sound:
  assumes "LENGTH('a::len) = 8 * n" "read_native n s = Some (w :: 'a word, r)"
  shows "s = bytes_native n w @ r"
  using assms by (auto simp: read_native_def read_bytes_def bytes_native_word_native split: if_splits)

lemma read_be_total: "n \<le> length s \<Longrightarrow> read_be n s \<noteq> None"
  by (simp add: read_be_def read_bytes_def)

lemma read_native_total: "n \<le> length s \<Longrightarrow> read_native n s \<noteq> None"
  by (simp add: read_native_def read_bytes_def)

interpretation u256_codec: fixed_codec "bytes_be 32 :: u256 \<Rightarrow> u8 list" read_u256 any_value 32
  by unfold_locales (auto simp: read_be_enc read_be_total dest: read_be_sound [rotated])

interpretation u128_codec: fixed_codec "bytes_be 16 :: u128 \<Rightarrow> u8 list" read_u128 any_value 16
  by unfold_locales (auto simp: read_be_enc read_be_total dest: read_be_sound [rotated])

interpretation u512_codec: fixed_codec "bytes_be 64 :: u512 \<Rightarrow> u8 list" read_u512 any_value 64
  by unfold_locales (auto simp: read_be_enc read_be_total dest: read_be_sound [rotated])

interpretation u64_codec: fixed_codec "bytes_native 8 :: u64 \<Rightarrow> u8 list" read_u64 any_value 8
  by unfold_locales (auto simp: read_native_enc read_native_total dest: read_native_sound [rotated])

interpretation u8_codec: fixed_codec "bytes_native 1 :: u8 \<Rightarrow> u8 list" read_u8 any_value 1
  by unfold_locales (auto simp: read_native_enc read_native_total dest: read_native_sound [rotated])

lemmas codec_read [codec_simps] =
  u256_codec.dec_enc [OF TrueI] u128_codec.dec_enc [OF TrueI] u512_codec.dec_enc [OF TrueI]
  u64_codec.dec_enc [OF TrueI] u8_codec.dec_enc [OF TrueI]
  u256_codec.dec_enc_exact [OF TrueI] u128_codec.dec_enc_exact [OF TrueI]
  u512_codec.dec_enc_exact [OF TrueI] u64_codec.dec_enc_exact [OF TrueI]
  u8_codec.dec_enc_exact [OF TrueI]
  u8_codec.dec_enc [OF TrueI, unfolded One_nat_def]
  u8_codec.dec_enc_exact [OF TrueI, unfolded One_nat_def]

lemmas codec_read_iff =
  u256_codec.dec_iff [unfolded simp_thms] u128_codec.dec_iff [unfolded simp_thms]
  u512_codec.dec_iff [unfolded simp_thms] u64_codec.dec_iff [unfolded simp_thms]
  u8_codec.dec_iff [unfolded simp_thms] u8_codec.dec_iff [unfolded simp_thms One_nat_def]

lemmas codec_read_short =
  u256_codec.dec_short u128_codec.dec_short u512_codec.dec_short u64_codec.dec_short
  u8_codec.dec_short

end
