(* ===== verification/Tables.thy ===== *)
theory Tables
  imports Prelude
begin

text \<open>
  The tables of the block store. Both back ends (\<open>node/lmdb\<close>, \<open>node/rocksdb\<close>) keep each table as an
  ordered key/value map that the store reads and writes through \<open>get\<close>, \<open>put\<close>, \<open>del\<close>, \<open>count\<close> and
  iterators positioned at the first key not below a given one (\<open>make_iterator\<close>). A table is
  modelled as the list of its entries in increasing key order. Keys are byte strings compared
  byte by byte, which for the big-endian keys in use is the order of the numbers they hold.

  The laws a client relies on are stated once in the locale \<open>ordered_table\<close> and discharged for
  the list model.
\<close>

type_synonym ('k, 'v) table = "('k \<times> 'v) list"

definition table_get :: "('k, 'v) table \<Rightarrow> 'k \<Rightarrow> 'v option" where
  "table_get t k = map_of t k"

fun table_put :: "('k::linorder, 'v) table \<Rightarrow> 'k \<Rightarrow> 'v \<Rightarrow> ('k, 'v) table" where
  "table_put [] k v = [(k, v)]"
| "table_put ((k', v') # t) k v =
     (if k < k' then (k, v) # (k', v') # t
      else if k = k' then (k, v) # t
      else (k', v') # table_put t k v)"

definition table_drop_key :: "('k, 'v) table \<Rightarrow> 'k \<Rightarrow> ('k, 'v) table" where
  "table_drop_key t k = filter (\<lambda>e. fst e \<noteq> k) t"

text \<open>
  \<open>del\<close> reports \<open>MDB_NOTFOUND\<close> for an absent key, and every caller in the store follows it with
  \<open>release_assert (success (status))\<close>: deleting an absent key aborts.
\<close>

definition table_del :: "('k, 'v) table \<Rightarrow> 'k \<Rightarrow> ('k, 'v) table option" where
  "table_del t k = (if table_get t k = None then None else Some (table_drop_key t k))"

definition table_lower_bound :: "('k::linorder, 'v) table \<Rightarrow> 'k \<Rightarrow> ('k, 'v) table" where
  "table_lower_bound t k = dropWhile (\<lambda>e. fst e < k) t"

definition table_ok :: "('k::linorder, 'v) table \<Rightarrow> bool" where
  "table_ok t = sorted_wrt (<) (map fst t)"

subsection \<open>Lookups\<close>

lemma table_get_Nil [simp, table_simps]: "table_get [] k = None"
  by (simp add: table_get_def)

lemma table_get_Cons: "table_get ((k', v) # t) k = (if k = k' then Some v else table_get t k)"
  by (simp add: table_get_def)

lemma table_get_put [simp, table_simps]:
  "table_get (table_put t k v) k' = (if k' = k then Some v else table_get t k')"
  by (induction t k v rule: table_put.induct) (auto simp: table_get_Cons)

lemma table_get_drop_key [simp, table_simps]:
  "table_get (table_drop_key t k) k' = (if k' = k then None else table_get t k')"
  by (induction t) (auto simp: table_drop_key_def table_get_Cons)

lemma table_get_SomeD: "table_get t k = Some v \<Longrightarrow> (k, v) \<in> set t"
  by (simp add: table_get_def map_of_SomeD)

lemma table_del_eq_Some [simp]:
  "table_del t k = Some t' \<longleftrightarrow> table_get t k \<noteq> None \<and> t' = table_drop_key t k"
  by (auto simp: table_del_def)

lemma table_del_eq_None [simp]: "table_del t k = None \<longleftrightarrow> table_get t k = None"
  by (simp add: table_del_def)

subsection \<open>Order of the entries\<close>

lemma table_ok_Nil [simp]: "table_ok []"
  by (simp add: table_ok_def)

lemma table_ok_Cons:
  "table_ok ((k, v) # t) \<longleftrightarrow> (\<forall>k' \<in> fst ` set t. k < k') \<and> table_ok t"
  by (auto simp: table_ok_def)

lemma keys_table_put: "fst ` set (table_put t k v) = insert k (fst ` set t)"
  by (induction t k v rule: table_put.induct) auto

lemma table_ok_put [simp, intro]: "table_ok t \<Longrightarrow> table_ok (table_put t k v)"
  by (induction t k v rule: table_put.induct) (auto simp: table_ok_Cons keys_table_put)

lemma table_ok_drop_key [simp, intro]: "table_ok t \<Longrightarrow> table_ok (table_drop_key t k)"
  by (induction t) (auto simp: table_ok_Cons table_drop_key_def)

lemma table_get_eq_Some_iff:
  assumes "table_ok t"
  shows "table_get t k = Some v \<longleftrightarrow> (k, v) \<in> set t"
  using assms by (induction t) (force simp: table_ok_Cons table_get_Cons)+

lemma table_get_absent: "k \<notin> fst ` set t \<Longrightarrow> table_get t k = None"
  by (induction t) (auto simp: table_get_Cons)

text \<open>Two well-ordered tables with the same lookups are the same table.\<close>

lemma table_ext:
  assumes "table_ok t" "table_ok u" "\<And>k. table_get t k = table_get u k"
  shows "t = u"
proof -
  have ok: "sorted_wrt (<) (map fst t)" "sorted_wrt (<) (map fst u)"
    using assms(1,2) by (simp_all add: table_ok_def)
  then have "distinct (map fst t)" "distinct (map fst u)" "sorted (map fst t)" "sorted (map fst u)"
    by (simp_all add: strict_sorted_iff)
  moreover have eq: "set t = set u"
  proof (intro set_eqI)
    fix e show "e \<in> set t \<longleftrightarrow> e \<in> set u"
      using assms(3) [of "fst e"] table_get_eq_Some_iff [OF assms(1), of "fst e" "snd e"]
        table_get_eq_Some_iff [OF assms(2), of "fst e" "snd e"] by simp
  qed
  moreover have "inj_on fst (set t \<union> set u)"
    using \<open>distinct (map fst t)\<close> eq by (simp add: distinct_map)
  ultimately show ?thesis
    by (metis map_sorted_distinct_set_unique)
qed

lemma table_lower_bound_set:
  assumes "table_ok t"
  shows "set (table_lower_bound t k) = {e \<in> set t. k \<le> fst e}"
  using assms
proof (induction t)
  case Nil
  then show ?case by (simp add: table_lower_bound_def)
next
  case (Cons e t)
  obtain k' v where e: "e = (k', v)" by (cases e)
  from Cons.prems e have gt: "\<forall>x \<in> fst ` set t. k' < x" and ok: "table_ok t"
    by (auto simp: table_ok_Cons)
  show ?case
  proof (cases "k' < k")
    case True
    with Cons.IH [OF ok] e show ?thesis by (auto simp: table_lower_bound_def)
  next
    case False
    with gt e show ?thesis by (fastforce simp: table_lower_bound_def)
  qed
qed

text \<open>
  Scanning a table keyed by pairs from \<open>(a, 0)\<close> on while the first component is \<open>a\<close> visits exactly
  the entries of \<open>a\<close>, in order.
\<close>

lemma table_lower_bound_all: "\<forall>e \<in> set t. \<not> fst e < k \<Longrightarrow> table_lower_bound t k = t"
  unfolding table_lower_bound_def by (cases t) auto

lemma table_prefix_scan:
  fixes t :: "('k::linorder \<times> 'w::len word, 'v) table"
  assumes "table_ok t"
  shows "takeWhile (\<lambda>e. fst (fst e) = a) (table_lower_bound t (a, 0)) = filter (\<lambda>e. fst (fst e) = a) t"
  using assms
proof (induction t)
  case (Cons e t)
  obtain k w v where e: "e = ((k, w), v)" by (metis prod.exhaust)
  from Cons.prems e have later: "(k, w) < fst e'" if "e' \<in> set t" for e'
    using that by (auto simp: table_ok_Cons)
  show ?case
  proof (cases "k < a")
    case True
    with Cons e show ?thesis by (simp add: table_lower_bound_def table_ok_Cons)
  next
    case False
    then have "\<not> fst e' < (a, 0)" if "e' \<in> set t" for e'
      using later [OF that] by (cases e') (auto simp: less_prod_def)
    then have "table_lower_bound t (a, 0) = t" by (intro table_lower_bound_all) blast
    moreover have "filter (\<lambda>e. fst (fst e) = a) t = []" if "a < k"
      using that later by (force simp: filter_empty_conv less_prod_def)
    ultimately show ?thesis
      using False Cons e by (cases "k = a") (auto simp: table_lower_bound_def table_ok_Cons)
  qed
qed (simp add: table_lower_bound_def)

lemma table_prefix_any:
  fixes t :: "('k::linorder \<times> 'w::len word, 'v) table"
  assumes "table_ok t"
  shows "(case table_lower_bound t (a, 0) of [] \<Rightarrow> False | e # _ \<Rightarrow> fst (fst e) = a)
    \<longleftrightarrow> (\<exists>w. table_get t (a, w) \<noteq> None)"
proof -
  have "(case table_lower_bound t (a, 0) of [] \<Rightarrow> False | e # _ \<Rightarrow> fst (fst e) = a)
      \<longleftrightarrow> takeWhile (\<lambda>e. fst (fst e) = a) (table_lower_bound t (a, 0)) \<noteq> []"
    by (cases "table_lower_bound t (a, 0)") auto
  also have "\<dots> \<longleftrightarrow> (\<exists>e \<in> set t. fst (fst e) = a)"
    unfolding table_prefix_scan [OF assms] by (simp add: filter_empty_conv)
  also have "\<dots> \<longleftrightarrow> (\<exists>w v. ((a, w), v) \<in> set t)" by force
  finally show ?thesis by (simp add: table_get_eq_Some_iff [OF assms, symmetric] not_None_eq)
qed

subsection \<open>Sums over the entries\<close>

definition table_sum :: "('v \<Rightarrow> 'n::comm_monoid_add) \<Rightarrow> ('k, 'v) table \<Rightarrow> 'n" where
  "table_sum f t = sum_list (map (\<lambda>e. f (snd e)) t)"

lemma table_sum_Nil [simp]: "table_sum f [] = 0"
  by (simp add: table_sum_def)

lemma table_sum_Cons [simp]: "table_sum f (e # t) = f (snd e) + table_sum f t"
  by (simp add: table_sum_def)

definition entry_value :: "('v \<Rightarrow> 'n::zero) \<Rightarrow> 'v option \<Rightarrow> 'n" where
  "entry_value f e = (case e of None \<Rightarrow> 0 | Some v \<Rightarrow> f v)"

lemma entry_value_simps [simp]: "entry_value f None = 0" "entry_value f (Some v) = f v"
  by (simp_all add: entry_value_def)

lemma table_sum_put:
  fixes f :: "'v \<Rightarrow> 'n::comm_monoid_add"
  assumes "table_ok t"
  shows "table_sum f (table_put t k v) + entry_value f (table_get t k) = table_sum f t + f v"
  using assms
proof (induction t k v rule: table_put.induct)
  case (1 k v)
  then show ?case by simp
next
  case (2 k' v' t k v)
  have absent: "table_get t k = None" if "k < k'"
    using that "2.prems" by (intro table_get_absent) (auto simp: table_ok_Cons)
  show ?case
    using "2.prems" "2.IH" absent
    by (auto simp: table_get_Cons table_ok_Cons add.assoc add.commute add.left_commute)
qed

lemma table_sum_drop_key:
  fixes f :: "'v \<Rightarrow> 'n::comm_monoid_add"
  assumes "table_ok t"
  shows "table_sum f (table_drop_key t k) + entry_value f (table_get t k) = table_sum f t"
  using assms
proof (induction t)
  case Nil
  then show ?case by (simp add: table_drop_key_def)
next
  case (Cons e t)
  obtain k' v where e: "e = (k', v)" by (cases e)
  show ?case
  proof (cases "k' = k")
    case True
    with Cons.prems e have "k \<notin> fst ` set t" by (auto simp: table_ok_Cons)
    then have "table_get t k = None" "table_drop_key t k = t"
      by (auto simp: table_get_absent table_drop_key_def intro!: filter_True)
    with e True show ?thesis by (simp add: table_get_Cons table_drop_key_def add.commute)
  next
    case False
    with Cons e show ?thesis by (auto simp: table_get_Cons table_ok_Cons table_drop_key_def add.assoc)
  qed
qed

text \<open>A sum depends on the values found under the keys only.\<close>

lemma table_sum_rel:
  assumes ok: "table_ok t" "table_ok u" and rel: "\<And>k. rel_option (\<lambda>x y. f x = f y) (table_get t k) (table_get u k)"
  shows "table_sum f t = table_sum f u"
proof -
  let ?m = "map (\<lambda>e. (fst e, f (snd e)))"
  have get: "table_get (?m t) k = map_option f (table_get t k)" for t and k :: 'a
    by (induction t) (auto simp: table_get_Cons)
  have "?m t = ?m u"
  proof (rule table_ext)
    show "table_ok (?m t)" "table_ok (?m u)" using ok by (simp_all add: table_ok_def comp_def)
    show "table_get (?m t) k = table_get (?m u) k" for k
      using rel [of k] unfolding get by (cases "table_get t k"; cases "table_get u k") simp_all
  qed
  then have "map snd (?m t) = map snd (?m u)" by simp
  then show ?thesis by (simp add: table_sum_def comp_def)
qed

lemma table_sum_ge_entry:
  fixes f :: "'v \<Rightarrow> nat"
  assumes "table_ok t" "table_get t k = Some v"
  shows "f v \<le> table_sum f t"
  using table_sum_drop_key [OF assms(1), of f k] assms(2) by simp

lemma length_table_put:
  assumes "table_ok t"
  shows "length (table_put t k v) = (if table_get t k = None then Suc (length t) else length t)"
proof -
  have "table_sum (\<lambda>_. 1::nat) t = length t" for t :: "('a, 'b) table"
    by (induction t) auto
  then show ?thesis
    using table_sum_put [OF assms, of "\<lambda>_. 1::nat" k v] by (cases "table_get t k") auto
qed

subsection \<open>The interface a client of a table relies on\<close>

locale ordered_table =
  fixes get :: "'t \<Rightarrow> 'k::linorder \<Rightarrow> 'v option"
    and put :: "'t \<Rightarrow> 'k \<Rightarrow> 'v \<Rightarrow> 't"
    and del :: "'t \<Rightarrow> 'k \<Rightarrow> 't option"
    and from_key :: "'t \<Rightarrow> 'k \<Rightarrow> ('k \<times> 'v) list"
    and ok :: "'t \<Rightarrow> bool"
  assumes get_put: "get (put t k v) k' = (if k' = k then Some v else get t k')"
    and del_absent: "get t k = None \<Longrightarrow> del t k = None"
    and del_present: "get t k = Some v \<Longrightarrow> \<exists>t'. del t k = Some t'"
    and get_del: "del t k = Some t' \<Longrightarrow> get t' k' = (if k' = k then None else get t k')"
    and ok_put: "ok t \<Longrightarrow> ok (put t k v)"
    and ok_del: "ok t \<Longrightarrow> del t k = Some t' \<Longrightarrow> ok t'"
    and ext: "ok t \<Longrightarrow> ok u \<Longrightarrow> (\<And>k. get t k = get u k) \<Longrightarrow> t = u"
    and from_key_set: "ok t \<Longrightarrow> set (from_key t k) = {(k', v). k \<le> k' \<and> get t k' = Some v}"
    and from_key_sorted: "ok t \<Longrightarrow> sorted_wrt (<) (map fst (from_key t k))"
begin

lemma put_then_del:
  assumes "ok t" "get t k = None"
  shows "del (put t k v) k = Some t"
proof -
  obtain t' where t': "del (put t k v) k = Some t'"
    using del_present [of "put t k v" k v] by (auto simp: get_put)
  have "get t' k' = get t k'" for k'
    using get_del [OF t'] assms(2) by (auto simp: get_put)
  moreover have "ok t'" using ok_del [OF ok_put [OF assms(1)] t'] .
  ultimately have "t' = t" using assms(1) by (intro ext) auto
  with t' show ?thesis by simp
qed

lemma del_then_put:
  assumes "ok t" "get t k = Some v" "del t k = Some t'"
  shows "put t' k v = t"
  using assms get_del [OF assms(3)] by (intro ext) (auto simp: get_put ok_put ok_del)

lemma put_put:
  assumes "ok t"
  shows "put (put t k v) k v' = put t k v'"
  using assms by (intro ext) (auto simp: get_put ok_put)

lemma put_commute:
  assumes "ok t" "k \<noteq> k'"
  shows "put (put t k v) k' v' = put (put t k' v') k v"
  using assms by (intro ext) (auto simp: get_put ok_put)

lemma put_same:
  assumes "ok t" "get t k = Some v"
  shows "put t k v = t"
  using assms by (intro ext) (auto simp: get_put ok_put)

text \<open>An iterator positioned at \<open>k\<close> points at \<open>k\<close> itself exactly when \<open>k\<close> is a key.\<close>

lemma from_key_hd:
  assumes "ok t"
  shows "(from_key t k \<noteq> [] \<and> fst (hd (from_key t k)) = k) \<longleftrightarrow> get t k \<noteq> None"
proof
  assume a: "from_key t k \<noteq> [] \<and> fst (hd (from_key t k)) = k"
  then have "hd (from_key t k) \<in> set (from_key t k)" by simp
  with a from_key_set [OF assms, of k] show "get t k \<noteq> None" by auto
next
  assume "get t k \<noteq> None"
  then obtain v where "(k, v) \<in> set (from_key t k)"
    using from_key_set [OF assms, of k] by auto
  moreover have "\<forall>e \<in> set (from_key t k). k \<le> fst e"
    using from_key_set [OF assms, of k] by auto
  ultimately show "from_key t k \<noteq> [] \<and> fst (hd (from_key t k)) = k"
    using from_key_sorted [OF assms, of k]
    by (cases "from_key t k") (force dest: leD)+
qed

end

interpretation list_table: ordered_table table_get table_put table_del table_lower_bound table_ok
proof
  fix t :: "('a::linorder, 'b) table" and k
  assume ok: "table_ok t"
  show "set (table_lower_bound t k) = {(k', v). k \<le> k' \<and> table_get t k' = Some v}"
    using table_lower_bound_set [OF ok] table_get_eq_Some_iff [OF ok] by auto
  have "sorted_wrt (<) (map fst (dropWhile P t))" for P
    using ok by (induction t) (auto simp: table_ok_def)
  then show "sorted_wrt (<) (map fst (table_lower_bound t k))"
    by (simp add: table_lower_bound_def)
next
  fix t u :: "('a::linorder, 'b) table"
  assume "table_ok t" "table_ok u" "\<And>k. table_get t k = table_get u k"
  then show "t = u" by (rule table_ext)
qed (auto split: if_splits)

end
