(* ===== verification/Epochs.thy ===== *)
theory Epochs
  imports Tables
begin

text \<open>
  Epochs (\<open>futurehead/lib/epoch.hpp\<close>, \<open>epoch.cpp\<close>). \<open>enum class epoch : uint8_t\<close> is modelled by its
  underlying byte, since the byte is what the ledger stores and compares. The registry \<open>epochs\<close>
  maps an epoch to its signer and its link; \<open>at\<close> throws for an unknown epoch and \<open>epoch (link)\<close>
  dereferences the end iterator for an unknown link, both modelled as \<open>None\<close>. The registry is an
  unordered map in the source; the order of the list only matters if two epochs have the same link.
\<close>

type_synonym epoch = u8

definition epoch_invalid :: epoch where "epoch_invalid = 0"
definition epoch_unspecified :: epoch where "epoch_unspecified = 1"
definition epoch_0 :: epoch where "epoch_0 = 2"
definition epoch_1 :: epoch where "epoch_1 = 3"
definition epoch_2 :: epoch where "epoch_2 = 4"
definition epoch_max :: epoch where "epoch_max = epoch_2"

lemmas epoch_defs = epoch_invalid_def epoch_unspecified_def epoch_0_def epoch_1_def epoch_2_def
  epoch_max_def

record epoch_info =
  epoch_signer :: account
  epoch_link :: link

type_synonym epochs = "(epoch, epoch_info) table"

definition epochs_link :: "epochs \<Rightarrow> epoch \<Rightarrow> link option" where
  "epochs_link es e = map_option epoch_link (table_get es e)"

definition is_epoch_link :: "epochs \<Rightarrow> link \<Rightarrow> bool" where
  "is_epoch_link es l = list_ex (\<lambda>item. epoch_link (snd item) = l) es"

definition epochs_signer :: "epochs \<Rightarrow> epoch \<Rightarrow> account option" where
  "epochs_signer es e = map_option epoch_signer (table_get es e)"

definition epochs_epoch :: "epochs \<Rightarrow> link \<Rightarrow> epoch option" where
  "epochs_epoch es l = map_option fst (find (\<lambda>item. epoch_link (snd item) = l) es)"

definition epochs_add :: "epochs \<Rightarrow> epoch \<Rightarrow> account \<Rightarrow> link \<Rightarrow> epochs" where
  "epochs_add es e signer l = table_put es e \<lparr>epoch_signer = signer, epoch_link = l\<rparr>"

text \<open>The comparison promotes the bytes to \<open>int\<close>, so \<open>head_epoch + 1\<close> does not wrap.\<close>

definition is_sequential :: "epoch \<Rightarrow> epoch \<Rightarrow> bool" where
  "is_sequential e new_e =
     (let head_epoch = unat e; is_valid_epoch = unat epoch_0 \<le> head_epoch
      in is_valid_epoch \<and> unat new_e = head_epoch + 1)"

definition normalized_epoch :: "epoch \<Rightarrow> u8" where
  "normalized_epoch e = (let start = epoch_0; end = e in end - start)"

lemma find_SomeD: "find P xs = Some x \<Longrightarrow> P x \<and> x \<in> set xs"
  by (induction xs) (auto split: if_splits)

lemma find_Some_ex: "(\<exists>x. find P xs = Some x) \<longleftrightarrow> list_ex P xs"
  by (induction xs) auto

lemma epochs_epoch_Some:
  "is_epoch_link es l \<longleftrightarrow> (\<exists>e. epochs_epoch es l = Some e)"
  using find_Some_ex [of "\<lambda>item. epoch_link (snd item) = l" es]
  by (auto simp: is_epoch_link_def epochs_epoch_def)

lemma epochs_epoch_link:
  assumes "table_ok es" "epochs_epoch es l = Some e"
  shows "epochs_link es e = Some l"
proof -
  from assms(2) obtain i where "find (\<lambda>item. epoch_link (snd item) = l) es = Some (e, i)"
    by (auto simp: epochs_epoch_def)
  then have "epoch_link i = l" "(e, i) \<in> set es"
    by (auto dest!: find_SomeD)
  with assms(1) show ?thesis
    by (simp add: epochs_link_def table_get_eq_Some_iff [THEN iffD2])
qed

lemma epochs_signer_defined:
  assumes "table_ok es" "epochs_epoch es l = Some e"
  shows "\<exists>a. epochs_signer es e = Some a"
  using epochs_epoch_link [OF assms] by (auto simp: epochs_link_def epochs_signer_def)

text \<open>An epoch upgrade moves forward by exactly one, and never from a value below \<open>epoch_0\<close>.\<close>

lemma is_sequential_iff:
  "is_sequential e e' \<longleftrightarrow> epoch_0 \<le> e \<and> e < e' \<and> e' = e + 1"
proof -
  have suc: "unat (e + 1) = unat e + 1" if "e < e'"
    using that unat_lt_2p [of e'] by (simp add: unat_word_ariths word_less_nat_alt)
  have "unat e' = unat e + 1 \<longleftrightarrow> e < e' \<and> e' = e + 1"
    using suc by (auto simp: word_unat_eq_iff word_less_nat_alt)
  then show ?thesis by (simp add: is_sequential_def word_le_nat_alt)
qed

end
