(* ===== verification/Blocks.thy ===== *)
theory Blocks
  imports Byte_Codec Epochs
begin

text \<open>
  Blocks (\<open>futurehead/lib/blocks.hpp\<close>, \<open>blocks.cpp\<close>): the five kinds of block with their hashables,
  the byte sequence that is hashed, equality, the wire format of every kind, the sideband the
  ledger attaches to a stored block, and the packing of \<open>block_details\<close> into a byte.

  Every subclass of \<open>block\<close> has the members \<open>hashables\<close>, \<open>signature\<close> and \<open>work\<close>, and inherits
  \<open>sideband_m\<close>; a block is therefore a record whose \<open>hashables\<close> field tells the subclass.
  The hash function and the signature check are third-party code: they are the fields of
  \<open>crypto\<close>, an argument of whatever uses them.
\<close>

unbundle bit_operations_syntax

record crypto =
  blake2b :: "nat \<Rightarrow> u8 list \<Rightarrow> u8 list"
  ed25519_sign_open :: "u8 list \<Rightarrow> account \<Rightarrow> signature \<Rightarrow> bool"

text \<open>\<open>validate_message\<close> returns true when the signature does not verify.\<close>

definition validate_message :: "crypto \<Rightarrow> account \<Rightarrow> u256 \<Rightarrow> signature \<Rightarrow> bool" where
  "validate_message C public_key message sig =
     (\<not> ed25519_sign_open C (bytes_be 32 message) public_key sig)"

subsection \<open>Data\<close>

datatype block_type = Invalid | Not_a_block | Send_type | Receive_type | Open_type | Change_type | State_type

fun block_type_code :: "block_type \<Rightarrow> u8" where
  "block_type_code Invalid = 0"
| "block_type_code Not_a_block = 1"
| "block_type_code Send_type = 2"
| "block_type_code Receive_type = 3"
| "block_type_code Open_type = 4"
| "block_type_code Change_type = 5"
| "block_type_code State_type = 6"

text \<open>A byte outside the enumeration takes the same default branches as \<open>invalid\<close>.\<close>

definition block_type_of_code :: "u8 \<Rightarrow> block_type" where
  "block_type_of_code c =
     (if c = 1 then Not_a_block else if c = 2 then Send_type else if c = 3 then Receive_type
      else if c = 4 then Open_type else if c = 5 then Change_type else if c = 6 then State_type
      else Invalid)"

lemma block_type_of_code_code [simp, codec_simps]: "block_type_of_code (block_type_code t) = t"
  by (cases t) (simp_all add: block_type_of_code_def)

record block_details =
  details_epoch :: epoch
  is_send :: bool
  is_receive :: bool
  is_epoch :: bool

record block_sideband =
  successor :: block_hash
  sideband_account :: account
  sideband_balance :: amount
  height :: u64
  timestamp :: u64
  details :: block_details

definition default_details :: block_details where
  "default_details = \<lparr>details_epoch = epoch_0, is_send = False, is_receive = False, is_epoch = False\<rparr>"

definition default_sideband :: block_sideband where
  "default_sideband = \<lparr>successor = 0, sideband_account = 0, sideband_balance = 0, height = 0,
     timestamp = 0, details = default_details\<rparr>"

record send_hashables =
  send_previous :: block_hash
  send_destination :: account
  send_balance :: amount

record receive_hashables =
  receive_previous :: block_hash
  receive_source :: block_hash

record open_hashables =
  open_source :: block_hash
  open_representative :: account
  open_account :: account

record change_hashables =
  change_previous :: block_hash
  change_representative :: account

record state_hashables =
  state_account :: account
  state_previous :: block_hash
  state_representative :: account
  state_balance :: amount
  state_link :: link

datatype block_hashables =
    Send send_hashables
  | Receive receive_hashables
  | Open open_hashables
  | Change change_hashables
  | State state_hashables

record block =
  hashables :: block_hashables
  block_signature :: signature
  block_work :: u64
  sideband_m :: "block_sideband option"

subsection \<open>Accessors\<close>

fun hashables_type :: "block_hashables \<Rightarrow> block_type" where
  "hashables_type (Send _) = Send_type"
| "hashables_type (Receive _) = Receive_type"
| "hashables_type (Open _) = Open_type"
| "hashables_type (Change _) = Change_type"
| "hashables_type (State _) = State_type"

definition type_of :: "block \<Rightarrow> block_type" where
  "type_of b = hashables_type (hashables b)"

definition block_previous :: "block \<Rightarrow> block_hash" where
  "block_previous b = (case hashables b of
     Send h \<Rightarrow> send_previous h | Receive h \<Rightarrow> receive_previous h | Open h \<Rightarrow> 0
   | Change h \<Rightarrow> change_previous h | State h \<Rightarrow> state_previous h)"

definition block_account :: "block \<Rightarrow> account" where
  "block_account b = (case hashables b of Open h \<Rightarrow> open_account h | State h \<Rightarrow> state_account h | _ \<Rightarrow> 0)"

definition block_source :: "block \<Rightarrow> block_hash" where
  "block_source b = (case hashables b of Receive h \<Rightarrow> receive_source h | Open h \<Rightarrow> open_source h | _ \<Rightarrow> 0)"

definition block_link :: "block \<Rightarrow> link" where
  "block_link b = (case hashables b of State h \<Rightarrow> state_link h | _ \<Rightarrow> 0)"

definition block_representative :: "block \<Rightarrow> account" where
  "block_representative b = (case hashables b of
     Open h \<Rightarrow> open_representative h | Change h \<Rightarrow> change_representative h
   | State h \<Rightarrow> state_representative h | _ \<Rightarrow> 0)"

definition block_balance_field :: "block \<Rightarrow> amount" where
  "block_balance_field b = (case hashables b of Send h \<Rightarrow> send_balance h | State h \<Rightarrow> state_balance h | _ \<Rightarrow> 0)"

definition state_block_root :: "state_hashables \<Rightarrow> root" where
  "state_block_root h = (if state_previous h \<noteq> 0 then state_previous h else state_account h)"

definition block_root :: "block \<Rightarrow> root" where
  "block_root b = (case hashables b of
     Send h \<Rightarrow> send_previous h | Receive h \<Rightarrow> receive_previous h | Open h \<Rightarrow> open_account h
   | Change h \<Rightarrow> change_previous h | State h \<Rightarrow> state_block_root h)"

text \<open>\<open>qualified_root\<close> is a \<open>uint512_union\<close> of the previous block and the root.\<close>

definition qualified_root :: "block \<Rightarrow> block_hash \<times> root" where
  "qualified_root b = (block_previous b, block_root b)"

definition has_sideband :: "block \<Rightarrow> bool" where
  "has_sideband b = (sideband_m b \<noteq> None)"

text \<open>Reading the sideband of a block that has none is undefined behaviour: \<open>None\<close>.\<close>

definition sideband :: "block \<Rightarrow> block_sideband option" where
  "sideband b = sideband_m b"

definition sideband_set :: "block_sideband \<Rightarrow> block \<Rightarrow> block" where
  "sideband_set sb b = b\<lparr>sideband_m := Some sb\<rparr>"

lemmas block_accessor_defs = type_of_def block_previous_def block_account_def block_source_def
  block_link_def block_representative_def block_balance_field_def block_root_def
  state_block_root_def qualified_root_def has_sideband_def sideband_def sideband_set_def

text \<open>Setting the sideband changes nothing else.\<close>

lemma sideband_set_frame [simp, block_simps]:
  "hashables (sideband_set sb b) = hashables b"
  "type_of (sideband_set sb b) = type_of b"
  "block_previous (sideband_set sb b) = block_previous b"
  "block_account (sideband_set sb b) = block_account b"
  "block_root (sideband_set sb b) = block_root b"
  "block_representative (sideband_set sb b) = block_representative b"
  "sideband_m (sideband_set sb b) = Some sb"
  by (simp_all add: block_accessor_defs)

lemma block_type_cases:
  "type_of b \<noteq> Invalid" "type_of b \<noteq> Not_a_block"
  by (cases "hashables b"; simp add: type_of_def)+

fun send_valid_predecessor :: "block_type \<Rightarrow> bool" where
  "send_valid_predecessor Send_type = True"
| "send_valid_predecessor Receive_type = True"
| "send_valid_predecessor Open_type = True"
| "send_valid_predecessor Change_type = True"
| "send_valid_predecessor _ = False"

fun receive_valid_predecessor :: "block_type \<Rightarrow> bool" where
  "receive_valid_predecessor Send_type = True"
| "receive_valid_predecessor Receive_type = True"
| "receive_valid_predecessor Open_type = True"
| "receive_valid_predecessor Change_type = True"
| "receive_valid_predecessor _ = False"

fun change_valid_predecessor :: "block_type \<Rightarrow> bool" where
  "change_valid_predecessor Send_type = True"
| "change_valid_predecessor Receive_type = True"
| "change_valid_predecessor Open_type = True"
| "change_valid_predecessor Change_type = True"
| "change_valid_predecessor _ = False"

definition valid_predecessor :: "block \<Rightarrow> block \<Rightarrow> bool" where
  "valid_predecessor b prev = (case hashables b of
     Send _ \<Rightarrow> send_valid_predecessor (type_of prev)
   | Receive _ \<Rightarrow> receive_valid_predecessor (type_of prev)
   | Open _ \<Rightarrow> False
   | Change _ \<Rightarrow> change_valid_predecessor (type_of prev)
   | State _ \<Rightarrow> True)"

subsection \<open>Hashing\<close>

fun send_hashables_hash :: "send_hashables \<Rightarrow> u8 list" where
  "send_hashables_hash h =
     bytes_be 32 (send_previous h) @ bytes_be 32 (send_destination h) @ bytes_be 16 (send_balance h)"

fun receive_hashables_hash :: "receive_hashables \<Rightarrow> u8 list" where
  "receive_hashables_hash h = bytes_be 32 (receive_previous h) @ bytes_be 32 (receive_source h)"

fun open_hashables_hash :: "open_hashables \<Rightarrow> u8 list" where
  "open_hashables_hash h =
     bytes_be 32 (open_source h) @ bytes_be 32 (open_representative h) @ bytes_be 32 (open_account h)"

fun change_hashables_hash :: "change_hashables \<Rightarrow> u8 list" where
  "change_hashables_hash h = bytes_be 32 (change_previous h) @ bytes_be 32 (change_representative h)"

fun state_hashables_hash :: "state_hashables \<Rightarrow> u8 list" where
  "state_hashables_hash h =
     bytes_be 32 (state_account h) @ bytes_be 32 (state_previous h) @ bytes_be 32 (state_representative h)
     @ bytes_be 16 (state_balance h) @ bytes_be 32 (state_link h)"

text \<open>A state block hashes a 32-byte preamble holding the number of its type first.\<close>

definition state_block_hash :: "state_hashables \<Rightarrow> u8 list" where
  "state_block_hash h = bytes_be 32 (ucast (block_type_code State_type) :: u256) @ state_hashables_hash h"

fun hash_input :: "block_hashables \<Rightarrow> u8 list" where
  "hash_input (Send h) = send_hashables_hash h"
| "hash_input (Receive h) = receive_hashables_hash h"
| "hash_input (Open h) = open_hashables_hash h"
| "hash_input (Change h) = change_hashables_hash h"
| "hash_input (State h) = state_block_hash h"

definition generate_hash :: "crypto \<Rightarrow> block \<Rightarrow> block_hash" where
  "generate_hash C b = word_be (blake2b C 32 (hash_input (hashables b)))"

definition block_full_hash :: "crypto \<Rightarrow> block \<Rightarrow> block_hash" where
  "block_full_hash C b = word_be (blake2b C 32
     (bytes_be 32 (generate_hash C b) @ bytes_be 64 (block_signature b) @ bytes_native 8 (block_work b)))"

lemma generate_hash_sideband [simp, block_simps]: "generate_hash C (sideband_set sb b) = generate_hash C b"
  by (simp add: generate_hash_def)

text \<open>
  \<open>hash ()\<close> keeps the digest in \<open>cached_hash\<close>, zero meaning absent; \<open>refresh ()\<close> recomputes it
  after the hashables changed.
\<close>

record cached_block =
  cb_block :: block
  cached_hash :: block_hash

definition block_hash_cached :: "crypto \<Rightarrow> cached_block \<Rightarrow> block_hash \<times> cached_block" where
  "block_hash_cached C cb =
     (if cached_hash cb \<noteq> 0 then (cached_hash cb, cb)
      else (let h = generate_hash C (cb_block cb) in (h, cb\<lparr>cached_hash := h\<rparr>)))"

definition block_refresh :: "crypto \<Rightarrow> cached_block \<Rightarrow> cached_block" where
  "block_refresh C cb =
     (if cached_hash cb \<noteq> 0 then cb\<lparr>cached_hash := generate_hash C (cb_block cb)\<rparr> else cb)"

definition cache_ok :: "crypto \<Rightarrow> cached_block \<Rightarrow> bool" where
  "cache_ok C cb = (cached_hash cb = 0 \<or> cached_hash cb = generate_hash C (cb_block cb))"

lemma block_hash_cached_correct:
  "cache_ok C cb \<Longrightarrow> fst (block_hash_cached C cb) = generate_hash C (cb_block cb)"
  by (auto simp: cache_ok_def block_hash_cached_def Let_def)

lemma block_hash_cached_ok: "cache_ok C cb \<Longrightarrow> cache_ok C (snd (block_hash_cached C cb))"
  by (auto simp: cache_ok_def block_hash_cached_def Let_def)

lemma block_refresh_ok: "cache_ok C (block_refresh C cb)"
  by (simp add: cache_ok_def block_refresh_def)

end
