(* ===== verification/Block_Codec.thy ===== *)
theory Block_Codec
  imports Blocks
begin

text \<open>
  The wire format of blocks and of the sideband (\<open>futurehead/lib/blocks.cpp\<close>; \<open>serialize_block\<close> of
  \<open>futurehead/secure/common.cpp\<close>). Each kind of block has a stream constructor (hashables first,
  then signature and work) and a member \<open>deserialize\<close> that overwrites an existing object.
\<close>

unbundle bit_operations_syntax

subsection \<open>Sizes\<close>

definition send_block_size :: nat where "send_block_size = (32 + 32 + 16) + 64 + 8"
definition receive_block_size :: nat where "receive_block_size = (32 + 32) + 64 + 8"
definition open_block_size :: nat where "open_block_size = (32 + 32 + 32) + 64 + 8"
definition change_block_size :: nat where "change_block_size = (32 + 32) + 64 + 8"
definition state_block_size :: nat where "state_block_size = (32 + 32 + 32 + 16 + 32) + 64 + 8"

fun block_size :: "block_type \<Rightarrow> nat" where
  "block_size Invalid = 0"
| "block_size Not_a_block = 0"
| "block_size Send_type = send_block_size"
| "block_size Receive_type = receive_block_size"
| "block_size Change_type = change_block_size"
| "block_size Open_type = open_block_size"
| "block_size State_type = state_block_size"

lemmas block_size_defs = send_block_size_def receive_block_size_def open_block_size_def
  change_block_size_def state_block_size_def

subsection \<open>Writing\<close>

definition send_block_serialize :: "block \<Rightarrow> send_hashables \<Rightarrow> u8 list" where
  "send_block_serialize b h =
     bytes_be 32 (send_previous h) @ bytes_be 32 (send_destination h) @ bytes_be 16 (send_balance h)
     @ bytes_be 64 (block_signature b) @ bytes_native 8 (block_work b)"

definition receive_block_serialize :: "block \<Rightarrow> receive_hashables \<Rightarrow> u8 list" where
  "receive_block_serialize b h =
     bytes_be 32 (receive_previous h) @ bytes_be 32 (receive_source h)
     @ bytes_be 64 (block_signature b) @ bytes_native 8 (block_work b)"

definition open_block_serialize :: "block \<Rightarrow> open_hashables \<Rightarrow> u8 list" where
  "open_block_serialize b h =
     bytes_be 32 (open_source h) @ bytes_be 32 (open_representative h) @ bytes_be 32 (open_account h)
     @ bytes_be 64 (block_signature b) @ bytes_native 8 (block_work b)"

definition change_block_serialize :: "block \<Rightarrow> change_hashables \<Rightarrow> u8 list" where
  "change_block_serialize b h =
     bytes_be 32 (change_previous h) @ bytes_be 32 (change_representative h)
     @ bytes_be 64 (block_signature b) @ bytes_native 8 (block_work b)"

definition state_block_serialize :: "block \<Rightarrow> state_hashables \<Rightarrow> u8 list" where
  "state_block_serialize b h =
     bytes_be 32 (state_account h) @ bytes_be 32 (state_previous h) @ bytes_be 32 (state_representative h)
     @ bytes_be 16 (state_balance h) @ bytes_be 32 (state_link h)
     @ bytes_be 64 (block_signature b) @ bytes_native 8 (native_to_big (block_work b))"

definition block_serialize :: "block \<Rightarrow> u8 list" where
  "block_serialize b = (case hashables b of
     Send h \<Rightarrow> send_block_serialize b h
   | Receive h \<Rightarrow> receive_block_serialize b h
   | Open h \<Rightarrow> open_block_serialize b h
   | Change h \<Rightarrow> change_block_serialize b h
   | State h \<Rightarrow> state_block_serialize b h)"

text \<open>\<open>serialize_block\<close> puts the 8-bit type code in front.\<close>

definition serialize_block :: "block \<Rightarrow> u8 list" where
  "serialize_block b = bytes_native 1 (block_type_code (type_of b)) @ block_serialize b"

lemmas block_serialize_defs = block_serialize_def send_block_serialize_def
  receive_block_serialize_def open_block_serialize_def change_block_serialize_def
  state_block_serialize_def

lemma length_block_serialize [codec_simps]: "length (block_serialize b) = block_size (type_of b)"
  by (cases "hashables b") (simp_all add: block_serialize_defs type_of_def block_size_defs)

subsection \<open>Reading\<close>

definition make_block :: "block_hashables \<Rightarrow> signature \<Rightarrow> u64 \<Rightarrow> block" where
  "make_block h sig w = \<lparr>hashables = h, block_signature = sig, block_work = w, sideband_m = None\<rparr>"

definition send_hashables_read :: "u8 list \<Rightarrow> (send_hashables \<times> u8 list) option" where
  "send_hashables_read s = do {
     (p, s) \<leftarrow> read_u256 s; (d, s) \<leftarrow> read_u256 s; (bal, s) \<leftarrow> read_u128 s;
     Some (\<lparr>send_previous = p, send_destination = d, send_balance = bal\<rparr>, s) }"

definition send_block_read :: "u8 list \<Rightarrow> (block \<times> u8 list) option" where
  "send_block_read s = do {
     (h, s) \<leftarrow> send_hashables_read s; (sig, s) \<leftarrow> read_u512 s; (w, s) \<leftarrow> read_u64 s;
     Some (make_block (Send h) sig w, s) }"

definition receive_hashables_read :: "u8 list \<Rightarrow> (receive_hashables \<times> u8 list) option" where
  "receive_hashables_read s = do {
     (p, s) \<leftarrow> read_u256 s; (src, s) \<leftarrow> read_u256 s;
     Some (\<lparr>receive_previous = p, receive_source = src\<rparr>, s) }"

definition receive_block_read :: "u8 list \<Rightarrow> (block \<times> u8 list) option" where
  "receive_block_read s = do {
     (h, s) \<leftarrow> receive_hashables_read s; (sig, s) \<leftarrow> read_u512 s; (w, s) \<leftarrow> read_u64 s;
     Some (make_block (Receive h) sig w, s) }"

definition open_hashables_read :: "u8 list \<Rightarrow> (open_hashables \<times> u8 list) option" where
  "open_hashables_read s = do {
     (src, s) \<leftarrow> read_u256 s; (rep, s) \<leftarrow> read_u256 s; (acc, s) \<leftarrow> read_u256 s;
     Some (\<lparr>open_source = src, open_representative = rep, open_account = acc\<rparr>, s) }"

definition open_block_read :: "u8 list \<Rightarrow> (block \<times> u8 list) option" where
  "open_block_read s = do {
     (h, s) \<leftarrow> open_hashables_read s; (sig, s) \<leftarrow> read_u512 s; (w, s) \<leftarrow> read_u64 s;
     Some (make_block (Open h) sig w, s) }"

definition change_hashables_read :: "u8 list \<Rightarrow> (change_hashables \<times> u8 list) option" where
  "change_hashables_read s = do {
     (p, s) \<leftarrow> read_u256 s; (rep, s) \<leftarrow> read_u256 s;
     Some (\<lparr>change_previous = p, change_representative = rep\<rparr>, s) }"

definition change_block_read :: "u8 list \<Rightarrow> (block \<times> u8 list) option" where
  "change_block_read s = do {
     (h, s) \<leftarrow> change_hashables_read s; (sig, s) \<leftarrow> read_u512 s; (w, s) \<leftarrow> read_u64 s;
     Some (make_block (Change h) sig w, s) }"

definition state_hashables_read :: "u8 list \<Rightarrow> (state_hashables \<times> u8 list) option" where
  "state_hashables_read s = do {
     (acc, s) \<leftarrow> read_u256 s; (p, s) \<leftarrow> read_u256 s; (rep, s) \<leftarrow> read_u256 s;
     (bal, s) \<leftarrow> read_u128 s; (l, s) \<leftarrow> read_u256 s;
     Some (\<lparr>state_account = acc, state_previous = p, state_representative = rep,
            state_balance = bal, state_link = l\<rparr>, s) }"

definition state_block_read :: "u8 list \<Rightarrow> (block \<times> u8 list) option" where
  "state_block_read s = do {
     (h, s) \<leftarrow> state_hashables_read s; (sig, s) \<leftarrow> read_u512 s; (w, s) \<leftarrow> read_u64 s;
     Some (make_block (State h) sig (big_to_native w), s) }"

lemmas block_read_defs =
  send_block_read_def send_hashables_read_def receive_block_read_def receive_hashables_read_def
  open_block_read_def open_hashables_read_def change_block_read_def change_hashables_read_def
  state_block_read_def state_hashables_read_def

text \<open>\<open>deserialize_block (stream, type)\<close>: the null pointer is \<open>None\<close>.\<close>

fun deserialize_block_type :: "block_type \<Rightarrow> u8 list \<Rightarrow> (block \<times> u8 list) option" where
  "deserialize_block_type Receive_type s = receive_block_read s"
| "deserialize_block_type Send_type s = send_block_read s"
| "deserialize_block_type Open_type s = open_block_read s"
| "deserialize_block_type Change_type s = change_block_read s"
| "deserialize_block_type State_type s = state_block_read s"
| "deserialize_block_type _ s = None"

definition deserialize_block :: "u8 list \<Rightarrow> (block \<times> u8 list) option" where
  "deserialize_block s = do { (t, s) \<leftarrow> read_u8 s; deserialize_block_type (block_type_of_code t) s }"

text \<open>The member functions \<open>deserialize\<close> overwrite hashables, signature and work of an object.\<close>

definition send_block_deserialize :: "block \<Rightarrow> u8 list \<Rightarrow> (block \<times> u8 list) option" where
  "send_block_deserialize b s = do {
     (p, s) \<leftarrow> read_u256 s; (d, s) \<leftarrow> read_u256 s; (bal, s) \<leftarrow> read_u128 s;
     (sig, s) \<leftarrow> read_u512 s; (w, s) \<leftarrow> read_u64 s;
     Some (b\<lparr>hashables := Send \<lparr>send_previous = p, send_destination = d, send_balance = bal\<rparr>,
             block_signature := sig, block_work := w\<rparr>, s) }"

definition receive_block_deserialize :: "block \<Rightarrow> u8 list \<Rightarrow> (block \<times> u8 list) option" where
  "receive_block_deserialize b s = do {
     (p, s) \<leftarrow> read_u256 s; (src, s) \<leftarrow> read_u256 s; (sig, s) \<leftarrow> read_u512 s; (w, s) \<leftarrow> read_u64 s;
     Some (b\<lparr>hashables := Receive \<lparr>receive_previous = p, receive_source = src\<rparr>,
             block_signature := sig, block_work := w\<rparr>, s) }"

definition open_block_deserialize :: "block \<Rightarrow> u8 list \<Rightarrow> (block \<times> u8 list) option" where
  "open_block_deserialize b s = do {
     (src, s) \<leftarrow> read_u256 s; (rep, s) \<leftarrow> read_u256 s; (acc, s) \<leftarrow> read_u256 s;
     (sig, s) \<leftarrow> read_u512 s; (w, s) \<leftarrow> read_u64 s;
     Some (b\<lparr>hashables := Open \<lparr>open_source = src, open_representative = rep, open_account = acc\<rparr>,
             block_signature := sig, block_work := w\<rparr>, s) }"

definition change_block_deserialize :: "block \<Rightarrow> u8 list \<Rightarrow> (block \<times> u8 list) option" where
  "change_block_deserialize b s = do {
     (p, s) \<leftarrow> read_u256 s; (rep, s) \<leftarrow> read_u256 s; (sig, s) \<leftarrow> read_u512 s; (w, s) \<leftarrow> read_u64 s;
     Some (b\<lparr>hashables := Change \<lparr>change_previous = p, change_representative = rep\<rparr>,
             block_signature := sig, block_work := w\<rparr>, s) }"

definition state_block_deserialize :: "block \<Rightarrow> u8 list \<Rightarrow> (block \<times> u8 list) option" where
  "state_block_deserialize b s = do {
     (acc, s) \<leftarrow> read_u256 s; (p, s) \<leftarrow> read_u256 s; (rep, s) \<leftarrow> read_u256 s;
     (bal, s) \<leftarrow> read_u128 s; (l, s) \<leftarrow> read_u256 s; (sig, s) \<leftarrow> read_u512 s; (w, s) \<leftarrow> read_u64 s;
     Some (b\<lparr>hashables := State \<lparr>state_account = acc, state_previous = p, state_representative = rep,
               state_balance = bal, state_link = l\<rparr>,
             block_signature := sig, block_work := big_to_native w\<rparr>, s) }"

lemmas block_deserialize_defs = send_block_deserialize_def receive_block_deserialize_def
  open_block_deserialize_def change_block_deserialize_def state_block_deserialize_def

subsection \<open>Round trips\<close>

definition wire_block :: "block_type \<Rightarrow> block \<Rightarrow> bool" where
  "wire_block t b = (type_of b = t \<and> sideband_m b = None)"

lemma wire_block_simps [simp]:
  "wire_block t (make_block h sig w) \<longleftrightarrow> hashables_type h = t"
  by (simp add: wire_block_def make_block_def type_of_def)

lemma wire_block_E:
  assumes "wire_block t b"
  obtains h sig w where "b = make_block h sig w" "hashables_type h = t"
proof
  show "b = make_block (hashables b) (block_signature b) (block_work b)"
    using assms by (simp add: wire_block_def make_block_def)
  show "hashables_type (hashables b) = t" using assms by (simp add: wire_block_def type_of_def)
qed

text \<open>The work of a state block is byte-swapped between memory and stream.\<close>

lemma read_u64_big [codec_simps]: "read_u64 (bytes_be 8 w @ r) = Some (native_to_big w, r)"
  by (metis bytes_native_to_big codec_read(4))

lemma big_to_native_eq: "big_to_native = native_to_big"
  by (simp add: big_to_native_def native_to_big_def fun_eq_iff)

lemma native_to_big_twice [codec_simps]: "native_to_big (native_to_big w) = w"
  using big_to_native_to_big [of w] by (simp add: big_to_native_eq)

lemma read_u64_big_iff:
  "read_u64 s = Some (w, r) \<longleftrightarrow> s = bytes_be 8 (native_to_big w) @ r"
  by (metis bytes_native_to_big codec_read_iff(4) native_to_big_twice)

lemma deserialize_block_type_enc:
  assumes "wire_block t b"
  shows "deserialize_block_type t (block_serialize b @ r) = Some (b, r)"
  using assms
  by (elim wire_block_E, cases "hashables b")
     (auto simp: block_serialize_defs block_read_defs make_block_def codec_simps big_to_native_eq
        split: block_hashables.splits)

lemma deserialize_block_type_sound:
  assumes "deserialize_block_type t s = Some (b, r)"
  shows "wire_block t b \<and> s = block_serialize b @ r"
  using assms
  by (cases t)
     (auto simp: block_serialize_defs block_read_defs codec_read_iff codec_simps big_to_native_eq
        make_block_def wire_block_def type_of_def bind_eq_Some_conv)

lemma deserialize_block_type_total:
  assumes "block_size t \<le> length s" "t \<noteq> Invalid" "t \<noteq> Not_a_block"
  shows "deserialize_block_type t s \<noteq> None"
  using assms
  by (cases t) (auto simp: block_read_defs read_be_def read_native_def read_bytes_def block_size_defs)

lemma block_type_codec:
  assumes "t \<noteq> Invalid" "t \<noteq> Not_a_block"
  shows "fixed_codec block_serialize (deserialize_block_type t) (wire_block t) (block_size t)"
proof unfold_locales
  show "wire_block t a \<Longrightarrow> length (block_serialize a) = block_size t" for a
    by (simp add: wire_block_def length_block_serialize)
qed (use assms deserialize_block_type_enc deserialize_block_type_sound
      deserialize_block_type_total in blast)+

interpretation send_codec: fixed_codec block_serialize "deserialize_block_type Send_type"
    "wire_block Send_type" "block_size Send_type"
  by (rule block_type_codec) simp_all

interpretation receive_codec: fixed_codec block_serialize "deserialize_block_type Receive_type"
    "wire_block Receive_type" "block_size Receive_type"
  by (rule block_type_codec) simp_all

interpretation open_codec: fixed_codec block_serialize "deserialize_block_type Open_type"
    "wire_block Open_type" "block_size Open_type"
  by (rule block_type_codec) simp_all

interpretation change_codec: fixed_codec block_serialize "deserialize_block_type Change_type"
    "wire_block Change_type" "block_size Change_type"
  by (rule block_type_codec) simp_all

interpretation state_codec: fixed_codec block_serialize "deserialize_block_type State_type"
    "wire_block State_type" "block_size State_type"
  by (rule block_type_codec) simp_all

text \<open>With the type code in front, one decoder serves every kind of block.\<close>

lemma type_code_of_code:
  assumes "block_type_of_code c = t" "t \<noteq> Invalid"
  shows "block_type_code t = c"
  using assms by (auto simp: block_type_of_code_def split: if_splits)

interpretation block_codec: stream_codec serialize_block deserialize_block
    "\<lambda>b. sideband_m b = None"
proof unfold_locales
  fix b :: block and r
  assume "sideband_m b = None"
  then show "deserialize_block (serialize_block b @ r) = Some (b, r)"
    by (simp add: deserialize_block_def serialize_block_def codec_simps
        deserialize_block_type_enc wire_block_def)
next
  fix s r and b :: block
  assume "deserialize_block s = Some (b, r)"
  then obtain c s' where c: "s = bytes_native 1 c @ s'"
    and d: "deserialize_block_type (block_type_of_code c) s' = Some (b, r)"
    by (auto simp: deserialize_block_def bind_eq_Some_conv codec_read_iff)
  from deserialize_block_type_sound [OF d] have w: "wire_block (block_type_of_code c) b"
    and s': "s' = block_serialize b @ r" by auto
  have "block_type_code (type_of b) = c"
    using w block_type_cases(1) [of b] by (intro type_code_of_code) (auto simp: wire_block_def)
  with c s' w show "sideband_m b = None \<and> s = serialize_block b @ r"
    by (simp add: serialize_block_def wire_block_def)
qed

text \<open>The member \<open>deserialize\<close> reads exactly what the stream constructor reads.\<close>

lemma send_block_deserialize_eq:
  "send_block_deserialize b s =
     map_option (\<lambda>(b', r). (b'\<lparr>sideband_m := sideband_m b\<rparr>, r)) (send_block_read s)"
  by (auto simp: send_block_deserialize_def block_read_defs make_block_def split: bind_splits)

lemma state_block_deserialize_eq:
  "state_block_deserialize b s =
     map_option (\<lambda>(b', r). (b'\<lparr>sideband_m := sideband_m b\<rparr>, r)) (state_block_read s)"
  by (auto simp: state_block_deserialize_def block_read_defs make_block_def split: bind_splits)

lemma receive_block_deserialize_eq:
  "receive_block_deserialize b s =
     map_option (\<lambda>(b', r). (b'\<lparr>sideband_m := sideband_m b\<rparr>, r)) (receive_block_read s)"
  by (auto simp: receive_block_deserialize_def block_read_defs make_block_def split: bind_splits)

lemma open_block_deserialize_eq:
  "open_block_deserialize b s =
     map_option (\<lambda>(b', r). (b'\<lparr>sideband_m := sideband_m b\<rparr>, r)) (open_block_read s)"
  by (auto simp: open_block_deserialize_def block_read_defs make_block_def split: bind_splits)

lemma change_block_deserialize_eq:
  "change_block_deserialize b s =
     map_option (\<lambda>(b', r). (b'\<lparr>sideband_m := sideband_m b\<rparr>, r)) (change_block_read s)"
  by (auto simp: change_block_deserialize_def block_read_defs make_block_def split: bind_splits)

subsection \<open>Equality\<close>

definition send_block_eq :: "block \<Rightarrow> send_hashables \<Rightarrow> block \<Rightarrow> send_hashables \<Rightarrow> bool" where
  "send_block_eq b h b' h' =
     (send_destination h = send_destination h' \<and> send_previous h = send_previous h'
      \<and> send_balance h = send_balance h' \<and> block_work b = block_work b'
      \<and> block_signature b = block_signature b')"

definition receive_block_eq :: "block \<Rightarrow> receive_hashables \<Rightarrow> block \<Rightarrow> receive_hashables \<Rightarrow> bool" where
  "receive_block_eq b h b' h' =
     (receive_previous h = receive_previous h' \<and> receive_source h = receive_source h'
      \<and> block_work b = block_work b' \<and> block_signature b = block_signature b')"

definition open_block_eq :: "block \<Rightarrow> open_hashables \<Rightarrow> block \<Rightarrow> open_hashables \<Rightarrow> bool" where
  "open_block_eq b h b' h' =
     (open_source h = open_source h' \<and> open_representative h = open_representative h'
      \<and> open_account h = open_account h' \<and> block_work b = block_work b'
      \<and> block_signature b = block_signature b')"

definition change_block_eq :: "block \<Rightarrow> change_hashables \<Rightarrow> block \<Rightarrow> change_hashables \<Rightarrow> bool" where
  "change_block_eq b h b' h' =
     (change_previous h = change_previous h' \<and> change_representative h = change_representative h'
      \<and> block_work b = block_work b' \<and> block_signature b = block_signature b')"

definition state_block_eq :: "block \<Rightarrow> state_hashables \<Rightarrow> block \<Rightarrow> state_hashables \<Rightarrow> bool" where
  "state_block_eq b h b' h' =
     (state_account h = state_account h' \<and> state_previous h = state_previous h'
      \<and> state_representative h = state_representative h' \<and> state_balance h = state_balance h'
      \<and> state_link h = state_link h' \<and> block_signature b = block_signature b'
      \<and> block_work b = block_work b')"

text \<open>\<open>blocks_equal\<close> compares the types first, then the contents.\<close>

definition blocks_equal :: "block \<Rightarrow> block \<Rightarrow> bool" where
  "blocks_equal b b' = (type_of b = type_of b' \<and>
     (case (hashables b', hashables b) of
        (Send h, Send h') \<Rightarrow> send_block_eq b' h b h'
      | (Receive h, Receive h') \<Rightarrow> receive_block_eq b' h b h'
      | (Open h, Open h') \<Rightarrow> open_block_eq b' h b h'
      | (Change h, Change h') \<Rightarrow> change_block_eq b' h b h'
      | (State h, State h') \<Rightarrow> state_block_eq b' h b h'
      | _ \<Rightarrow> False))"

lemma blocks_equal_iff:
  "blocks_equal b b' \<longleftrightarrow> hashables b = hashables b' \<and> block_signature b = block_signature b'
     \<and> block_work b = block_work b'"
  by (cases "hashables b"; cases "hashables b'")
     (auto simp: blocks_equal_def type_of_def send_block_eq_def receive_block_eq_def
        open_block_eq_def change_block_eq_def state_block_eq_def)

lemma blocks_equal_serialize: "blocks_equal b b' \<longleftrightarrow> serialize_block b = serialize_block b'"
proof -
  have s: "serialize_block b = serialize_block (b\<lparr>sideband_m := None\<rparr>)" for b
    by (simp add: serialize_block_def block_serialize_defs type_of_def split: block_hashables.splits)
  have "serialize_block b = serialize_block b' \<longleftrightarrow> b\<lparr>sideband_m := None\<rparr> = b'\<lparr>sideband_m := None\<rparr>"
    by (subst s, subst s) (simp add: block_codec.enc_inject)
  also have "\<dots> \<longleftrightarrow> blocks_equal b b'"
    unfolding blocks_equal_iff by (cases b; cases b') simp
  finally show ?thesis by simp
qed

subsection \<open>Block details\<close>

definition bitset_set :: "nat \<Rightarrow> bool \<Rightarrow> u8 \<Rightarrow> u8" where
  "bitset_set i v w = (if v then set_bit i w else unset_bit i w)"

definition packed :: "block_details \<Rightarrow> u8" where
  "packed d = (let r = details_epoch d; r = bitset_set 7 (is_send d) r;
      r = bitset_set 6 (is_receive d) r; r = bitset_set 5 (is_epoch d) r in r)"

definition unpack :: "u8 \<Rightarrow> block_details" where
  "unpack w = \<lparr>details_epoch = w AND 31, is_send = bit w 7, is_receive = bit w 6, is_epoch = bit w 5\<rparr>"

definition details_serialize :: "block_details \<Rightarrow> u8 list" where
  "details_serialize d = bytes_native 1 (packed d)"

definition details_deserialize :: "u8 list \<Rightarrow> (block_details \<times> u8 list) option" where
  "details_deserialize s = do { (p, s) \<leftarrow> read_u8 s; Some (unpack p, s) }"

definition state_subtype :: "block_details \<Rightarrow> string" where
  "state_subtype d = (if is_send d then ''send'' else if is_receive d then ''receive''
     else if is_epoch d then ''epoch'' else ''change'')"

text \<open>The epoch of a stored block fits into the five low bits.\<close>

definition details_ok :: "block_details \<Rightarrow> bool" where
  "details_ok d = (details_epoch d < 32)"

lemma mask_5: "(31 :: u8) = mask 5"
  by (simp add: mask_eq_exp_minus_1)

lemma bit_31: "bit (31 :: u8) n \<longleftrightarrow> n < 5"
  by (simp only: mask_5 Bit_Operations.bit_mask_iff possible_bit_word) auto

lemma epoch_and_31:
  assumes "(e :: u8) < 32"
  shows "e AND 31 = e"
proof -
  have "e < 2 ^ 5" using assms by simp
  then show ?thesis unfolding mask_5 by (rule less_mask_eq)
qed

lemma unpack_packed [codec_simps]:
  assumes "details_ok d"
  shows "unpack (packed d) = d"
proof -
  have "packed d AND 31 = details_epoch d AND 31"
    by (rule bit_word_eqI)
       (auto simp: packed_def bitset_set_def Let_def bit_simps bit_31)
  moreover have "bit (packed d) 7 = is_send d" "bit (packed d) 6 = is_receive d"
    "bit (packed d) 5 = is_epoch d"
    by (auto simp: packed_def bitset_set_def Let_def bit_simps)
  ultimately show ?thesis
    using epoch_and_31 assms by (simp add: unpack_def details_ok_def)
qed

lemma packed_unpack [codec_simps]: "packed (unpack w) = w"
proof (rule bit_word_eqI)
  fix n assume "n < LENGTH(8)"
  then consider "n = 7" | "n = 6" | "n = 5" | "n < 5" by force
  moreover have "bit (w AND 31) n \<longleftrightarrow> bit w n \<and> n < 5"
    by (simp only: bit_and_iff bit_31)
  ultimately show "bit (packed (unpack w)) n = bit w n"
    by cases (auto simp: packed_def unpack_def bitset_set_def Let_def bit_set_bit_iff bit_unset_bit_iff)
qed

lemma unpack_ok: "details_ok (unpack w)"
proof -
  have "w AND 31 \<le> 31" by (rule word_and_le1)
  then have "w AND 31 < 32" by (rule le_less_trans) simp
  then show ?thesis by (simp add: details_ok_def unpack_def)
qed

interpretation details_codec: fixed_codec details_serialize details_deserialize details_ok 1
proof unfold_locales
  show "details_ok d \<Longrightarrow> details_deserialize (details_serialize d @ r) = Some (d, r)" for d r
    by (simp add: details_deserialize_def details_serialize_def codec_simps)
  show "details_deserialize s = Some (d, r) \<Longrightarrow> details_ok d \<and> s = details_serialize d @ r" for s d r
    by (auto simp: details_deserialize_def details_serialize_def bind_eq_Some_conv codec_read_iff
        unpack_ok packed_unpack)
qed (auto simp: details_serialize_def details_deserialize_def read_native_def read_bytes_def)

subsection \<open>Sideband\<close>

definition has_sideband_account :: "block_type \<Rightarrow> bool" where
  "has_sideband_account t = (t \<noteq> State_type \<and> t \<noteq> Open_type)"

definition has_sideband_balance :: "block_type \<Rightarrow> bool" where
  "has_sideband_balance t = (t = Receive_type \<or> t = Change_type \<or> t = Open_type)"

definition sideband_size :: "block_type \<Rightarrow> nat" where
  "sideband_size t = 32 + (if has_sideband_account t then 32 else 0) + (if t \<noteq> Open_type then 8 else 0)
     + (if has_sideband_balance t then 16 else 0) + 8 + (if t = State_type then 1 else 0)"

definition sideband_serialize :: "block_sideband \<Rightarrow> block_type \<Rightarrow> u8 list" where
  "sideband_serialize sb t =
     bytes_be 32 (successor sb)
     @ (if has_sideband_account t then bytes_be 32 (sideband_account sb) else [])
     @ (if t \<noteq> Open_type then bytes_native 8 (native_to_big (height sb)) else [])
     @ (if has_sideband_balance t then bytes_be 16 (sideband_balance sb) else [])
     @ bytes_native 8 (native_to_big (timestamp sb))
     @ (if t = State_type then details_serialize (details sb) else [])"

text \<open>\<open>deserialize\<close> assigns only the fields the type stores; the others keep what \<open>sb\<close> had.\<close>

definition sideband_deserialize ::
    "block_sideband \<Rightarrow> block_type \<Rightarrow> u8 list \<Rightarrow> (block_sideband \<times> u8 list) option" where
  "sideband_deserialize sb t s = do {
     (succ, s) \<leftarrow> read_u256 s;
     (acc, s) \<leftarrow> (if has_sideband_account t then read_u256 s else Some (sideband_account sb, s));
     (hgt, s) \<leftarrow> (if t \<noteq> Open_type then do { (h, s) \<leftarrow> read_u64 s; Some (big_to_native h, s) } else Some (1, s));
     (bal, s) \<leftarrow> (if has_sideband_balance t then read_u128 s else Some (sideband_balance sb, s));
     (ts, s) \<leftarrow> read_u64 s;
     (det, s) \<leftarrow> (if t = State_type then details_deserialize s else Some (details sb, s));
     Some (\<lparr>successor = succ, sideband_account = acc, sideband_balance = bal, height = hgt,
            timestamp = big_to_native ts, details = det\<rparr>, s) }"

text \<open>What of a sideband survives being stored with a block of type \<open>t\<close>.\<close>

definition sideband_stored :: "block_type \<Rightarrow> block_sideband \<Rightarrow> block_sideband" where
  "sideband_stored t sb =
     \<lparr>successor = successor sb,
      sideband_account = (if has_sideband_account t then sideband_account sb else 0),
      sideband_balance = (if has_sideband_balance t then sideband_balance sb else 0),
      height = (if t = Open_type then 1 else height sb),
      timestamp = timestamp sb,
      details = (if t = State_type then unpack (packed (details sb)) else default_details)\<rparr>"

lemma length_sideband_serialize [codec_simps]: "length (sideband_serialize sb t) = sideband_size t"
  by (simp add: sideband_serialize_def sideband_size_def details_serialize_def)

lemma sideband_deserialize_serialize [codec_simps]:
  "sideband_deserialize default_sideband t (sideband_serialize sb t @ r) = Some (sideband_stored t sb, r)"
  by (auto simp: sideband_deserialize_def sideband_serialize_def sideband_stored_def codec_simps
      default_sideband_def big_to_native_eq details_serialize_def details_deserialize_def)

lemma sideband_serialize_stored [simp]:
  "sideband_serialize (sideband_stored t sb) t = sideband_serialize sb t"
  by (simp add: sideband_serialize_def sideband_stored_def details_serialize_def packed_unpack
      has_sideband_account_def)

lemma sideband_stored_idem [simp]: "sideband_stored t (sideband_stored t sb) = sideband_stored t sb"
  by (auto simp: sideband_stored_def packed_unpack)

lemma sideband_stored_fields [simp]:
  "successor (sideband_stored t sb) = successor sb"
  "timestamp (sideband_stored t sb) = timestamp sb"
  by (simp_all add: sideband_stored_def)

end
