(* ===== verification/Doubles.thy ===== *)
theory Doubles
  imports Complex_Main
begin

text \<open>
  The arithmetic of \<open>double\<close>: every operation is the exact one on real numbers, rounded to 53
  significant bits, to nearest and ties to even (IEEE 754 binary64 in its default mode, without fused
  operations). The range of the exponent is not modelled: no value the node computes with comes near
  its ends, and infinities and NaN arise from a division by zero only. The laws of rounding that the clients use
  (monotone, and exact on the numbers that need no more than 53 bits) are the locale \<open>rounding\<close>.
\<close>

type_synonym double = real

definition round_even :: "real \<Rightarrow> int" where
  "round_even x =
     (let d = x - real_of_int \<lfloor>x\<rfloor> in
      if d < 1 / 2 \<or> d = 1 / 2 \<and> even \<lfloor>x\<rfloor> then \<lfloor>x\<rfloor> else \<lfloor>x\<rfloor> + 1)"

definition double_exponent :: "real \<Rightarrow> int" where
  "double_exponent x = \<lfloor>log 2 \<bar>x\<bar>\<rfloor> - 52"

definition fl :: "real \<Rightarrow> double" where
  "fl x = (if x = 0 then 0
           else real_of_int (round_even (x * 2 powi (- double_exponent x))) * 2 powi double_exponent x)"

text \<open>The operators of the language and the conversion from an unsigned integer.\<close>

definition double_of_nat :: "nat \<Rightarrow> double" where "double_of_nat n = fl (real n)"
definition double_add :: "double \<Rightarrow> double \<Rightarrow> double" where "double_add x y = fl (x + y)"
definition double_sub :: "double \<Rightarrow> double \<Rightarrow> double" where "double_sub x y = fl (x - y)"
definition double_mul :: "double \<Rightarrow> double \<Rightarrow> double" where "double_mul x y = fl (x * y)"
definition double_div :: "double \<Rightarrow> double \<Rightarrow> double" where "double_div x y = fl (x / y)"

lemmas double_ops = double_of_nat_def double_add_def double_sub_def double_mul_def double_div_def

subsection \<open>Rounding to an integer\<close>

lemma round_even_bounds: "\<lfloor>x\<rfloor> \<le> round_even x" "round_even x \<le> \<lfloor>x\<rfloor> + 1"
  by (auto simp: round_even_def Let_def)

lemma round_even_int [simp]: "round_even (real_of_int i) = i"
  by (simp add: round_even_def)

lemma round_even_mono: "x \<le> y \<Longrightarrow> round_even x \<le> round_even y"
proof -
  assume le: "x \<le> y"
  then consider "\<lfloor>x\<rfloor> = \<lfloor>y\<rfloor>" | "\<lfloor>x\<rfloor> + 1 \<le> \<lfloor>y\<rfloor>"
    using floor_mono [of x y] by linarith
  then show ?thesis
  proof cases
    case 1
    then show ?thesis using le by (auto simp: round_even_def Let_def)
  next
    case 2
    then show ?thesis using round_even_bounds(2) [of x] round_even_bounds(1) [of y] by linarith
  qed
qed

lemma round_even_minus: "round_even (- x) = - round_even x"
proof (cases "x = real_of_int \<lfloor>x\<rfloor>")
  case True
  then show ?thesis by (metis of_int_minus round_even_int)
next
  case False
  then have "\<lfloor>- x\<rfloor> = - \<lfloor>x\<rfloor> - 1"
    by linarith
  then show ?thesis
    by (auto simp: round_even_def Let_def)
qed

subsection \<open>Rounding to 53 bits\<close>

lemma fl_zero [simp]: "fl 0 = 0"
  by (simp add: fl_def)

lemma fl_minus: "fl (- x) = - fl x"
  using round_even_minus [of "x * 2 powi (- double_exponent x)"]
  by (simp add: fl_def double_exponent_def)

text \<open>The binade of a positive number, and that its rounding stays within it.\<close>

lemma binade:
  assumes "0 < x"
  shows "2 powi (double_exponent x + 52) \<le> x" "x < 2 powi (double_exponent x + 53)"
proof -
  have "real_of_int \<lfloor>log 2 x\<rfloor> \<le> log 2 x" "log 2 x < real_of_int (\<lfloor>log 2 x\<rfloor> + 1)"
    by linarith+
  then have "2 powr real_of_int \<lfloor>log 2 x\<rfloor> \<le> x" "x < 2 powr real_of_int (\<lfloor>log 2 x\<rfloor> + 1)"
    using assms by (simp_all only: le_log_iff log_less_iff one_less_numeral_iff semiring_norm)
  then have "2 powi \<lfloor>log 2 x\<rfloor> \<le> x" "x < 2 powi (\<lfloor>log 2 x\<rfloor> + 1)"
    using powr_real_of_int' [of "2::real" "\<lfloor>log 2 x\<rfloor>"] powr_real_of_int' [of "2::real" "\<lfloor>log 2 x\<rfloor> + 1"] by simp_all
  then show "2 powi (double_exponent x + 52) \<le> x" "x < 2 powi (double_exponent x + 53)"
    using assms by (simp_all add: double_exponent_def add.commute)
qed

lemma double_exponent_eq:
  assumes "2 powi (e + 52) \<le> x" "x < 2 powi (e + 53)"
  shows "double_exponent x = e"
proof -
  have "0 < x" using assms(1) by (rule less_le_trans [rotated]) simp
  from binade [OF this] assms have "(2::real) powi (double_exponent x + 52) < 2 powi (e + 53)"
    "(2::real) powi (e + 52) < 2 powi (double_exponent x + 53)"
    by linarith+
  then show ?thesis
    using power_int_increasing [of "e + 53" "double_exponent x + 52" "2::real"]
      power_int_increasing [of "double_exponent x + 53" "e + 52" "2::real"] by linarith
qed

lemma fl_binade:
  assumes "0 < x"
  shows "2 powi (double_exponent x + 52) \<le> fl x" "fl x \<le> 2 powi (double_exponent x + 53)"
proof -
  let ?e = "double_exponent x"
  let ?y = "x * 2 powi (- ?e)"
  have y: "real_of_int (2 ^ 52) \<le> ?y" "?y \<le> real_of_int (2 ^ 53)"
    using binade [OF assms] by (simp_all add: power_int_add power_int_minus field_simps)
  have r: "2 ^ 52 \<le> round_even ?y" "round_even ?y \<le> 2 ^ 53"
    using round_even_mono [OF y(1)] round_even_mono [OF y(2)] by (simp_all only: round_even_int)
  have "real_of_int (2 ^ 52) * 2 powi ?e \<le> real_of_int (round_even ?y) * 2 powi ?e"
    "real_of_int (round_even ?y) * 2 powi ?e \<le> real_of_int (2 ^ 53) * 2 powi ?e"
    using r by (intro mult_right_mono; simp only: of_int_le_iff zero_le_power_int)+
  then show "2 powi (?e + 52) \<le> fl x" "fl x \<le> 2 powi (?e + 53)"
    using assms by (simp_all add: fl_def power_int_add mult.commute)
qed

lemma double_exponent_mono: "0 < x \<Longrightarrow> x \<le> y \<Longrightarrow> double_exponent x \<le> double_exponent y"
  by (simp add: double_exponent_def floor_mono)

lemma fl_mono_pos:
  assumes "0 < x" "x \<le> y"
  shows "fl x \<le> fl y"
proof (cases "double_exponent x = double_exponent y")
  case True
  then have "round_even (x * 2 powi (- double_exponent x)) \<le> round_even (y * 2 powi (- double_exponent y))"
    using assms by (intro round_even_mono) simp
  then show ?thesis
    using assms True by (simp add: fl_def)
next
  case False
  then have "double_exponent x + 53 \<le> double_exponent y + 52"
    using double_exponent_mono [OF assms] by simp
  then have "(2::real) powi (double_exponent x + 53) \<le> 2 powi (double_exponent y + 52)"
    by (intro power_int_increasing) simp_all
  then show ?thesis
    using fl_binade(2) [OF assms(1)] fl_binade(1) [of y] assms by linarith
qed

lemma fl_pos: "0 < x \<Longrightarrow> 0 < fl x"
  by (rule less_le_trans [OF _ fl_binade(1)]) simp_all

lemma fl_mono: "x \<le> y \<Longrightarrow> fl x \<le> fl y"
proof -
  assume le: "x \<le> y"
  consider "0 < x" | "x \<le> 0" "0 \<le> y" | "y < 0"
    by linarith
  then show ?thesis
  proof cases
    case 1
    then show ?thesis using fl_mono_pos le by blast
  next
    case 2
    have "0 \<le> fl y" "0 \<le> fl (- x)"
      using 2 fl_pos [of y] fl_pos [of "- x"] by (cases "y = 0"; cases "x = 0"; simp)+
    then show ?thesis by (simp add: fl_minus)
  next
    case 3
    then have "fl (- y) \<le> fl (- x)" using fl_mono_pos [of "- y" "- x"] le by simp
    then show ?thesis by (simp add: fl_minus)
  qed
qed

text \<open>A number that needs no more than 53 bits is a double.\<close>

lemma fl_exact_pos:
  assumes "0 < i" "i \<le> 2 ^ 53"
  shows "fl (real_of_int i * 2 powi k) = real_of_int i * 2 powi k"
proof -
  let ?x = "real_of_int i * 2 powi k"
  let ?e = "double_exponent ?x"
  have pos: "0 < ?x" using assms by simp
  have fin: "fl ?x = ?x" if "?x * 2 powi (- ?e) = real_of_int j" for j
  proof -
    have "fl ?x = real_of_int j * 2 powi ?e"
      using pos by (simp only: fl_def that round_even_int) auto
    also have "\<dots> = ?x"
      unfolding that [symmetric] by (simp add: power_int_minus)
    finally show ?thesis .
  qed
  have le: "?x \<le> 2 powi (53 + k)"
  proof -
    have "real_of_int i \<le> real_of_int (2 ^ 53)" using assms(2) by (simp only: of_int_le_iff)
    then have "real_of_int i * 2 powi k \<le> real_of_int (2 ^ 53) * 2 powi k"
      by (intro mult_right_mono) simp_all
    then show ?thesis by (simp add: power_int_add)
  qed
  have "2 powi (?e + 52) \<le> (2::real) powi (53 + k)"
    using binade(1) [OF pos] le by linarith
  then have ek: "?e + 52 \<le> 53 + k"
    using power_int_strict_increasing [of "53 + k" "?e + 52" "2::real"] by linarith
  show ?thesis
  proof (cases "?e \<le> k")
    case True
    then have "?x * 2 powi (- ?e) = real_of_int (i * 2 ^ nat (k - ?e))"
      by (simp add: power_int_minus power_int_diff divide_inverse mult.assoc flip: power_int_of_nat)
    then show ?thesis by (rule fin)
  next
    case False
    then have e: "?e = k + 1" using ek by simp
    have "?x = 2 powi (53 + k)"
      using binade(1) [OF pos] le e by (simp add: add.commute)
    then have "?x * 2 powi (- ?e) = real_of_int (2 ^ 52)"
      unfolding e using power_int_add [of "2::real" "53 + k" "- (k + 1)"] by simp
    then show ?thesis by (rule fin)
  qed
qed

lemma fl_exact:
  assumes "\<bar>i\<bar> \<le> 2 ^ 53"
  shows "fl (real_of_int i * 2 powi k) = real_of_int i * 2 powi k"
proof -
  consider "i = 0" | "0 < i" | "0 < - i" by linarith
  then show ?thesis
  proof cases
    case 3
    then have "fl (- (real_of_int i * 2 powi k)) = - (real_of_int i * 2 powi k)"
      using fl_exact_pos [of "- i" k] assms by simp
    then show ?thesis by (simp add: fl_minus)
  qed (use fl_exact_pos assms in auto)
qed

subsection \<open>The laws of rounding\<close>

text \<open>
  What a client may rely on. Its lemmas are the two scalings that \<open>work.cpp\<close> computes, by a ratio \<open>2 ^ p\<close>: they
  keep a multiplier of at least one at least one, they are monotone, and they undo each other where every
  intermediate result fits in 53 bits.
\<close>

definition scale_down :: "(real \<Rightarrow> real) \<Rightarrow> nat \<Rightarrow> real \<Rightarrow> real" where
  "scale_down rd p m = rd (rd (m + rd (2 ^ p - 1)) / 2 ^ p)"

definition scale_up :: "(real \<Rightarrow> real) \<Rightarrow> nat \<Rightarrow> real \<Rightarrow> real" where
  "scale_up rd p m = rd (rd (rd (m * 2 ^ p) + 1) - 2 ^ p)"

locale rounding =
  fixes rd :: "real \<Rightarrow> real"
  assumes mono: "x \<le> y \<Longrightarrow> rd x \<le> rd y"
    and exact: "\<bar>i\<bar> \<le> 2 ^ 53 \<Longrightarrow> rd (real_of_int i * 2 powi k) = real_of_int i * 2 powi k"
begin

lemma exact_int: "\<bar>i\<bar> \<le> 2 ^ 53 \<Longrightarrow> rd (real_of_int i) = real_of_int i"
  using exact [of i 0] by simp

lemma exact_fraction: "\<bar>i\<bar> \<le> 2 ^ 53 \<Longrightarrow> rd (real_of_int i / 2 ^ j) = real_of_int i / 2 ^ j"
  using exact [of i "- int j"] by (simp add: power_int_minus divide_inverse)

lemma exact_power: "rd (2 ^ n) = 2 ^ n"
  using exact [of 1 "int n"] by simp

lemma exact_one: "rd 1 = 1"
  using exact_int [of 1] by simp

lemma scale_mono:
  assumes "m \<le> n"
  shows "scale_down rd p m \<le> scale_down rd p n" "scale_up rd p m \<le> scale_up rd p n"
  unfolding scale_down_def scale_up_def
  using assms by (intro mono divide_right_mono diff_right_mono add_right_mono mult_right_mono; simp)+

lemma small_powers:
  assumes "p \<le> 6"
  shows "(2::int) ^ p \<le> 64" "rd (2 ^ p - 1) = 2 ^ p - 1" "rd (2 ^ p + 1) = 2 ^ p + 1"
proof -
  have "(2::int) ^ p \<le> 2 ^ 6" using assms by (intro power_increasing) simp_all
  then show le: "(2::int) ^ p \<le> 64" by simp
  have pos: "1 \<le> (2::int) ^ p" by simp
  have "\<bar>2 ^ p - 1 :: int\<bar> \<le> 2 ^ 53" using pos le by simp
  from exact_int [OF this] show "rd (2 ^ p - 1) = 2 ^ p - 1" by simp
  have "\<bar>2 ^ p + 1 :: int\<bar> \<le> 2 ^ 53" using pos le by simp
  from exact_int [OF this] show "rd (2 ^ p + 1) = 2 ^ p + 1" by simp
qed

lemma scale_one: "p \<le> 6 \<Longrightarrow> scale_down rd p 1 = 1" "p \<le> 6 \<Longrightarrow> scale_up rd p 1 = 1"
  by (simp_all add: scale_down_def scale_up_def small_powers exact_power exact_one)

lemma scale_ge_one:
  assumes "1 \<le> m" "p \<le> 6"
  shows "1 \<le> scale_down rd p m" "1 \<le> scale_up rd p m"
  using scale_mono [OF assms(1), of p] scale_one [OF assms(2)] by simp_all

text \<open>The multipliers \<open>i / 2 ^ j\<close> of at least one with \<open>i \<le> 2 ^ 46\<close>: the numerators that occur, and the exact results.\<close>

lemma numerators:
  assumes "(2::int) ^ j \<le> i" "i \<le> 2 ^ 46" "p \<le> 6"
  shows "\<bar>i + (2 ^ p - 1) * 2 ^ j\<bar> \<le> 2 ^ 53" "\<bar>i + 2 ^ p * 2 ^ j\<bar> \<le> 2 ^ 53" "\<bar>i\<bar> \<le> 2 ^ 53"
    "\<bar>i * 2 ^ p\<bar> \<le> 2 ^ 53" "\<bar>i * 2 ^ p + 2 ^ j\<bar> \<le> 2 ^ 53" "\<bar>i * 2 ^ p - (2 ^ p - 1) * 2 ^ j\<bar> \<le> 2 ^ 53"
proof -
  have j: "1 \<le> (2::int) ^ j" and p: "1 \<le> (2::int) ^ p" "(2::int) ^ p \<le> 64"
    using small_powers(1) [OF assms(3)] by simp_all
  have a: "0 \<le> (2 ^ p - 1) * (2 ^ j :: int)" "0 \<le> i * 2 ^ p"
    using j p assms(1) by (intro mult_nonneg_nonneg; linarith)+
  have b: "2 ^ p * (2 ^ j :: int) \<le> 64 * 2 ^ 46" "i * 2 ^ p \<le> 2 ^ 46 * 64"
    using j p assms(1,2) by (intro mult_mono; linarith)+
  have c: "(2 ^ p - 1) * (2 ^ j :: int) = 2 ^ p * 2 ^ j - 2 ^ j" "2 ^ p * 2 ^ j \<le> i * 2 ^ p"
    using assms(1) by (simp_all add: left_diff_distrib mult.commute [of "2 ^ p"])
  have pj: "0 \<le> (2::int) ^ p * 2 ^ j" by simp
  have two: "(2::int) ^ 46 = 70368744177664" "(2::int) ^ 53 = 9007199254740992" by simp_all
  show "\<bar>i + (2 ^ p - 1) * 2 ^ j\<bar> \<le> 2 ^ 53" "\<bar>i + 2 ^ p * 2 ^ j\<bar> \<le> 2 ^ 53" "\<bar>i\<bar> \<le> 2 ^ 53"
    "\<bar>i * 2 ^ p\<bar> \<le> 2 ^ 53" "\<bar>i * 2 ^ p + 2 ^ j\<bar> \<le> 2 ^ 53" "\<bar>i * 2 ^ p - (2 ^ p - 1) * 2 ^ j\<bar> \<le> 2 ^ 53"
    unfolding c(1) two using a(2) b c(2) j pj assms(1,2) unfolding two by linarith+
qed

lemma scale_down_exact:
  assumes "(2::int) ^ j \<le> i" "i \<le> 2 ^ 46" "p \<le> 6"
  shows "scale_down rd p (real_of_int i / 2 ^ j) = real_of_int (i + (2 ^ p - 1) * 2 ^ j) / 2 ^ (j + p)"
proof -
  have sum: "real_of_int i / 2 ^ j + (2 ^ p - 1) = real_of_int (i + (2 ^ p - 1) * 2 ^ j) / 2 ^ j"
    by (simp add: field_simps)
  show ?thesis
    using exact_fraction [OF numerators(1) [OF assms], of "j + p"]
    by (simp only: scale_down_def small_powers(2) [OF assms(3)] sum exact_fraction [OF numerators(1) [OF assms]]
        divide_divide_eq_left power_add)
qed

lemma scale_up_exact:
  assumes "(2::int) ^ j \<le> i" "i \<le> 2 ^ 46" "p \<le> 6"
  shows "scale_up rd p (real_of_int i / 2 ^ j) = real_of_int (i * 2 ^ p - (2 ^ p - 1) * 2 ^ j) / 2 ^ j"
proof -
  have mul: "real_of_int i / 2 ^ j * 2 ^ p = real_of_int (i * 2 ^ p) / 2 ^ j"
    and add: "real_of_int (i * 2 ^ p) / 2 ^ j + 1 = real_of_int (i * 2 ^ p + 2 ^ j) / 2 ^ j"
    and sub: "real_of_int (i * 2 ^ p + 2 ^ j) / 2 ^ j - 2 ^ p = real_of_int (i * 2 ^ p - (2 ^ p - 1) * 2 ^ j) / 2 ^ j"
    by (simp_all add: field_simps)
  show ?thesis
    by (simp only: scale_up_def mul add sub numerators(4-6) [OF assms, THEN exact_fraction])
qed

lemma scale_inverse:
  assumes "(2::int) ^ j \<le> i" "i \<le> 2 ^ 46" "p \<le> 6"
  shows "scale_up rd p (scale_down rd p (real_of_int i / 2 ^ j)) = real_of_int i / 2 ^ j"
    "scale_down rd p (scale_up rd p (real_of_int i / 2 ^ j)) = real_of_int i / 2 ^ j"
proof -
  define n where "n = i + (2 ^ p - 1) * 2 ^ j"
  have mul: "real_of_int n / 2 ^ (j + p) * 2 ^ p = real_of_int n / 2 ^ j"
    and add: "real_of_int n / 2 ^ j + 1 = real_of_int (i + 2 ^ p * 2 ^ j) / 2 ^ j"
    and sub: "real_of_int (i + 2 ^ p * 2 ^ j) / 2 ^ j - 2 ^ p = real_of_int i / 2 ^ j"
    by (simp_all add: n_def field_simps power_add)
  show "scale_up rd p (scale_down rd p (real_of_int i / 2 ^ j)) = real_of_int i / 2 ^ j"
    by (simp only: scale_down_exact [OF assms] scale_up_def mul [unfolded n_def] add [unfolded n_def] sub
        numerators(1-3) [OF assms, THEN exact_fraction])
  have sum: "real_of_int (i * 2 ^ p - (2 ^ p - 1) * 2 ^ j) / 2 ^ j + (2 ^ p - 1) = real_of_int (i * 2 ^ p) / 2 ^ j"
    and quot: "real_of_int (i * 2 ^ p) / 2 ^ j / 2 ^ p = real_of_int i / 2 ^ j"
    by (simp_all add: field_simps)
  show "scale_down rd p (scale_up rd p (real_of_int i / 2 ^ j)) = real_of_int i / 2 ^ j"
    unfolding scale_up_exact [OF assms]
    by (simp only: scale_down_def small_powers(2) [OF assms(3)] sum quot numerators(3,4) [OF assms, THEN exact_fraction])
qed

end

interpretation double: rounding fl
  by unfold_locales (auto intro: fl_mono fl_exact)

end
