(* ===== verification/Work.thy ===== *)
theory Work
  imports Block_Codec Doubles
begin

text \<open>
  Proof of work (\<open>futurehead/lib/work.cpp\<close>, \<open>numbers.cpp\<close>, the constants of \<open>config.cpp\<close> and
  \<open>config.hpp\<close>): the value of a nonce, the thresholds a block must reach, and the multipliers.
  The static \<open>network_constants\<close> that every function consults is the argument \<open>N\<close>. Multipliers
  are \<open>double\<close>: every operation on them is rounded (theory \<open>Doubles\<close>).
\<close>

datatype futurehead_networks = Test_network | Beta_network | Live_network

record work_thresholds =
  threshold_epoch_1 :: u64
  threshold_epoch_2 :: u64
  threshold_epoch_2_receive :: u64
  threshold_base :: u64
  threshold_entry :: u64

definition make_work_thresholds :: "u64 \<Rightarrow> u64 \<Rightarrow> u64 \<Rightarrow> work_thresholds" where
  "make_work_thresholds e1 e2 e2r =
     \<lparr>threshold_epoch_1 = e1, threshold_epoch_2 = e2, threshold_epoch_2_receive = e2r,
      threshold_base = max e1 (max e2 e2r), threshold_entry = min e1 (min e2 e2r)\<rparr>"

definition publish_full :: work_thresholds where
  "publish_full = make_work_thresholds 0xfffff00000000000 0xfffff00000000000 0xfffff00000000000"

definition publish_beta :: work_thresholds where
  "publish_beta = make_work_thresholds 0xfffff00000000000 0xfffff80000000000 0xffffe00000000000"

definition publish_test :: work_thresholds where
  "publish_test = make_work_thresholds 0xfe00000000000000 0xffc0000000000000 0xf000000000000000"

fun publish_thresholds :: "futurehead_networks \<Rightarrow> work_thresholds" where
  "publish_thresholds Live_network = publish_full"
| "publish_thresholds Beta_network = publish_beta"
| "publish_thresholds Test_network = publish_test"

datatype work_version = Unspecified | Work_1

text \<open>\<open>block::work_version\<close> is \<open>work_1\<close> for every block.\<close>

definition block_work_version :: "block \<Rightarrow> work_version" where
  "block_work_version b = Work_1"

definition work_v1_value :: "crypto \<Rightarrow> root \<Rightarrow> u64 \<Rightarrow> u64" where
  "work_v1_value C r w = word_native (blake2b C 8 (bytes_native 8 w @ bytes_be 32 r))"

definition work_v1_threshold :: "futurehead_networks \<Rightarrow> block_details \<Rightarrow> u64" where
  "work_v1_threshold N d =
     (let T = publish_thresholds N in
      if details_epoch d = epoch_2
      then (if is_receive d \<or> is_epoch d then threshold_epoch_2_receive T else threshold_epoch_2 T)
      else if details_epoch d = epoch_1 \<or> details_epoch d = epoch_0 then threshold_epoch_1 T
      else u64_max)"

fun work_difficulty :: "crypto \<Rightarrow> work_version \<Rightarrow> root \<Rightarrow> u64 \<Rightarrow> u64" where
  "work_difficulty C Work_1 r w = work_v1_value C r w"
| "work_difficulty C Unspecified r w = 0"

fun work_threshold_base :: "futurehead_networks \<Rightarrow> work_version \<Rightarrow> u64" where
  "work_threshold_base N Work_1 = threshold_base (publish_thresholds N)"
| "work_threshold_base N Unspecified = u64_max"

fun work_threshold_entry :: "futurehead_networks \<Rightarrow> work_version \<Rightarrow> u64" where
  "work_threshold_entry N Work_1 = threshold_entry (publish_thresholds N)"
| "work_threshold_entry N Unspecified = u64_max"

fun work_threshold :: "futurehead_networks \<Rightarrow> work_version \<Rightarrow> block_details \<Rightarrow> u64" where
  "work_threshold N Work_1 d = work_v1_threshold N d"
| "work_threshold N Unspecified d = u64_max"

definition block_difficulty :: "crypto \<Rightarrow> block \<Rightarrow> u64" where
  "block_difficulty C b = work_difficulty C (block_work_version b) (block_root b) (block_work b)"

text \<open>\<open>work_validate_entry\<close> returns true when the work is not sufficient to enter the node.\<close>

definition work_validate_entry :: "crypto \<Rightarrow> futurehead_networks \<Rightarrow> block \<Rightarrow> bool" where
  "work_validate_entry C N b = (block_difficulty C b < work_threshold_entry N (block_work_version b))"

definition work_validate_entry_root ::
    "crypto \<Rightarrow> futurehead_networks \<Rightarrow> work_version \<Rightarrow> root \<Rightarrow> u64 \<Rightarrow> bool" where
  "work_validate_entry_root C N v r w = (work_difficulty C v r w < work_threshold_entry N v)"

lemma block_difficulty_sideband [simp, block_simps]:
  "block_difficulty C (sideband_set sb b) = block_difficulty C b"
  by (simp add: block_difficulty_def block_work_version_def sideband_set_def block_root_def)

text \<open>\<open>epoch_0 \<le> e \<le> epoch_2\<close>: the epochs of the ledger.\<close>

definition ledger_epoch :: "epoch \<Rightarrow> bool" where
  "ledger_epoch e = (e = epoch_0 \<or> e = epoch_1 \<or> e = epoch_2)"

lemma thresholds_bounded:
  "threshold_entry (publish_thresholds N) \<le> threshold_epoch_1 (publish_thresholds N)"
  "threshold_entry (publish_thresholds N) \<le> threshold_epoch_2 (publish_thresholds N)"
  "threshold_entry (publish_thresholds N) \<le> threshold_epoch_2_receive (publish_thresholds N)"
  "threshold_epoch_1 (publish_thresholds N) \<le> threshold_base (publish_thresholds N)"
  "threshold_epoch_2 (publish_thresholds N) \<le> threshold_base (publish_thresholds N)"
  "threshold_epoch_2_receive (publish_thresholds N) \<le> threshold_base (publish_thresholds N)"
  by (cases N; simp add: publish_full_def publish_beta_def publish_test_def make_work_thresholds_def)+

lemma work_threshold_ge_entry: "work_threshold_entry N v \<le> work_threshold N v d"
  using thresholds_bounded [of N]
  by (cases v) (auto simp: work_v1_threshold_def Let_def)

lemma work_threshold_le_base:
  "ledger_epoch (details_epoch d) \<Longrightarrow> work_threshold N v d \<le> work_threshold_base N v"
  using thresholds_bounded [of N]
  by (cases v) (auto simp: work_v1_threshold_def ledger_epoch_def Let_def)

subsection \<open>Multipliers\<close>

text \<open>
  Unary minus on \<open>uint64_t\<close> wraps, and the result is converted to a double. The difficulty is not zero and the
  multiplier is positive (both are asserted). A quotient of \<open>2 ^ 128\<close> or more, for a multiplier below
  \<open>2 ^ - 64\<close>, has no value as a \<open>uint128_t\<close>: \<open>None\<close>.
\<close>

definition to_multiplier :: "u64 \<Rightarrow> u64 \<Rightarrow> double" where
  "to_multiplier difficulty base_difficulty =
     double_div (double_of_nat (unat (- base_difficulty))) (double_of_nat (unat (- difficulty)))"

definition from_multiplier :: "double \<Rightarrow> u64 \<Rightarrow> u64 option" where
  "from_multiplier multiplier base_difficulty =
     (let reverse_difficulty = nat \<lfloor>double_div (double_of_nat (unat (- base_difficulty))) multiplier\<rfloor> in
      if reverse_difficulty \<ge> 2 ^ 128 then None
      else if reverse_difficulty > unat u64_max then Some 0
      else if reverse_difficulty \<noteq> 0 \<or> base_difficulty = 0 \<or> multiplier < 1
      then Some (- (word_of_nat reverse_difficulty))
      else Some u64_max)"

definition normalized_multiplier :: "futurehead_networks \<Rightarrow> double \<Rightarrow> u64 \<Rightarrow> double" where
  "normalized_multiplier N multiplier threshold =
     (let T = publish_thresholds N in
      if threshold = threshold_epoch_1 T \<or> threshold = threshold_epoch_2_receive T
      then (let ratio = to_multiplier (threshold_epoch_2 T) threshold
            in double_div (double_add multiplier (double_sub ratio 1)) ratio)
      else multiplier)"

definition denormalized_multiplier :: "futurehead_networks \<Rightarrow> double \<Rightarrow> u64 \<Rightarrow> double" where
  "denormalized_multiplier N multiplier threshold =
     (let T = publish_thresholds N in
      if threshold = threshold_epoch_1 T \<or> threshold = threshold_epoch_2_receive T
      then (let ratio = to_multiplier (threshold_epoch_2 T) threshold
            in double_sub (double_add (double_mul multiplier ratio) 1) ratio)
      else multiplier)"

text \<open>The distance of every threshold from \<open>2 ^ 64\<close> is a power of two, so the ratios are exact.\<close>

fun ratio_exponent :: "futurehead_networks \<Rightarrow> u64 \<Rightarrow> nat" where
  "ratio_exponent Live_network t = 0"
| "ratio_exponent Beta_network t = (if t = threshold_epoch_1 publish_beta then 1 else 2)"
| "ratio_exponent Test_network t = (if t = threshold_epoch_1 publish_test then 3 else 6)"

lemmas threshold_values = publish_full_def publish_beta_def publish_test_def make_work_thresholds_def

lemma ratio_exponent_le: "ratio_exponent N t \<le> 6"
  by (cases N) simp_all

lemma double_of_power: "n = 2 ^ k \<Longrightarrow> double_of_nat n = 2 ^ k"
  using double.exact_power [of k] by (simp add: double_of_nat_def)

lemma threshold_doubles [simp]:
  "double_of_nat 1152921504606846976 = 2 ^ 60" "double_of_nat 144115188075855872 = 2 ^ 57"
  "double_of_nat 18014398509481984 = 2 ^ 54" "double_of_nat 35184372088832 = 2 ^ 45"
  "double_of_nat 17592186044416 = 2 ^ 44" "double_of_nat 8796093022208 = 2 ^ 43"
  by (rule double_of_power; simp)+

lemma to_multiplier_ratio:
  assumes "t = threshold_epoch_1 (publish_thresholds N) \<or> t = threshold_epoch_2_receive (publish_thresholds N)"
  shows "to_multiplier (threshold_epoch_2 (publish_thresholds N)) t = 2 ^ ratio_exponent N t"
proof -
  have "fl (2 ^ ratio_exponent N t) = 2 ^ ratio_exponent N t"
    by (rule double.exact_power)
  moreover have "double_of_nat (unat (- t)) / double_of_nat (unat (- threshold_epoch_2 (publish_thresholds N)))
    = 2 ^ ratio_exponent N t"
    using assms by (cases N) (auto simp: threshold_values)
  ultimately show ?thesis
    by (simp only: to_multiplier_def double_div_def)
qed

lemma normalized_scale:
  "normalized_multiplier N m t =
     (if t = threshold_epoch_1 (publish_thresholds N) \<or> t = threshold_epoch_2_receive (publish_thresholds N)
      then scale_down fl (ratio_exponent N t) m else m)"
  by (auto simp: normalized_multiplier_def to_multiplier_ratio scale_down_def double_ops Let_def)

lemma denormalized_scale:
  "denormalized_multiplier N m t =
     (if t = threshold_epoch_1 (publish_thresholds N) \<or> t = threshold_epoch_2_receive (publish_thresholds N)
      then scale_up fl (ratio_exponent N t) m else m)"
  by (auto simp: denormalized_multiplier_def to_multiplier_ratio scale_up_def double_ops Let_def)

lemmas multiplier_scale = normalized_scale denormalized_scale

lemma multiplier_ge_1:
  "1 \<le> m \<Longrightarrow> 1 \<le> normalized_multiplier N m t" "1 \<le> m \<Longrightarrow> 1 \<le> denormalized_multiplier N m t"
  by (simp_all add: multiplier_scale double.scale_ge_one ratio_exponent_le)

lemma multiplier_mono:
  assumes "m \<le> n"
  shows "normalized_multiplier N m t \<le> normalized_multiplier N n t"
    "denormalized_multiplier N m t \<le> denormalized_multiplier N n t"
  using assms by (simp_all add: multiplier_scale double.scale_mono)

lemma multiplier_one [simp]:
  "normalized_multiplier N 1 t = 1" "denormalized_multiplier N 1 t = 1"
  by (simp_all add: multiplier_scale double.scale_one ratio_exponent_le)

lemma multiplier_inverse:
  assumes "(2::int) ^ j \<le> i" "i \<le> 2 ^ 46"
  shows "denormalized_multiplier N (normalized_multiplier N (real_of_int i / 2 ^ j) t) t = real_of_int i / 2 ^ j"
    "normalized_multiplier N (denormalized_multiplier N (real_of_int i / 2 ^ j) t) t = real_of_int i / 2 ^ j"
  using assms by (simp_all add: multiplier_scale double.scale_inverse ratio_exponent_le)

lemma normalized_exact:
  assumes "(2::int) ^ j \<le> i" "i \<le> 2 ^ 46"
    and t: "t = threshold_epoch_1 (publish_thresholds N) \<or> t = threshold_epoch_2_receive (publish_thresholds N)"
    and r: "r = real (unat (- t)) / real (unat (- threshold_epoch_2 (publish_thresholds N)))"
  shows "normalized_multiplier N (real_of_int i / 2 ^ j) t = (real_of_int i / 2 ^ j + (r - 1)) / r"
proof -
  have "r = 2 ^ ratio_exponent N t"
    unfolding r using t by (cases N) (auto simp: threshold_values)
  then show ?thesis
    using t double.scale_down_exact [OF assms(1,2) ratio_exponent_le, of N t]
    by (simp add: normalized_scale field_simps power_add)
qed

text \<open>Beyond 46 bits the two are not inverse: \<open>1 + 2 ^ - 52\<close> is a double, and its last bit is lost at ratio 8.\<close>

lemma multiplier_bit_lost:
  "fl (1 + 2 powi - 52) = 1 + 2 powi - 52"
  "normalized_multiplier Test_network (1 + 2 powi - 52) (threshold_epoch_1 publish_test) = 1"
proof -
  show "fl (1 + 2 powi - 52) = 1 + 2 powi - 52"
    using fl_exact [of "2 ^ 52 + 1" "- 52"] by (simp add: power_int_minus field_simps)
  let ?x = "8 + 2 powi - 52 :: real"
  have e: "double_exponent ?x = - 49"
    by (rule double_exponent_eq) (simp_all add: power_int_minus)
  have r: "round_even (?x * 2 powi - (- 49)) = 2 ^ 52"
    by (simp add: round_even_def power_int_minus floor_eq_iff Let_def)
  have "?x \<noteq> 0" by (simp add: power_int_minus)
  then have "fl ?x = real_of_int (2 ^ 52) * 2 powi - 49"
    by (simp only: fl_def e r if_False)
  then have "fl ?x = 8" by (simp add: power_int_minus)
  then show "normalized_multiplier Test_network (1 + 2 powi - 52) (threshold_epoch_1 publish_test) = 1"
    using double.exact_int [of 7] double.exact_one
    by (simp add: multiplier_scale scale_down_def add.commute)
qed

text \<open>At the multiplier one, \<open>from_multiplier\<close> gives back every threshold of the network.\<close>

lemma from_multiplier_one:
  assumes "t \<in> {threshold_epoch_1 T, threshold_epoch_2 T, threshold_epoch_2_receive T}" "T = publish_thresholds N"
  shows "from_multiplier 1 t = Some t" "to_multiplier t t = 1"
proof -
  have "\<exists>k\<in>{43, 44, 45, 54, 57, 60}. unat (- t) = 2 ^ k"
    using assms by (cases N) (auto simp: threshold_values)
  then obtain k where "k \<in> {43, 44, 45, 54, 57, 60}" "unat (- t) = 2 ^ k" ..
  then have k: "k < 64" "unat (- t) = 2 ^ k" by auto
  have "fl (2 ^ k) = 2 ^ k" by (rule double.exact_power)
  then have d: "double_of_nat (unat (- t)) = 2 ^ k" "double_div (2 ^ k) 1 = 2 ^ k"
    unfolding k(2) by (simp_all add: double_of_nat_def double_div_def)
  show "to_multiplier t t = 1"
    unfolding to_multiplier_def d(1) using double.exact_one by (simp add: double_div_def)
  have "\<lfloor>(2 ^ k :: real)\<rfloor> = 2 ^ k" by (metis floor_of_int of_int_numeral of_int_power)
  then have rev: "nat \<lfloor>double_div (double_of_nat (unat (- t))) 1\<rfloor> = unat (- t)"
    unfolding d unfolding k(2) by (simp add: nat_power_eq)
  have "(2::nat) ^ k < 2 ^ 64" by (rule power_strict_increasing [OF k(1)]) simp
  then have "unat (- t) \<noteq> 0" "unat (- t) \<le> unat u64_max" "unat (- t) < 2 ^ 128"
    unfolding k(2) by (simp_all add: unat_minus_1)
  then show "from_multiplier 1 t = Some t"
    by (simp add: from_multiplier_def rev Let_def)
qed

end
