(* ===== verification/Ledger_Records.thy ===== *)
theory Ledger_Records
  imports Work
begin

text \<open>
  The records the ledger keeps per account, per uncollected send and per unchecked block
  (\<open>futurehead/secure/common.hpp\<close>, \<open>common.cpp\<close>) with their database encodings. \<open>account_info\<close>,
  \<open>pending_info\<close> and the keys are stored as their memory image (\<open>db_val\<close> of
  \<open>futurehead/secure/blockstore.hpp\<close>), so their encoding is the sequence of their members.
\<close>

record account_info =
  head :: block_hash
  representative :: account
  open_block :: block_hash
  info_balance :: amount
  modified :: u64
  block_count :: u64
  epoch_m :: epoch

definition default_account_info :: account_info where
  "default_account_info = \<lparr>head = 0, representative = 0, open_block = 0, info_balance = 0,
     modified = 0, block_count = 0, epoch_m = epoch_0\<rparr>"

record pending_info =
  pending_source :: account
  pending_amount :: amount
  pending_epoch :: epoch

definition default_pending_info :: pending_info where
  "default_pending_info = \<lparr>pending_source = 0, pending_amount = 0, pending_epoch = epoch_0\<rparr>"

text \<open>A pending key is the pair of the destination account and the hash of the send.\<close>

type_synonym pending_key = "account \<times> block_hash"
type_synonym unchecked_key = "block_hash \<times> block_hash"

record confirmation_height_info =
  conf_height :: u64
  conf_frontier :: block_hash

record endpoint_key =
  endpoint_address :: "u8 list"
  network_port :: u16

datatype signature_verification = Sig_unknown | Sig_invalid | Sig_valid | Sig_valid_epoch

record unchecked_info =
  unchecked_block :: block
  unchecked_account :: account
  unchecked_modified :: u64
  unchecked_verified :: u8
  unchecked_confirmed :: bool

datatype process_result =
    progress
  | bad_signature
  | old
  | negative_spend
  | fork
  | unreceivable
  | gap_previous
  | gap_source
  | opened_burn_account
  | balance_mismatch
  | representative_mismatch
  | block_position
  | insufficient_work

text \<open>Members of \<open>process_return\<close> that no branch has assigned are indeterminate: \<open>None\<close>.\<close>

record process_return =
  code :: process_result
  ret_account :: "account option"
  ret_amount :: "amount option"
  ret_pending_account :: "account option"
  ret_state_is_send :: "bool option"
  verified :: signature_verification
  ret_previous_balance :: "amount option"

subsection \<open>Database encodings\<close>

definition account_info_db_size :: nat where
  "account_info_db_size = 32 + 32 + 32 + 16 + 8 + 8 + 1"

definition account_info_bytes :: "account_info \<Rightarrow> u8 list" where
  "account_info_bytes i =
     bytes_be 32 (head i) @ bytes_be 32 (representative i) @ bytes_be 32 (open_block i)
     @ bytes_be 16 (info_balance i) @ bytes_native 8 (modified i) @ bytes_native 8 (block_count i)
     @ bytes_native 1 (epoch_m i)"

definition account_info_deserialize :: "u8 list \<Rightarrow> (account_info \<times> u8 list) option" where
  "account_info_deserialize s = do {
     (hd, s) \<leftarrow> read_u256 s; (rep, s) \<leftarrow> read_u256 s; (opn, s) \<leftarrow> read_u256 s;
     (bal, s) \<leftarrow> read_u128 s; (mdf, s) \<leftarrow> read_u64 s; (cnt, s) \<leftarrow> read_u64 s; (ep, s) \<leftarrow> read_u8 s;
     Some (\<lparr>head = hd, representative = rep, open_block = opn, info_balance = bal,
            modified = mdf, block_count = cnt, epoch_m = ep\<rparr>, s) }"

definition account_info_eq :: "account_info \<Rightarrow> account_info \<Rightarrow> bool" where
  "account_info_eq i j =
     (head i = head j \<and> representative i = representative j \<and> open_block i = open_block j
      \<and> info_balance i = info_balance j \<and> modified i = modified j
      \<and> block_count i = block_count j \<and> epoch_m i = epoch_m j)"

definition pending_info_db_size :: nat where
  "pending_info_db_size = 32 + 16 + 1"

definition pending_info_bytes :: "pending_info \<Rightarrow> u8 list" where
  "pending_info_bytes p =
     bytes_be 32 (pending_source p) @ bytes_be 16 (pending_amount p) @ bytes_native 1 (pending_epoch p)"

definition pending_info_deserialize :: "u8 list \<Rightarrow> (pending_info \<times> u8 list) option" where
  "pending_info_deserialize s = do {
     (src, s) \<leftarrow> read_u256 s; (amt, s) \<leftarrow> read_u128 s; (ep, s) \<leftarrow> read_u8 s;
     Some (\<lparr>pending_source = src, pending_amount = amt, pending_epoch = ep\<rparr>, s) }"

definition pending_info_eq :: "pending_info \<Rightarrow> pending_info \<Rightarrow> bool" where
  "pending_info_eq p q =
     (pending_source p = pending_source q \<and> pending_amount p = pending_amount q
      \<and> pending_epoch p = pending_epoch q)"

definition pending_key_bytes :: "pending_key \<Rightarrow> u8 list" where
  "pending_key_bytes k = bytes_be 32 (fst k) @ bytes_be 32 (snd k)"

definition pending_key_deserialize :: "u8 list \<Rightarrow> (pending_key \<times> u8 list) option" where
  "pending_key_deserialize s = do { (a, s) \<leftarrow> read_u256 s; (h, s) \<leftarrow> read_u256 s; Some ((a, h), s) }"

definition unchecked_key_deserialize :: "u8 list \<Rightarrow> (unchecked_key \<times> u8 list) option" where
  "unchecked_key_deserialize s = do { (p, s) \<leftarrow> read_u256 s; (h, s) \<leftarrow> read_u256 s; Some ((p, h), s) }"

definition unchecked_info_serialize :: "unchecked_info \<Rightarrow> u8 list" where
  "unchecked_info_serialize u =
     serialize_block (unchecked_block u) @ bytes_be 32 (unchecked_account u)
     @ bytes_native 8 (unchecked_modified u) @ bytes_native 1 (unchecked_verified u)"

text \<open>The flag \<open>confirmed\<close> is not serialized: \<open>deserialize\<close> leaves its default.\<close>

definition unchecked_info_deserialize :: "u8 list \<Rightarrow> (unchecked_info \<times> u8 list) option" where
  "unchecked_info_deserialize s = do {
     (b, s) \<leftarrow> deserialize_block s;
     (acc, s) \<leftarrow> read_u256 s; (mdf, s) \<leftarrow> read_u64 s; (ver, s) \<leftarrow> read_u8 s;
     Some (\<lparr>unchecked_block = b, unchecked_account = acc, unchecked_modified = mdf,
            unchecked_verified = ver, unchecked_confirmed = False\<rparr>, s) }"

definition confirmation_height_serialize :: "confirmation_height_info \<Rightarrow> u8 list" where
  "confirmation_height_serialize c = bytes_native 8 (conf_height c) @ bytes_be 32 (conf_frontier c)"

definition confirmation_height_deserialize :: "u8 list \<Rightarrow> (confirmation_height_info \<times> u8 list) option" where
  "confirmation_height_deserialize s = do {
     (h, s) \<leftarrow> read_u64 s; (f, s) \<leftarrow> read_u256 s; Some (\<lparr>conf_height = h, conf_frontier = f\<rparr>, s) }"

text \<open>The port of an endpoint key is kept in network byte order.\<close>

definition swap16 :: "u16 \<Rightarrow> u16" where
  "swap16 p = word_be (bytes_native 2 p)"

definition make_endpoint_key :: "u8 list \<Rightarrow> u16 \<Rightarrow> endpoint_key" where
  "make_endpoint_key address port = \<lparr>endpoint_address = address, network_port = swap16 port\<rparr>"

definition endpoint_port :: "endpoint_key \<Rightarrow> u16" where
  "endpoint_port k = swap16 (network_port k)"

lemma endpoint_port_make [codec_simps]: "endpoint_port (make_endpoint_key a p) = p"
proof -
  have "bytes_native 2 (swap16 p) = bytes_be 2 p"
    by (simp add: bytes_native_rev swap16_def bytes_be_word_be)
  then show ?thesis
    by (simp add: endpoint_port_def make_endpoint_key_def swap16_def [of "swap16 p"] word_be_bytes_be)
qed

lemma account_info_eq_iff: "account_info_eq i j \<longleftrightarrow> i = j"
  by (auto simp: account_info_eq_def intro: account_info.equality)

lemma pending_info_eq_iff: "pending_info_eq p q \<longleftrightarrow> p = q"
  by (auto simp: pending_info_eq_def intro: pending_info.equality)

lemmas record_codec_defs = account_info_bytes_def account_info_deserialize_def
  pending_info_bytes_def pending_info_deserialize_def pending_key_bytes_def
  pending_key_deserialize_def unchecked_key_deserialize_def confirmation_height_serialize_def
  confirmation_height_deserialize_def

interpretation account_info_codec: fixed_codec account_info_bytes account_info_deserialize
    any_value account_info_db_size
proof unfold_locales
  show "account_info_deserialize s = Some (a, r) \<Longrightarrow> True \<and> s = account_info_bytes a @ r" for s a r
    by (auto simp: record_codec_defs bind_eq_Some_conv codec_read_iff)
qed (auto simp: record_codec_defs account_info_db_size_def codec_simps read_be_def read_native_def
    read_bytes_def)

interpretation pending_info_codec: fixed_codec pending_info_bytes pending_info_deserialize
    any_value pending_info_db_size
proof unfold_locales
  show "pending_info_deserialize s = Some (a, r) \<Longrightarrow> True \<and> s = pending_info_bytes a @ r" for s a r
    by (auto simp: record_codec_defs bind_eq_Some_conv codec_read_iff)
qed (auto simp: record_codec_defs pending_info_db_size_def codec_simps read_be_def read_native_def
    read_bytes_def)

interpretation pending_key_codec: fixed_codec pending_key_bytes pending_key_deserialize
    any_value 64
proof unfold_locales
  show "pending_key_deserialize s = Some (a, r) \<Longrightarrow> True \<and> s = pending_key_bytes a @ r" for s a r
    by (auto simp: record_codec_defs bind_eq_Some_conv codec_read_iff)
qed (auto simp: record_codec_defs codec_simps read_be_def read_bytes_def)

interpretation confirmation_height_codec: fixed_codec confirmation_height_serialize
    confirmation_height_deserialize any_value 40
proof unfold_locales
  show "confirmation_height_deserialize s = Some (a, r) \<Longrightarrow> True \<and> s = confirmation_height_serialize a @ r"
    for s a r
    by (auto simp: record_codec_defs bind_eq_Some_conv codec_read_iff)
qed (auto simp: record_codec_defs codec_simps read_be_def read_native_def read_bytes_def)

interpretation unchecked_info_codec: stream_codec unchecked_info_serialize
    unchecked_info_deserialize "\<lambda>u. sideband_m (unchecked_block u) = None \<and> \<not> unchecked_confirmed u"
proof unfold_locales
  fix u :: unchecked_info and r
  assume "sideband_m (unchecked_block u) = None \<and> \<not> unchecked_confirmed u"
  then show "unchecked_info_deserialize (unchecked_info_serialize u @ r) = Some (u, r)"
    by (simp add: unchecked_info_deserialize_def unchecked_info_serialize_def block_codec.dec_enc
        codec_simps)
next
  fix s r and u :: unchecked_info
  assume "unchecked_info_deserialize s = Some (u, r)"
  then show "(sideband_m (unchecked_block u) = None \<and> \<not> unchecked_confirmed u)
      \<and> s = unchecked_info_serialize u @ r"
    by (auto simp: unchecked_info_deserialize_def unchecked_info_serialize_def bind_eq_Some_conv
        codec_read_iff block_codec.dec_iff)
qed

text \<open>
  The bytes of a pending key compare as the pair of its numbers does, so the entries of one
  account are contiguous in the table and ordered by hash.
\<close>

lemma memcmp_less_append:
  "length a = length b \<Longrightarrow> memcmp_less (a @ c) (b @ d) \<longleftrightarrow> memcmp_less a b \<or> (a = b \<and> memcmp_less c d)"
  by (induction a b rule: list_induct2) auto

lemma pending_key_order: "memcmp_less (pending_key_bytes j) (pending_key_bytes k) \<longleftrightarrow> j < k"
  using u256_codec.enc_inject [OF TrueI TrueI]
  by (cases j; cases k)
     (auto simp: pending_key_bytes_def memcmp_less_append memcmp_less_bytes_be)

end
