(* ===== verification/Store.thy ===== *)
theory Store
  imports Ledger_Records Tables
begin

text \<open>
  The block store (\<open>futurehead/secure/blockstore_partial.hpp\<close>) at the level of decoded objects: one
  table per block type, and the tables of accounts, uncollected sends, legacy frontiers,
  confirmation heights, unchecked blocks, online weight samples and peers. A stored block keeps of
  its sideband what \<open>block_sideband::serialize\<close> writes for its type (\<open>sideband_stored\<close>): reading
  those bytes back gives that sideband (\<open>Block_Codec\<close>).

  \<open>None\<close> is a failed \<open>release_assert\<close>, or an access the code only guards by \<open>debug_assert\<close> (the
  sideband of a block without one, a block that is not stored).
\<close>

record store =
  send_blocks :: "(block_hash, block) table"
  receive_blocks :: "(block_hash, block) table"
  open_blocks :: "(block_hash, block) table"
  change_blocks :: "(block_hash, block) table"
  state_blocks :: "(block_hash, block) table"
  accounts :: "(account, account_info) table"
  pending :: "(pending_key, pending_info) table"
  frontiers :: "(block_hash, account) table"
  confirmation_heights :: "(account, confirmation_height_info) table"
  unchecked_table :: "(unchecked_key, unchecked_info) table"
  online_weight :: "(u64, amount) table"
  peers :: "(u128 \<times> u16, u64) table"

definition empty_store :: store where
  "empty_store = \<lparr>send_blocks = [], receive_blocks = [], open_blocks = [], change_blocks = [],
     state_blocks = [], accounts = [], pending = [], frontiers = [], confirmation_heights = [],
     unchecked_table = [], online_weight = [], peers = []\<rparr>"

subsection \<open>Blocks\<close>

fun block_table :: "block_type \<Rightarrow> store \<Rightarrow> (block_hash, block) table" where
  "block_table Send_type s = send_blocks s"
| "block_table Receive_type s = receive_blocks s"
| "block_table Open_type s = open_blocks s"
| "block_table Change_type s = change_blocks s"
| "block_table State_type s = state_blocks s"
| "block_table _ s = []"

text \<open>The table a block is written to (\<open>block_database\<close>, \<open>block_raw_put\<close>) is that of its class.\<close>

definition block_entry_put :: "store \<Rightarrow> block_hash \<Rightarrow> block \<Rightarrow> store" where
  "block_entry_put s h b = (case hashables b of
     Send _ \<Rightarrow> s\<lparr>send_blocks := table_put (send_blocks s) h b\<rparr>
   | Receive _ \<Rightarrow> s\<lparr>receive_blocks := table_put (receive_blocks s) h b\<rparr>
   | Open _ \<Rightarrow> s\<lparr>open_blocks := table_put (open_blocks s) h b\<rparr>
   | Change _ \<Rightarrow> s\<lparr>change_blocks := table_put (change_blocks s) h b\<rparr>
   | State _ \<Rightarrow> s\<lparr>state_blocks := table_put (state_blocks s) h b\<rparr>)"

text \<open>The order of the lookups, by match probability.\<close>

definition block_types :: "block_type list" where
  "block_types = [State_type, Send_type, Receive_type, Open_type, Change_type]"

fun first_some :: "('a \<Rightarrow> 'b option) \<Rightarrow> 'a list \<Rightarrow> 'b option" where
  "first_some f [] = None"
| "first_some f (x # xs) = (case f x of None \<Rightarrow> first_some f xs | Some y \<Rightarrow> Some y)"

definition block_get :: "store \<Rightarrow> block_hash \<Rightarrow> block option" where
  "block_get s h = first_some (\<lambda>t. table_get (block_table t s) h) block_types"

definition block_get_no_sideband :: "store \<Rightarrow> block_hash \<Rightarrow> block option" where
  "block_get_no_sideband s h = map_option (\<lambda>b. b\<lparr>sideband_m := None\<rparr>) (block_get s h)"

definition block_exists_type :: "store \<Rightarrow> block_type \<Rightarrow> block_hash \<Rightarrow> bool" where
  "block_exists_type s t h = (table_get (block_table t s) h \<noteq> None)"

definition block_exists :: "store \<Rightarrow> block_hash \<Rightarrow> bool" where
  "block_exists s h =
     (block_exists_type s State_type h \<or> block_exists_type s Send_type h
      \<or> block_exists_type s Receive_type h \<or> block_exists_type s Open_type h
      \<or> block_exists_type s Change_type h)"

definition source_exists :: "store \<Rightarrow> block_hash \<Rightarrow> bool" where
  "source_exists s h = (block_exists_type s State_type h \<or> block_exists_type s Send_type h)"

text \<open>\<open>block_predecessor_set\<close>: the stored predecessor is rewritten with its successor filled in.\<close>

definition fill_value :: "crypto \<Rightarrow> store \<Rightarrow> block \<Rightarrow> store option" where
  "fill_value C s b = do {
     p \<leftarrow> block_get s (block_previous b);
     sb \<leftarrow> sideband p;
     Some (block_entry_put s (block_previous b) (sideband_set (sb\<lparr>successor := generate_hash C b\<rparr>) p)) }"

definition block_predecessor_set :: "crypto \<Rightarrow> store \<Rightarrow> block \<Rightarrow> store option" where
  "block_predecessor_set C s b = (case hashables b of
     Send _ \<Rightarrow> fill_value C s b
   | Receive _ \<Rightarrow> fill_value C s b
   | Open _ \<Rightarrow> Some s
   | Change _ \<Rightarrow> fill_value C s b
   | State _ \<Rightarrow> if block_previous b \<noteq> 0 then fill_value C s b else Some s)"

definition block_put :: "crypto \<Rightarrow> store \<Rightarrow> block_hash \<Rightarrow> block \<Rightarrow> store option" where
  "block_put C s h b = do {
     sb \<leftarrow> sideband b;
     block_predecessor_set C (block_entry_put s h (sideband_set (sideband_stored (type_of b) sb) b)) b }"

definition block_account_height :: "store \<Rightarrow> block_hash \<Rightarrow> u64 option" where
  "block_account_height s h = do { b \<leftarrow> block_get s h; sb \<leftarrow> sideband b; Some (height sb) }"

definition block_account_calculated :: "block \<Rightarrow> account option" where
  "block_account_calculated b =
     (if block_account b = 0 then map_option sideband_account (sideband b) else Some (block_account b))"

definition store_block_account :: "store \<Rightarrow> block_hash \<Rightarrow> account option" where
  "store_block_account s h = do { b \<leftarrow> block_get s h; block_account_calculated b }"

definition block_balance_calculated :: "block \<Rightarrow> amount option" where
  "block_balance_calculated b = (case hashables b of
     Open _ \<Rightarrow> map_option sideband_balance (sideband b)
   | Receive _ \<Rightarrow> map_option sideband_balance (sideband b)
   | Change _ \<Rightarrow> map_option sideband_balance (sideband b)
   | Send h \<Rightarrow> Some (send_balance h)
   | State h \<Rightarrow> Some (state_balance h))"

definition block_balance :: "store \<Rightarrow> block_hash \<Rightarrow> amount option" where
  "block_balance s h = do { b \<leftarrow> block_get s h; block_balance_calculated b }"

definition block_successor :: "store \<Rightarrow> block_hash \<Rightarrow> block_hash" where
  "block_successor s h = (case block_get s h of
     None \<Rightarrow> 0 | Some b \<Rightarrow> (case sideband b of None \<Rightarrow> 0 | Some sb \<Rightarrow> successor sb))"

definition block_successor_clear :: "store \<Rightarrow> block_hash \<Rightarrow> store option" where
  "block_successor_clear s h = do {
     b \<leftarrow> block_get s h;
     sb \<leftarrow> sideband b;
     Some (block_entry_put s h (sideband_set (sb\<lparr>successor := 0\<rparr>) b)) }"

definition block_version :: "store \<Rightarrow> block_hash \<Rightarrow> epoch option" where
  "block_version s h = (case block_get s h of
     None \<Rightarrow> Some epoch_0
   | Some b \<Rightarrow> if type_of b = State_type then map_option (\<lambda>sb. details_epoch (details sb)) (sideband b)
               else Some epoch_0)"

text \<open>\<open>block_del\<close> defaults to the table of state blocks.\<close>

fun block_del :: "store \<Rightarrow> block_hash \<Rightarrow> block_type \<Rightarrow> store option" where
  "block_del s h Open_type = do { t \<leftarrow> table_del (open_blocks s) h; Some (s\<lparr>open_blocks := t\<rparr>) }"
| "block_del s h Receive_type = do { t \<leftarrow> table_del (receive_blocks s) h; Some (s\<lparr>receive_blocks := t\<rparr>) }"
| "block_del s h Send_type = do { t \<leftarrow> table_del (send_blocks s) h; Some (s\<lparr>send_blocks := t\<rparr>) }"
| "block_del s h Change_type = do { t \<leftarrow> table_del (change_blocks s) h; Some (s\<lparr>change_blocks := t\<rparr>) }"
| "block_del s h _ = do { t \<leftarrow> table_del (state_blocks s) h; Some (s\<lparr>state_blocks := t\<rparr>) }"

record block_counts =
  count_send :: nat
  count_receive :: nat
  count_open :: nat
  count_change :: nat
  count_state :: nat

definition store_block_count :: "store \<Rightarrow> block_counts" where
  "store_block_count s = \<lparr>count_send = length (send_blocks s), count_receive = length (receive_blocks s),
     count_open = length (open_blocks s), count_change = length (change_blocks s),
     count_state = length (state_blocks s)\<rparr>"

definition block_counts_sum :: "block_counts \<Rightarrow> nat" where
  "block_counts_sum c = count_send c + count_receive c + count_open c + count_change c + count_state c"

subsection \<open>Accounts, pending entries, frontiers and confirmation heights\<close>

definition account_get :: "store \<Rightarrow> account \<Rightarrow> account_info option" where
  "account_get s a = table_get (accounts s) a"

definition account_put :: "store \<Rightarrow> account \<Rightarrow> account_info \<Rightarrow> store" where
  "account_put s a i = s\<lparr>accounts := table_put (accounts s) a i\<rparr>"

definition account_del :: "store \<Rightarrow> account \<Rightarrow> store option" where
  "account_del s a = do { t \<leftarrow> table_del (accounts s) a; Some (s\<lparr>accounts := t\<rparr>) }"

definition account_exists :: "store \<Rightarrow> account \<Rightarrow> bool" where
  "account_exists s a = (case table_lower_bound (accounts s) a of [] \<Rightarrow> False | e # _ \<Rightarrow> fst e = a)"

definition account_count :: "store \<Rightarrow> nat" where
  "account_count s = length (accounts s)"

definition root_exists :: "store \<Rightarrow> root \<Rightarrow> bool" where
  "root_exists s r = (block_exists s r \<or> account_exists s r)"

definition pending_put :: "store \<Rightarrow> pending_key \<Rightarrow> pending_info \<Rightarrow> store" where
  "pending_put s k p = s\<lparr>pending := table_put (pending s) k p\<rparr>"

definition pending_del :: "store \<Rightarrow> pending_key \<Rightarrow> store option" where
  "pending_del s k = do { t \<leftarrow> table_del (pending s) k; Some (s\<lparr>pending := t\<rparr>) }"

definition pending_get :: "store \<Rightarrow> pending_key \<Rightarrow> pending_info option" where
  "pending_get s k = table_get (pending s) k"

definition pending_exists :: "store \<Rightarrow> pending_key \<Rightarrow> bool" where
  "pending_exists s k = (case table_lower_bound (pending s) k of [] \<Rightarrow> False | e # _ \<Rightarrow> fst e = k)"

definition pending_any :: "store \<Rightarrow> account \<Rightarrow> bool" where
  "pending_any s a = (case table_lower_bound (pending s) (a, 0) of [] \<Rightarrow> False | e # _ \<Rightarrow> fst (fst e) = a)"

definition frontier_put :: "store \<Rightarrow> block_hash \<Rightarrow> account \<Rightarrow> store" where
  "frontier_put s h a = s\<lparr>frontiers := table_put (frontiers s) h a\<rparr>"

definition frontier_get :: "store \<Rightarrow> block_hash \<Rightarrow> account" where
  "frontier_get s h = (case table_get (frontiers s) h of None \<Rightarrow> 0 | Some a \<Rightarrow> a)"

definition frontier_del :: "store \<Rightarrow> block_hash \<Rightarrow> store option" where
  "frontier_del s h = do { t \<leftarrow> table_del (frontiers s) h; Some (s\<lparr>frontiers := t\<rparr>) }"

definition confirmation_height_put :: "store \<Rightarrow> account \<Rightarrow> confirmation_height_info \<Rightarrow> store" where
  "confirmation_height_put s a c = s\<lparr>confirmation_heights := table_put (confirmation_heights s) a c\<rparr>"

definition confirmation_height_get :: "store \<Rightarrow> account \<Rightarrow> confirmation_height_info option" where
  "confirmation_height_get s a = table_get (confirmation_heights s) a"

definition confirmation_height_del :: "store \<Rightarrow> account \<Rightarrow> store option" where
  "confirmation_height_del s a = do {
     t \<leftarrow> table_del (confirmation_heights s) a; Some (s\<lparr>confirmation_heights := t\<rparr>) }"

definition confirmation_height_exists :: "store \<Rightarrow> account \<Rightarrow> bool" where
  "confirmation_height_exists s a = (table_get (confirmation_heights s) a \<noteq> None)"

definition confirmation_height_count :: "store \<Rightarrow> nat" where
  "confirmation_height_count s = length (confirmation_heights s)"

definition confirmation_height_clear_account :: "store \<Rightarrow> account \<Rightarrow> u64 \<Rightarrow> store" where
  "confirmation_height_clear_account s a existing =
     (if existing > 0 then confirmation_height_put s a \<lparr>conf_height = 0, conf_frontier = 0\<rparr> else s)"

text \<open>The loop runs over the entries of the table as it was: no step adds or removes a key.\<close>

definition confirmation_height_clear :: "store \<Rightarrow> store" where
  "confirmation_height_clear s =
     foldl (\<lambda>s e. confirmation_height_clear_account s (fst e) (conf_height (snd e))) s (confirmation_heights s)"

subsection \<open>Unchecked blocks, online weight samples and peers\<close>

text \<open>The image of an unchecked block has neither its sideband nor the mark that it was confirmed.\<close>

definition unchecked_put :: "store \<Rightarrow> unchecked_key \<Rightarrow> unchecked_info \<Rightarrow> store" where
  "unchecked_put s k u = s\<lparr>unchecked_table := table_put (unchecked_table s) k
     (u\<lparr>unchecked_block := (unchecked_block u)\<lparr>sideband_m := None\<rparr>, unchecked_confirmed := False\<rparr>)\<rparr>"

definition unchecked_put_block :: "crypto \<Rightarrow> u64 \<Rightarrow> store \<Rightarrow> block_hash \<Rightarrow> block \<Rightarrow> store" where
  "unchecked_put_block C now s h b =
     unchecked_put s (h, generate_hash C b)
       \<lparr>unchecked_block = b, unchecked_account = block_account b, unchecked_modified = now,
        unchecked_verified = 0, unchecked_confirmed = False\<rparr>"

definition unchecked_get :: "store \<Rightarrow> block_hash \<Rightarrow> unchecked_info list" where
  "unchecked_get s h = map snd (takeWhile (\<lambda>e. fst (fst e) = h) (table_lower_bound (unchecked_table s) (h, 0)))"

definition unchecked_exists :: "store \<Rightarrow> unchecked_key \<Rightarrow> bool" where
  "unchecked_exists s k = (table_get (unchecked_table s) k \<noteq> None)"

definition unchecked_del :: "store \<Rightarrow> unchecked_key \<Rightarrow> store option" where
  "unchecked_del s k = do { t \<leftarrow> table_del (unchecked_table s) k; Some (s\<lparr>unchecked_table := t\<rparr>) }"

definition unchecked_clear :: "store \<Rightarrow> store" where
  "unchecked_clear s = s\<lparr>unchecked_table := []\<rparr>"

definition unchecked_count :: "store \<Rightarrow> nat" where
  "unchecked_count s = length (unchecked_table s)"

definition online_weight_put :: "store \<Rightarrow> u64 \<Rightarrow> amount \<Rightarrow> store" where
  "online_weight_put s t a = s\<lparr>online_weight := table_put (online_weight s) t a\<rparr>"

definition online_weight_del :: "store \<Rightarrow> u64 \<Rightarrow> store option" where
  "online_weight_del s t = do { w \<leftarrow> table_del (online_weight s) t; Some (s\<lparr>online_weight := w\<rparr>) }"

definition online_weight_count :: "store \<Rightarrow> nat" where
  "online_weight_count s = length (online_weight s)"

definition online_weight_clear :: "store \<Rightarrow> store" where
  "online_weight_clear s = s\<lparr>online_weight := []\<rparr>"

text \<open>
  A peer is keyed by its address and its port in network order, so that the entries are ordered
  by the address and then the port.
\<close>

definition peer_key :: "endpoint_key \<Rightarrow> u128 \<times> u16" where
  "peer_key k = (word_be (endpoint_address k), endpoint_port k)"

definition peer_put :: "store \<Rightarrow> endpoint_key \<Rightarrow> store" where
  "peer_put s k = s\<lparr>peers := table_put (peers s) (peer_key k) 0\<rparr>"

definition peer_del :: "store \<Rightarrow> endpoint_key \<Rightarrow> store option" where
  "peer_del s k = do { t \<leftarrow> table_del (peers s) (peer_key k); Some (s\<lparr>peers := t\<rparr>) }"

definition peer_exists :: "store \<Rightarrow> endpoint_key \<Rightarrow> bool" where
  "peer_exists s k = (table_get (peers s) (peer_key k) \<noteq> None)"

definition peer_count :: "store \<Rightarrow> nat" where
  "peer_count s = length (peers s)"

definition peer_clear :: "store \<Rightarrow> store" where
  "peer_clear s = s\<lparr>peers := []\<rparr>"

subsection \<open>Lookups through the five block tables\<close>

text \<open>Every table is in order, holds blocks of its type with a sideband, and no hash is in two of them.\<close>

definition blocks_ok :: "store \<Rightarrow> bool" where
  "blocks_ok s =
     ((\<forall>t. table_ok (block_table t s))
      \<and> (\<forall>t h b. table_get (block_table t s) h = Some b \<longrightarrow> type_of b = t \<and> has_sideband b)
      \<and> (\<forall>t u h. block_exists_type s t h \<and> block_exists_type s u h \<longrightarrow> t = u))"

lemma blocks_okI:
  assumes "\<And>t. table_ok (block_table t s)"
    and "\<And>t h b. table_get (block_table t s) h = Some b \<Longrightarrow> type_of b = t \<and> has_sideband b"
    and "\<And>t u h. block_exists_type s t h \<Longrightarrow> block_exists_type s u h \<Longrightarrow> t = u"
  shows "blocks_ok s"
  unfolding blocks_ok_def using assms by blast

lemma blocks_okD:
  assumes "blocks_ok s"
  shows "table_ok (block_table t s)"
    and "table_get (block_table t s) h = Some b \<Longrightarrow> type_of b = t"
    and "table_get (block_table t s) h = Some b \<Longrightarrow> has_sideband b"
    and "block_exists_type s t h \<Longrightarrow> block_exists_type s u h \<Longrightarrow> t = u"
  using assms unfolding blocks_ok_def by blast+

text \<open>The tables other than those of blocks.\<close>

definition store_rest :: "store \<Rightarrow> store" where
  "store_rest s = s\<lparr>send_blocks := [], receive_blocks := [], open_blocks := [], change_blocks := [],
     state_blocks := []\<rparr>"

lemma block_table_frame [simp, store_simps]:
  "block_table t (s\<lparr>accounts := a\<rparr>) = block_table t s"
  "block_table t (s\<lparr>pending := p\<rparr>) = block_table t s"
  "block_table t (s\<lparr>frontiers := f\<rparr>) = block_table t s"
  "block_table t (s\<lparr>confirmation_heights := c\<rparr>) = block_table t s"
  by (cases t; simp)+

lemma blocks_frame [simp, store_simps]:
  "block_get (s\<lparr>accounts := a\<rparr>) h = block_get s h"
  "block_get (s\<lparr>pending := p\<rparr>) h = block_get s h"
  "block_get (s\<lparr>frontiers := f\<rparr>) h = block_get s h"
  "block_get (s\<lparr>confirmation_heights := c\<rparr>) h = block_get s h"
  "blocks_ok (s\<lparr>accounts := a\<rparr>) = blocks_ok s"
  "blocks_ok (s\<lparr>pending := p\<rparr>) = blocks_ok s"
  "blocks_ok (s\<lparr>frontiers := f\<rparr>) = blocks_ok s"
  "blocks_ok (s\<lparr>confirmation_heights := c\<rparr>) = blocks_ok s"
  "store_block_count (s\<lparr>accounts := a\<rparr>) = store_block_count s"
  "store_block_count (s\<lparr>pending := p\<rparr>) = store_block_count s"
  "store_block_count (s\<lparr>frontiers := f\<rparr>) = store_block_count s"
  "store_block_count (s\<lparr>confirmation_heights := c\<rparr>) = store_block_count s"
  by (simp_all add: block_get_def blocks_ok_def block_exists_type_def store_block_count_def)

lemma store_rest_eqD:
  assumes "store_rest s = store_rest s'"
  shows "accounts s = accounts s'" "pending s = pending s'" "frontiers s = frontiers s'"
    "confirmation_heights s = confirmation_heights s'" "unchecked_table s = unchecked_table s'"
    "online_weight s = online_weight s'" "peers s = peers s'"
  using assms by (cases s; cases s'; simp add: store_rest_def)+

lemma store_eqI:
  fixes s s' :: store
  assumes "store_rest s = store_rest s'" and "\<And>t. block_table t s = block_table t s'"
  shows "s = s'"
  using store_rest_eqD [OF assms(1)] assms(2) [of Send_type] assms(2) [of Receive_type]
    assms(2) [of Open_type] assms(2) [of Change_type] assms(2) [of State_type]
  by (intro store.equality) simp_all

lemma block_table_invalid:
  "t \<notin> set block_types \<Longrightarrow> block_table t s = []"
  by (cases t) (auto simp: block_types_def)

lemma hashables_type_in_block_types [simp]: "hashables_type x \<in> set block_types"
  by (cases x) (auto simp: block_types_def)

lemma type_of_in_block_types [simp]: "type_of b \<in> set block_types"
  by (simp add: type_of_def)

fun block_table_set :: "block_type \<Rightarrow> (block_hash, block) table \<Rightarrow> store \<Rightarrow> store" where
  "block_table_set Send_type t s = s\<lparr>send_blocks := t\<rparr>"
| "block_table_set Receive_type t s = s\<lparr>receive_blocks := t\<rparr>"
| "block_table_set Open_type t s = s\<lparr>open_blocks := t\<rparr>"
| "block_table_set Change_type t s = s\<lparr>change_blocks := t\<rparr>"
| "block_table_set _ t s = s\<lparr>state_blocks := t\<rparr>"

lemma block_table_of_set [simp]:
  "t \<in> set block_types \<Longrightarrow> block_table u (block_table_set t x s) = (if u = t then x else block_table u s)"
  by (cases t; cases u) (simp_all add: block_types_def)

lemma store_rest_table_set [simp]: "store_rest (block_table_set t x s) = store_rest s"
  by (cases t) (simp_all add: store_rest_def)

lemma store_rest_entry_put [simp]: "store_rest (block_entry_put s h b) = store_rest s"
  by (simp add: block_entry_put_def store_rest_def split: block_hashables.split)

lemma block_entry_put_set:
  "block_entry_put s h b = block_table_set (type_of b) (table_put (block_table (type_of b) s) h b) s"
  by (simp add: block_entry_put_def type_of_def split: block_hashables.split)

lemma block_del_set:
  "t \<in> set block_types \<Longrightarrow> block_del s h t =
     (if block_exists_type s t h then Some (block_table_set t (table_drop_key (block_table t s) h) s) else None)"
  by (cases t) (simp_all add: block_types_def block_exists_type_def table_del_def)

lemma first_some_None: "first_some f xs = None \<longleftrightarrow> (\<forall>x \<in> set xs. f x = None)"
  by (induction xs) (auto split: option.splits)

lemma first_some_SomeD: "first_some f xs = Some y \<Longrightarrow> \<exists>x \<in> set xs. f x = Some y"
  by (induction xs) (auto split: option.splits)

lemma first_some_unique:
  assumes "x \<in> set xs" "f x = Some y" "\<And>z. f z \<noteq> None \<Longrightarrow> z = x"
  shows "first_some f xs = Some y"
  using assms(1)
proof (induction xs)
  case (Cons z zs)
  show ?case
  proof (cases "z = x")
    case True with assms(2) show ?thesis by simp
  next
    case False
    with assms(3) have "f z = None" by blast
    with Cons False show ?thesis by simp
  qed
qed simp

lemma block_exists_type_in: "block_exists_type s t h \<Longrightarrow> t \<in> set block_types"
  by (rule ccontr) (simp add: block_exists_type_def block_table_invalid)

lemma block_get_None_iff: "block_get s h = None \<longleftrightarrow> (\<forall>t. \<not> block_exists_type s t h)"
proof -
  have "block_get s h = None \<longleftrightarrow> (\<forall>t \<in> set block_types. \<not> block_exists_type s t h)"
    by (simp add: block_get_def first_some_None block_exists_type_def)
  then show ?thesis using block_exists_type_in by blast
qed

lemma block_exists_iff: "block_exists s h \<longleftrightarrow> block_get s h \<noteq> None"
proof -
  have "block_exists s h \<longleftrightarrow> (\<exists>t \<in> set block_types. block_exists_type s t h)"
    by (simp add: block_exists_def block_types_def)
  then show ?thesis using block_exists_type_in unfolding block_get_None_iff by blast
qed

lemma block_get_iff:
  assumes "blocks_ok s"
  shows "block_get s h = Some b \<longleftrightarrow> table_get (block_table (type_of b) s) h = Some b"
proof
  assume "block_get s h = Some b"
  then obtain t where "table_get (block_table t s) h = Some b"
    unfolding block_get_def by (auto dest: first_some_SomeD)
  with assms show "table_get (block_table (type_of b) s) h = Some b"
    unfolding blocks_ok_def by metis
next
  assume b: "table_get (block_table (type_of b) s) h = Some b"
  show "block_get s h = Some b"
    unfolding block_get_def
  proof (rule first_some_unique)
    fix u assume "table_get (block_table u s) h \<noteq> None"
    with assms b show "u = type_of b"
      unfolding blocks_ok_def block_exists_type_def by (metis option.distinct(1))
  qed (use b in simp_all)
qed

lemma block_get_sideband: "blocks_ok s \<Longrightarrow> block_get s h = Some b \<Longrightarrow> has_sideband b"
  unfolding block_get_iff by (auto simp: blocks_ok_def)

lemma block_exists_type_iff:
  assumes "blocks_ok s"
  shows "block_exists_type s t h \<longleftrightarrow> (\<exists>b. block_get s h = Some b \<and> type_of b = t)"
  using assms block_get_iff [OF assms, of h] unfolding block_exists_type_def blocks_ok_def
  by (metis option.exhaust option.distinct(1))

lemma source_exists_block: "source_exists s h \<Longrightarrow> block_get s h \<noteq> None"
  by (auto simp: source_exists_def block_get_None_iff)

lemma block_exists_type_entry_put:
  "block_exists_type (block_entry_put s h b) t h' \<longleftrightarrow> (t = type_of b \<and> h' = h) \<or> block_exists_type s t h'"
  by (auto simp: block_exists_type_def block_entry_put_set)

lemma blocks_ok_entry_put:
  assumes "blocks_ok s" "has_sideband b" "\<And>b'. block_get s h = Some b' \<Longrightarrow> type_of b' = type_of b"
  shows "blocks_ok (block_entry_put s h b)"
proof -
  have other: "t = type_of b" if "block_exists_type s t h" for t
    using that assms(3) unfolding block_exists_type_iff [OF assms(1)] by metis
  show ?thesis
  proof (rule blocks_okI)
    fix t u h'
    assume "block_exists_type (block_entry_put s h b) t h'" "block_exists_type (block_entry_put s h b) u h'"
    then show "t = u"
      unfolding block_exists_type_entry_put using other blocks_okD(4) [OF assms(1)] by metis
  qed (use assms(1,2) in \<open>auto simp: block_entry_put_set dest: blocks_okD split: if_splits\<close>)
qed

lemma block_get_entry_put:
  assumes "blocks_ok s" "has_sideband b" "\<And>b'. block_get s h = Some b' \<Longrightarrow> type_of b' = type_of b"
  shows "block_get (block_entry_put s h b) h' = (if h' = h then Some b else block_get s h')"
proof (cases "h' = h")
  case True
  with blocks_ok_entry_put [OF assms] show ?thesis
    by (simp add: block_get_iff block_entry_put_set)
next
  case False
  then have "table_get (block_table t (block_entry_put s h b)) h' = table_get (block_table t s) h'" for t
    by (simp add: block_entry_put_set)
  with False show ?thesis by (simp add: block_get_def)
qed

lemma block_del_present:
  assumes "blocks_ok s" "block_get s h = Some b"
  shows "\<exists>s'. block_del s h (type_of b) = Some s' \<and> blocks_ok s' \<and> store_rest s' = store_rest s
    \<and> (\<forall>h'. block_get s' h' = (if h' = h then None else block_get s h'))"
proof -
  let ?s = "block_table_set (type_of b) (table_drop_key (block_table (type_of b) s) h) s"
  have ex: "block_exists_type s (type_of b) h"
    using assms by (simp add: block_exists_type_def block_get_iff)
  have tab: "table_get (block_table t ?s) h' =
      (if t = type_of b \<and> h' = h then None else table_get (block_table t s) h')" for t h'
    by simp
  have ok: "blocks_ok ?s"
  proof (rule blocks_okI)
    fix t u h'
    assume "block_exists_type ?s t h'" "block_exists_type ?s u h'"
    then have "block_exists_type s t h'" "block_exists_type s u h'"
      unfolding block_exists_type_def tab by metis+
    then show "t = u" by (rule blocks_okD(4) [OF assms(1)])
  qed (use assms(1) in \<open>auto simp: dest: blocks_okD split: if_splits\<close>)
  have "\<not> block_exists_type ?s t h" for t
    using blocks_okD(4) [OF assms(1) ex, of t] unfolding block_exists_type_def tab by metis
  then have "block_get ?s h = None" by (simp add: block_get_None_iff)
  moreover have "block_get ?s h' = block_get s h'" if "h' \<noteq> h" for h'
    using that unfolding block_get_def tab by simp
  ultimately show ?thesis using ok ex by (simp add: block_del_set)
qed

lemma blocks_ext:
  assumes "blocks_ok s" "blocks_ok s'" "\<And>h. block_get s h = block_get s' h"
    and "store_rest s = store_rest s'"
  shows "s = s'"
proof (rule store_eqI [OF assms(4)])
  fix t
  have sub: "table_get (block_table t v) h = Some b"
    if "blocks_ok u" "blocks_ok v" "\<And>h. block_get u h = block_get v h" "table_get (block_table t u) h = Some b"
    for u v h b
    using that(3,4) blocks_okD(2) [OF that(1,4)] block_get_iff [OF that(1), of h b] block_get_iff [OF that(2), of h b]
    by simp
  have "table_get (block_table t s) h = table_get (block_table t s') h" for h
    using sub [of s s' h] sub [of s' s h] assms(1-3)
    by (cases "table_get (block_table t s) h"; cases "table_get (block_table t s') h") auto
  then show "block_table t s = block_table t s'"
    using assms(1,2) by (intro table_ext) (auto dest: blocks_okD)
qed

subsection \<open>What the ledger relies on of the stored blocks\<close>

text \<open>
  A block map: lookups, writes of one entry and deletions. A write keeps the type of the block
  already stored under the key, which is what the store's two writers of an existing entry do.
\<close>

locale block_map =
  fixes bget :: "'s \<Rightarrow> block_hash \<Rightarrow> block option"
    and bput :: "'s \<Rightarrow> block_hash \<Rightarrow> block \<Rightarrow> 's"
    and bdel :: "'s \<Rightarrow> block_hash \<Rightarrow> block_type \<Rightarrow> 's option"
    and bok :: "'s \<Rightarrow> bool"
    and other :: "'s \<Rightarrow> 'r"
  assumes bget_bput: "bok s \<Longrightarrow> has_sideband b \<Longrightarrow> (\<And>b'. bget s h = Some b' \<Longrightarrow> type_of b' = type_of b)
      \<Longrightarrow> bget (bput s h b) h' = (if h' = h then Some b else bget s h')"
    and bok_bput: "bok s \<Longrightarrow> has_sideband b \<Longrightarrow> (\<And>b'. bget s h = Some b' \<Longrightarrow> type_of b' = type_of b)
      \<Longrightarrow> bok (bput s h b)"
    and other_bput: "other (bput s h b) = other s"
    and bdel_present: "bok s \<Longrightarrow> bget s h = Some b \<Longrightarrow>
      \<exists>s'. bdel s h (type_of b) = Some s' \<and> bok s' \<and> other s' = other s
        \<and> (\<forall>h'. bget s' h' = (if h' = h then None else bget s h'))"
    and has_sb: "bok s \<Longrightarrow> bget s h = Some b \<Longrightarrow> has_sideband b"
    and map_ext: "bok s \<Longrightarrow> bok s' \<Longrightarrow> (\<And>h. bget s h = bget s' h) \<Longrightarrow> other s = other s' \<Longrightarrow> s = s'"
begin

text \<open>Rewriting the sideband of a stored block.\<close>

lemma rewrite_sideband:
  assumes "bok s" "bget s h = Some b"
  shows "bok (bput s h (sideband_set sb b))"
    "bget (bput s h (sideband_set sb b)) h' = (if h' = h then Some (sideband_set sb b) else bget s h')"
  using assms by (intro bok_bput bget_bput; simp add: has_sideband_def)+

text \<open>Deleting a freshly written block restores the map.\<close>

lemma fresh_put_del:
  assumes "bok s" "has_sideband b" "bget s h = None"
  shows "bdel (bput s h b) h (type_of b) = Some s"
proof -
  have ok: "bok (bput s h b)" using assms by (intro bok_bput) simp_all
  have get: "bget (bput s h b) h' = (if h' = h then Some b else bget s h')" for h'
    using assms by (intro bget_bput) simp_all
  obtain s' where s': "bdel (bput s h b) h (type_of b) = Some s'" "bok s'" "other s' = other s"
    "\<forall>h'. bget s' h' = (if h' = h then None else bget (bput s h b) h')"
    using bdel_present [OF ok, of h b] get by (auto simp: other_bput)
  have "s' = s" using s' assms get by (intro map_ext) auto
  with s' show ?thesis by simp
qed

lemma put_back:
  assumes "bok s" "bget s h = Some b"
  shows "bput (bput s h (sideband_set sb b)) h b = s"
proof -
  let ?t = "bput s h (sideband_set sb b)"
  have ok: "bok ?t" by (rule rewrite_sideband(1) [OF assms])
  have get: "bget ?t h' = (if h' = h then Some (sideband_set sb b) else bget s h')" for h'
    by (rule rewrite_sideband(2) [OF assms])
  have same: "type_of b' = type_of b" if "bget ?t h = Some b'" for b'
    using that by (auto simp: get)
  have "bok (bput ?t h b)"
    by (rule bok_bput [OF ok has_sb [OF assms] same])
  moreover have "bget (bput ?t h b) h' = (if h' = h then Some b else bget ?t h')" for h'
    by (rule bget_bput [OF ok has_sb [OF assms] same])
  ultimately show ?thesis using assms by (intro map_ext) (auto simp: other_bput get)
qed

end

interpretation store_blocks: block_map block_get block_entry_put block_del blocks_ok store_rest
  by unfold_locales
    (fact block_get_entry_put blocks_ok_entry_put store_rest_entry_put block_del_present
      block_get_sideband blocks_ext)+

subsection \<open>Adding a block\<close>

text \<open>The blocks whose predecessor is rewritten when they are stored.\<close>

definition has_predecessor :: "block \<Rightarrow> bool" where
  "has_predecessor b = (case hashables b of Open _ \<Rightarrow> False | State h \<Rightarrow> state_previous h \<noteq> 0 | _ \<Rightarrow> True)"

definition with_successor :: "block_hash \<Rightarrow> block \<Rightarrow> block" where
  "with_successor h b = b\<lparr>sideband_m := map_option (\<lambda>sb. sb\<lparr>successor := h\<rparr>) (sideband_m b)\<rparr>"

lemma with_successor_frame [simp]:
  "hashables (with_successor h b) = hashables b"
  "type_of (with_successor h b) = type_of b"
  "block_previous (with_successor h b) = block_previous b"
  "block_account (with_successor h b) = block_account b"
  "block_representative (with_successor h b) = block_representative b"
  "block_balance_calculated (with_successor h b) = block_balance_calculated b"
  "block_account_calculated (with_successor h b) = block_account_calculated b"
  "has_sideband (with_successor h b) = has_sideband b"
  by (auto simp: with_successor_def block_accessor_defs block_balance_calculated_def
      block_account_calculated_def option.map_comp comp_def split: block_hashables.split)

lemma generate_hash_with_successor [simp]: "generate_hash C (with_successor h b) = generate_hash C b"
  by (simp add: generate_hash_def with_successor_def)

lemma with_successor_set: "sideband b = Some sb \<Longrightarrow> sideband_set (sb\<lparr>successor := h\<rparr>) b = with_successor h b"
  by (simp add: with_successor_def sideband_set_def sideband_def)

lemma block_predecessor_set_eq:
  "block_predecessor_set C s b = (if has_predecessor b then fill_value C s b else Some s)"
  by (simp add: block_predecessor_set_def has_predecessor_def block_previous_def split: block_hashables.split)

abbreviation total_blocks :: "store \<Rightarrow> nat" where
  "total_blocks s \<equiv> block_counts_sum (store_block_count s)"

lemma total_blocks_sum: "total_blocks s = (\<Sum>t \<leftarrow> block_types. length (block_table t s))"
  by (simp add: block_counts_sum_def store_block_count_def block_types_def)

lemma total_blocks_table_set:
  assumes "t \<in> set block_types"
  shows "total_blocks (block_table_set t x s) + length (block_table t s) = total_blocks s + length x"
  using assms by (auto simp: block_types_def block_counts_sum_def store_block_count_def)

lemma total_blocks_entry_put:
  assumes "blocks_ok s" "\<And>b'. block_get s h = Some b' \<Longrightarrow> type_of b' = type_of b"
  shows "total_blocks (block_entry_put s h b) = (if block_get s h = None then Suc (total_blocks s) else total_blocks s)"
proof -
  let ?t = "block_table (type_of b) s"
  have "table_get ?t h = None \<longleftrightarrow> block_get s h = None"
    using assms block_exists_type_iff [OF assms(1), of "type_of b" h]
    by (metis block_exists_type_def not_None_eq)
  moreover have "length (table_put ?t h b) = (if table_get ?t h = None then Suc (length ?t) else length ?t)"
    using assms(1) by (intro length_table_put) (rule blocks_okD)
  ultimately show ?thesis
    using total_blocks_table_set [of "type_of b" "table_put ?t h b" s]
    by (auto simp: block_entry_put_set split: if_splits)
qed

lemma fill_value_spec:
  assumes "blocks_ok s" "block_get s (block_previous b) = Some p"
  shows "\<exists>s'. fill_value C s b = Some s' \<and> blocks_ok s' \<and> store_rest s' = store_rest s
    \<and> total_blocks s' = total_blocks s
    \<and> (\<forall>h. block_get s' h = (if h = block_previous b then Some (with_successor (generate_hash C b) p)
                           else block_get s h))"
proof -
  obtain sb where sb: "sideband p = Some sb"
    using block_get_sideband [OF assms] by (auto simp: has_sideband_def sideband_def)
  let ?p = "with_successor (generate_hash C b) p"
  have "fill_value C s b = Some (block_entry_put s (block_previous b) ?p)"
    using assms(2) sb by (simp add: fill_value_def with_successor_set)
  moreover have "total_blocks (block_entry_put s (block_previous b) ?p) = total_blocks s"
    using assms by (subst total_blocks_entry_put) auto
  ultimately show ?thesis
    using store_blocks.rewrite_sideband [OF assms, of "sb\<lparr>successor := generate_hash C b\<rparr>"] sb
    by (simp add: with_successor_set)
qed

lemma block_put_spec:
  assumes "blocks_ok s" "block_get s h = None" "sideband b = Some sb"
    and "has_predecessor b \<Longrightarrow> block_get s (block_previous b) \<noteq> None"
  shows "\<exists>s'. block_put C s h b = Some s' \<and> blocks_ok s' \<and> store_rest s' = store_rest s
    \<and> total_blocks s' = Suc (total_blocks s)
    \<and> (\<forall>h'. block_get s' h' =
          (if h' = h then Some (sideband_set (sideband_stored (type_of b) sb) b)
           else if has_predecessor b \<and> h' = block_previous b
           then map_option (with_successor (generate_hash C b)) (block_get s h')
           else block_get s h'))"
proof -
  let ?b = "sideband_set (sideband_stored (type_of b) sb) b"
  let ?s = "block_entry_put s h ?b"
  have ok: "blocks_ok ?s" using assms(1,2) by (intro blocks_ok_entry_put) (auto simp: has_sideband_def)
  have get: "block_get ?s h' = (if h' = h then Some ?b else block_get s h')" for h'
    using assms(1,2) by (intro block_get_entry_put) (auto simp: has_sideband_def)
  have total: "total_blocks ?s = Suc (total_blocks s)"
    using assms(1,2) by (subst total_blocks_entry_put) auto
  have put: "block_put C s h b = (if has_predecessor b then fill_value C ?s b else Some ?s)"
    using assms(3) by (simp add: block_put_def block_predecessor_set_eq)
  show ?thesis
  proof (cases "has_predecessor b")
    case True
    then obtain p where p: "block_get s (block_previous b) = Some p" using assms(4) by auto
    with assms(2) have ne: "block_previous b \<noteq> h" by auto
    with p have "block_get ?s (block_previous b) = Some p" by (simp add: get)
    from fill_value_spec [OF ok this, of C] show ?thesis
      using True put p ne total by (auto simp: get)
  next
    case False
    with put ok get total show ?thesis by simp
  qed
qed

subsection \<open>Iterator-based queries\<close>

lemma account_exists_iff: "table_ok (accounts s) \<Longrightarrow> account_exists s a \<longleftrightarrow> account_get s a \<noteq> None"
  using list_table.from_key_hd [of "accounts s" a]
  by (auto simp: account_exists_def account_get_def split: list.splits)

lemma pending_exists_iff: "table_ok (pending s) \<Longrightarrow> pending_exists s k \<longleftrightarrow> pending_get s k \<noteq> None"
  using list_table.from_key_hd [of "pending s" k]
  by (auto simp: pending_exists_def pending_get_def split: list.splits)

lemma pending_any_iff: "table_ok (pending s) \<Longrightarrow> pending_any s a \<longleftrightarrow> (\<exists>h. pending_get s (a, h) \<noteq> None)"
  unfolding pending_any_def pending_get_def by (rule table_prefix_any)

lemma unchecked_get_filter:
  "table_ok (unchecked_table s) \<Longrightarrow> unchecked_get s h = map snd (filter (\<lambda>e. fst (fst e) = h) (unchecked_table s))"
  unfolding unchecked_get_def by (simp add: table_prefix_scan)

lemma confirmation_height_clear_account_get:
  "confirmation_height_get (confirmation_height_clear_account s a x) a' =
     (if a' = a \<and> x > 0 then Some \<lparr>conf_height = 0, conf_frontier = 0\<rparr> else confirmation_height_get s a')"
  by (simp add: confirmation_height_clear_account_def confirmation_height_get_def confirmation_height_put_def)

text \<open>Clearing resets every confirmed account and leaves an account at height zero as it is.\<close>

lemma confirmation_height_clear_get:
  assumes "table_ok (confirmation_heights s)"
  shows "confirmation_height_get (confirmation_height_clear s) a =
    map_option (\<lambda>c. if conf_height c > 0 then \<lparr>conf_height = 0, conf_frontier = 0\<rparr> else c)
      (confirmation_height_get s a)"
proof -
  have fold: "confirmation_height_get
      (foldl (\<lambda>s e. confirmation_height_clear_account s (fst e) (conf_height (snd e))) s t) a =
      (if \<exists>c. (a, c) \<in> set t \<and> conf_height c > 0 then Some \<lparr>conf_height = 0, conf_frontier = 0\<rparr>
       else confirmation_height_get s a)" for t s
    by (induction t arbitrary: s) (auto simp: confirmation_height_clear_account_get)
  show ?thesis
    unfolding confirmation_height_clear_def fold table_get_eq_Some_iff [OF assms, symmetric]
    by (cases "table_get (confirmation_heights s) a") (auto simp: confirmation_height_get_def)
qed

end
