(* ===== verification/Rep_Weights.thy ===== *)
theory Rep_Weights
  imports Tables
begin

text \<open>
  The cache of voting weights (\<open>futurehead/lib/rep_weights.cpp\<close>): an account's weight, absent
  meaning zero. Every public operation holds the mutex for its whole body, so each is one step.
  Amounts are 128-bit and wrap: the ledger subtracts by adding \<open>0 - amount\<close>.
\<close>

type_synonym rep_weights = "(account, u128) table"

definition rep_get :: "rep_weights \<Rightarrow> account \<Rightarrow> u128" where
  "rep_get w a = (case table_get w a of Some v \<Rightarrow> v | None \<Rightarrow> 0)"

definition rep_put :: "rep_weights \<Rightarrow> account \<Rightarrow> u128 \<Rightarrow> rep_weights" where
  "rep_put w a v = table_put w a v"

definition representation_add :: "rep_weights \<Rightarrow> account \<Rightarrow> u128 \<Rightarrow> rep_weights" where
  "representation_add w source_rep v =
     (let source_previous = rep_get w source_rep in rep_put w source_rep (source_previous + v))"

definition representation_put :: "rep_weights \<Rightarrow> account \<Rightarrow> u128 \<Rightarrow> rep_weights" where
  "representation_put w a v = rep_put w a v"

definition representation_get :: "rep_weights \<Rightarrow> account \<Rightarrow> u128" where
  "representation_get w a = rep_get w a"

definition get_rep_amounts :: "rep_weights \<Rightarrow> (account, u128) table" where
  "get_rep_amounts w = w"

lemma representation_get_put [simp]:
  "representation_get (representation_put w a v) a' = (if a' = a then v else representation_get w a')"
  by (simp add: representation_get_def representation_put_def rep_get_def rep_put_def)

lemma representation_get_add [simp]:
  "representation_get (representation_add w a v) a' =
     (if a' = a then representation_get w a + v else representation_get w a')"
  by (simp add: representation_get_def representation_add_def rep_get_def rep_put_def Let_def)

text \<open>What a client of the cache relies on: weights behave as a function updated by addition.\<close>

locale weight_cache =
  fixes get :: "'w \<Rightarrow> 'a \<Rightarrow> 'n::ab_group_add"
    and add :: "'w \<Rightarrow> 'a \<Rightarrow> 'n \<Rightarrow> 'w"
  assumes get_add: "get (add w a v) a' = (if a' = a then get w a + v else get w a')"
begin

text \<open>Moving weight: taking an amount from one representative and giving it to another.\<close>

lemma get_add_diff: "get (add w a (0 - v)) a' = (if a' = a then get w a - v else get w a')"
  by (simp add: get_add)

lemma add_add_cancel: "get (add (add w a v) a (0 - v)) a' = get w a'"
  by (simp add: get_add)

lemma add_commute_get: "get (add (add w a v) b u) c = get (add (add w b u) a v) c"
  by (simp add: get_add add.assoc add.commute add.left_commute)

end

interpretation reps: weight_cache representation_get representation_add
  by unfold_locales simp

end
