(* ===== verification/Ledger.thy ===== *)
theory Ledger
  imports Store Rep_Weights
begin

text \<open>
  The ledger (\<open>futurehead/secure/ledger.cpp\<close>): the queries on the stored chains, and \<open>process\<close>, which
  validates a block and adds it. \<open>ledger_processor\<close> visits the block by class; each handler is one
  definition, with the checks in the order of the code and the first failing check deciding the result
  code. A handler returns the ledger, the block (which gets its sideband) and the result; \<open>None\<close> is
  an abort, or an access that only a \<open>debug_assert\<close> guards.

  The cryptographic functions, the network constants and the clock are members of \<open>env\<close>: the clock
  is read once for the sideband and once for the account record.
\<close>

record ledger_params =
  network :: futurehead_networks
  genesis_account :: account
  genesis_amount :: amount
  burn_account :: account
  ledger_epochs :: epochs

record env =
  crypto_fns :: crypto
  params :: ledger_params
  clock_sideband :: u64
  clock_account :: u64

record ledger_cache =
  rep_weights :: rep_weights
  cemented_count :: u64
  cache_block_count :: u64
  cache_unchecked_count :: u64
  cache_account_count :: u64
  epoch_2_started :: bool

datatype stat_type = Stat_ledger | Stat_rollback | Stat_confirmation_height
datatype stat_detail =
    Detail_send | Detail_receive | Detail_open | Detail_change | Detail_state_block | Detail_epoch_block
  | Detail_blocks_confirmed | Detail_blocks_confirmed_unbounded
  | Detail_gap_previous | Detail_gap_source | Detail_old | Detail_fork

text \<open>
  \<open>stats\<close> lists the values added to the counters, the latest first; \<open>epoch_2_callbacks\<close> counts the invocations of
  \<open>epoch_2_started_cb\<close>, of which the ledger only tests whether it is set.
\<close>

record ledger =
  ledger_store :: store
  cache :: ledger_cache
  stats :: "(stat_type \<times> stat_detail \<times> u64) list"
  bootstrap_weights :: "(account, u128) table"
  bootstrap_weight_max_blocks :: u64
  check_bootstrap_weights :: bool
  epoch_2_started_cb :: bool
  epoch_2_callbacks :: nat

subsection \<open>Parts the operations share\<close>

definition on_store :: "(store \<Rightarrow> store option) \<Rightarrow> ledger \<Rightarrow> ledger option" where
  "on_store f L = do { s \<leftarrow> f (ledger_store L); Some (L\<lparr>ledger_store := s\<rparr>) }"

definition in_store :: "(store \<Rightarrow> store) \<Rightarrow> ledger \<Rightarrow> ledger" where
  "in_store f L = L\<lparr>ledger_store := f (ledger_store L)\<rparr>"

definition weights_add :: "account \<Rightarrow> u128 \<Rightarrow> ledger \<Rightarrow> ledger" where
  "weights_add r v L = L\<lparr>cache := (cache L)\<lparr>rep_weights := representation_add (rep_weights (cache L)) r v\<rparr>\<rparr>"

definition stats_add :: "stat_type \<Rightarrow> stat_detail \<Rightarrow> u64 \<Rightarrow> ledger \<Rightarrow> ledger" where
  "stats_add t d n L = L\<lparr>stats := (t, d, n) # stats L\<rparr>"

definition stats_inc :: "stat_type \<Rightarrow> stat_detail \<Rightarrow> ledger \<Rightarrow> ledger" where
  "stats_inc t d L = L\<lparr>stats := (t, d, 1) # stats L\<rparr>"

definition account_count_add :: "u64 \<Rightarrow> ledger \<Rightarrow> ledger" where
  "account_count_add n L = L\<lparr>cache := (cache L)\<lparr>cache_account_count := cache_account_count (cache L) + n\<rparr>\<rparr>"

definition block_count_add :: "u64 \<Rightarrow> ledger \<Rightarrow> ledger" where
  "block_count_add n L = L\<lparr>cache := (cache L)\<lparr>cache_block_count := cache_block_count (cache L) + n\<rparr>\<rparr>"

text \<open>\<open>account_get\<close> leaves a default-constructed \<open>info\<close> as it is when there is no entry.\<close>

definition info_or_default :: "account_info option \<Rightarrow> account_info" where
  "info_or_default i = (case i of None \<Rightarrow> default_account_info | Some i \<Rightarrow> i)"

definition ledger_is_epoch_link :: "env \<Rightarrow> link \<Rightarrow> bool" where
  "ledger_is_epoch_link E l = is_epoch_link (ledger_epochs (params E)) l"

definition ledger_epoch_signer :: "env \<Rightarrow> link \<Rightarrow> account option" where
  "ledger_epoch_signer E l = do {
     e \<leftarrow> epochs_epoch (ledger_epochs (params E)) l;
     epochs_signer (ledger_epochs (params E)) e }"

definition ledger_epoch_link :: "env \<Rightarrow> epoch \<Rightarrow> link option" where
  "ledger_epoch_link E e = epochs_link (ledger_epochs (params E)) e"

definition change_latest :: "account \<Rightarrow> account_info \<Rightarrow> account_info \<Rightarrow> ledger \<Rightarrow> ledger option" where
  "change_latest a old_info new_info L =
     (if head new_info \<noteq> 0 then do {
        let L = (if head old_info = 0 \<and> open_block new_info = head new_info
                 then account_count_add 1
                        (in_store (\<lambda>s. confirmation_height_put s a \<lparr>conf_height = 0, conf_frontier = 0\<rparr>) L)
                 else L);
        L \<leftarrow> (if head old_info \<noteq> 0 \<and> epoch_m old_info \<noteq> epoch_m new_info
              then on_store (\<lambda>s. account_del s a) L else Some L);
        Some (in_store (\<lambda>s. account_put s a new_info) L) }
      else do {
        L \<leftarrow> on_store (\<lambda>s. confirmation_height_del s a) L;
        L \<leftarrow> on_store (\<lambda>s. account_del s a) L;
        Some (account_count_add (- 1) L) })"

subsection \<open>Queries\<close>

definition ledger_balance :: "ledger \<Rightarrow> block_hash \<Rightarrow> amount option" where
  "ledger_balance L h = (if h = 0 then Some 0 else block_balance (ledger_store L) h)"

definition account_balance :: "ledger \<Rightarrow> account \<Rightarrow> amount" where
  "account_balance L a = (case account_get (ledger_store L) a of None \<Rightarrow> 0 | Some i \<Rightarrow> info_balance i)"

text \<open>
  The iterator runs from the first entry at or above \<open>(a, 0)\<close> to the first one at or above
  \<open>(a + 1, 0)\<close>; two positions of one table are told apart by the entries left. Running off the end of
  the table without meeting the second position is \<open>None\<close>.
\<close>

fun pending_sum_until :: "nat \<Rightarrow> (pending_key, pending_info) table \<Rightarrow> u128 \<Rightarrow> u128 option" where
  "pending_sum_until n [] acc = (if n = 0 then Some acc else None)"
| "pending_sum_until n (e # t) acc =
     (if n = Suc (length t) then Some acc else pending_sum_until n t (acc + pending_amount (snd e)))"

definition account_pending :: "ledger \<Rightarrow> account \<Rightarrow> amount option" where
  "account_pending L a =
     (let t = pending (ledger_store L)
      in pending_sum_until (length (table_lower_bound t (a + 1, 0))) (table_lower_bound t (a, 0)) 0)"

definition ledger_account :: "ledger \<Rightarrow> block_hash \<Rightarrow> account option" where
  "ledger_account L h = store_block_account (ledger_store L) h"

definition ledger_amount :: "ledger \<Rightarrow> block_hash \<Rightarrow> amount option" where
  "ledger_amount L h = do {
     b \<leftarrow> block_get (ledger_store L) h;
     block_bal \<leftarrow> ledger_balance L h;
     previous_balance \<leftarrow> ledger_balance L (block_previous b);
     Some (if block_bal > previous_balance then block_bal - previous_balance else previous_balance - block_bal) }"

definition ledger_amount_account :: "env \<Rightarrow> account \<Rightarrow> amount option" where
  "ledger_amount_account E a = do {
     release_assert (a = genesis_account (params E));
     Some (genesis_amount (params E)) }"

definition latest :: "ledger \<Rightarrow> account \<Rightarrow> block_hash" where
  "latest L a = (case account_get (ledger_store L) a of None \<Rightarrow> 0 | Some i \<Rightarrow> head i)"

definition latest_root :: "ledger \<Rightarrow> account \<Rightarrow> root" where
  "latest_root L a = (case account_get (ledger_store L) a of None \<Rightarrow> a | Some i \<Rightarrow> head i)"

text \<open>\<open>representative_visitor\<close>: the block that last set the representative of a chain.\<close>

partial_function (option) representative_calculated :: "crypto \<Rightarrow> store \<Rightarrow> block_hash \<Rightarrow> block_hash option" where
  "representative_calculated C s current = do {
     b \<leftarrow> block_get s current;
     (case hashables b of
        Send h \<Rightarrow> representative_calculated C s (send_previous h)
      | Receive h \<Rightarrow> representative_calculated C s (receive_previous h)
      | _ \<Rightarrow> if generate_hash C b = 0 then representative_calculated C s current
             else Some (generate_hash C b)) }"

definition ledger_is_send :: "ledger \<Rightarrow> block \<Rightarrow> state_hashables \<Rightarrow> bool option" where
  "ledger_is_send L b h = (case sideband b of
     Some sb \<Rightarrow> Some (is_send (details sb))
   | None \<Rightarrow> if state_previous h = 0 then Some False
             else do { prev \<leftarrow> ledger_balance L (state_previous h); Some (state_balance h < prev) })"

definition block_destination :: "ledger \<Rightarrow> block \<Rightarrow> account option" where
  "block_destination L b = (case hashables b of
     Send h \<Rightarrow> Some (send_destination h)
   | State h \<Rightarrow> do { sending \<leftarrow> ledger_is_send L b h; Some (if sending then state_link h else 0) }
   | _ \<Rightarrow> Some 0)"

definition ledger_block_source :: "ledger \<Rightarrow> block \<Rightarrow> block_hash option" where
  "ledger_block_source L b = (case hashables b of
     State h \<Rightarrow> do { sending \<leftarrow> ledger_is_send L b h; Some (if sending then block_source b else state_link h) }
   | _ \<Rightarrow> Some (block_source b))"

definition ledger_weight :: "ledger \<Rightarrow> account \<Rightarrow> u128 \<times> ledger" where
  "ledger_weight L a =
     (if check_bootstrap_weights L then
        if cache_block_count (cache L) < bootstrap_weight_max_blocks L then
          (case table_get (bootstrap_weights L) a of
             Some w \<Rightarrow> (w, L)
           | None \<Rightarrow> (representation_get (rep_weights (cache L)) a, L))
        else (representation_get (rep_weights (cache L)) a, L\<lparr>check_bootstrap_weights := False\<rparr>)
      else (representation_get (rep_weights (cache L)) a, L))"

text \<open>\<open>dependent_block_visitor\<close>: the blocks that have to be in the ledger before this one.\<close>

definition dependent_blocks :: "env \<Rightarrow> ledger \<Rightarrow> block \<Rightarrow> (block_hash \<times> block_hash) option" where
  "dependent_blocks E L b = (case hashables b of
     Send h \<Rightarrow> Some (send_previous h, 0)
   | Receive h \<Rightarrow> Some (receive_previous h, receive_source h)
   | Open h \<Rightarrow> Some (if open_source h \<noteq> genesis_account (params E) then open_source h else 0, 0)
   | Change h \<Rightarrow> Some (change_previous h, 0)
   | State h \<Rightarrow> do {
       clear \<leftarrow> (if ledger_is_epoch_link E (state_link h) then Some True
                 else if has_sideband b \<or> block_exists (ledger_store L) (state_previous h)
                 then ledger_is_send L b h else Some False);
       Some (state_previous h, if clear then 0 else state_link h) })"

definition could_fit :: "env \<Rightarrow> ledger \<Rightarrow> block \<Rightarrow> bool option" where
  "could_fit E L b = do {
     (d0, d1) \<leftarrow> dependent_blocks E L b;
     Some (list_all (\<lambda>h. h = 0 \<or> block_exists (ledger_store L) h) [d0, d1]) }"

definition dependency_confirmed :: "ledger \<Rightarrow> block_hash \<Rightarrow> bool option" where
  "dependency_confirmed L h =
     (if h = 0 then Some True
      else case block_get (ledger_store L) h of
        None \<Rightarrow> Some False
      | Some b \<Rightarrow> do {
          sb \<leftarrow> sideband b;
          ch \<leftarrow> confirmation_height_get (ledger_store L)
                 (if block_account b = 0 then sideband_account sb else block_account b);
          Some (height sb \<le> conf_height ch) })"

definition can_vote :: "env \<Rightarrow> ledger \<Rightarrow> block \<Rightarrow> bool option" where
  "can_vote E L b = do {
     (d0, d1) \<leftarrow> dependent_blocks E L b;
     ok \<leftarrow> dependency_confirmed L d0;
     if ok then dependency_confirmed L d1 else Some False }"

definition ledger_successor :: "ledger \<Rightarrow> block_hash \<times> root \<Rightarrow> block option" where
  "ledger_successor L q =
     (let s = ledger_store L;
          succ = (if fst q = 0 then
                    (case account_get s (snd q) of
                       Some i \<Rightarrow> open_block i | None \<Rightarrow> block_successor s (fst q))
                  else block_successor s (fst q))
      in if succ = 0 then None else block_get s succ)"

definition forked_block :: "ledger \<Rightarrow> block \<Rightarrow> block option" where
  "forked_block L b =
     (let s = ledger_store L; r = block_root b in
      case block_get s (block_successor s r) of
        Some f \<Rightarrow> Some f
      | None \<Rightarrow> block_get s (open_block (info_or_default (account_get s r))))"

fun backtrack :: "ledger \<Rightarrow> block option \<Rightarrow> nat \<Rightarrow> block option" where
  "backtrack L None jumps = None"
| "backtrack L (Some b) 0 = Some b"
| "backtrack L (Some b) (Suc jumps) =
     (if block_previous b = 0 then Some b
      else backtrack L (block_get (ledger_store L) (block_previous b)) jumps)"

definition block_confirmed :: "ledger \<Rightarrow> block_hash \<Rightarrow> bool option" where
  "block_confirmed L h = do {
     bh \<leftarrow> block_account_height (ledger_store L) h;
     if bh > 0 then do {
       a \<leftarrow> ledger_account L h;
       ch \<leftarrow> confirmation_height_get (ledger_store L) a;
       Some (conf_height ch \<ge> bh) }
     else Some False }"

definition block_not_confirmed_or_not_exists :: "env \<Rightarrow> ledger \<Rightarrow> block \<Rightarrow> bool option" where
  "block_not_confirmed_or_not_exists E L b =
     (let h = generate_hash (crypto_fns E) b in
      if block_exists_type (ledger_store L) (type_of b) h then map_option Not (block_confirmed L h)
      else Some True)"

subsection \<open>Processing a block\<close>

type_synonym outcome = "(ledger \<times> block \<times> process_return) option"

definition make_sideband :: "account \<Rightarrow> amount \<Rightarrow> u64 \<Rightarrow> u64 \<Rightarrow> block_details \<Rightarrow> block_sideband" where
  "make_sideband a bal hgt ts d = \<lparr>successor = 0, sideband_account = a, sideband_balance = bal,
     height = hgt, timestamp = ts, details = d\<rparr>"

definition legacy_details :: block_details where
  "legacy_details = \<lparr>details_epoch = epoch_0, is_send = False, is_receive = False, is_epoch = False\<rparr>"

definition sufficient_work :: "env \<Rightarrow> block \<Rightarrow> block_details \<Rightarrow> bool" where
  "sufficient_work E b d =
     (block_difficulty (crypto_fns E) b \<ge> work_threshold (network (params E)) (block_work_version b) d)"

text \<open>The signature is checked only when the caller has not already verified it.\<close>

definition bad_signature_for ::
    "env \<Rightarrow> signature_verification \<Rightarrow> process_return \<Rightarrow> account \<Rightarrow> block_hash \<Rightarrow> block \<Rightarrow> bool" where
  "bad_signature_for E accepted r a h b =
     (verified r \<noteq> accepted \<and> validate_message (crypto_fns E) a h (block_signature b))"

text \<open>Leave the ledger and the block as they are and report \<open>c\<close>.\<close>

definition reject :: "ledger \<Rightarrow> block \<Rightarrow> process_return \<Rightarrow> process_result \<Rightarrow> outcome" where
  "reject L b r c = Some (L, b, r\<lparr>code := c\<rparr>)"

definition frontier_del_existing :: "block_hash \<Rightarrow> ledger \<Rightarrow> ledger option" where
  "frontier_del_existing h L =
     (if frontier_get (ledger_store L) h \<noteq> 0 then on_store (\<lambda>s. frontier_del s h) L else Some L)"

definition process_send :: "env \<Rightarrow> ledger \<Rightarrow> block \<Rightarrow> send_hashables \<Rightarrow> process_return \<Rightarrow> outcome" where
  "process_send E L b h r =
     (let C = crypto_fns E; s = ledger_store L; hash = generate_hash C b in
      if block_exists_type s Send_type hash then reject L b r old
      else case block_get s (send_previous h) of None \<Rightarrow> reject L b r gap_previous
      | Some previous \<Rightarrow>
      if \<not> valid_predecessor b previous then reject L b r block_position
      else let acct = frontier_get s (send_previous h) in
      if acct = 0 then reject L b r fork
      else if bad_signature_for E Sig_valid r acct hash b then reject L b r bad_signature
      else if \<not> sufficient_work E b legacy_details then reject L b r insufficient_work
      else let r = r\<lparr>verified := Sig_valid\<rparr>; info = info_or_default (account_get s acct) in
      if \<not> info_balance info \<ge> send_balance h then reject L b r negative_spend
      else do {
        let amt = info_balance info - send_balance h;
        let L = weights_add (representative info) (0 - amt) L;
        let b = sideband_set (make_sideband acct (send_balance h) (block_count info + 1)
                  (clock_sideband E) legacy_details) b;
        L \<leftarrow> on_store (\<lambda>s. block_put C s hash b) L;
        let new_info = \<lparr>head = hash, representative = representative info, open_block = open_block info,
              info_balance = send_balance h, modified = clock_account E, block_count = block_count info + 1,
              epoch_m = epoch_0\<rparr>;
        L \<leftarrow> change_latest acct info new_info L;
        let L = in_store (\<lambda>s. pending_put s (send_destination h, hash)
              \<lparr>pending_source = acct, pending_amount = amt, pending_epoch = epoch_0\<rparr>) L;
        L \<leftarrow> on_store (\<lambda>s. frontier_del s (send_previous h)) L;
        let L = in_store (\<lambda>s. frontier_put s hash acct) L;
        Some (stats_inc Stat_ledger Detail_send L, b,
          r\<lparr>code := progress, ret_account := Some acct, ret_amount := Some amt,
            ret_pending_account := Some (send_destination h),
            ret_previous_balance := Some (info_balance info)\<rparr>) })"

definition process_receive :: "env \<Rightarrow> ledger \<Rightarrow> block \<Rightarrow> receive_hashables \<Rightarrow> process_return \<Rightarrow> outcome" where
  "process_receive E L b h r =
     (let C = crypto_fns E; s = ledger_store L; hash = generate_hash C b in
      if block_exists_type s Receive_type hash then reject L b r old
      else case block_get s (receive_previous h) of None \<Rightarrow> reject L b r gap_previous
      | Some previous \<Rightarrow>
      if \<not> valid_predecessor b previous then reject L b r block_position
      else let acct = frontier_get s (receive_previous h) in
      if acct = 0 then
        reject L b r (if block_exists s (receive_previous h) then fork else gap_previous)
      else if bad_signature_for E Sig_valid r acct hash b then reject L b r bad_signature
      else let r = r\<lparr>verified := Sig_valid\<rparr> in
      if \<not> source_exists s (receive_source h) then reject L b r gap_source
      else let info = info_or_default (account_get s acct) in
      if head info \<noteq> receive_previous h then reject L b r gap_previous
      else let key = (acct, receive_source h) in
      case pending_get s key of None \<Rightarrow> reject L b r unreceivable
      | Some pend \<Rightarrow>
      if pending_epoch pend \<noteq> epoch_0 then reject L b r unreceivable
      else if \<not> sufficient_work E b legacy_details then reject L b r insufficient_work
      else do {
        let new_balance = info_balance info + pending_amount pend;
        L \<leftarrow> on_store (\<lambda>s. pending_del s key) L;
        let b = sideband_set (make_sideband acct new_balance (block_count info + 1)
                  (clock_sideband E) legacy_details) b;
        L \<leftarrow> on_store (\<lambda>s. block_put C s hash b) L;
        let new_info = \<lparr>head = hash, representative = representative info, open_block = open_block info,
              info_balance = new_balance, modified = clock_account E, block_count = block_count info + 1,
              epoch_m = epoch_0\<rparr>;
        L \<leftarrow> change_latest acct info new_info L;
        let L = weights_add (representative info) (pending_amount pend) L;
        L \<leftarrow> on_store (\<lambda>s. frontier_del s (receive_previous h)) L;
        let L = in_store (\<lambda>s. frontier_put s hash acct) L;
        Some (stats_inc Stat_ledger Detail_receive L, b,
          r\<lparr>code := progress, ret_account := Some acct, ret_amount := Some (pending_amount pend),
            ret_previous_balance := Some (info_balance info)\<rparr>) })"

definition process_open :: "env \<Rightarrow> ledger \<Rightarrow> block \<Rightarrow> open_hashables \<Rightarrow> process_return \<Rightarrow> outcome" where
  "process_open E L b h r =
     (let C = crypto_fns E; s = ledger_store L; hash = generate_hash C b; acct = open_account h in
      if block_exists_type s Open_type hash then reject L b r old
      else if bad_signature_for E Sig_valid r acct hash b then reject L b r bad_signature
      else let r = r\<lparr>verified := Sig_valid\<rparr> in
      if \<not> source_exists s (open_source h) then reject L b r gap_source
      else if account_get s acct \<noteq> None then reject L b r fork
      else let key = (acct, open_source h) in
      case pending_get s key of None \<Rightarrow> reject L b r unreceivable
      | Some pend \<Rightarrow>
      if acct = burn_account (params E) then reject L b r opened_burn_account
      else if pending_epoch pend \<noteq> epoch_0 then reject L b r unreceivable
      else if \<not> sufficient_work E b legacy_details then reject L b r insufficient_work
      else do {
        L \<leftarrow> on_store (\<lambda>s. pending_del s key) L;
        let b = sideband_set (make_sideband acct (pending_amount pend) 1 (clock_sideband E) legacy_details) b;
        L \<leftarrow> on_store (\<lambda>s. block_put C s hash b) L;
        let new_info = \<lparr>head = hash, representative = open_representative h, open_block = hash,
              info_balance = pending_amount pend, modified = clock_account E, block_count = 1,
              epoch_m = epoch_0\<rparr>;
        L \<leftarrow> change_latest acct default_account_info new_info L;
        let L = weights_add (open_representative h) (pending_amount pend) L;
        let L = in_store (\<lambda>s. frontier_put s hash acct) L;
        Some (stats_inc Stat_ledger Detail_open L, b,
          r\<lparr>code := progress, ret_account := Some acct, ret_amount := Some (pending_amount pend),
            ret_previous_balance := Some 0\<rparr>) })"

definition process_change :: "env \<Rightarrow> ledger \<Rightarrow> block \<Rightarrow> change_hashables \<Rightarrow> process_return \<Rightarrow> outcome" where
  "process_change E L b h r =
     (let C = crypto_fns E; s = ledger_store L; hash = generate_hash C b in
      if block_exists_type s Change_type hash then reject L b r old
      else case block_get s (change_previous h) of None \<Rightarrow> reject L b r gap_previous
      | Some previous \<Rightarrow>
      if \<not> valid_predecessor b previous then reject L b r block_position
      else let acct = frontier_get s (change_previous h) in
      if acct = 0 then reject L b r fork
      else let info = info_or_default (account_get s acct) in
      if bad_signature_for E Sig_valid r acct hash b then reject L b r bad_signature
      else if \<not> sufficient_work E b legacy_details then reject L b r insufficient_work
      else do {
        let b = sideband_set (make_sideband acct (info_balance info) (block_count info + 1)
                  (clock_sideband E) legacy_details) b;
        L \<leftarrow> on_store (\<lambda>s. block_put C s hash b) L;
        balance \<leftarrow> ledger_balance L (change_previous h);
        let L = weights_add (change_representative h) balance L;
        let L = weights_add (representative info) (0 - balance) L;
        let new_info = \<lparr>head = hash, representative = change_representative h, open_block = open_block info,
              info_balance = info_balance info, modified = clock_account E, block_count = block_count info + 1,
              epoch_m = epoch_0\<rparr>;
        L \<leftarrow> change_latest acct info new_info L;
        L \<leftarrow> on_store (\<lambda>s. frontier_del s (change_previous h)) L;
        let L = in_store (\<lambda>s. frontier_put s hash acct) L;
        Some (stats_inc Stat_ledger Detail_change L, b,
          r\<lparr>code := progress, verified := Sig_valid, ret_account := Some acct, ret_amount := Some 0,
            ret_previous_balance := Some (info_balance info)\<rparr>) })"

text \<open>
  The first part of \<open>state_block_impl\<close> after the burn account check: does the block continue its
  account's chain, and is it a send or a receive. It sets the result code and the amount.
\<close>

definition state_position ::
    "store \<Rightarrow> state_hashables \<Rightarrow> process_return \<Rightarrow> process_return \<times> amount \<times> bool \<times> bool" where
  "state_position s h r =
     (case account_get s (state_account h) of
        Some info \<Rightarrow>
          let r = r\<lparr>ret_previous_balance := Some (info_balance info)\<rparr> in
          if state_previous h = 0 then (r\<lparr>code := fork\<rparr>, state_balance h, False, False)
          else if \<not> block_exists s (state_previous h)
          then (r\<lparr>code := gap_previous\<rparr>, state_balance h, False, False)
          else let sending = state_balance h < info_balance info;
                   rcv = (\<not> sending \<and> state_link h \<noteq> 0);
                   amt = (if sending then info_balance info - state_balance h else state_balance h - info_balance info)
               in (r\<lparr>code := (if state_previous h = head info then progress else fork),
                     ret_amount := Some amt\<rparr>, amt, sending, rcv)
      | None \<Rightarrow>
          let r = r\<lparr>ret_previous_balance := Some 0\<rparr> in
          if state_previous h \<noteq> 0 then (r\<lparr>code := gap_previous\<rparr>, state_balance h, False, False)
          else (r\<lparr>code := (if state_link h \<noteq> 0 then progress else gap_source)\<rparr>, state_balance h, False, True))"

text \<open>The second part: a block that is no send either collects a pending entry or keeps the balance.\<close>

definition state_link_check ::
    "store \<Rightarrow> state_hashables \<Rightarrow> amount \<Rightarrow> bool \<Rightarrow> epoch \<Rightarrow> process_result \<times> epoch" where
  "state_link_check s h amt sending epoch =
     (if sending then (progress, epoch)
      else if state_link h = 0 then (if amt = 0 then progress else balance_mismatch, epoch)
      else if \<not> source_exists s (state_link h) then (gap_source, epoch)
      else case pending_get s (state_account h, state_link h) of
        None \<Rightarrow> (unreceivable, epoch)
      | Some pend \<Rightarrow> (if amt = pending_amount pend then progress else balance_mismatch,
                       max epoch (pending_epoch pend)))"

text \<open>The weight an open account had, and the pending entry a state block adds or collects.\<close>

definition move_existing_weight :: "account_info \<Rightarrow> ledger \<Rightarrow> ledger" where
  "move_existing_weight info L =
     (if head info \<noteq> 0 then weights_add (representative info) (0 - info_balance info) L else L)"

definition state_pending_update ::
    "state_hashables \<Rightarrow> block_hash \<Rightarrow> amount \<Rightarrow> bool \<Rightarrow> epoch \<Rightarrow> ledger \<Rightarrow> ledger option" where
  "state_pending_update h hash amt sending epoch L =
     (if sending then
        Some (in_store (\<lambda>s. pending_put s (state_link h, hash)
          \<lparr>pending_source = state_account h, pending_amount = amt, pending_epoch = epoch\<rparr>) L)
      else if state_link h \<noteq> 0 then on_store (\<lambda>s. pending_del s (state_account h, state_link h)) L
      else Some L)"

definition process_state_impl :: "env \<Rightarrow> ledger \<Rightarrow> block \<Rightarrow> state_hashables \<Rightarrow> process_return \<Rightarrow> outcome" where
  "process_state_impl E L b h r =
     (let C = crypto_fns E; s = ledger_store L; hash = generate_hash C b; acct = state_account h in
      if block_exists_type s State_type hash then reject L b r old
      else if bad_signature_for E Sig_valid r acct hash b then reject L b r bad_signature
      else let r = r\<lparr>verified := Sig_valid\<rparr> in
      if acct = 0 then reject L b r opened_burn_account
      else let info = info_or_default (account_get s acct);
               (r, amt, sending, rcv) = state_position s h (r\<lparr>ret_amount := Some (state_balance h)\<rparr>) in
      if code r \<noteq> progress then reject L b r (code r)
      else let (c, epoch) = state_link_check s h amt sending (epoch_m info) in
      if c \<noteq> progress then reject L b r c
      else let bd = \<lparr>details_epoch = epoch, is_send = sending, is_receive = rcv, is_epoch = False\<rparr> in
      if \<not> sufficient_work E b bd then reject L b r insufficient_work
      else do {
        let L = stats_inc Stat_ledger Detail_state_block L;
        let b = sideband_set (make_sideband acct 0 (block_count info + 1) (clock_sideband E) bd) b;
        L \<leftarrow> on_store (\<lambda>s. block_put C s hash b) L;
        let L = move_existing_weight info L;
        let L = weights_add (state_representative h) (state_balance h) L;
        L \<leftarrow> state_pending_update h hash amt sending epoch L;
        let new_info = \<lparr>head = hash, representative = state_representative h,
              open_block = (if open_block info = 0 then hash else open_block info),
              info_balance = state_balance h, modified = clock_account E, block_count = block_count info + 1,
              epoch_m = epoch\<rparr>;
        L \<leftarrow> change_latest acct info new_info L;
        L \<leftarrow> frontier_del_existing (head info) L;
        Some (L, b, r\<lparr>ret_account := Some acct\<rparr>) })"

text \<open>The checks of \<open>epoch_block_impl\<close> on the account, and on the epoch and the balance.\<close>

definition epoch_position :: "store \<Rightarrow> state_hashables \<Rightarrow> process_result" where
  "epoch_position s h =
     (case account_get s (state_account h) of
        Some info \<Rightarrow>
          if state_previous h = 0 then fork
          else if state_previous h \<noteq> head info then fork
          else if state_representative h \<noteq> representative info then representative_mismatch
          else progress
      | None \<Rightarrow>
          if state_representative h \<noteq> 0 then representative_mismatch
          else if \<not> pending_any s (state_account h) then block_position
          else progress)"

definition process_epoch_impl :: "env \<Rightarrow> ledger \<Rightarrow> block \<Rightarrow> state_hashables \<Rightarrow> process_return \<Rightarrow> outcome" where
  "process_epoch_impl E L b h r = do {
     let C = crypto_fns E;
     let s = ledger_store L;
     let hash = generate_hash C b;
     let acct = state_account h;
     signer \<leftarrow> ledger_epoch_signer E (state_link h);
     epoch \<leftarrow> epochs_epoch (ledger_epochs (params E)) (state_link h);
     (if block_exists_type s State_type hash then reject L b r old
      else if bad_signature_for E Sig_valid_epoch r signer hash b then reject L b r bad_signature
      else let r = r\<lparr>verified := Sig_valid_epoch\<rparr> in
      if acct = 0 then reject L b r opened_burn_account
      else let account_error = (account_get s acct = None);
               info = info_or_default (account_get s acct);
               r = r\<lparr>ret_previous_balance := Some (if account_error then 0 else info_balance info)\<rparr>;
               c = epoch_position s h in
      if c \<noteq> progress then reject L b r c
      else if \<not> (if account_error then epoch > 0 else is_sequential (epoch_m info) epoch)
      then reject L b r block_position
      else if state_balance h \<noteq> info_balance info then reject L b r balance_mismatch
      else let bd = \<lparr>details_epoch = epoch, is_send = False, is_receive = False, is_epoch = True\<rparr> in
      if \<not> sufficient_work E b bd then reject L b r insufficient_work
      else do {
        let L = stats_inc Stat_ledger Detail_epoch_block L;
        let b = sideband_set (make_sideband acct 0 (block_count info + 1) (clock_sideband E) bd) b;
        L \<leftarrow> on_store (\<lambda>s. block_put C s hash b) L;
        let new_info = \<lparr>head = hash, representative = state_representative h,
              open_block = (if open_block info = 0 then hash else open_block info),
              info_balance = info_balance info, modified = clock_account E, block_count = block_count info + 1,
              epoch_m = epoch\<rparr>;
        L \<leftarrow> change_latest acct info new_info L;
        L \<leftarrow> frontier_del_existing (head info) L;
        let L = (if epoch = epoch_2 \<and> \<not> epoch_2_started (cache L)
                 then L\<lparr>cache := (cache L)\<lparr>epoch_2_started := True\<rparr>,
                        epoch_2_callbacks := epoch_2_callbacks L + (if epoch_2_started_cb L then 1 else 0)\<rparr>
                 else L);
        Some (L, b, r\<lparr>code := progress, ret_account := Some acct, ret_amount := Some 0\<rparr>) }) }"

text \<open>
  \<open>validate_epoch_block\<close>: whether a block with an epoch link keeps the balance, hence is an epoch
  block. With a missing predecessor it records who signed the block.
\<close>

definition validate_epoch_block ::
    "env \<Rightarrow> ledger \<Rightarrow> block \<Rightarrow> state_hashables \<Rightarrow> process_return \<Rightarrow> (bool \<times> process_return) option" where
  "validate_epoch_block E L b h r =
     (let C = crypto_fns E; hash = generate_hash C b in
      if state_previous h = 0 then Some (state_balance h = 0, r)
      else if block_exists (ledger_store L) (state_previous h) then do {
        prev_balance \<leftarrow> ledger_balance L (state_previous h);
        Some (state_balance h = prev_balance, r\<lparr>code := progress\<rparr>) }
      else if verified r \<noteq> Sig_unknown then Some (state_balance h = 0, r\<lparr>code := gap_previous\<rparr>)
      else if \<not> validate_message C (state_account h) hash (block_signature b)
      then Some (state_balance h = 0, r\<lparr>code := gap_previous, verified := Sig_valid\<rparr>)
      else do {
        signer \<leftarrow> ledger_epoch_signer E (state_link h);
        Some (state_balance h = 0,
          if validate_message C signer hash (block_signature b)
          then r\<lparr>code := bad_signature, verified := Sig_invalid\<rparr>
          else r\<lparr>code := gap_previous, verified := Sig_valid_epoch\<rparr>) })"

definition process_state :: "env \<Rightarrow> ledger \<Rightarrow> block \<Rightarrow> state_hashables \<Rightarrow> process_return \<Rightarrow> outcome" where
  "process_state E L b h r = do {
     let r = r\<lparr>code := progress\<rparr>;
     (epoch_block, r) \<leftarrow> (if ledger_is_epoch_link E (state_link h) then validate_epoch_block E L b h r
                         else Some (False, r));
     (if code r = progress then
        if epoch_block then process_epoch_impl E L b h r else process_state_impl E L b h r
      else Some (L, b, r)) }"

text \<open>The result before a handler runs: its code is assigned before it is read.\<close>

definition initial_result :: "signature_verification \<Rightarrow> process_return" where
  "initial_result v = \<lparr>code = progress, ret_account = None, ret_amount = None, ret_pending_account = None,
     ret_state_is_send = None, verified = v, ret_previous_balance = None\<rparr>"

definition process_visit :: "env \<Rightarrow> ledger \<Rightarrow> block \<Rightarrow> process_return \<Rightarrow> outcome" where
  "process_visit E L b r = (case hashables b of
     Send h \<Rightarrow> process_send E L b h r
   | Receive h \<Rightarrow> process_receive E L b h r
   | Open h \<Rightarrow> process_open E L b h r
   | Change h \<Rightarrow> process_change E L b h r
   | State h \<Rightarrow> process_state E L b h r)"

definition process :: "env \<Rightarrow> ledger \<Rightarrow> block \<Rightarrow> signature_verification \<Rightarrow> outcome" where
  "process E L b v = do {
     (L, b, r) \<leftarrow> process_visit E L b (initial_result v);
     Some (if code r = progress then block_count_add 1 L else L, b, r) }"

subsection \<open>Creating the ledger\<close>

text \<open>\<open>block_store::initialize\<close>: the store with the genesis block, and the cache counting it.\<close>

definition store_initialize :: "env \<Rightarrow> block \<Rightarrow> store \<times> ledger_cache \<Rightarrow> (store \<times> ledger_cache) option" where
  "store_initialize E genesis_open sc = (let (s, c) = sc; C = crypto_fns E;
       hash = generate_hash C genesis_open; acct = genesis_account (params E);
       b = sideband_set (make_sideband acct (genesis_amount (params E)) 1 (clock_sideband E) legacy_details)
             genesis_open in do {
     s \<leftarrow> block_put C s hash b;
     let c = c\<lparr>cache_block_count := cache_block_count c + 1\<rparr>;
     let s = confirmation_height_put s acct \<lparr>conf_height = 1, conf_frontier = hash\<rparr>;
     let c = c\<lparr>cemented_count := cemented_count c + 1\<rparr>;
     let s = account_put s acct \<lparr>head = hash, representative = acct, open_block = hash,
           info_balance = u128_max, modified = clock_account E, block_count = 1, epoch_m = epoch_0\<rparr>;
     let c = c\<lparr>cache_account_count := cache_account_count c + 1,
               rep_weights := representation_put (rep_weights c) acct u128_max\<rparr>;
     Some (frontier_put s hash acct, c) })"

record generate_cache =
  gen_reps :: bool
  gen_cemented_count :: bool
  gen_unchecked_count :: bool
  gen_account_count :: bool
  gen_epoch_2 :: bool

definition empty_cache :: ledger_cache where
  "empty_cache = \<lparr>rep_weights = [], cemented_count = 0, cache_block_count = 0, cache_unchecked_count = 0,
     cache_account_count = 0, epoch_2_started = False\<rparr>"

text \<open>The constructor fills the cache from the tables, as far as \<open>generate_cache\<close> asks for.\<close>

definition cache_account :: "ledger_cache \<Rightarrow> account_info \<Rightarrow> ledger_cache" where
  "cache_account c i = c\<lparr>rep_weights := representation_add (rep_weights c) (representative i) (info_balance i),
     cache_account_count := cache_account_count c + 1,
     epoch_2_started := (epoch_2_started c \<or> epoch_m i = epoch_2)\<rparr>"

definition make_cache :: "generate_cache \<Rightarrow> store \<Rightarrow> ledger_cache" where
  "make_cache g s =
     (let c = empty_cache;
          c = (if gen_reps g \<or> gen_account_count g \<or> gen_epoch_2 g
               then foldl (\<lambda>c e. cache_account c (snd e)) c (accounts s) else c);
          c = (if gen_cemented_count g
               then foldl (\<lambda>c e. c\<lparr>cemented_count := cemented_count c + conf_height (snd e)\<rparr>) c (confirmation_heights s)
               else c);
          c = (if gen_unchecked_count g then c\<lparr>cache_unchecked_count := of_nat (unchecked_count s)\<rparr> else c)
      in c\<lparr>cache_block_count := of_nat (block_counts_sum (store_block_count s))\<rparr>)"

definition make_ledger :: "generate_cache \<Rightarrow> store \<Rightarrow> bool \<Rightarrow> ledger" where
  "make_ledger g s has_cb = \<lparr>ledger_store = s, cache = make_cache g s, stats = [], bootstrap_weights = [],
     bootstrap_weight_max_blocks = 1, check_bootstrap_weights = True, epoch_2_started_cb = has_cb,
     epoch_2_callbacks = 0\<rparr>"

end
