(* ===== verification/Ledger_Spec.thy ===== *)
theory Ledger_Spec
  imports Ledger
begin

text \<open>
  What processing a block means for the ledger. \<open>block_applied\<close> is the abstract effect of one accepted
  block: which entry of which table changes, how voting weight moves, and how the balance the account
  gains or loses is matched by one pending entry. The refinement lemmas show that each handler of
  \<open>Ledger\<close> either leaves ledger and block untouched or has such an effect, and that in a well-formed
  ledger it never aborts.
\<close>

subsection \<open>Well-formed ledgers\<close>

definition tables_ok :: "store \<Rightarrow> bool" where
  "tables_ok s = (blocks_ok s \<and> table_ok (accounts s) \<and> table_ok (pending s) \<and> table_ok (frontiers s)
     \<and> table_ok (confirmation_heights s))"

text \<open>
  Every account has a non-zero number, a confirmation height and a head block that carries its
  balance; a legacy frontier is the head of its account; a pending entry names a stored block; no
  block is stored under the zero hash.
\<close>

definition account_ok :: "store \<Rightarrow> account \<Rightarrow> account_info \<Rightarrow> bool" where
  "account_ok s a i = (a \<noteq> 0 \<and> head i \<noteq> 0 \<and> open_block i \<noteq> 0 \<and> confirmation_height_get s a \<noteq> None
     \<and> block_balance s (head i) = Some (info_balance i))"

definition chains_ok :: "store \<Rightarrow> bool" where
  "chains_ok s = ((\<forall>a i. account_get s a = Some i \<longrightarrow> account_ok s a i)
     \<and> (\<forall>h a. table_get (frontiers s) h = Some a \<longrightarrow> (\<exists>i. account_get s a = Some i \<and> head i = h))
     \<and> (\<forall>a h. pending_get s (a, h) \<noteq> None \<longrightarrow> block_get s h \<noteq> None)
     \<and> block_get s 0 = None)"

definition store_ok :: "store \<Rightarrow> bool" where
  "store_ok s = (tables_ok s \<and> chains_ok s)"

text \<open>What the balances of all accounts and the amounts of all pending entries add up to.\<close>

definition total_supply :: "store \<Rightarrow> nat" where
  "total_supply s = table_sum (\<lambda>i. unat (info_balance i)) (accounts s)
     + table_sum (\<lambda>p. unat (pending_amount p)) (pending s)"

definition delegated :: "store \<Rightarrow> account \<Rightarrow> u128" where
  "delegated s r = table_sum (\<lambda>i. if representative i = r then info_balance i else 0) (accounts s)"

definition cache_agrees :: "ledger \<Rightarrow> bool" where
  "cache_agrees L = ((\<forall>r. representation_get (rep_weights (cache L)) r = delegated (ledger_store L) r)
     \<and> cache_block_count (cache L) = of_nat (total_blocks (ledger_store L))
     \<and> cache_account_count (cache L) = of_nat (account_count (ledger_store L)))"

definition ledger_ok :: "ledger \<Rightarrow> bool" where
  "ledger_ok L = (store_ok (ledger_store L) \<and> total_supply (ledger_store L) < 2 ^ 128 \<and> cache_agrees L)"

text \<open>The constants a ledger is run with, and a block hash that collides with no stored block.\<close>

definition params_ok :: "env \<Rightarrow> bool" where
  "params_ok E = (burn_account (params E) = 0 \<and> table_ok (ledger_epochs (params E)))"

definition hash_ok :: "env \<Rightarrow> ledger \<Rightarrow> block \<Rightarrow> bool" where
  "hash_ok E L b = (generate_hash (crypto_fns E) b \<noteq> 0
     \<and> list_all (\<lambda>t. t = type_of b \<or> \<not> block_exists_type (ledger_store L) t (generate_hash (crypto_fns E) b))
         block_types)"

subsection \<open>The effect of an accepted block\<close>

datatype pending_change = Pending_none | Pending_add pending_key pending_info | Pending_del pending_key

fun pending_apply :: "pending_change \<Rightarrow> (pending_key, pending_info) table \<Rightarrow> (pending_key, pending_info) table" where
  "pending_apply Pending_none t = t"
| "pending_apply (Pending_add k p) t = table_put t k p"
| "pending_apply (Pending_del k) t = table_drop_key t k"

text \<open>What the account gains was pending for it, what it loses becomes pending under the new hash.\<close>

fun balanced :: "block_hash \<Rightarrow> account \<Rightarrow> amount \<Rightarrow> amount \<Rightarrow> pending_change \<Rightarrow> (pending_key, pending_info) table \<Rightarrow> bool" where
  "balanced h a prior new Pending_none t = (new = prior)"
| "balanced h a prior new (Pending_add k p) t = (new \<le> prior \<and> pending_amount p = prior - new \<and> snd k = h)"
| "balanced h a prior new (Pending_del k) t =
     (fst k = a \<and> (case table_get t k of None \<Rightarrow> False | Some p \<Rightarrow> new = prior + pending_amount p))"

definition frontiers_apply ::
    "block_hash \<Rightarrow> account \<Rightarrow> block \<Rightarrow> account_info option \<Rightarrow> (block_hash, account) table \<Rightarrow> (block_hash, account) table" where
  "frontiers_apply h a b prior t =
     (let t = (case prior of None \<Rightarrow> t | Some i \<Rightarrow> table_drop_key t (head i))
      in if type_of b = State_type then t else table_put t h a)"

definition blocks_applied :: "crypto \<Rightarrow> store \<Rightarrow> block \<Rightarrow> block_sideband \<Rightarrow> store \<Rightarrow> bool" where
  "blocks_applied C s b sb s' =
     (blocks_ok s' \<and> total_blocks s' = Suc (total_blocks s)
      \<and> (\<forall>h. block_get s' h =
           (if h = generate_hash C b then Some (sideband_set (sideband_stored (type_of b) sb) b)
            else if has_predecessor b \<and> h = block_previous b
            then map_option (with_successor (generate_hash C b)) (block_get s h)
            else block_get s h)))"

definition store_applied ::
    "crypto \<Rightarrow> store \<Rightarrow> block \<Rightarrow> block_sideband \<Rightarrow> account \<Rightarrow> account_info \<Rightarrow> pending_change \<Rightarrow> store \<Rightarrow> bool" where
  "store_applied C s b sb a i ch s' =
     (blocks_applied C s b sb s'
      \<and> accounts s' = table_put (accounts s) a i
      \<and> pending s' = pending_apply ch (pending s)
      \<and> frontiers s' = frontiers_apply (generate_hash C b) a b (account_get s a) (frontiers s)
      \<and> confirmation_heights s' =
          (if account_get s a = None
           then table_put (confirmation_heights s) a \<lparr>conf_height = 0, conf_frontier = 0\<rparr>
           else confirmation_heights s)
      \<and> unchecked_table s' = unchecked_table s \<and> online_weight s' = online_weight s \<and> peers s' = peers s)"

text \<open>Voting weight: the old balance leaves the old representative, the new one joins the new.\<close>

definition weight_moved :: "account_info option \<Rightarrow> account_info \<Rightarrow> account \<Rightarrow> u128" where
  "weight_moved prior i r = (if representative i = r then info_balance i else 0)
     - entry_value (\<lambda>j. if representative j = r then info_balance j else 0) prior"

definition cache_applied :: "ledger_cache \<Rightarrow> account_info option \<Rightarrow> account_info \<Rightarrow> ledger_cache \<Rightarrow> bool" where
  "cache_applied c prior i c' =
     ((\<forall>r. representation_get (rep_weights c') r = representation_get (rep_weights c) r + weight_moved prior i r)
      \<and> cache_block_count c' = cache_block_count c
      \<and> cache_account_count c' = cache_account_count c + (if prior = None then 1 else 0)
      \<and> cemented_count c' = cemented_count c \<and> cache_unchecked_count c' = cache_unchecked_count c)"

definition effect_ok ::
    "crypto \<Rightarrow> store \<Rightarrow> block \<Rightarrow> block_sideband \<Rightarrow> account \<Rightarrow> account_info \<Rightarrow> pending_change \<Rightarrow> bool" where
  "effect_ok C s b sb a i ch =
     (let h = generate_hash C b; prior = account_get s a in
      a \<noteq> 0 \<and> h \<noteq> 0 \<and> block_get s h = None \<and> head i = h
      \<and> (has_predecessor b \<longrightarrow> block_get s (block_previous b) \<noteq> None)
      \<and> (\<forall>j. prior = Some j \<longrightarrow> has_predecessor b \<and> block_previous b = head j)
      \<and> open_block i = (case prior of None \<Rightarrow> h | Some j \<Rightarrow> open_block j)
      \<and> block_count i = entry_value block_count prior + 1 \<and> height sb = block_count i
      \<and> block_balance_calculated (sideband_set (sideband_stored (type_of b) sb) b) = Some (info_balance i)
      \<and> balanced h a (entry_value info_balance prior) (info_balance i) ch (pending s))"

definition block_applied ::
    "crypto \<Rightarrow> ledger \<Rightarrow> block \<Rightarrow> block_sideband \<Rightarrow> account \<Rightarrow> account_info \<Rightarrow> pending_change \<Rightarrow> ledger \<Rightarrow> bool" where
  "block_applied C L b sb a i ch L' =
     (effect_ok C (ledger_store L) b sb a i ch
      \<and> store_applied C (ledger_store L) b sb a i ch (ledger_store L')
      \<and> cache_applied (cache L) (account_get (ledger_store L) a) i (cache L'))"

text \<open>
  Which pending entry a block of each class adds or collects, given the balances before and after it
  and the epoch of its account.
\<close>

definition block_change ::
    "env \<Rightarrow> block_hash \<Rightarrow> block \<Rightarrow> account \<Rightarrow> amount \<Rightarrow> amount \<Rightarrow> epoch \<Rightarrow> pending_change" where
  "block_change E hash b a prior new e =
     (let entry = \<lparr>pending_source = a, pending_amount = prior - new, pending_epoch = e\<rparr> in
      case hashables b of
        Send h \<Rightarrow> Pending_add (send_destination h, hash) entry
      | Receive h \<Rightarrow> Pending_del (a, receive_source h)
      | Open h \<Rightarrow> Pending_del (a, open_source h)
      | Change h \<Rightarrow> Pending_none
      | State h \<Rightarrow> if new < prior then Pending_add (state_link h, hash) entry
          else if state_link h = 0 \<or> ledger_is_epoch_link E (state_link h) then Pending_none
          else Pending_del (a, state_link h))"

text \<open>Sends and receives of the legacy classes leave the representative as it was.\<close>

definition keeps_representative :: "block \<Rightarrow> bool" where
  "keeps_representative b = (type_of b = Send_type \<or> type_of b = Receive_type)"

text \<open>The epoch of an account comes from its last state, a collected entry or an epoch block.\<close>

definition epoch_origin :: "env \<Rightarrow> store \<Rightarrow> account \<Rightarrow> epoch \<Rightarrow> bool" where
  "epoch_origin E s a e =
     (e = epoch_0 \<or> (\<exists>j. account_get s a = Some j \<and> e = epoch_m j)
      \<or> (\<exists>k p. pending_get s k = Some p \<and> e = pending_epoch p)
      \<or> (\<exists>l. epochs_epoch (ledger_epochs (params E)) l = Some e))"

text \<open>
  The epoch after the block: an epoch block, which has the link of an epoch and keeps the balance, sets the epoch of its
  link; collecting an entry raises the epoch to that of the entry; any other state block keeps it. Legacy
  blocks exist in epoch 0 only.
\<close>

definition applied_epoch :: "env \<Rightarrow> store \<Rightarrow> block \<Rightarrow> account \<Rightarrow> amount \<Rightarrow> pending_change \<Rightarrow> epoch option" where
  "applied_epoch E s b a new ch =
     (let prior = account_get s a; e = (case prior of None \<Rightarrow> epoch_0 | Some j \<Rightarrow> epoch_m j) in
      if type_of b \<noteq> State_type then Some epoch_0
      else if ledger_is_epoch_link E (block_link b) \<and> new = entry_value info_balance prior
      then epochs_epoch (ledger_epochs (params E)) (block_link b)
      else (case ch of Pending_del k \<Rightarrow> map_option (\<lambda>p. max e (pending_epoch p)) (pending_get s k) | _ \<Rightarrow> Some e))"

definition effect_shape ::
    "env \<Rightarrow> store \<Rightarrow> block \<Rightarrow> block_sideband \<Rightarrow> account \<Rightarrow> account_info \<Rightarrow> pending_change \<Rightarrow> bool" where
  "effect_shape E s b sb a i ch =
     (let h = generate_hash (crypto_fns E) b; prior = account_get s a in
      successor sb = 0
      \<and> block_account_calculated (sideband_set (sideband_stored (type_of b) sb) b) = Some a
      \<and> epoch_m i = (if type_of b = State_type then details_epoch (details sb) else epoch_0)
      \<and> applied_epoch E s b a (info_balance i) ch = Some (epoch_m i)
      \<and> epoch_origin E s a (epoch_m i)
      \<and> representative i = (if keeps_representative b then entry_value representative prior else block_representative b)
      \<and> (prior = None \<and> has_predecessor b \<longrightarrow> type_of b = State_type \<and> ledger_is_epoch_link E (block_link b))
      \<and> (type_of b \<noteq> State_type \<and> has_predecessor b \<longrightarrow>
           (\<forall>p. block_get s (block_previous b) = Some p \<longrightarrow> type_of p \<noteq> State_type))
      \<and> (\<forall>k. ch = Pending_del k \<longrightarrow> block_get s (snd k) \<noteq> None
           \<and> (type_of b \<noteq> State_type \<longrightarrow> (\<exists>p. pending_get s k = Some p \<and> pending_epoch p = epoch_0)))
      \<and> (ch = block_change E h b a (entry_value info_balance prior) (info_balance i) (epoch_m i)
         \<or> (ch = Pending_del (a, block_link b) \<and> ledger_is_epoch_link E (block_link b))))"

lemma effect_shapeD:
  assumes "effect_shape E s b sb a i ch"
  shows "successor sb = 0" "block_account_calculated (sideband_set (sideband_stored (type_of b) sb) b) = Some a"
    "epoch_m i = (if type_of b = State_type then details_epoch (details sb) else epoch_0)"
    "epoch_origin E s a (epoch_m i)"
    "representative i = (if keeps_representative b then entry_value representative (account_get s a) else block_representative b)"
    "account_get s a = None \<Longrightarrow> has_predecessor b \<Longrightarrow> type_of b = State_type \<and> ledger_is_epoch_link E (block_link b)"
    "type_of b \<noteq> State_type \<Longrightarrow> has_predecessor b \<Longrightarrow> block_get s (block_previous b) = Some p \<Longrightarrow> type_of p \<noteq> State_type"
    "ch = Pending_del k \<Longrightarrow> block_get s (snd k) \<noteq> None"
    "ch = Pending_del k \<Longrightarrow> type_of b \<noteq> State_type \<Longrightarrow> \<exists>p. pending_get s k = Some p \<and> pending_epoch p = epoch_0"
    "ch = block_change E (generate_hash (crypto_fns E) b) b a (entry_value info_balance (account_get s a)) (info_balance i) (epoch_m i)
      \<or> (\<exists>k. ch = Pending_del k \<and> ledger_is_epoch_link E (snd k))"
  using assms unfolding effect_shape_def Let_def by (blast, blast, blast, blast, blast, blast, blast, blast, blast, auto)

lemma effect_okD:
  assumes "effect_ok C s b sb a i ch"
  shows "a \<noteq> 0" "generate_hash C b \<noteq> 0" "block_get s (generate_hash C b) = None" "head i = generate_hash C b"
    "has_predecessor b \<Longrightarrow> block_get s (block_previous b) \<noteq> None"
    "account_get s a = Some j \<Longrightarrow> has_predecessor b" "account_get s a = Some j \<Longrightarrow> block_previous b = head j"
    "open_block i = (case account_get s a of None \<Rightarrow> generate_hash C b | Some j \<Rightarrow> open_block j)"
    "block_count i = entry_value block_count (account_get s a) + 1" "height sb = block_count i"
    "block_balance_calculated (sideband_set (sideband_stored (type_of b) sb) b) = Some (info_balance i)"
    "balanced (generate_hash C b) a (entry_value info_balance (account_get s a)) (info_balance i) ch (pending s)"
  using assms unfolding effect_ok_def Let_def by blast+

subsection \<open>Shape of an outcome\<close>

definition outcome_ok :: "env \<Rightarrow> ledger \<Rightarrow> block \<Rightarrow> outcome \<Rightarrow> bool" where
  "outcome_ok E L b out =
     (\<exists>L' b' r. out = Some (L', b', r)
        \<and> (if code r = progress
            then \<exists>sb a i ch. b' = sideband_set sb b \<and> ret_account r = Some a
                   \<and> block_applied (crypto_fns E) L b sb a i ch L' \<and> effect_shape E (ledger_store L) b sb a i ch
            else L' = L \<and> b' = b))"

lemma outcome_ok_reject: "c \<noteq> progress \<Longrightarrow> outcome_ok E L b (reject L b r c)"
  by (simp add: outcome_ok_def reject_def)

lemma outcome_ok_progress:
  "code r = progress \<Longrightarrow> ret_account r = Some a \<Longrightarrow> block_applied (crypto_fns E) L b sb a i ch L' \<Longrightarrow>
     effect_shape E (ledger_store L) b sb a i ch \<Longrightarrow> outcome_ok E L b (Some (L', sideband_set sb b, r))"
  unfolding outcome_ok_def by auto

lemma outcome_ok_if:
  "(c \<Longrightarrow> outcome_ok E L b x) \<Longrightarrow> (\<not> c \<Longrightarrow> outcome_ok E L b y) \<Longrightarrow> outcome_ok E L b (if c then x else y)"
  by simp

lemma outcome_ok_case:
  "(m = None \<Longrightarrow> outcome_ok E L b x) \<Longrightarrow> (\<And>v. m = Some v \<Longrightarrow> outcome_ok E L b (f v)) \<Longrightarrow>
     outcome_ok E L b (case m of None \<Rightarrow> x | Some v \<Rightarrow> f v)"
  by (cases m) simp_all

lemmas outcome_intros = outcome_ok_if outcome_ok_case outcome_ok_reject

subsection \<open>Consequences of well-formedness\<close>

lemma store_okD:
  assumes "store_ok s"
  shows "blocks_ok s" "table_ok (accounts s)" "table_ok (pending s)" "table_ok (frontiers s)"
    "table_ok (confirmation_heights s)" "block_get s 0 = None"
  using assms by (simp_all add: store_ok_def tables_ok_def chains_ok_def)

lemma store_ok_account: "store_ok s \<Longrightarrow> account_get s a = Some i \<Longrightarrow> account_ok s a i"
  by (simp add: store_ok_def chains_ok_def)

lemma store_ok_frontier:
  assumes "store_ok s" "frontier_get s h \<noteq> 0"
  shows "\<exists>i. account_get s (frontier_get s h) = Some i \<and> head i = h"
    and "table_get (frontiers s) h = Some (frontier_get s h)"
  using assms by (auto simp: store_ok_def chains_ok_def frontier_get_def split: option.splits)

lemma store_ok_frontier_absent:
  assumes "store_ok s" "frontier_get s h = 0"
  shows "table_get (frontiers s) h = None"
  using assms store_ok_account [OF assms(1), of 0]
  by (fastforce simp: store_ok_def chains_ok_def frontier_get_def account_ok_def split: option.splits)

lemma store_ok_pending: "store_ok s \<Longrightarrow> pending_get s (a, h) \<noteq> None \<Longrightarrow> block_get s h \<noteq> None"
  by (simp add: store_ok_def chains_ok_def)

lemma hash_ok_fresh:
  assumes "hash_ok E L b" "\<not> block_exists_type (ledger_store L) (type_of b) (generate_hash (crypto_fns E) b)"
  shows "generate_hash (crypto_fns E) b \<noteq> 0" "block_get (ledger_store L) (generate_hash (crypto_fns E) b) = None"
proof -
  have "\<not> block_exists_type (ledger_store L) t (generate_hash (crypto_fns E) b)" for t
    using assms block_exists_type_in [of "ledger_store L" t] unfolding hash_ok_def list_all_iff by metis
  with assms show "generate_hash (crypto_fns E) b \<noteq> 0"
      "block_get (ledger_store L) (generate_hash (crypto_fns E) b) = None"
    by (simp_all add: hash_ok_def block_get_None_iff)
qed

lemma info_or_default_simps [simp]:
  "info_or_default None = default_account_info" "info_or_default (Some i) = i"
  by (simp_all add: info_or_default_def)

subsection \<open>The steps of a handler\<close>

lemma table_drop_key_absent: "table_get t k = None \<Longrightarrow> table_drop_key t k = t"
  by (induction t) (auto simp: table_drop_key_def table_get_Cons split: if_splits)

lemma table_put_drop_key: "table_ok t \<Longrightarrow> table_put (table_drop_key t k) k v = table_put t k v"
  by (intro table_ext) auto

lemma change_latest_head:
  assumes "head new_info \<noteq> 0" "table_ok (accounts (ledger_store L))"
    and "head old_info \<noteq> 0 \<longrightarrow> table_get (accounts (ledger_store L)) a \<noteq> None"
    and "head old_info = 0 \<longrightarrow> open_block new_info = head new_info"
  shows "change_latest a old_info new_info L = Some (L\<lparr>
    ledger_store := (ledger_store L)\<lparr>accounts := table_put (accounts (ledger_store L)) a new_info,
      confirmation_heights := (if head old_info = 0
        then table_put (confirmation_heights (ledger_store L)) a \<lparr>conf_height = 0, conf_frontier = 0\<rparr>
        else confirmation_heights (ledger_store L))\<rparr>,
    cache := (cache L)\<lparr>cache_account_count :=
      cache_account_count (cache L) + (if head old_info = 0 then 1 else 0)\<rparr>\<rparr>)"
  using assms
  by (cases "head old_info = 0")
     (auto simp: change_latest_def on_store_def in_store_def account_del_def account_put_def
      account_count_add_def confirmation_height_put_def table_put_drop_key table_del_def Let_def)

lemma block_put_store:
  assumes "blocks_ok s" "block_get s (generate_hash C b) = None"
    and "has_predecessor b \<Longrightarrow> block_get s (block_previous b) \<noteq> None"
  obtains s' where "block_put C s (generate_hash C b) (sideband_set sb b) = Some s'"
    and "blocks_applied C s b sb s'" and "store_rest s' = store_rest s"
proof -
  have [simp]: "has_predecessor (sideband_set sb b) = has_predecessor b"
    by (simp add: has_predecessor_def)
  have [simp]: "sideband_set x (sideband_set sb b) = sideband_set x b" for x
    by (simp add: sideband_set_def)
  show ?thesis
    using block_put_spec [of s "generate_hash C b" "sideband_set sb b" sb C] assms that
    by (fastforce simp: blocks_applied_def sideband_def)
qed

end
