(* ===== verification/Ledger_Refinement.thy ===== *)
theory Ledger_Refinement
  imports Ledger_Spec
begin

text \<open>
  Each handler of \<open>ledger_processor\<close> refines the abstract effect of \<open>Ledger_Spec\<close>: in a well-formed
  store it returns (no \<open>release_assert\<close> fails, no missing block is read), a rejected block changes
  nothing, and an accepted one is applied.
\<close>

lemmas op_defs = on_store_def in_store_def weights_add_def stats_inc_def pending_put_def pending_del_def
  frontier_put_def frontier_del_def table_del_def

lemmas applied_defs = store_applied_def blocks_applied_def frontiers_apply_def type_of_def

lemma blocks_applied_frame [simp]:
  "blocks_applied C (s\<lparr>pending := p\<rparr>) b sb s' = blocks_applied C s b sb s'"
  by (simp add: blocks_applied_def)

lemma outcome_ok_prod:
  "(\<And>x y. p = (x, y) \<Longrightarrow> outcome_ok E L b (f x y)) \<Longrightarrow> outcome_ok E L b (case p of (x, y) \<Rightarrow> f x y)"
  by (cases p) simp

lemmas shape_defs = effect_shape_def applied_epoch_def block_change_def keeps_representative_def epoch_origin_def make_sideband_def
  sideband_stored_def has_sideband_account_def block_account_calculated_def block_account_def sideband_def
  block_representative_def type_of_def has_predecessor_def block_previous_def block_link_def

lemma valid_predecessor_legacy: "valid_predecessor b p \<Longrightarrow> type_of b \<noteq> State_type \<Longrightarrow> type_of p \<noteq> State_type"
  by (cases "hashables b"; cases "type_of p") (simp_all add: valid_predecessor_def type_of_def)

lemma outcome_ok_accept:
  assumes "code r = progress" "ret_account r = Some a"
    and "effect_ok (crypto_fns E) (ledger_store L) b sb a i ch"
    and "effect_shape E (ledger_store L) b sb a i ch"
    and "store_applied (crypto_fns E) (ledger_store L) b sb a i ch (ledger_store L')"
    and "cache_applied (cache L) (account_get (ledger_store L) a) i (cache L')"
  shows "outcome_ok E L b (Some (L', sideband_set sb b, r))"
  using assms outcome_ok_progress unfolding block_applied_def by blast

subsection \<open>Legacy blocks\<close>

lemma process_send_ok:
  assumes ok: "store_ok (ledger_store L)" and hk: "hash_ok E L b" and hb: "hashables b = Send h"
  shows "outcome_ok E L b (process_send E L b h r)"
  unfolding process_send_def Let_def
  apply (intro outcome_intros; simp?)
  subgoal premises prems for p
  proof -
    let ?s = "ledger_store L" let ?C = "crypto_fns E" let ?h = "generate_hash ?C b"
    let ?a = "frontier_get ?s (send_previous h)"
    have a: "?a \<noteq> 0" using prems by simp
    obtain i where i: "account_get ?s ?a = Some i" "head i = send_previous h"
      using store_ok_frontier [OF ok a] by blast
    have i': "table_get (accounts ?s) ?a = Some i" using i(1) by (simp add: account_get_def)
    note acc = store_ok_account [OF ok i(1), unfolded account_ok_def]
    have fresh: "?h \<noteq> 0" "block_get ?s ?h = None"
      using hash_ok_fresh [OF hk] prems(1) hb by (auto simp: type_of_def)
    let ?sb = "make_sideband ?a (send_balance h) (block_count i + 1) (clock_sideband E) legacy_details"
    let ?n = "\<lparr>head = ?h, representative = representative i, open_block = open_block i,
      info_balance = send_balance h, modified = clock_account E, block_count = block_count i + 1, epoch_m = epoch_0\<rparr>"
    obtain s1 where s1: "block_put ?C ?s ?h (sideband_set ?sb b) = Some s1" "blocks_applied ?C ?s b ?sb s1"
        "store_rest s1 = store_rest ?s"
      using block_put_store [OF store_okD(1) [OF ok] fresh(2), of ?sb] prems(2) hb by (auto simp: block_previous_def)
    note rest = store_rest_eqD [OF s1(3)]
    have eff: "effect_ok ?C ?s b ?sb ?a ?n (Pending_add (send_destination h, ?h)
        \<lparr>pending_source = ?a, pending_amount = info_balance i - send_balance h, pending_epoch = epoch_0\<rparr>)"
      using prems hb i fresh
      by (simp add: effect_ok_def block_balance_calculated_def Let_def make_sideband_def has_predecessor_def
          block_previous_def)
    have shape: "effect_shape E ?s b ?sb ?a ?n (Pending_add (send_destination h, ?h)
        \<lparr>pending_source = ?a, pending_amount = info_balance i - send_balance h, pending_epoch = epoch_0\<rparr>)"
      using hb i prems(2) valid_predecessor_legacy [OF prems(3)] by (simp add: shape_defs)
    show ?thesis
      using s1(1) i acc fresh
      apply (simp add: op_defs change_latest_head rest store_okD [OF ok] store_ok_frontier(2) [OF ok a] i')
      apply (rule outcome_ok_accept [OF _ _ eff shape])
      using s1(2) hb i
      apply (simp_all add: applied_defs rest cache_applied_def weight_moved_def)
      done
  qed
  done

lemma process_receive_ok:
  assumes ok: "store_ok (ledger_store L)" and hk: "hash_ok E L b" and hb: "hashables b = Receive h"
  shows "outcome_ok E L b (process_receive E L b h r)"
  unfolding process_receive_def Let_def
  apply (intro outcome_intros; (simp; fail)?)
  subgoal premises prems for p pend
  proof -
    let ?s = "ledger_store L" let ?C = "crypto_fns E" let ?h = "generate_hash ?C b"
    let ?a = "frontier_get ?s (receive_previous h)" let ?k = "(?a, receive_source h)"
    let ?t = "?s\<lparr>pending := table_drop_key (pending ?s) ?k\<rparr>"
    have a: "?a \<noteq> 0" using prems by simp
    obtain i where i: "account_get ?s ?a = Some i" "head i = receive_previous h"
      using store_ok_frontier [OF ok a] by blast
    have i': "table_get (accounts ?s) ?a = Some i" using i(1) by (simp add: account_get_def)
    have pend: "table_get (pending ?s) ?k = Some pend" using prems by (simp add: pending_get_def)
    note acc = store_ok_account [OF ok i(1), unfolded account_ok_def]
    have fresh: "?h \<noteq> 0" "block_get ?s ?h = None"
      using hash_ok_fresh [OF hk] prems(1) hb by (auto simp: type_of_def)
    let ?bal = "info_balance i + pending_amount pend"
    let ?sb = "make_sideband ?a ?bal (block_count i + 1) (clock_sideband E) legacy_details"
    let ?n = "\<lparr>head = ?h, representative = representative i, open_block = open_block i,
      info_balance = ?bal, modified = clock_account E, block_count = block_count i + 1, epoch_m = epoch_0\<rparr>"
    obtain s1 where s1: "block_put ?C ?t ?h (sideband_set ?sb b) = Some s1" "blocks_applied ?C ?s b ?sb s1"
        "store_rest s1 = store_rest ?t"
      using block_put_store [of ?t ?C b ?sb] store_okD(1) [OF ok] fresh prems(2) hb
      by (auto simp: block_previous_def)
    note rest = store_rest_eqD [OF s1(3)]
    have eff: "effect_ok ?C ?s b ?sb ?a ?n (Pending_del ?k)"
      using hb i a fresh pend prems(2)
      by (simp add: effect_ok_def has_predecessor_def block_previous_def block_balance_calculated_def Let_def make_sideband_def sideband_def
          sideband_stored_def has_sideband_balance_def type_of_def)
    have shape: "effect_shape E ?s b ?sb ?a ?n (Pending_del ?k)"
      using hb i prems source_exists_block [of ?s] valid_predecessor_legacy [of b p] by (auto simp: shape_defs)
    show ?thesis
      using s1(1) i acc fresh
      apply (simp add: op_defs change_latest_head rest store_okD [OF ok] store_ok_frontier(2) [OF ok a] i' pend)
      apply (rule outcome_ok_accept [OF _ _ eff shape])
      using s1(2) hb i
      apply (simp_all add: applied_defs rest cache_applied_def weight_moved_def)
      done
  qed
  done

lemma process_open_ok:
  assumes ok: "store_ok (ledger_store L)" and hk: "hash_ok E L b" and hb: "hashables b = Open h"
    and pk: "params_ok E"
  shows "outcome_ok E L b (process_open E L b h r)"
  unfolding process_open_def Let_def
  apply (intro outcome_intros; (simp; fail)?)
  subgoal premises prems for pend
  proof -
    let ?s = "ledger_store L" let ?C = "crypto_fns E" let ?h = "generate_hash ?C b"
    let ?a = "open_account h" let ?k = "(?a, open_source h)"
    let ?t = "?s\<lparr>pending := table_drop_key (pending ?s) ?k\<rparr>"
    have a: "?a \<noteq> 0" "account_get ?s ?a = None" using prems pk by (auto simp: params_ok_def)
    have pend: "table_get (pending ?s) ?k = Some pend" using prems by (simp add: pending_get_def)
    have fresh: "?h \<noteq> 0" "block_get ?s ?h = None"
      using hash_ok_fresh [OF hk] prems(1) hb by (auto simp: type_of_def)
    let ?sb = "make_sideband ?a (pending_amount pend) 1 (clock_sideband E) legacy_details"
    let ?n = "\<lparr>head = ?h, representative = open_representative h, open_block = ?h,
      info_balance = pending_amount pend, modified = clock_account E, block_count = 1, epoch_m = epoch_0\<rparr>"
    obtain s1 where s1: "block_put ?C ?t ?h (sideband_set ?sb b) = Some s1" "blocks_applied ?C ?s b ?sb s1"
        "store_rest s1 = store_rest ?t"
      using block_put_store [of ?t ?C b ?sb] store_okD(1) [OF ok] fresh hb
      by (auto simp: has_predecessor_def)
    note rest = store_rest_eqD [OF s1(3)]
    have eff: "effect_ok ?C ?s b ?sb ?a ?n (Pending_del ?k)"
      using hb a fresh pend
      by (simp add: effect_ok_def has_predecessor_def block_balance_calculated_def Let_def make_sideband_def sideband_def
          sideband_stored_def has_sideband_balance_def type_of_def)
    have shape: "effect_shape E ?s b ?sb ?a ?n (Pending_del ?k)"
      using hb a prems source_exists_block [of ?s] by (auto simp: shape_defs)
    show ?thesis
      using s1(1) fresh
      apply (simp add: op_defs change_latest_head rest store_okD [OF ok] pend default_account_info_def)
      apply (rule outcome_ok_accept [OF _ _ eff shape])
      using s1(2) hb a
      apply (simp_all add: applied_defs rest cache_applied_def weight_moved_def)
      done
  qed
  done

lemma process_change_ok:
  assumes ok: "store_ok (ledger_store L)" and hk: "hash_ok E L b" and hb: "hashables b = Change h"
  shows "outcome_ok E L b (process_change E L b h r)"
  unfolding process_change_def Let_def
  apply (intro outcome_intros; (simp; fail)?)
  subgoal premises prems for p
  proof -
    let ?s = "ledger_store L" let ?C = "crypto_fns E" let ?h = "generate_hash ?C b"
    let ?a = "frontier_get ?s (change_previous h)"
    have a: "?a \<noteq> 0" using prems by simp
    obtain i where i: "account_get ?s ?a = Some i" "head i = change_previous h"
      using store_ok_frontier [OF ok a] by blast
    have i': "table_get (accounts ?s) ?a = Some i" using i(1) by (simp add: account_get_def)
    note acc = store_ok_account [OF ok i(1), unfolded account_ok_def]
    have fresh: "?h \<noteq> 0" "block_get ?s ?h = None"
      using hash_ok_fresh [OF hk] prems(1) hb by (auto simp: type_of_def)
    let ?sb = "make_sideband ?a (info_balance i) (block_count i + 1) (clock_sideband E) legacy_details"
    let ?n = "\<lparr>head = ?h, representative = change_representative h, open_block = open_block i,
      info_balance = info_balance i, modified = clock_account E, block_count = block_count i + 1, epoch_m = epoch_0\<rparr>"
    obtain s1 where s1: "block_put ?C ?s ?h (sideband_set ?sb b) = Some s1" "blocks_applied ?C ?s b ?sb s1"
        "store_rest s1 = store_rest ?s"
      using block_put_store [OF store_okD(1) [OF ok] fresh(2), of ?sb] prems(2) hb by (auto simp: block_previous_def)
    note rest = store_rest_eqD [OF s1(3)]
    have "block_balance s1 (change_previous h) = Some (info_balance i)"
      using s1(2) acc i(2) prems(2) hb fresh
      by (auto simp: block_balance_def blocks_applied_def has_predecessor_def block_previous_def)
    then have bal: "ledger_balance (L\<lparr>ledger_store := s1\<rparr>) (change_previous h) = Some (info_balance i)"
      using acc i(2) by (simp add: ledger_balance_def)
    have eff: "effect_ok ?C ?s b ?sb ?a ?n Pending_none"
      using prems hb i fresh
      by (simp add: effect_ok_def has_predecessor_def block_previous_def block_balance_calculated_def Let_def
          make_sideband_def sideband_def
          sideband_stored_def has_sideband_balance_def type_of_def)
    have shape: "effect_shape E ?s b ?sb ?a ?n Pending_none"
      using hb i prems(2) valid_predecessor_legacy [of b p] prems by (auto simp: shape_defs)
    show ?thesis
      using s1(1) i acc fresh bal
      apply (simp add: op_defs change_latest_head rest store_okD [OF ok] store_ok_frontier(2) [OF ok a] i')
      apply (rule outcome_ok_accept [OF _ _ eff shape])
      using s1(2) hb i
      apply (simp_all add: applied_defs rest cache_applied_def weight_moved_def)
      done
  qed
  done

subsection \<open>State blocks\<close>

lemma state_position_progress:
  assumes "state_position s h r = (r', amt, sending, rcv)" "code r' = progress"
  shows "case account_get s (state_account h) of
     Some i \<Rightarrow> state_previous h = head i \<and> state_previous h \<noteq> 0 \<and> block_get s (state_previous h) \<noteq> None
       \<and> sending = (state_balance h < info_balance i)
       \<and> amt = (if sending then info_balance i - state_balance h else state_balance h - info_balance i)
   | None \<Rightarrow> state_previous h = 0 \<and> state_link h \<noteq> 0 \<and> \<not> sending \<and> amt = state_balance h"
  using assms
  by (auto simp: state_position_def Let_def block_exists_iff split: option.splits if_splits)

lemma state_link_check_progress:
  assumes "state_link_check s h amt sending e = (c, e')" "c = progress"
  shows "sending \<or> (state_link h = 0 \<and> amt = 0)
    \<or> (state_link h \<noteq> 0 \<and> (\<exists>p. pending_get s (state_account h, state_link h) = Some p \<and> amt = pending_amount p))"
  using assms by (auto simp: state_link_check_def split: option.splits if_splits)

lemma state_link_check_source:
  assumes "state_link_check s h amt sending e = (progress, e')"
  shows "e' = e \<or> (\<exists>k p. pending_get s k = Some p \<and> e' = pending_epoch p)"
    and "\<not> sending \<Longrightarrow> state_link h \<noteq> 0 \<Longrightarrow> block_get s (state_link h) \<noteq> None"
  using assms source_exists_block [of s "state_link h"]
  by (auto simp: state_link_check_def max_def split: option.splits if_splits)

lemma state_link_check_epoch:
  assumes "state_link_check s h amt sending e = (progress, e')"
  shows "\<exists>p. if sending \<or> state_link h = 0 then e' = e
    else pending_get s (state_account h, state_link h) = Some p \<and> e' = max e (pending_epoch p)"
  using assms by (auto simp: state_link_check_def split: option.splits if_splits)

text \<open>The pending entry a state block adds or collects.\<close>

definition state_change :: "block_hash \<Rightarrow> state_hashables \<Rightarrow> amount \<Rightarrow> bool \<Rightarrow> epoch \<Rightarrow> pending_change" where
  "state_change hash h amt sending e =
     (if sending then Pending_add (state_link h, hash)
        \<lparr>pending_source = state_account h, pending_amount = amt, pending_epoch = e\<rparr>
      else if state_link h \<noteq> 0 then Pending_del (state_account h, state_link h) else Pending_none)"

lemma state_change_balanced:
  assumes "state_position s h r = (r', amt, sending, rcv)" "code r' = progress"
    and "state_link_check s h amt sending e = (progress, e')"
  shows "balanced hash (state_account h) (entry_value info_balance (account_get s (state_account h)))
    (state_balance h) (state_change hash h amt sending e') (pending s)"
  using state_position_progress [OF assms(1,2)] state_link_check_progress [OF assms(3) refl]
  by (auto simp: state_change_def pending_get_def diff_eq_eq add.commute split: option.splits if_splits)

lemma frontier_del_existing_eq:
  assumes "store_ok s" "frontiers (ledger_store L) = frontiers s"
  shows "frontier_del_existing h L = Some (L\<lparr>ledger_store := (ledger_store L)\<lparr>
    frontiers := table_drop_key (frontiers s) h\<rparr>\<rparr>)"
proof (cases "frontier_get s h = 0")
  case True
  moreover have "frontier_get (ledger_store L) h = frontier_get s h" using assms(2) by (simp add: frontier_get_def)
  ultimately show ?thesis
    using store_ok_frontier_absent [OF assms(1) True] assms(2)
    by (simp add: frontier_del_existing_def table_drop_key_absent)
next
  case False
  moreover have "frontier_get (ledger_store L) h = frontier_get s h" using assms(2) by (simp add: frontier_get_def)
  ultimately show ?thesis
    using store_ok_frontier(2) [OF assms(1) False] assms(2)
    by (simp add: frontier_del_existing_def op_defs)
qed

lemma store_ok_frontier_zero:
  assumes "store_ok s"
  shows "table_get (frontiers s) 0 = None"
proof (rule ccontr)
  assume "table_get (frontiers s) 0 \<noteq> None"
  then obtain a where "table_get (frontiers s) 0 = Some a" by blast
  then obtain i where "account_get s a = Some i" "head i = 0"
    using assms unfolding store_ok_def chains_ok_def by blast
  with store_ok_account [OF assms] show False by (auto simp: account_ok_def)
qed

lemma state_pending_update_eq:
  assumes "\<not> sending \<and> state_link h \<noteq> 0 \<longrightarrow> table_get (pending (ledger_store L)) (state_account h, state_link h) \<noteq> None"
  shows "state_pending_update h hash amt sending e L = Some (L\<lparr>ledger_store := (ledger_store L)\<lparr>
        pending := pending_apply (state_change hash h amt sending e) (pending (ledger_store L))\<rparr>\<rparr>)"
  using assms by (auto simp: state_change_def state_pending_update_def op_defs)

lemma move_existing_weight_eq:
  "move_existing_weight i L = L\<lparr>cache := (cache L)\<lparr>rep_weights :=
     (if head i = 0 then rep_weights (cache L)
      else representation_add (rep_weights (cache L)) (representative i) (0 - info_balance i))\<rparr>\<rparr>"
  by (simp add: move_existing_weight_def weights_add_def)

lemma process_state_impl_ok:
  assumes ok: "store_ok (ledger_store L)" and hk: "hash_ok E L b" and hb: "hashables b = State h"
    and no_epoch: "ledger_is_epoch_link E (state_link h) \<Longrightarrow> case account_get (ledger_store L) (state_account h) of
      None \<Rightarrow> state_previous h = 0 \<longrightarrow> state_balance h \<noteq> 0
    | Some i \<Rightarrow> state_previous h = head i \<longrightarrow> state_balance h \<noteq> info_balance i"
  shows "outcome_ok E L b (process_state_impl E L b h r)"
  unfolding process_state_impl_def Let_def
  apply (intro outcome_intros outcome_ok_prod; (simp; fail)?)
  subgoal premises prems for r' _ amt _ sending rcv c e
  proof -
    let ?s = "ledger_store L" let ?C = "crypto_fns E" let ?h = "generate_hash ?C b"
    let ?a = "state_account h" let ?i = "info_or_default (account_get ?s ?a)"
    have pos: "state_position ?s h (r\<lparr>verified := Sig_valid, ret_amount := Some (state_balance h)\<rparr>) = (r', amt, sending, rcv)"
      and prog: "code r' = progress" and lnk: "state_link_check ?s h amt sending (epoch_m ?i) = (progress, e)"
      and a: "?a \<noteq> 0"
      using prems by auto
    have fresh: "?h \<noteq> 0" "block_get ?s ?h = None"
      using hash_ok_fresh [OF hk] prems(1) hb by (auto simp: type_of_def)
    let ?d = "\<lparr>details_epoch = e, is_send = sending, is_receive = rcv, is_epoch = False\<rparr>"
    let ?sb = "make_sideband ?a 0 (block_count ?i + 1) (clock_sideband E) ?d"
    let ?n = "\<lparr>head = ?h, representative = state_representative h,
      open_block = (if open_block ?i = 0 then ?h else open_block ?i), info_balance = state_balance h,
      modified = clock_account E, block_count = block_count ?i + 1, epoch_m = e\<rparr>"
    let ?ch = "state_change ?h h amt sending e"
    have pre: "has_predecessor b \<Longrightarrow> block_get ?s (block_previous b) \<noteq> None"
      and cont: "account_get ?s ?a = Some j \<Longrightarrow> has_predecessor b \<and> block_previous b = head j" for j
      using state_position_progress [OF pos prog] hb
      by (auto simp: block_previous_def has_predecessor_def split: option.splits)
    obtain s1 where s1: "block_put ?C ?s ?h (sideband_set ?sb b) = Some s1" "blocks_applied ?C ?s b ?sb s1"
        "store_rest s1 = store_rest ?s"
      using block_put_store [OF store_okD(1) [OF ok] fresh(2) pre] by blast
    note rest = store_rest_eqD [OF s1(3)]
    have eff: "effect_ok ?C ?s b ?sb ?a ?n ?ch"
      using hb fresh a pre cont store_ok_account [OF ok, of ?a] state_change_balanced [OF pos prog lnk, of ?h]
      by (cases "account_get ?s ?a")
         (auto simp: effect_ok_def block_balance_calculated_def Let_def make_sideband_def
           default_account_info_def account_ok_def)
    have del: "\<not> sending \<and> state_link h \<noteq> 0 \<longrightarrow> table_get (pending ?s) (?a, state_link h) \<noteq> None"
      using state_link_check_progress [OF lnk refl] by (auto simp: pending_get_def)
    have none: "head ?i = 0 \<longleftrightarrow> account_get ?s ?a = None" "open_block ?i = 0 \<longleftrightarrow> account_get ?s ?a = None"
      using store_ok_account [OF ok, of ?a]
      by (cases "account_get ?s ?a"; auto simp: default_account_info_def account_ok_def)+
    have cl: "account_get ?s ?a \<noteq> None \<longrightarrow> table_get (accounts ?s) ?a \<noteq> None"
      by (simp add: account_get_def)
    have new_balance: "\<not> (ledger_is_epoch_link E (state_link h) \<and> state_balance h = entry_value info_balance (account_get ?s ?a))"
      using no_epoch state_position_progress [OF pos prog] by (auto split: option.splits)
    have epoch: "applied_epoch E ?s b ?a (state_balance h) ?ch = Some e"
      using new_balance hb state_link_check_epoch [OF lnk]
      by (cases "account_get ?s ?a") (auto simp: applied_epoch_def state_change_def type_of_def block_link_def default_account_info_def Let_def)
    have shape: "effect_shape E ?s b ?sb ?a ?n ?ch"
      using hb a epoch state_position_progress [OF pos prog] state_link_check_source [OF lnk]
      by (cases "account_get ?s ?a")
         (auto simp: shape_defs state_change_def default_account_info_def Let_def split: if_splits)
    show ?thesis
      using s1(1) fresh(1) cl 
      apply (simp add: on_store_def stats_inc_def weights_add_def move_existing_weight_eq state_pending_update_eq rest del
        change_latest_head store_okD [OF ok] frontier_del_existing_eq [OF ok] none split del: if_split)
      apply (rule outcome_ok_accept [OF _ _ eff [unfolded none] shape [unfolded none]])
      using s1(2) hb prog store_ok_frontier_zero [OF ok]
      apply (cases "account_get ?s ?a"; simp add: applied_defs rest cache_applied_def weight_moved_def
          default_account_info_def none table_drop_key_absent)+
      done
  qed
  done

subsection \<open>Epoch blocks and the dispatch\<close>

lemma epoch_position_progress:
  assumes "epoch_position s h = progress"
  shows "case account_get s (state_account h) of
     Some i \<Rightarrow> state_previous h = head i \<and> state_previous h \<noteq> 0 \<and> state_representative h = representative i
   | None \<Rightarrow> state_representative h = 0 \<and> pending_any s (state_account h)"
  using assms by (auto simp: epoch_position_def split: option.splits if_splits)

lemma epoch_link_defined:
  assumes "params_ok E" "ledger_is_epoch_link E l"
  obtains e sg where "epochs_epoch (ledger_epochs (params E)) l = Some e" "ledger_epoch_signer E l = Some sg"
proof -
  obtain e where e: "epochs_epoch (ledger_epochs (params E)) l = Some e"
    using assms(2) by (auto simp: ledger_is_epoch_link_def epochs_epoch_Some)
  then obtain sg where "ledger_epoch_signer E l = Some sg"
    using epochs_signer_defined [of "ledger_epochs (params E)"] assms(1)
    by (auto simp: ledger_epoch_signer_def params_ok_def)
  with e show ?thesis by (rule that)
qed

lemma process_epoch_impl_ok:
  assumes ok: "store_ok (ledger_store L)" and hk: "hash_ok E L b" and hb: "hashables b = State h"
    and pk: "params_ok E" and lk: "ledger_is_epoch_link E (state_link h)"
    and prev: "state_previous h \<noteq> 0 \<longrightarrow> block_get (ledger_store L) (state_previous h) \<noteq> None"
  shows "outcome_ok E L b (process_epoch_impl E L b h r)"
proof -
  obtain e sg where e: "epochs_epoch (ledger_epochs (params E)) (state_link h) = Some e"
      and sg: "ledger_epoch_signer E (state_link h) = Some sg"
    by (rule epoch_link_defined [OF pk lk])
  show ?thesis
    unfolding process_epoch_impl_def Let_def e sg bind.bind_lunit
    apply (intro outcome_intros; (simp; fail)?)
    subgoal premises prems
    proof -
      let ?s = "ledger_store L" let ?C = "crypto_fns E" let ?h = "generate_hash ?C b"
      let ?a = "state_account h" let ?i = "info_or_default (account_get ?s ?a)"
      have pos: "epoch_position ?s h = progress" and a: "?a \<noteq> 0" and bal: "state_balance h = info_balance ?i"
        using prems by auto
      have fresh: "?h \<noteq> 0" "block_get ?s ?h = None"
        using hash_ok_fresh [OF hk] prems(1) hb by (auto simp: type_of_def)
      let ?d = "\<lparr>details_epoch = e, is_send = False, is_receive = False, is_epoch = True\<rparr>"
      let ?sb = "make_sideband ?a 0 (block_count ?i + 1) (clock_sideband E) ?d"
      let ?n = "\<lparr>head = ?h, representative = state_representative h,
        open_block = (if open_block ?i = 0 then ?h else open_block ?i), info_balance = info_balance ?i,
        modified = clock_account E, block_count = block_count ?i + 1, epoch_m = e\<rparr>"
      have pre: "has_predecessor b \<Longrightarrow> block_get ?s (block_previous b) \<noteq> None"
        using prev hb by (auto simp: block_previous_def has_predecessor_def)
      have cont: "account_get ?s ?a = Some j \<Longrightarrow> has_predecessor b \<and> block_previous b = head j" for j
        using epoch_position_progress [OF pos] hb by (auto simp: block_previous_def has_predecessor_def)
      obtain s1 where s1: "block_put ?C ?s ?h (sideband_set ?sb b) = Some s1" "blocks_applied ?C ?s b ?sb s1"
          "store_rest s1 = store_rest ?s"
        using block_put_store [OF store_okD(1) [OF ok] fresh(2) pre] by blast
      note rest = store_rest_eqD [OF s1(3)]
      have eff: "effect_ok ?C ?s b ?sb ?a ?n Pending_none"
        using hb fresh a bal pre cont store_ok_account [OF ok, of ?a]
        by (cases "account_get ?s ?a")
           (auto simp: effect_ok_def block_balance_calculated_def Let_def make_sideband_def
             default_account_info_def account_ok_def)
      have none: "head ?i = 0 \<longleftrightarrow> account_get ?s ?a = None" "open_block ?i = 0 \<longleftrightarrow> account_get ?s ?a = None"
        using store_ok_account [OF ok, of ?a]
        by (cases "account_get ?s ?a"; auto simp: default_account_info_def account_ok_def)+
      have cl: "account_get ?s ?a \<noteq> None \<longrightarrow> table_get (accounts ?s) ?a \<noteq> None"
        by (simp add: account_get_def)
      have shape: "effect_shape E ?s b ?sb ?a ?n Pending_none"
        using hb a e lk bal by (cases "account_get ?s ?a") (auto simp: shape_defs default_account_info_def)
      show ?thesis
        using s1(1) fresh(1) cl
        apply (simp add: on_store_def stats_inc_def rest change_latest_head store_okD [OF ok]
          frontier_del_existing_eq [OF ok] none split del: if_split)
        apply (rule outcome_ok_accept [OF _ _ eff [unfolded none] shape [unfolded none]])
        using s1(2) hb store_ok_frontier_zero [OF ok] epoch_position_progress [OF pos] bal
        apply (cases "account_get ?s ?a"; simp add: applied_defs rest cache_applied_def weight_moved_def
            default_account_info_def none table_drop_key_absent)+
        done
    qed
    done
qed

lemma block_balance_defined:
  assumes "blocks_ok s" "block_get s h \<noteq> None"
  shows "\<exists>v. block_balance s h = Some v"
  using assms block_get_sideband [OF assms(1), of h]
  by (auto simp: block_balance_def block_balance_calculated_def has_sideband_def sideband_def
      split: block_hashables.split)

lemma validate_epoch_block_total:
  assumes "blocks_ok (ledger_store L)" "ledger_epoch_signer E (state_link h) = Some sg"
  shows "\<exists>eb r'. validate_epoch_block E L b h r = Some (eb, r')
    \<and> (code r' = progress \<longrightarrow> state_previous h \<noteq> 0 \<longrightarrow> block_get (ledger_store L) (state_previous h) \<noteq> None)"
proof (cases "state_previous h \<noteq> 0 \<and> block_exists (ledger_store L) (state_previous h)")
  case True
  then obtain v where "ledger_balance L (state_previous h) = Some v"
    using block_balance_defined [OF assms(1)] by (auto simp: block_exists_iff ledger_balance_def)
  with True show ?thesis by (simp add: validate_epoch_block_def Let_def block_exists_iff)
next
  case False
  with assms(2) show ?thesis by (auto simp: validate_epoch_block_def Let_def)
qed

text \<open>A block with the link of an epoch that is not taken for an epoch block changes the balance.\<close>

lemma validate_epoch_block_refused:
  assumes ok: "store_ok (ledger_store L)" and v: "validate_epoch_block E L b h r = Some (False, r')" "code r' = progress"
    and prev: "state_previous h \<noteq> 0 \<longrightarrow> block_get (ledger_store L) (state_previous h) \<noteq> None"
  shows "case account_get (ledger_store L) (state_account h) of
      None \<Rightarrow> state_previous h = 0 \<longrightarrow> state_balance h \<noteq> 0
    | Some i \<Rightarrow> state_previous h = head i \<longrightarrow> state_balance h \<noteq> info_balance i"
proof (cases "account_get (ledger_store L) (state_account h)")
  case None
  then show ?thesis using v by (auto simp: validate_epoch_block_def Let_def)
next
  case (Some i)
  have "head i \<noteq> 0" "block_balance (ledger_store L) (head i) = Some (info_balance i)"
    using store_ok_account [OF ok Some] by (simp_all add: account_ok_def)
  then show ?thesis
    using v prev Some by (auto simp: validate_epoch_block_def Let_def block_exists_iff ledger_balance_def)
qed

lemma process_state_ok:
  assumes ok: "store_ok (ledger_store L)" and hk: "hash_ok E L b" and hb: "hashables b = State h"
    and pk: "params_ok E"
  shows "outcome_ok E L b (process_state E L b h r)"
proof (cases "ledger_is_epoch_link E (state_link h)")
  case False
  then show ?thesis using process_state_impl_ok [OF ok hk hb] by (simp add: process_state_def)
next
  case True
  let ?r = "r\<lparr>code := progress\<rparr>"
  obtain e sg where sg: "ledger_epoch_signer E (state_link h) = Some sg" by (rule epoch_link_defined [OF pk True])
  obtain eb r' where v: "validate_epoch_block E L b h ?r = Some (eb, r')"
      and v': "code r' = progress \<longrightarrow> state_previous h \<noteq> 0 \<longrightarrow> block_get (ledger_store L) (state_previous h) \<noteq> None"
    using validate_epoch_block_total [OF store_okD(1) [OF ok] sg, of b ?r] by blast
  show ?thesis
  proof (cases "code r' = progress")
    case p: True
    with v' have "state_previous h \<noteq> 0 \<longrightarrow> block_get (ledger_store L) (state_previous h) \<noteq> None" by blast
    with process_epoch_impl_ok [OF ok hk hb pk True] process_state_impl_ok [OF ok hk hb] v p True
      validate_epoch_block_refused [OF ok, of E b h ?r r']
    show ?thesis by (cases eb) (simp_all add: process_state_def)
  next
    case False
    with v True show ?thesis by (simp add: process_state_def outcome_ok_def)
  qed
qed

lemma process_visit_ok:
  assumes "store_ok (ledger_store L)" "hash_ok E L b" "params_ok E"
  shows "outcome_ok E L b (process_visit E L b r)"
  using assms process_send_ok process_receive_ok process_open_ok process_change_ok process_state_ok
  by (cases "hashables b") (simp_all add: process_visit_def)

end
