(* ===== verification/Ledger_Invariant.thy ===== *)
theory Ledger_Invariant
  imports Ledger_Refinement
begin

text \<open>
  The invariants of the ledger: applying a block keeps every table and chain well-formed, creates and
  destroys no money, and leaves the cache in step with the tables. With the refinement of \<open>process\<close>
  this gives the safety theorems of block processing, and by rule induction the invariants of every
  ledger reachable from the genesis ledger.
\<close>

subsection \<open>Money\<close>

lemma unat_entry_value: "unat (entry_value f e) = entry_value (\<lambda>x. unat (f x)) e"
  by (cases e) simp_all

lemma total_supply_parts:
  assumes "store_ok s" "store_applied C s b sb a i ch s'"
  shows "table_sum (\<lambda>i. unat (info_balance i)) (accounts s') + unat (entry_value info_balance (account_get s a))
    = table_sum (\<lambda>i. unat (info_balance i)) (accounts s) + unat (info_balance i)"
  using assms table_sum_put [OF store_okD(2) [OF assms(1)], of "\<lambda>i. unat (info_balance i)" a i]
  by (simp add: store_applied_def unat_entry_value account_get_def)

text \<open>A balance and a pending entry together stay below the supply: collecting does not wrap.\<close>

lemma collect_no_wrap:
  assumes ok: "store_ok s" and bound: "total_supply s < 2 ^ 128" and p: "table_get (pending s) k = Some p"
  shows "unat (entry_value info_balance (account_get s a) + pending_amount p) =
    unat (entry_value info_balance (account_get s a)) + unat (pending_amount p)"
proof -
  have "unat (entry_value info_balance (account_get s a)) \<le> table_sum (\<lambda>i. unat (info_balance i)) (accounts s)"
    using table_sum_ge_entry [OF store_okD(2) [OF ok], of a _ "\<lambda>i. unat (info_balance i)"]
    by (cases "account_get s a") (auto simp: account_get_def)
  moreover have "unat (pending_amount p) \<le> table_sum (\<lambda>p. unat (pending_amount p)) (pending s)"
    using table_sum_ge_entry [OF store_okD(3) [OF ok] p, of "\<lambda>p. unat (pending_amount p)"] .
  ultimately show ?thesis using bound by (intro unat_add_bounded) (simp add: total_supply_def)
qed

lemma total_supply_applied:
  assumes ok: "store_ok s" and eff: "effect_ok C s b sb a i ch" and ap: "store_applied C s b sb a i ch s'"
    and bound: "total_supply s < 2 ^ 128"
  shows "total_supply s' = total_supply s"
proof -
  let ?P = "table_sum (\<lambda>p. unat (pending_amount p))" and ?old = "entry_value info_balance (account_get s a)"
  note acc = total_supply_parts [OF ok ap]
  have pend: "pending s' = pending_apply ch (pending s)" using ap by (simp add: store_applied_def)
  have bal: "balanced (generate_hash C b) a ?old (info_balance i) ch (pending s)"
    and fresh: "block_get s (generate_hash C b) = None"
    using eff by (simp_all add: effect_ok_def Let_def)
  show ?thesis
  proof (cases ch)
    case Pending_none
    with acc pend bal show ?thesis by (simp add: total_supply_def)
  next
    case (Pending_add k p)
    with bal have "snd k = generate_hash C b" by simp
    with fresh store_ok_pending [OF ok, of "fst k" "snd k"] have "table_get (pending s) k = None"
      unfolding pending_get_def prod.collapse by metis
    then have "?P (pending s') = ?P (pending s) + unat (pending_amount p)"
      using table_sum_put [OF store_okD(3) [OF ok], of "\<lambda>p. unat (pending_amount p)" k p] pend Pending_add
      by simp
    moreover have "unat (info_balance i) + unat (pending_amount p) = unat ?old"
      using bal Pending_add unat_diff_add by auto
    ultimately show ?thesis using acc by (simp add: total_supply_def)
  next
    case (Pending_del k)
    with bal obtain p where p: "table_get (pending s) k = Some p" "info_balance i = ?old + pending_amount p"
      by (auto split: option.splits)
    have sum: "?P (pending s') + unat (pending_amount p) = ?P (pending s)"
      using table_sum_drop_key [OF store_okD(3) [OF ok], of "\<lambda>p. unat (pending_amount p)" k] pend Pending_del p
      by simp
    have "unat (info_balance i) = unat ?old + unat (pending_amount p)"
      unfolding p(2) by (rule collect_no_wrap [OF ok bound p(1)])
    with acc sum show ?thesis by (simp add: total_supply_def)
  qed
qed

subsection \<open>Chains and tables\<close>

lemma blocks_applied_balance:
  assumes "blocks_applied C s b sb s'" "block_get s (generate_hash C b) = None" "block_balance s h = Some v"
  shows "block_balance s' h = Some v"
  using assms by (auto simp: blocks_applied_def block_balance_def bind_eq_Some_conv)

lemma blocks_applied_exists:
  assumes "blocks_applied C s b sb s'" "block_get s h \<noteq> None"
  shows "block_get s' h \<noteq> None"
  using assms by (auto simp: blocks_applied_def)

lemma tables_ok_applied:
  assumes "store_ok s" "store_applied C s b sb a i ch s'"
  shows "tables_ok s'"
proof -
  have "table_ok (pending_apply ch (pending s))"
    using store_okD(3) [OF assms(1)] by (cases ch) auto
  moreover have "table_ok (frontiers_apply h a b old (frontiers s))" for h old
    using store_okD(4) [OF assms(1)] by (auto simp: frontiers_apply_def Let_def split: option.splits)
  ultimately show ?thesis
    using assms store_okD [OF assms(1)]
    by (auto simp: tables_ok_def store_applied_def blocks_applied_def)
qed

lemma account_get_applied:
  "store_applied C s b sb a i ch s' \<Longrightarrow> account_get s' a' = (if a' = a then Some i else account_get s a')"
  by (simp add: store_applied_def account_get_def)

lemma account_ok_applied:
  assumes ok: "store_ok s" and eff: "effect_ok C s b sb a i ch" and ap: "store_applied C s b sb a i ch s'"
    and get: "account_get s' a' = Some i'"
  shows "account_ok s' a' i'"
proof (cases "a' = a")
  case True
  then have [simp]: "i' = i" using get account_get_applied [OF ap] by simp
  have "block_balance s' (head i) = Some (info_balance i)"
    using eff ap by (simp add: effect_ok_def store_applied_def blocks_applied_def block_balance_def Let_def)
  moreover have "confirmation_height_get s' a \<noteq> None" "open_block i \<noteq> 0"
    using eff ap store_ok_account [OF ok, of a]
    by (auto simp: store_applied_def effect_ok_def Let_def confirmation_height_get_def account_ok_def
        split: option.splits if_splits)
  ultimately show ?thesis using eff True by (simp add: account_ok_def effect_ok_def Let_def)
next
  case False
  with get account_get_applied [OF ap] have "account_get s a' = Some i'" by simp
  from store_ok_account [OF ok this] False eff ap blocks_applied_balance
  show ?thesis
    by (auto simp: account_ok_def store_applied_def effect_ok_def Let_def confirmation_height_get_def)
qed

lemma frontier_ok_applied:
  assumes ok: "store_ok s" and eff: "effect_ok C s b sb a i ch" and ap: "store_applied C s b sb a i ch s'"
    and get: "table_get (frontiers s') h = Some a'"
  shows "\<exists>i'. account_get s' a' = Some i' \<and> head i' = h"
proof (cases "h = generate_hash C b \<and> type_of b \<noteq> State_type")
  case True
  then show ?thesis
    using eff ap get account_get_applied [OF ap]
    by (auto simp: store_applied_def frontiers_apply_def effect_ok_def Let_def)
next
  case False
  with ap get have old: "table_get (frontiers s) h = Some a'"
    and ne: "\<forall>j. account_get s a = Some j \<longrightarrow> h \<noteq> head j"
    by (auto simp: store_applied_def frontiers_apply_def Let_def split: option.splits if_splits)
  obtain i' where i': "account_get s a' = Some i'" "head i' = h"
    using ok old unfolding store_ok_def chains_ok_def by blast
  with ne have "a' \<noteq> a" by auto
  with i' account_get_applied [OF ap] show ?thesis by simp
qed

lemma pending_ok_applied:
  assumes ok: "store_ok s" and eff: "effect_ok C s b sb a i ch" and ap: "store_applied C s b sb a i ch s'"
    and get: "pending_get s' (a', h) \<noteq> None"
  shows "block_get s' h \<noteq> None"
proof (cases "h = generate_hash C b")
  case True
  with ap show ?thesis by (simp add: store_applied_def blocks_applied_def)
next
  case False
  with eff ap get have "pending_get s (a', h) \<noteq> None"
    by (cases ch) (auto simp: store_applied_def pending_get_def effect_ok_def Let_def split: if_splits)
  with store_ok_pending [OF ok] blocks_applied_exists ap show ?thesis
    unfolding store_applied_def by blast
qed

lemma store_ok_applied:
  assumes "store_ok s" "effect_ok C s b sb a i ch" "store_applied C s b sb a i ch s'"
  shows "store_ok s'"
proof -
  have "block_get s' 0 = None"
    using assms store_okD(6) [OF assms(1)]
    by (simp add: effect_ok_def store_applied_def blocks_applied_def Let_def)
  then show ?thesis
    using tables_ok_applied [OF assms(1,3)] account_ok_applied [OF assms] frontier_ok_applied [OF assms]
      pending_ok_applied [OF assms]
    unfolding store_ok_def chains_ok_def by blast
qed

subsection \<open>The cache\<close>

lemma delegated_applied:
  assumes "store_ok s" "store_applied C s b sb a i ch s'"
  shows "delegated s' r = delegated s r + weight_moved (account_get s a) i r"
proof -
  have "delegated s' r + entry_value (\<lambda>j. if representative j = r then info_balance j else 0) (account_get s a)
      = delegated s r + (if representative i = r then info_balance i else 0)"
    using assms table_sum_put [OF store_okD(2) [OF assms(1)],
        of "\<lambda>j. if representative j = r then info_balance j else 0" a i]
    by (simp add: delegated_def store_applied_def account_get_def)
  then show ?thesis by (simp add: weight_moved_def algebra_simps)
qed

lemma cache_agrees_applied:
  assumes "ledger_ok L" "block_applied C L b sb a i ch L'"
  shows "cache_agrees (block_count_add 1 L')"
proof -
  have ok: "store_ok (ledger_store L)" and ag: "cache_agrees L" using assms(1) by (simp_all add: ledger_ok_def)
  have ap: "store_applied C (ledger_store L) b sb a i ch (ledger_store L')"
    and ca: "cache_applied (cache L) (account_get (ledger_store L) a) i (cache L')"
    using assms(2) by (simp_all add: block_applied_def)
  have "account_count (ledger_store L') =
      (if account_get (ledger_store L) a = None then Suc (account_count (ledger_store L))
       else account_count (ledger_store L))"
    using ap length_table_put [OF store_okD(2) [OF ok]]
    by (simp add: account_count_def store_applied_def account_get_def)
  moreover have "total_blocks (ledger_store L') = Suc (total_blocks (ledger_store L))"
    using ap by (simp add: store_applied_def blocks_applied_def)
  ultimately show ?thesis
    using ag ca delegated_applied [OF ok ap]
    by (auto simp: cache_agrees_def cache_applied_def block_count_add_def)
qed

lemma ledger_ok_applied:
  assumes "ledger_ok L" "block_applied C L b sb a i ch L'"
  shows "ledger_ok (block_count_add 1 L')" "total_supply (ledger_store L') = total_supply (ledger_store L)"
proof -
  from assms have *: "store_ok (ledger_store L)" "effect_ok C (ledger_store L) b sb a i ch"
      "store_applied C (ledger_store L) b sb a i ch (ledger_store L')" "total_supply (ledger_store L) < 2 ^ 128"
    by (simp_all add: ledger_ok_def block_applied_def)
  show "total_supply (ledger_store L') = total_supply (ledger_store L)"
    by (rule total_supply_applied [OF *])
  with * store_ok_applied [OF *(1-3)] cache_agrees_applied [OF assms]
  show "ledger_ok (block_count_add 1 L')" by (simp add: ledger_ok_def block_count_add_def)
qed

subsection \<open>Processing keeps the ledger well-formed\<close>

definition process_spec :: "env \<Rightarrow> ledger \<Rightarrow> block \<Rightarrow> ledger \<times> block \<times> process_return \<Rightarrow> bool" where
  "process_spec E L b out = (case out of (L', b', r) \<Rightarrow>
     ledger_ok L' \<and> total_supply (ledger_store L') = total_supply (ledger_store L)
     \<and> (code r \<noteq> progress \<longrightarrow> L' = L \<and> b' = b))"

lemma process_meets_spec:
  assumes "ledger_ok L" "params_ok E" "hash_ok E L b"
  shows "\<exists>out. process E L b v = Some out \<and> process_spec E L b out"
proof -
  have "outcome_ok E L b (process_visit E L b (initial_result v))"
    using assms by (intro process_visit_ok) (simp_all add: ledger_ok_def)
  then obtain L' b' r where run: "process_visit E L b (initial_result v) = Some (L', b', r)"
    and post: "if code r = progress
      then \<exists>sb a i ch. b' = sideband_set sb b \<and> ret_account r = Some a \<and> block_applied (crypto_fns E) L b sb a i ch L'
        \<and> effect_shape E (ledger_store L) b sb a i ch
      else L' = L \<and> b' = b"
    unfolding outcome_ok_def by blast
  show ?thesis
  proof (cases "code r = progress")
    case True
    with post obtain sb a i ch where "block_applied (crypto_fns E) L b sb a i ch L'" by auto
    from ledger_ok_applied [OF assms(1) this] run True show ?thesis
      by (simp add: process_def process_spec_def block_count_add_def)
  next
    case False
    with run post assms(1) show ?thesis by (simp add: process_def process_spec_def)
  qed
qed

text \<open>An accepted block as the refinement describes it.\<close>

lemma process_progressE:
  assumes "ledger_ok L" "params_ok E" "hash_ok E L b" "process E L b v = Some (L', b', r)" "code r = progress"
  obtains L1 sb a i ch where "L' = block_count_add 1 L1" "b' = sideband_set sb b" "ret_account r = Some a"
    "block_applied (crypto_fns E) L b sb a i ch L1" "effect_shape E (ledger_store L) b sb a i ch"
proof -
  have "outcome_ok E L b (process_visit E L b (initial_result v))"
    using assms by (intro process_visit_ok) (simp_all add: ledger_ok_def)
  moreover obtain L1 where "process_visit E L b (initial_result v) = Some (L1, b', r)"
      "L' = block_count_add 1 L1"
    using assms(4,5) by (auto simp: process_def bind_eq_Some_conv split: if_splits)
  ultimately show ?thesis using assms(5) that by (auto simp: outcome_ok_def)
qed

text \<open>A block that is already stored is \<open>old\<close>.\<close>

lemma process_stored_old:
  assumes st: "store_ok (ledger_store L)" and pk: "params_ok E"
    and ex: "block_exists_type (ledger_store L) (type_of b) (generate_hash (crypto_fns E) b)"
    and pre: "has_predecessor b \<longrightarrow> block_get (ledger_store L) (block_previous b) \<noteq> None"
  shows "\<exists>r. process E L b v = Some (L, b, r) \<and> code r = old"
proof (cases "hashables b")
  case (State h)
  let ?r = "initial_result v"
  have impl: "process_state_impl E L b h r = reject L b r old" for r
    using ex State by (simp add: process_state_impl_def type_of_def)
  show ?thesis
  proof (cases "ledger_is_epoch_link E (state_link h)")
    case False
    then show ?thesis
      using State impl by (simp add: process_def process_visit_def process_state_def reject_def)
  next
    case True
    obtain e sg where e: "epochs_epoch (ledger_epochs (params E)) (state_link h) = Some e"
        "ledger_epoch_signer E (state_link h) = Some sg"
      by (rule epoch_link_defined [OF pk True])
    have epoch: "process_epoch_impl E L b h r = reject L b r old" for r
      using ex State e by (simp add: process_epoch_impl_def type_of_def)
    have "\<exists>eb r'. validate_epoch_block E L b h (?r\<lparr>code := progress\<rparr>) = Some (eb, r') \<and> code r' = progress"
      using pre State block_balance_defined [OF store_okD(1) [OF st], of "state_previous h"]
      by (auto simp: validate_epoch_block_def Let_def has_predecessor_def block_previous_def block_exists_iff
          ledger_balance_def)
    then show ?thesis
      using State True impl epoch by (auto simp: process_def process_visit_def process_state_def reject_def)
  qed
qed (use ex in \<open>simp_all add: process_def process_visit_def type_of_def reject_def process_send_def
      process_receive_def process_open_def process_change_def\<close>)

lemma process_twice_old:
  assumes "ledger_ok L" "params_ok E" "hash_ok E L b" "process E L b v = Some (L', b', r)" "code r = progress"
    and "params_ok F" "crypto_fns F = crypto_fns E"
  shows "\<exists>r'. process F L' b' v' = Some (L', b', r') \<and> code r' = old"
proof -
  obtain L1 sb a i ch where ap: "L' = block_count_add 1 L1" "b' = sideband_set sb b"
      "block_applied (crypto_fns E) L b sb a i ch L1"
    using process_progressE [OF assms(1-5)] by metis
  have st: "store_ok (ledger_store L')"
    using ledger_ok_applied [OF assms(1) ap(3)] ap(1) by (simp add: ledger_ok_def)
  have bl: "blocks_applied (crypto_fns E) (ledger_store L) b sb (ledger_store L')"
    using ap by (simp add: block_applied_def store_applied_def block_count_add_def)
  have "block_exists_type (ledger_store L') (type_of b) (generate_hash (crypto_fns E) b)"
    using bl by (simp add: block_exists_type_iff [OF store_okD(1) [OF st]] blocks_applied_def)
  moreover have "has_predecessor b \<longrightarrow> block_get (ledger_store L') (block_previous b) \<noteq> None"
    using ap(3) blocks_applied_exists [OF bl] by (simp add: block_applied_def effect_ok_def Let_def)
  ultimately show ?thesis
    using process_stored_old [OF st assms(6), of b'] assms(7) ap(2) by (simp add: has_predecessor_def)
qed

subsection \<open>The genesis ledger\<close>

text \<open>The genesis block opens the genesis account with the whole supply.\<close>

definition genesis_ok :: "env \<Rightarrow> block \<Rightarrow> bool" where
  "genesis_ok E g = (type_of g = Open_type \<and> generate_hash (crypto_fns E) g \<noteq> 0
     \<and> genesis_account (params E) \<noteq> 0 \<and> genesis_amount (params E) = u128_max)"

definition genesis_ledger :: "env \<Rightarrow> block \<Rightarrow> generate_cache \<Rightarrow> bool \<Rightarrow> ledger option" where
  "genesis_ledger E g gc cb = do {
     let L = make_ledger gc empty_store cb;
     (s, c) \<leftarrow> store_initialize E g (ledger_store L, cache L);
     Some (L\<lparr>ledger_store := s, cache := c\<rparr>) }"

lemma empty_store_fields [simp]:
  "accounts empty_store = []" "pending empty_store = []" "frontiers empty_store = []"
  "confirmation_heights empty_store = []" "block_counts_sum (store_block_count empty_store) = 0"
  by (simp_all add: empty_store_def block_counts_sum_def store_block_count_def)

lemma empty_store_get [simp]: "block_get empty_store h = None"
  by (simp add: block_get_def block_types_def empty_store_def)

lemma block_table_empty [simp]: "block_table t empty_store = []"
  by (cases t) (simp_all add: empty_store_def)

lemma blocks_ok_empty: "blocks_ok empty_store"
  by (simp add: blocks_ok_def block_exists_type_def)

lemma make_cache_empty: "make_cache gc empty_store = empty_cache"
  by (simp add: make_cache_def empty_store_def Let_def unchecked_count_def block_counts_sum_def
      store_block_count_def empty_cache_def)

lemma genesis_ledger_ok:
  assumes "genesis_ok E g"
  shows "\<exists>L. genesis_ledger E g gc cb = Some L \<and> ledger_ok L \<and> total_supply (ledger_store L) = 2 ^ 128 - 1"
proof -
  let ?C = "crypto_fns E" let ?h = "generate_hash ?C g" let ?a = "genesis_account (params E)"
  let ?sb = "make_sideband ?a (genesis_amount (params E)) 1 (clock_sideband E) legacy_details"
  let ?i = "\<lparr>head = ?h, representative = ?a, open_block = ?h, info_balance = u128_max,
    modified = clock_account E, block_count = 1, epoch_m = epoch_0\<rparr>"
  obtain oh where g: "hashables g = Open oh"
    using assms by (cases "hashables g") (auto simp: genesis_ok_def type_of_def)
  obtain s1 where s1: "block_put ?C empty_store ?h (sideband_set ?sb g) = Some s1"
      "blocks_applied ?C empty_store g ?sb s1" "store_rest s1 = store_rest empty_store"
    using block_put_store [OF blocks_ok_empty empty_store_get, of g] g by (auto simp: has_predecessor_def)
  note rest = store_rest_eqD [OF s1(3)]
  let ?s = "s1\<lparr>confirmation_heights := [(?a, \<lparr>conf_height = 1, conf_frontier = ?h\<rparr>)], accounts := [(?a, ?i)],
      frontiers := [(?h, ?a)]\<rparr>"
  let ?c = "empty_cache\<lparr>cache_block_count := 1, cemented_count := 1, cache_account_count := 1,
      rep_weights := [(?a, u128_max)]\<rparr>"
  let ?L = "(make_ledger gc empty_store cb)\<lparr>ledger_store := ?s, cache := ?c\<rparr>"
  have run: "genesis_ledger E g gc cb = Some ?L"
    using s1(1) rest
    by (simp add: genesis_ledger_def store_initialize_def Let_def make_ledger_def make_cache_empty
        confirmation_height_put_def account_put_def frontier_put_def empty_cache_def
        representation_put_def rep_put_def)
  have get: "block_get s1 h = (if h = ?h then Some (sideband_set (sideband_stored (type_of g) ?sb) g) else None)" for h
    using s1(2) by (simp add: blocks_applied_def)
  have bal: "block_balance ?s ?h = Some u128_max"
    using assms g by (simp add: block_balance_def get block_balance_calculated_def sideband_def sideband_stored_def
        has_sideband_balance_def make_sideband_def genesis_ok_def)
  have blk: "blocks_ok s1" "total_blocks s1 = 1"
    using s1(2) by (simp_all add: blocks_applied_def)
  have "store_ok ?s"
    using assms blk bal rest
    by (auto simp: store_ok_def tables_ok_def chains_ok_def account_ok_def account_get_def pending_get_def
        confirmation_height_get_def genesis_ok_def table_get_Cons table_ok_Cons get split: if_splits)
  moreover have "total_supply ?s = 2 ^ 128 - 1"
    using rest by (simp add: total_supply_def unat_minus_1)
  moreover have "cache_agrees ?L"
    using blk by (auto simp: cache_agrees_def delegated_def account_count_def representation_get_def rep_get_def
        table_get_Cons empty_cache_def)
  ultimately show ?thesis using run by (simp add: ledger_ok_def)
qed

subsection \<open>Reachable ledgers\<close>

text \<open>
  The ledgers that start from a genesis ledger and process blocks in any order, with whatever
  signature verification the caller reports and whatever the clock shows. Each processed block
  satisfies \<open>hash_ok\<close>: its hash is neither zero nor that of a stored block of another class.
\<close>

inductive reachable :: "crypto \<Rightarrow> ledger_params \<Rightarrow> ledger \<Rightarrow> bool" for C P where
  reachable_genesis: "crypto_fns E = C \<Longrightarrow> params E = P \<Longrightarrow> genesis_ok E g \<Longrightarrow>
     genesis_ledger E g gc cb = Some L \<Longrightarrow> reachable C P L"
| reachable_process: "reachable C P L \<Longrightarrow> crypto_fns E = C \<Longrightarrow> params E = P \<Longrightarrow> hash_ok E L b \<Longrightarrow>
     process E L b v = Some (L', b', r) \<Longrightarrow> reachable C P L'"

inductive_cases reachable_cases: "reachable C P L"

lemma params_ok_cong: "params E = params F \<Longrightarrow> params_ok E = params_ok F"
  by (simp add: params_ok_def)

lemma reachable_ok:
  assumes "reachable C P L" and "burn_account P = 0" and "table_ok (ledger_epochs P)"
  shows "ledger_ok L \<and> total_supply (ledger_store L) = 2 ^ 128 - 1"
  using assms
proof (induction rule: reachable.induct)
  case (reachable_genesis E g gc cb L)
  then show ?case using genesis_ledger_ok [of E g gc cb] by simp
next
  case (reachable_process L E b v L' b' r)
  then have "params_ok E" by (simp add: params_ok_def)
  with reachable_process process_meets_spec [of L E b v] show ?case
    by (auto simp: process_spec_def)
qed

end
