(* ===== verification/Ledger_Checks.thy ===== *)
theory Ledger_Checks
  imports Ledger_Spec
begin

text \<open>
  What a result code of \<open>process\<close> says, in any ledger, well-formed or not: a rejected block leaves
  everything as it was, an accepted one carries a signature of the account's owner (or, for an epoch
  block, of the epoch's signer) and enough work for the details recorded in its sideband.
\<close>

definition outcome_post :: "(ledger \<Rightarrow> block \<Rightarrow> process_return \<Rightarrow> bool) \<Rightarrow> outcome \<Rightarrow> bool" where
  "outcome_post P out = (\<forall>L b r. out = Some (L, b, r) \<longrightarrow> P L b r)"

lemma outcome_postD: "outcome_post P out \<Longrightarrow> out = Some (L, b, r) \<Longrightarrow> P L b r"
  by (simp add: outcome_post_def)

lemma post_Some: "P L b r \<Longrightarrow> outcome_post P (Some (L, b, r))"
  by (simp add: outcome_post_def)

lemma post_reject: "P L b (r\<lparr>code := c\<rparr>) \<Longrightarrow> outcome_post P (reject L b r c)"
  by (simp add: outcome_post_def reject_def)

lemma post_if: "(c \<Longrightarrow> outcome_post P x) \<Longrightarrow> (\<not> c \<Longrightarrow> outcome_post P y) \<Longrightarrow> outcome_post P (if c then x else y)"
  by simp

lemma post_case:
  "(m = None \<Longrightarrow> outcome_post P x) \<Longrightarrow> (\<And>v. m = Some v \<Longrightarrow> outcome_post P (f v)) \<Longrightarrow>
     outcome_post P (case m of None \<Rightarrow> x | Some v \<Rightarrow> f v)"
  by (cases m) simp_all

lemma post_prod: "(\<And>x y. p = (x, y) \<Longrightarrow> outcome_post P (f x y)) \<Longrightarrow> outcome_post P (case p of (x, y) \<Rightarrow> f x y)"
  by (cases p) simp

lemma post_bind: "(\<And>x. m = Some x \<Longrightarrow> outcome_post P (f x)) \<Longrightarrow> outcome_post P (m \<bind> f)"
  by (cases m) (simp_all add: outcome_post_def)

lemmas post_intros = post_if post_case post_prod post_bind post_reject post_Some

lemmas handler_defs = process_send_def process_receive_def process_open_def process_change_def
  process_state_impl_def process_epoch_impl_def

definition unchanged_unless_progress :: "ledger \<Rightarrow> block \<Rightarrow> ledger \<Rightarrow> block \<Rightarrow> process_return \<Rightarrow> bool" where
  "unchanged_unless_progress L b L' b' r = (code r \<noteq> progress \<longrightarrow> L' = L \<and> b' = b)"

lemma process_visit_unchanged:
  "outcome_post (unchanged_unless_progress L b) (process_visit E L b r)"
proof -
  have state: "outcome_post (unchanged_unless_progress L b) (process_state_impl E L b h r)" for h r
    unfolding process_state_impl_def Let_def
    by (intro post_intros) (auto simp: unchanged_unless_progress_def)
  have epoch: "outcome_post (unchanged_unless_progress L b) (process_epoch_impl E L b h r)" for h r
    unfolding process_epoch_impl_def Let_def
    by (intro post_intros) (auto simp: unchanged_unless_progress_def)
  have "outcome_post (unchanged_unless_progress L b) (process_state E L b h r)" for h
    unfolding process_state_def Let_def
    by (intro post_intros state epoch) (auto simp: unchanged_unless_progress_def)
  moreover have "outcome_post (unchanged_unless_progress L b) (process_send E L b h r)" for h
    unfolding process_send_def Let_def by (intro post_intros) (auto simp: unchanged_unless_progress_def)
  moreover have "outcome_post (unchanged_unless_progress L b) (process_receive E L b h r)" for h
    unfolding process_receive_def Let_def by (intro post_intros) (auto simp: unchanged_unless_progress_def)
  moreover have "outcome_post (unchanged_unless_progress L b) (process_open E L b h r)" for h
    unfolding process_open_def Let_def by (intro post_intros) (auto simp: unchanged_unless_progress_def)
  moreover have "outcome_post (unchanged_unless_progress L b) (process_change E L b h r)" for h
    unfolding process_change_def Let_def by (intro post_intros) (auto simp: unchanged_unless_progress_def)
  ultimately show ?thesis by (simp add: process_visit_def split: block_hashables.split)
qed

subsection \<open>Signatures and work of an accepted block\<close>

text \<open>Signed by the account, or an epoch block signed by the signer of its epoch.\<close>

definition authorised :: "env \<Rightarrow> block \<Rightarrow> account \<Rightarrow> bool" where
  "authorised E b a =
     (let C = crypto_fns E; h = generate_hash C b in
      \<not> validate_message C a h (block_signature b)
      \<or> (ledger_is_epoch_link E (block_link b)
         \<and> (case ledger_epoch_signer E (block_link b) of
              None \<Rightarrow> False | Some sg \<Rightarrow> \<not> validate_message C sg h (block_signature b))))"

definition accepted_checks ::
    "env \<Rightarrow> signature_verification \<Rightarrow> block \<Rightarrow> ledger \<Rightarrow> block \<Rightarrow> process_return \<Rightarrow> bool" where
  "accepted_checks E v b L' b' r =
     (code r = progress \<longrightarrow>
        (\<exists>a. ret_account r = Some a \<and> (v = Sig_valid \<or> v = Sig_valid_epoch \<or> authorised E b a))
        \<and> (\<exists>sb. sideband b' = Some sb \<and> sufficient_work E b (details sb)))"

lemmas check_defs = accepted_checks_def authorised_def bad_signature_for_def make_sideband_def sideband_def Let_def

lemma process_state_impl_checks:
  "outcome_post (accepted_checks E (verified r) b) (process_state_impl E L b h r)"
  unfolding process_state_impl_def Let_def
  by (intro post_intros) (auto simp: check_defs)

lemma process_epoch_impl_checks:
  assumes "hashables b = State h" "ledger_is_epoch_link E (state_link h)"
  shows "outcome_post (accepted_checks E (verified r) b) (process_epoch_impl E L b h r)"
  unfolding process_epoch_impl_def Let_def
  by (intro post_intros) (use assms in \<open>auto simp: check_defs block_link_def\<close>)

lemma validate_epoch_block_verified:
  "validate_epoch_block E L b h r = Some (eb, r') \<Longrightarrow> code r' = progress \<Longrightarrow> code r = progress \<Longrightarrow> verified r' = verified r"
  by (auto simp: validate_epoch_block_def Let_def bind_eq_Some_conv split: if_splits)

lemma process_state_checks:
  assumes "hashables b = State h"
  shows "outcome_post (accepted_checks E (verified r) b) (process_state E L b h r)"
proof (cases "ledger_is_epoch_link E (state_link h)")
  case False
  then show ?thesis
    using process_state_impl_checks [of E "r\<lparr>code := progress\<rparr>" b L h] by (simp add: process_state_def)
next
  case True
  show ?thesis
    unfolding process_state_def Let_def
  proof (intro post_bind post_prod post_if)
    fix x eb r'
    assume x: "(if ledger_is_epoch_link E (state_link h) then validate_epoch_block E L b h (r\<lparr>code := progress\<rparr>)
        else Some (False, r\<lparr>code := progress\<rparr>)) = Some x" "x = (eb, r')"
    show "outcome_post (accepted_checks E (verified r) b) (process_epoch_impl E L b h r')" if "code r' = progress"
      using process_epoch_impl_checks [OF assms True, of r' L] validate_epoch_block_verified [of E L b h _ eb r'] x True that
      by simp
    show "outcome_post (accepted_checks E (verified r) b) (process_state_impl E L b h r')" if "code r' = progress"
      using process_state_impl_checks [of E r' b L h] validate_epoch_block_verified [of E L b h _ eb r'] x True that
      by simp
    show "outcome_post (accepted_checks E (verified r) b) (Some (L, b, r'))" if "code r' \<noteq> progress"
      using that by (simp add: outcome_post_def accepted_checks_def)
  qed
qed

lemma process_visit_checks: "outcome_post (accepted_checks E (verified r) b) (process_visit E L b r)"
proof -
  have "outcome_post (accepted_checks E (verified r) b) (process_send E L b h r)" for h
    unfolding process_send_def Let_def by (intro post_intros) (auto simp: check_defs)
  moreover have "outcome_post (accepted_checks E (verified r) b) (process_receive E L b h r)" for h
    unfolding process_receive_def Let_def by (intro post_intros) (auto simp: check_defs)
  moreover have "outcome_post (accepted_checks E (verified r) b) (process_open E L b h r)" for h
    unfolding process_open_def Let_def by (intro post_intros) (auto simp: check_defs)
  moreover have "outcome_post (accepted_checks E (verified r) b) (process_change E L b h r)" for h
    unfolding process_change_def Let_def by (intro post_intros) (auto simp: check_defs)
  ultimately show ?thesis
    using process_state_checks by (simp add: process_visit_def split: block_hashables.split)
qed

lemma process_post:
  assumes "outcome_post P (process_visit E L b (initial_result v))" "process E L b v = Some (L', b', r)"
  shows "\<exists>L1. P L1 b' r \<and> L' = (if code r = progress then block_count_add 1 L1 else L1)"
  using assms by (auto simp: process_def outcome_post_def bind_eq_Some_conv)

end
