(* ===== verification/Ledger_Queries.thy ===== *)
theory Ledger_Queries
  imports Ledger_Invariant Ledger_Checks
begin

text \<open>
  The queries of the ledger: the amount pending for an account, the dependencies of a block, the
  walks along a chain, and the cache rebuilt from the tables when a ledger is opened.
\<close>

subsection \<open>Amounts pending for an account\<close>

lemma dropWhile_sorted_step:
  fixes t :: "('k::linorder \<times> 'v) list"
  assumes "sorted_wrt (<) (map fst t)" "\<And>e. e \<in> set t \<Longrightarrow> fst e < k' \<longleftrightarrow> fst e < k \<or> P (fst e)"
    and "\<And>e. e \<in> set t \<Longrightarrow> P (fst e) \<Longrightarrow> \<not> fst e < k"
  shows "dropWhile (\<lambda>e. fst e < k') t = dropWhile (\<lambda>e. P (fst e)) (dropWhile (\<lambda>e. fst e < k) t)"
  using assms
proof (induction t)
  case (Cons e t)
  show ?case
  proof (cases "fst e < k")
    case True
    with Cons show ?thesis by simp
  next
    case False
    have "\<not> fst e' < k" if "e' \<in> set t" for e'
      using that False Cons.prems(1) by force
    then have "dropWhile (\<lambda>e. fst e < k) t = t" by (cases t) auto
    with False Cons show ?thesis by simp
  qed
qed simp

lemma table_lower_bound_split:
  fixes t :: "('a::len word \<times> 'w::len word, 'v) table"
  assumes "table_ok t" "a \<noteq> - 1"
  shows "table_lower_bound t (a, 0) = filter (\<lambda>e. fst (fst e) = a) t @ table_lower_bound t (a + 1, 0)"
proof -
  have "table_lower_bound t (a + 1, 0) = dropWhile (\<lambda>e. fst (fst e) = a) (table_lower_bound t (a, 0))"
    unfolding table_lower_bound_def
    using assms(1) word_less_plus_one [OF assms(2)] by (intro dropWhile_sorted_step) (auto simp: table_ok_def less_prod_def)
  then show ?thesis
    using table_prefix_scan [OF assms(1), of a] by (metis takeWhile_dropWhile_id)
qed

lemma pending_sum_until_self [simp]: "pending_sum_until (length t) t acc = Some acc"
  by (cases t) auto

lemma pending_sum_until_prefix:
  "pending_sum_until (length ys) (xs @ ys) acc = Some (acc + table_sum pending_amount xs)"
  by (induction xs arbitrary: acc) (auto simp: add.assoc)

lemma account_pending_sum:
  assumes "table_ok (pending (ledger_store L))" "a \<noteq> - 1"
  shows "account_pending L a = Some (table_sum pending_amount (filter (\<lambda>e. fst (fst e) = a) (pending (ledger_store L))))"
  unfolding account_pending_def Let_def table_lower_bound_split [OF assms] pending_sum_until_prefix by simp

text \<open>
  The account with the highest number has no successor: the end position wraps to the first entry
  of the table, which the iterator only meets when it starts there.
\<close>

lemma pending_sum_until_over:
  "length t < n \<Longrightarrow> pending_sum_until n t acc = None"
  by (induction t arbitrary: acc) auto

lemma account_pending_last:
  "account_pending L (- 1) =
     (let t = pending (ledger_store L)
      in if length (table_lower_bound t (- 1, 0)) = length t then Some 0 else None)"
proof -
  let ?t = "pending (ledger_store L)"
  have all: "table_lower_bound ?t (0, 0) = ?t"
    by (intro table_lower_bound_all) (auto simp: less_prod_def)
  have le: "length (table_lower_bound ?t k) \<le> length ?t" for k
    by (simp add: table_lower_bound_def length_dropWhile_le)
  show ?thesis
  proof (cases "length (table_lower_bound ?t (- 1, 0)) = length ?t")
    case True
    then show ?thesis
      using pending_sum_until_self [of "table_lower_bound ?t (- 1, 0)" 0]
      by (simp add: account_pending_def all Let_def)
  next
    case False
    with le [of "(- 1, 0)"] have "length (table_lower_bound ?t (- 1, 0)) < length ?t" by simp
    from pending_sum_until_over [OF this] False show ?thesis
      by (simp add: account_pending_def all Let_def)
  qed
qed

subsection \<open>The cache rebuilt from the tables\<close>

lemma cache_accounts_fold:
  fixes c :: ledger_cache
  defines "c' \<equiv> \<lambda>t. foldl (\<lambda>c e. cache_account c (snd e)) c t"
  shows "representation_get (rep_weights (c' t)) r = representation_get (rep_weights c) r
      + table_sum (\<lambda>i. if representative i = r then info_balance i else 0) t"
    and "cache_account_count (c' t) = cache_account_count c + of_nat (length t)"
    and "epoch_2_started (c' t) \<longleftrightarrow> epoch_2_started c \<or> (\<exists>e \<in> set t. epoch_m (snd e) = epoch_2)"
  unfolding c'_def by (induction t arbitrary: c) (auto simp: cache_account_def add.assoc add.commute)

lemma cemented_fold:
  fixes c :: ledger_cache
  shows "foldl (\<lambda>c e. c\<lparr>cemented_count := cemented_count c + conf_height (snd e)\<rparr>) c t
    = c\<lparr>cemented_count := cemented_count c + table_sum conf_height t\<rparr>"
  by (induction t arbitrary: c) (simp_all add: add.assoc)

lemma make_cache_agrees:
  assumes "gen_reps g \<or> gen_account_count g \<or> gen_epoch_2 g"
  shows "cache_agrees (make_ledger g s cb)"
  using assms cache_accounts_fold [of empty_cache "accounts s"]
  by (simp add: cache_agrees_def make_ledger_def make_cache_def Let_def cemented_fold delegated_def
      account_count_def empty_cache_def representation_get_def rep_get_def)

subsection \<open>Dependencies\<close>

definition fits_if_progress :: "env \<Rightarrow> ledger \<Rightarrow> block \<Rightarrow> ledger \<Rightarrow> block \<Rightarrow> process_return \<Rightarrow> bool" where
  "fits_if_progress E L b L' b' r = (code r = progress \<longrightarrow> could_fit E L b = Some True)"

lemma state_accepted_fits:
  assumes ok: "store_ok (ledger_store L)" and hb: "hashables b = State h" and ns: "sideband b = None"
    and pos: "state_position (ledger_store L) h r = (r', amt, sending, rcv)" "code r' = progress"
    and lnk: "state_link_check (ledger_store L) h amt sending e = (progress, e')"
  shows "could_fit E L b = Some True"
proof (cases "account_get (ledger_store L) (state_account h)")
  case None
  then have "state_previous h = 0" "\<not> sending" "state_link h \<noteq> 0"
    using state_position_progress [OF pos] by simp_all
  moreover have "source_exists (ledger_store L) (state_link h)"
    using lnk \<open>\<not> sending\<close> \<open>state_link h \<noteq> 0\<close> by (auto simp: state_link_check_def split: if_splits)
  ultimately show ?thesis
    using hb ns store_okD(6) [OF ok] source_exists_block
    by (auto simp: could_fit_def dependent_blocks_def has_sideband_def sideband_def block_exists_iff)
next
  case (Some i)
  then have p: "state_previous h = head i" "state_previous h \<noteq> 0" "block_get (ledger_store L) (state_previous h) \<noteq> None"
      "sending = (state_balance h < info_balance i)"
    using state_position_progress [OF pos] by auto
  have "block_balance (ledger_store L) (head i) = Some (info_balance i)"
    using store_ok_account [OF ok Some] by (simp add: account_ok_def)
  then have "ledger_is_send L b h = Some sending"
    using p ns by (simp add: ledger_is_send_def ledger_balance_def)
  moreover have "sending \<or> state_link h = 0 \<or> source_exists (ledger_store L) (state_link h)"
    using lnk by (auto simp: state_link_check_def split: if_splits)
  ultimately show ?thesis
    using hb p source_exists_block
    by (auto simp: could_fit_def dependent_blocks_def block_exists_iff)
qed

lemma process_state_impl_fits:
  assumes "store_ok (ledger_store L)" "hashables b = State h" "sideband b = None"
  shows "outcome_post (fits_if_progress E L b) (process_state_impl E L b h r)"
  unfolding process_state_impl_def Let_def
  by (intro post_intros) (use state_accepted_fits [OF assms] in \<open>auto simp: fits_if_progress_def\<close>)

lemma process_state_fits:
  assumes "store_ok (ledger_store L)" "hashables b = State h" "sideband b = None"
  shows "outcome_post (fits_if_progress E L b) (process_state E L b h r)"
proof (cases "ledger_is_epoch_link E (state_link h)")
  case False
  then show ?thesis
    using process_state_impl_fits [OF assms] by (simp add: process_state_def)
next
  case True
  have fit: "could_fit E L b = Some True"
    if "validate_epoch_block E L b h (r\<lparr>code := progress\<rparr>) = Some (eb, r')" "code r' = progress" for eb r'
    using that True assms(2)
    by (auto simp: validate_epoch_block_def Let_def could_fit_def dependent_blocks_def bind_eq_Some_conv split: if_splits)
  show ?thesis
    unfolding outcome_post_def
  proof (intro allI impI)
    fix L' b' s
    assume run: "process_state E L b h r = Some (L', b', s)"
    then obtain eb r' where v: "validate_epoch_block E L b h (r\<lparr>code := progress\<rparr>) = Some (eb, r')"
      using True by (auto simp: process_state_def bind_eq_Some_conv)
    show "fits_if_progress E L b L' b' s"
    proof (cases "code r' = progress")
      case True
      with fit [OF v] show ?thesis by (simp add: fits_if_progress_def)
    next
      case False
      with run v True show ?thesis by (auto simp: process_state_def fits_if_progress_def)
    qed
  qed
qed

lemma process_visit_fits:
  assumes ok: "store_ok (ledger_store L)" and ns: "sideband b = None"
  shows "outcome_post (fits_if_progress E L b) (process_visit E L b r)"
proof -
  note d = fits_if_progress_def could_fit_def dependent_blocks_def block_exists_iff
  have src: "block_get (ledger_store L) h \<noteq> None" if "source_exists (ledger_store L) h" for h
    using that by (rule source_exists_block)
  have send: "outcome_post (fits_if_progress E L b) (process_send E L b h r)" if "hashables b = Send h" for h
    unfolding process_send_def Let_def by (intro post_intros) (use that in \<open>auto simp: d\<close>)
  have change: "outcome_post (fits_if_progress E L b) (process_change E L b h r)" if "hashables b = Change h" for h
    unfolding process_change_def Let_def by (intro post_intros) (use that in \<open>auto simp: d\<close>)
  have receive: "outcome_post (fits_if_progress E L b) (process_receive E L b h r)" if "hashables b = Receive h" for h
    unfolding process_receive_def Let_def by (intro post_intros) (use that src in \<open>auto simp: d\<close>)
  have opn: "outcome_post (fits_if_progress E L b) (process_open E L b h r)" if "hashables b = Open h" for h
    unfolding process_open_def Let_def by (intro post_intros) (use that src in \<open>auto simp: d\<close>)
  show ?thesis
    using send change receive opn process_state_fits [OF ok _ ns]
    by (simp add: process_visit_def split: block_hashables.split)
qed

subsection \<open>Walking a chain\<close>

text \<open>
  \<open>backtrack\<close> stops at the first block of a chain or after the given number of steps; both are reached
  through stored predecessors only.
\<close>

inductive chain_back :: "store \<Rightarrow> nat \<Rightarrow> block \<Rightarrow> block \<Rightarrow> bool" for s where
  chain_here: "chain_back s 0 b b"
| chain_step: "block_previous b \<noteq> 0 \<Longrightarrow> block_get s (block_previous b) = Some p \<Longrightarrow> chain_back s n p c
    \<Longrightarrow> chain_back s (Suc n) b c"

inductive_cases chain_back_SucE: "chain_back s (Suc n) b c"
inductive_cases chain_back_0E: "chain_back s 0 b c"

lemma backtrack_chain:
  assumes "chain_back (ledger_store L) n b c" "n = jumps \<or> (n < jumps \<and> block_previous c = 0)"
  shows "backtrack L (Some b) jumps = Some c"
  using assms
proof (induction arbitrary: jumps)
  case (chain_here b)
  then show ?case by (cases jumps) auto
next
  case (chain_step b p n c)
  then show ?case by (cases jumps) auto
qed

lemma backtrack_sound:
  assumes "backtrack L (Some b) jumps = Some c"
  shows "\<exists>n \<le> jumps. chain_back (ledger_store L) n b c \<and> (n = jumps \<or> block_previous c = 0)"
  using assms
proof (induction jumps arbitrary: b)
  case 0
  then show ?case by (auto intro: chain_back.intros)
next
  case (Suc jumps)
  show ?case
  proof (cases "block_previous b = 0")
    case True
    with Suc.prems show ?thesis by (auto intro: chain_back.intros)
  next
    case False
    with Suc.prems obtain p where p: "block_get (ledger_store L) (block_previous b) = Some p"
      by (cases "block_get (ledger_store L) (block_previous b)") auto
    with False Suc.prems have "backtrack L (Some p) jumps = Some c" by simp
    from Suc.IH [OF this] False p show ?thesis by (auto intro: chain_back.intros)
  qed
qed

end
