(* ===== verification/Elections.thy ===== *)
theory Elections
  imports Blocks "HOL-Library.AList" "HOL-Library.Multiset"
begin

text \<open>
  Elections (\<open>futurehead/node/election.cpp\<close>): the life of one election, the votes it has seen, the tally and
  the quorum. What an election asks of the node (weights, stake, configuration, clocks, vote caches, the
  solicitor's answers) is the record \<open>node_view\<close>, read anew at each call; what it makes the node do is a list of
  effects, in the order of the calls. Times are nanoseconds. The order in which an unordered map is
  traversed is not specified; it is the member \<open>hash_order\<close>.
\<close>

section \<open>The code\<close>

datatype state_t = Idle | Passive | Active | Broadcasting | Backtracking | Confirmed | Expired_confirmed | Expired_unconfirmed

datatype election_status_type = Ongoing | Active_confirmed_quorum | Active_confirmation_height | Inactive_confirmation_height | Stopped

record vote_info =
  vi_time :: int
  vi_sequence :: u64
  vi_hash :: block_hash

record election_status =
  winner :: block
  status_tally :: u128
  election_end :: int
  election_duration :: int
  status_request_count :: u32
  block_count :: u32
  voter_count :: u32
  status_type :: election_status_type

record election =
  state_m :: state_t
  prioritized_m :: bool
  state_start :: int
  last_block :: int
  last_req :: int
  election_start :: int
  last_votes :: "(account \<times> vote_info) list"
  election_blocks :: "(block_hash \<times> block) list"
  status :: election_status
  confirmation_request_count :: u32
  last_tally :: "(block_hash \<times> u128) list"
  dependent_set :: "block_hash list"
  election_height :: u64

record node_view =
  crypto_of :: crypto
  weight :: "account \<Rightarrow> u128"
  online_stake :: u128
  online_weight_minimum :: u128
  online_weight_quorum :: u32
  principal_weight_factor :: u32
  is_test_network :: bool
  not_an_account :: account
  steady_now :: int
  system_now :: int
  voting_enabled :: bool
  generated_votes :: "block_hash \<Rightarrow> account list"
  inactive_voters :: "block_hash \<Rightarrow> account list"
  inactive_arrival :: "block_hash \<Rightarrow> int"
  winner_details :: "block_hash \<Rightarrow> bool"
  view_epoch_link :: "link \<Rightarrow> bool"
  hash_order :: "(block_hash \<times> u128) list \<Rightarrow> (block_hash \<times> u128) list"
  solicitor_add :: bool
  solicitor_broadcast :: bool

datatype effect =
    Add_dependent block_hash block_hash
  | Generate_votes block_hash
  | Stat_inc string u64
  | Force_block block
  | Adjust_difficulty block_hash
  | Add_winner_details block_hash
  | Add_recently_confirmed "block_hash \<times> root" block_hash
  | Process_confirmed election_status
  | Confirmation_action block
  | Flood_block block
  | Remove_votes_cache block_hash
  | Pending_dependency block_hash u64
  | Erase_active block_hash
  | Erase_inactive_votes block_hash
  | Notify_stopped block_hash
  | Recently_dropped "block_hash \<times> root"
  | Clear_filter block

abbreviation hash_of :: "node_view \<Rightarrow> block \<Rightarrow> block_hash" where
  "hash_of V b \<equiv> generate_hash (crypto_of V) b"

definition milliseconds :: "int \<Rightarrow> int" where "milliseconds n = n * 1000000"
definition seconds :: "int \<Rightarrow> int" where "seconds n = n * 1000000000"

text \<open>\<open>steady_clock::time_point::min ()\<close>\<close>

definition time_point_min :: int where "time_point_min = - (2 ^ 63)"

definition base_latency :: "node_view \<Rightarrow> int" where
  "base_latency V = (if is_test_network V then milliseconds 25 else milliseconds 1000)"

subsection \<open>The state machine\<close>

text \<open>
  The cases from \<open>active\<close> on have no \<open>break\<close>: each goes on with the next one, which can only set the
  result to true.
\<close>

definition change_from_confirmed :: "state_t \<Rightarrow> bool" where
  "change_from_confirmed desired = (desired = Expired_confirmed)"

definition change_from_backtracking :: "state_t \<Rightarrow> bool" where
  "change_from_backtracking desired = (desired \<in> {Idle, Confirmed, Expired_unconfirmed} \<or> change_from_confirmed desired)"

definition change_from_broadcasting :: "state_t \<Rightarrow> bool" where
  "change_from_broadcasting desired =
     (desired \<in> {Idle, Backtracking, Confirmed, Expired_unconfirmed} \<or> change_from_backtracking desired)"

fun valid_change :: "state_t \<Rightarrow> state_t \<Rightarrow> bool" where
  "valid_change Idle desired = (desired \<in> {Passive, Active})"
| "valid_change Passive desired = (desired \<in> {Idle, Active, Confirmed, Expired_unconfirmed})"
| "valid_change Active desired =
     (desired \<in> {Idle, Broadcasting, Confirmed, Expired_unconfirmed} \<or> change_from_broadcasting desired)"
| "valid_change Broadcasting desired = change_from_broadcasting desired"
| "valid_change Backtracking desired = change_from_backtracking desired"
| "valid_change Confirmed desired = change_from_confirmed desired"
| "valid_change Expired_unconfirmed desired = False"
| "valid_change Expired_confirmed desired = False"

text \<open>The result is true when the state was not changed.\<close>

definition state_change :: "node_view \<Rightarrow> state_t \<Rightarrow> state_t \<Rightarrow> election \<Rightarrow> bool \<times> election" where
  "state_change V expected desired e =
     (if valid_change expected desired then
        (if state_m e = expected then (False, e\<lparr>state_m := desired, state_start := steady_now V\<rparr>) else (True, e))
      else (True, e))"

definition transition_passive :: "node_view \<Rightarrow> election \<Rightarrow> election" where
  "transition_passive V e = snd (state_change V Idle Passive e)"

definition transition_active :: "node_view \<Rightarrow> election \<Rightarrow> election" where
  "transition_active V e = snd (state_change V Idle Active e)"

definition idle :: "election \<Rightarrow> bool" where
  "idle e = (state_m e = Idle)"

definition confirmed :: "election \<Rightarrow> bool" where
  "confirmed e = (state_m e = Confirmed \<or> state_m e = Expired_confirmed)"

definition send_confirm_req :: "node_view \<Rightarrow> election \<Rightarrow> election" where
  "send_confirm_req V e =
     (if base_latency V * 5 < steady_now V - last_req e then
        (if \<not> solicitor_add V
         then e\<lparr>last_req := steady_now V, confirmation_request_count := confirmation_request_count e + 1\<rparr> else e)
      else e)"

definition broadcast_block :: "node_view \<Rightarrow> election \<Rightarrow> election" where
  "broadcast_block V e =
     (if base_latency V * 15 < steady_now V - last_block e then
        (if \<not> solicitor_broadcast V then e\<lparr>last_block := steady_now V\<rparr> else e)
      else e)"

subsection \<open>The tally\<close>

type_synonym tally_t = "(u128 \<times> block) list"

text \<open>\<open>tally_t\<close> is a map from weights to blocks, greatest weight first: \<open>emplace\<close> keeps the block that is there.\<close>

fun tally_emplace :: "u128 \<Rightarrow> block \<Rightarrow> tally_t \<Rightarrow> tally_t" where
  "tally_emplace w b [] = [(w, b)]"
| "tally_emplace w b ((w', b') # t) =
     (if w > w' then (w, b) # (w', b') # t else if w = w' then (w', b') # t else (w', b') # tally_emplace w b t)"

fun block_weights_add :: "block_hash \<Rightarrow> u128 \<Rightarrow> (block_hash \<times> u128) list \<Rightarrow> (block_hash \<times> u128) list" where
  "block_weights_add h w [] = [(h, w)]"
| "block_weights_add h w ((h', w') # xs) = (if h = h' then (h', w' + w) # xs else (h', w') # block_weights_add h w xs)"

fun block_weights :: "(account \<Rightarrow> u128) \<Rightarrow> (account \<times> vote_info) list \<Rightarrow> (block_hash \<times> u128) list" where
  "block_weights wt [] = []"
| "block_weights wt ((a, i) # vs) = block_weights_add (vi_hash i) (wt a) (block_weights wt vs)"

fun tally_collect :: "(block_hash \<times> block) list \<Rightarrow> (block_hash \<times> u128) list \<Rightarrow> tally_t \<Rightarrow> tally_t" where
  "tally_collect bs [] t = t"
| "tally_collect bs ((h, w) # ws) t =
     tally_collect bs ws (case map_of bs h of Some b \<Rightarrow> tally_emplace w b t | None \<Rightarrow> t)"

definition tally :: "node_view \<Rightarrow> election \<Rightarrow> tally_t \<times> election" where
  "tally V e =
     (let ws = block_weights (weight V) (last_votes e)
      in (tally_collect (election_blocks e) (hash_order V ws) [], e\<lparr>last_tally := ws\<rparr>))"

text \<open>\<open>node::delta\<close>, \<open>node::minimum_principal_weight\<close>\<close>

definition delta :: "node_view \<Rightarrow> u128" where
  "delta V = (online_stake V div 100) * ucast (online_weight_quorum V)"

definition minimum_principal_weight :: "node_view \<Rightarrow> u128" where
  "minimum_principal_weight V = online_stake V div ucast (principal_weight_factor V)"

text \<open>The addition is at 128 bits. The first entry of an empty tally does not exist.\<close>

definition have_quorum :: "node_view \<Rightarrow> tally_t \<Rightarrow> u128 \<Rightarrow> bool option" where
  "have_quorum V t tally_sum =
     (if tally_sum \<ge> online_weight_minimum V then
        (case t of
           [] \<Rightarrow> None
         | (first, _) # rest \<Rightarrow>
             let second = (case rest of [] \<Rightarrow> 0 | (w, _) # _ \<Rightarrow> w) in Some (first > second + delta V))
      else Some False)"

subsection \<open>Confirmation\<close>

definition adjust_dependent_difficulty :: "election \<Rightarrow> effect list" where
  "adjust_dependent_difficulty e = map Adjust_difficulty (dependent_set e)"

definition confirm_once :: "node_view \<Rightarrow> election_status_type \<Rightarrow> election \<Rightarrow> election \<times> effect list" where
  "confirm_once V type_a e =
     (let old = state_m e; e = e\<lparr>state_m := Confirmed\<rparr>; w = winner (status e) in
      if old \<noteq> Confirmed \<and> \<not> winner_details V (hash_of V w) then
        let s = (status e)\<lparr>election_end := system_now V, election_duration := steady_now V - election_start e,
              status_request_count := confirmation_request_count e, block_count := of_nat (length (election_blocks e)),
              voter_count := of_nat (length (last_votes e)), status_type := type_a\<rparr>
        in (e\<lparr>status := s\<rparr>, [Add_winner_details (hash_of V w), Add_recently_confirmed (qualified_root w) (hash_of V w),
              Process_confirmed s, Confirmation_action w] @ adjust_dependent_difficulty e)
      else (e, []))"

definition remove_votes :: "node_view \<Rightarrow> block_hash \<Rightarrow> election \<Rightarrow> election \<times> effect list" where
  "remove_votes V h e =
     (if voting_enabled V
      then (e\<lparr>last_votes := filter (\<lambda>(a, _). a \<notin> set (generated_votes V h)) (last_votes e)\<rparr>, [Remove_votes_cache h])
      else (e, []))"

definition generate_votes :: "node_view \<Rightarrow> block_hash \<Rightarrow> effect list" where
  "generate_votes V h = (if voting_enabled V then [Generate_votes h] else [])"

text \<open>The elections of the blocks that are searched add the winner to their dependent blocks.\<close>

definition update_dependent :: "node_view \<Rightarrow> election \<Rightarrow> effect list" where
  "update_dependent V e =
     (let b = winner (status e);
          blocks_search = (if block_previous b \<noteq> 0 then [block_previous b] else [])
            @ (if block_source b \<noteq> 0 \<and> block_source b \<noteq> block_previous b then [block_source b] else [])
            @ (if block_link b \<noteq> 0 \<and> \<not> view_epoch_link V (block_link b) \<and> block_link b \<noteq> block_previous b then [block_link b] else [])
      in map (\<lambda>s. Add_dependent s (hash_of V b)) blocks_search)"

text \<open>The leading block replaces the winner once enough weight has voted.\<close>

definition adopt_winner :: "node_view \<Rightarrow> block \<Rightarrow> u128 \<Rightarrow> election \<Rightarrow> election \<times> effect list" where
  "adopt_winner V block_l tally_sum e =
     (let status_winner_hash = hash_of V (winner (status e)) in
      if tally_sum \<ge> online_weight_minimum V \<and> hash_of V block_l \<noteq> status_winner_hash then
        let e = e\<lparr>status := (status e)\<lparr>winner := block_l\<rparr>\<rparr>; (e, fx) = remove_votes V status_winner_hash e
        in (e, fx @ [Force_block block_l] @ update_dependent V e @ [Adjust_difficulty (hash_of V block_l)])
      else (e, []))"

definition confirm_if_quorum :: "node_view \<Rightarrow> election \<Rightarrow> (election \<times> effect list) option" where
  "confirm_if_quorum V e =
     (let (tally_l, e) = tally V e in
      case tally_l of
        [] \<Rightarrow> None
      | (w, block_l) # _ \<Rightarrow>
          let e = e\<lparr>status := (status e)\<lparr>status_tally := w\<rparr>\<rparr>;
              tally_sum = sum_list (map fst tally_l);
              (e, fx) = adopt_winner V block_l tally_sum e
          in (case have_quorum V tally_l tally_sum of
                None \<Rightarrow> None
              | Some False \<Rightarrow> Some (e, fx)
              | Some True \<Rightarrow> let (e, fx') = confirm_once V Active_confirmed_quorum e in Some (e, fx @ fx')))"

subsection \<open>Votes\<close>

definition vote_cooldown :: "node_view \<Rightarrow> u128 \<Rightarrow> int" where
  "vote_cooldown V w =
     (if w < online_stake V div 100 then 15 else if w < online_stake V div 20 then 5 else 1)"

text \<open>Whether the vote is a replay, whether it was processed, the election and the effects.\<close>

definition election_vote ::
    "node_view \<Rightarrow> account \<Rightarrow> u64 \<Rightarrow> block_hash \<Rightarrow> election \<Rightarrow> ((bool \<times> bool) \<times> election \<times> effect list) option" where
  "election_vote V rep sequence block_hash e =
     (let w = weight V rep in
      if is_test_network V \<or> w > minimum_principal_weight V then
        let (replay, should_process) = (case map_of (last_votes e) rep of
              None \<Rightarrow> (False, True)
            | Some l \<Rightarrow>
                if vi_sequence l < sequence \<or> (vi_sequence l = sequence \<and> vi_hash l < block_hash)
                then (False, vi_time l \<le> steady_now V - seconds (vote_cooldown V w))
                else (True, False))
        in if should_process then
             let e = e\<lparr>last_votes := AList.update rep
                   \<lparr>vi_time = steady_now V, vi_sequence = sequence, vi_hash = block_hash\<rparr> (last_votes e)\<rparr>;
                 fx = [Stat_inc ''vote_new'' 1]
             in if \<not> confirmed e
                then (case confirm_if_quorum V e of None \<Rightarrow> None | Some (e, fx') \<Rightarrow> Some ((replay, True), e, fx @ fx'))
                else Some ((replay, True), e, fx)
           else Some ((replay, False), e, [])
      else Some ((False, False), e, []))"

text \<open>A voter of the cache gets an entry if it has none; its vote has sequence 0 and the earliest time.\<close>

fun emplace_votes :: "block_hash \<Rightarrow> account list \<Rightarrow> (account \<times> vote_info) list \<Rightarrow> (account \<times> vote_info) list \<times> effect list" where
  "emplace_votes h [] vs = (vs, [])"
| "emplace_votes h (rep # reps) vs =
     (if map_of vs rep = None then
        let (vs, fx) = emplace_votes h reps (vs @ [(rep, \<lparr>vi_time = time_point_min, vi_sequence = 0, vi_hash = h\<rparr>)])
        in (vs, Stat_inc ''vote_cached'' 1 # fx)
      else emplace_votes h reps vs)"

definition late_blocks_delay :: int where "late_blocks_delay = 5"

definition insert_inactive_votes_cache :: "node_view \<Rightarrow> block_hash \<Rightarrow> election \<Rightarrow> (nat \<times> election \<times> effect list) option" where
  "insert_inactive_votes_cache V h e =
     (let voters = inactive_voters V h;
          (vs, fx) = emplace_votes h voters (last_votes e);
          e = e\<lparr>last_votes := vs\<rparr>
      in if \<not> confirmed e \<and> voters \<noteq> [] then
           let delay = (steady_now V - inactive_arrival V h) div seconds 1;
               fx = fx @ (if delay > late_blocks_delay
                  then [Stat_inc ''late_block'' 1, Stat_inc ''late_block_seconds'' (word_of_int delay)] else [])
           in (case confirm_if_quorum V e of None \<Rightarrow> None | Some (e, fx') \<Rightarrow> Some (length voters, e, fx @ fx'))
         else Some (length voters, e, fx))"

text \<open>\<open>last_tally[h]\<close> adds an entry of zero for a hash that has none.\<close>

definition touch_tally :: "block_hash \<Rightarrow> election \<Rightarrow> election" where
  "touch_tally h e = (if map_of (last_tally e) h = None then e\<lparr>last_tally := last_tally e @ [(h, 0)]\<rparr> else e)"

definition tally_of :: "block_hash \<Rightarrow> election \<Rightarrow> u128" where
  "tally_of h e = (case map_of (last_tally e) h of Some w \<Rightarrow> w | None \<Rightarrow> 0)"

definition publish_new :: "node_view \<Rightarrow> block \<Rightarrow> election \<Rightarrow> (bool \<times> election \<times> effect list) option" where
  "publish_new V b e =
     (let e = e\<lparr>election_blocks := election_blocks e @ [(hash_of V b, b)]\<rparr> in
      case insert_inactive_votes_cache V (hash_of V b) e of
        None \<Rightarrow> None
      | Some (n, e, fx) \<Rightarrow>
          (case (if n = 0 then confirm_if_quorum V e else Some (e, [])) of
             None \<Rightarrow> None
           | Some (e, fx') \<Rightarrow> Some (False, e, fx @ fx' @ [Flood_block b])))"

definition publish_existing :: "node_view \<Rightarrow> block \<Rightarrow> election \<Rightarrow> election" where
  "publish_existing V b e =
     (let h = hash_of V b; e = e\<lparr>election_blocks := AList.update h b (election_blocks e)\<rparr>
      in if hash_of V (winner (status e)) = h then e\<lparr>status := (status e)\<lparr>winner := b\<rparr>\<rparr> else e)"

definition election_publish :: "node_view \<Rightarrow> block \<Rightarrow> election \<Rightarrow> (bool \<times> election \<times> effect list) option" where
  "election_publish V b e =
     (let h = hash_of V b in
      if confirmed e then Some (True, e, [])
      else
        let full = length (election_blocks e) \<ge> 10; e = (if full then touch_tally h e else e)
        in if full \<and> tally_of h e < online_stake V div 10 then Some (True, e, [])
           else (case map_of (election_blocks e) h of
             None \<Rightarrow> publish_new V b e
           | Some _ \<Rightarrow> Some (True, publish_existing V b e, [])))"

subsection \<open>Time\<close>

definition transition_time :: "node_view \<Rightarrow> election \<Rightarrow> bool \<times> election \<times> effect list" where
  "transition_time V e =
     (let (result, e, fx) = (case state_m e of
            Idle \<Rightarrow> (False, e, [])
          | Passive \<Rightarrow>
              if base_latency V * 5 < steady_now V - state_start e
              then (False, snd (state_change V Passive Active e), []) else (False, e, [])
          | Active \<Rightarrow>
              let e = send_confirm_req V e in
              if confirmation_request_count e > 2
              then (False, snd (state_change V Active Broadcasting e), []) else (False, e, [])
          | Broadcasting \<Rightarrow>
              let e = send_confirm_req V (broadcast_block V e) in
              if base_latency V * 30 < steady_now V - state_start e
              then (False, snd (state_change V Broadcasting Backtracking e),
                    [Pending_dependency (hash_of V (winner (status e))) (election_height e)])
              else (False, e, [])
          | Backtracking \<Rightarrow> (False, send_confirm_req V (broadcast_block V e), [])
          | Confirmed \<Rightarrow>
              if base_latency V * 5 < steady_now V - state_start e
              then (True, snd (state_change V Confirmed Expired_confirmed e), []) else (False, e, [])
          | Expired_unconfirmed \<Rightarrow> (False, e, [])
          | Expired_confirmed \<Rightarrow> (False, e, []))
      in if \<not> confirmed e \<and> seconds 300 < steady_now V - election_start e then
           let e = snd (state_change V (state_m e) Expired_unconfirmed e);
               e = e\<lparr>status := (status e)\<lparr>status_type := Stopped\<rparr>\<rparr>
           in (True, snd (tally V e), fx)
         else (result, e, fx))"

subsection \<open>Beginning and end\<close>

text \<open>The constructor. The block's sideband must be set.\<close>

definition make_election :: "node_view \<Rightarrow> block \<Rightarrow> bool \<Rightarrow> (election \<times> effect list) option" where
  "make_election V b prioritized = do {
     sb \<leftarrow> sideband b;
     let e = \<lparr>state_m = Idle, prioritized_m = prioritized, state_start = steady_now V, last_block = steady_now V, last_req = 0,
           election_start = steady_now V,
           last_votes = [(not_an_account V, \<lparr>vi_time = steady_now V, vi_sequence = 0, vi_hash = hash_of V b\<rparr>)],
           election_blocks = [(hash_of V b, b)],
           status = \<lparr>winner = b, status_tally = 0, election_end = system_now V, election_duration = 0, status_request_count = 0,
             block_count = 1, voter_count = 0, status_type = Ongoing\<rparr>,
           confirmation_request_count = 0, last_tally = [], dependent_set = [], election_height = height sb\<rparr>;
     Some (e, update_dependent V e @ (if prioritized then generate_votes V (hash_of V b) else [])) }"

definition prioritize_election :: "node_view \<Rightarrow> election \<Rightarrow> election \<times> effect list" where
  "prioritize_election V e = (e\<lparr>prioritized_m := True\<rparr>, [Generate_votes (hash_of V (winner (status e)))])"

definition try_generate_votes :: "node_view \<Rightarrow> block_hash \<Rightarrow> election \<Rightarrow> effect list" where
  "try_generate_votes V h e = (if hash_of V (winner (status e)) = h then generate_votes V h else [])"

text \<open>The blocks of an election that was not confirmed are moved out of it; their digests are cleared later.\<close>

definition cleanup :: "node_view \<Rightarrow> election \<Rightarrow> election \<times> effect list" where
  "cleanup V e =
     (let unconfirmed = \<not> confirmed e; w = winner (status e);
          fx = concat (map (\<lambda>(h, _). [Erase_active h, Erase_inactive_votes h]
                @ (if unconfirmed \<or> h \<noteq> hash_of V w then [Notify_stopped h] else [])) (election_blocks e))
      in if unconfirmed
         then (e\<lparr>election_blocks := []\<rparr>, fx @ [Recently_dropped (qualified_root w)] @ map (\<lambda>(_, b). Clear_filter b) (election_blocks e))
         else (e, fx))"

end
