(* ===== verification/Election_Tally.thy ===== *)
theory Election_Tally
  imports Elections
begin

text \<open>
  The tally of an election and its quorum, in numbers: what the vote of each representative adds, what the
  map by weight keeps of the blocks, and what a quorum says about the voters.
\<close>

section \<open>The weight behind a block\<close>

definition voted :: "(account \<Rightarrow> u128) \<Rightarrow> (account \<times> vote_info) list \<Rightarrow> block_hash \<Rightarrow> u128" where
  "voted wt vs h = sum_list (map (\<lambda>(a, i). if vi_hash i = h then wt a else 0) vs)"

definition voted_hashes :: "(account \<times> vote_info) list \<Rightarrow> block_hash set" where
  "voted_hashes vs = (\<lambda>(a, i). vi_hash i) ` set vs"

definition voters :: "(account \<times> vote_info) list \<Rightarrow> block_hash \<Rightarrow> account set" where
  "voters vs h = {a. \<exists>i. (a, i) \<in> set vs \<and> vi_hash i = h}"

lemma block_weights_add_get:
  "map_of (block_weights_add h w ws) h' =
     (if h = h' then Some ((case map_of ws h of Some x \<Rightarrow> x | None \<Rightarrow> 0) + w) else map_of ws h')"
  by (induction ws) auto

lemma keys_block_weights_add: "fst ` set (block_weights_add h w ws) = insert h (fst ` set ws)"
  by (induction h w ws rule: block_weights_add.induct) (simp_all add: insert_commute)

lemma distinct_block_weights_add: "distinct (map fst ws) \<Longrightarrow> distinct (map fst (block_weights_add h w ws))"
proof (induction ws)
  case (Cons x ws)
  then show ?case using keys_block_weights_add [of h w ws] by (cases x) auto
qed simp

lemma distinct_block_weights: "distinct (map fst (block_weights wt vs))"
  by (induction vs) (auto simp: distinct_block_weights_add)

lemma block_weights_get:
  "map_of (block_weights wt vs) h = (if h \<in> voted_hashes vs then Some (voted wt vs h) else None)"
proof (induction vs)
  case (Cons v vs)
  obtain a i where v: "v = (a, i)" by (cases v)
  have none: "h \<notin> voted_hashes vs \<Longrightarrow> voted wt vs h = 0"
    by (induction vs) (auto simp: voted_def voted_hashes_def)
  show ?case
    using Cons none by (auto simp: v block_weights_add_get voted_def voted_hashes_def add.commute split: option.split)
qed (simp add: voted_hashes_def)

lemma block_weights_set: "(h, w) \<in> set (block_weights wt vs) \<longleftrightarrow> h \<in> voted_hashes vs \<and> w = voted wt vs h"
proof -
  have "(h, w) \<in> set (block_weights wt vs) \<longleftrightarrow> map_of (block_weights wt vs) h = Some w"
    using distinct_block_weights by (auto intro: map_of_SomeD)
  then show ?thesis by (auto simp: block_weights_get)
qed

text \<open>As a number, where the weights of all voters together do not overflow.\<close>

definition vote_weight :: "(account \<Rightarrow> u128) \<Rightarrow> (account \<times> vote_info) list \<Rightarrow> nat" where
  "vote_weight wt vs = (\<Sum>a \<in> fst ` set vs. unat (wt a))"

lemma finite_voters [simp]: "finite (voters vs h)"
  by (rule finite_subset [of _ "fst ` set vs"]) (force simp: voters_def)+

lemma voters_subset: "voters vs h \<subseteq> fst ` set vs"
  by (force simp: voters_def)

lemma voters_weight_le: "(\<Sum>a \<in> voters vs h. unat (wt a)) \<le> vote_weight wt vs"
  unfolding vote_weight_def by (rule sum_mono2) (auto simp: voters_subset)

lemma vote_weight_Cons:
  "a \<notin> fst ` set vs \<Longrightarrow> vote_weight wt ((a, i) # vs) = unat (wt a) + vote_weight wt vs"
  by (simp add: vote_weight_def)

lemma unat_voted:
  assumes "distinct (map fst vs)" "vote_weight wt vs < 2 ^ 128"
  shows "unat (voted wt vs h) = (\<Sum>a \<in> voters vs h. unat (wt a))"
  using assms
proof (induction vs)
  case (Cons v vs)
  obtain a i where v: "v = (a, i)" by (cases v)
  have fresh: "a \<notin> fst ` set vs" using Cons.prems(1) v by simp
  have w: "vote_weight wt (v # vs) = unat (wt a) + vote_weight wt vs" unfolding v by (rule vote_weight_Cons [OF fresh])
  have ih: "unat (voted wt vs h) = (\<Sum>a \<in> voters vs h. unat (wt a))" using Cons w by simp
  show ?case
  proof (cases "vi_hash i = h")
    case True
    have "voters (v # vs) h = insert a (voters vs h)" using True by (auto simp: v voters_def)
    moreover have "a \<notin> voters vs h" using fresh voters_subset by blast
    moreover have "unat (wt a) + unat (voted wt vs h) < 2 ^ LENGTH(128)"
      using ih voters_weight_le [where wt = wt and vs = vs and h = h] w Cons.prems(2) by simp
    from unat_add_bounded [OF this] have "unat (voted wt (v # vs) h) = unat (wt a) + unat (voted wt vs h)"
      by (simp add: voted_def v True)
    ultimately show ?thesis using ih by simp
  next
    case False
    then have "voters (v # vs) h = voters vs h" "voted wt (v # vs) h = voted wt vs h" by (auto simp: v voters_def voted_def)
    then show ?thesis using ih by simp
  qed
qed (simp add: voted_def voters_def)

text \<open>Different blocks have different voters.\<close>

lemma voters_disjoint: "distinct (map fst vs) \<Longrightarrow> h \<noteq> h' \<Longrightarrow> voters vs h \<inter> voters vs h' = {}"
  by (auto simp: voters_def dest: eq_key_imp_eq_value)

lemma two_blocks_weight:
  assumes "distinct (map fst vs)" "vote_weight wt vs < 2 ^ 128" "h \<noteq> h'"
  shows "unat (voted wt vs h) + unat (voted wt vs h') \<le> vote_weight wt vs"
proof -
  have "unat (voted wt vs h) + unat (voted wt vs h') = (\<Sum>a \<in> voters vs h \<union> voters vs h'. unat (wt a))"
    using unat_voted [OF assms(1,2)] voters_disjoint [OF assms(1,3)] by (simp add: sum.union_disjoint)
  also have "\<dots> \<le> vote_weight wt vs"
    unfolding vote_weight_def using voters_subset [of vs] by (intro sum_mono2) auto
  finally show ?thesis .
qed

section \<open>The map by weight\<close>

abbreviation descending :: "tally_t \<Rightarrow> bool" where
  "descending t \<equiv> sorted_wrt (\<lambda>x y. fst x > fst y) t"

lemma tally_emplace_keys: "fst ` set (tally_emplace w b t) = insert w (fst ` set t)"
  by (induction w b t rule: tally_emplace.induct) auto

lemma tally_emplace_subset: "set (tally_emplace w b t) \<subseteq> insert (w, b) (set t)"
  by (induction w b t rule: tally_emplace.induct) auto

lemma tally_emplace_descending: "descending t \<Longrightarrow> descending (tally_emplace w b t)"
proof (induction w b t rule: tally_emplace.induct)
  case (2 w b w' b' t)
  show ?case
  proof (cases w w' rule: linorder_cases)
    case less
    have "fst y < w'" if "y \<in> set (tally_emplace w b t)" for y
      using subsetD [OF tally_emplace_subset that] 2(2) less by auto
    moreover have "descending (tally_emplace w b t)" using 2 less by simp
    ultimately show ?thesis using less by (auto dest: order.asym)
  next
    case greater
    then show ?thesis using 2(2) by (auto intro: order.strict_trans)
  qed (use 2(2) in simp)
qed simp

text \<open>One step of the loop of \<open>tally\<close>.\<close>

definition tally_step :: "(block_hash \<times> block) list \<Rightarrow> block_hash \<Rightarrow> u128 \<Rightarrow> tally_t \<Rightarrow> tally_t" where
  "tally_step bs h w t = (case map_of bs h of Some b \<Rightarrow> tally_emplace w b t | None \<Rightarrow> t)"

lemma tally_step_spec:
  "descending t \<Longrightarrow> descending (tally_step bs h w t)"
  "(x, b) \<in> set (tally_step bs h w t) \<Longrightarrow> (x, b) \<in> set t \<or> x = w \<and> map_of bs h = Some b"
  "fst ` set (tally_step bs h w t) = fst ` set t \<union> (if map_of bs h \<noteq> None then {w} else {})"
proof -
  show "descending (tally_step bs h w t)" if "descending t"
    using that by (simp add: tally_step_def tally_emplace_descending split: option.split)
  show "(x, b) \<in> set t \<or> x = w \<and> map_of bs h = Some b" if "(x, b) \<in> set (tally_step bs h w t)"
    using that subsetD [OF tally_emplace_subset, of "(x, b)" w _ t] by (cases "map_of bs h") (auto simp: tally_step_def)
  show "fst ` set (tally_step bs h w t) = fst ` set t \<union> (if map_of bs h \<noteq> None then {w} else {})"
    by (simp add: tally_step_def tally_emplace_keys split: option.split)
qed

lemma tally_collect_step: "tally_collect bs ((h, w) # ws) t = tally_collect bs ws (tally_step bs h w t)"
  by (simp add: tally_step_def)

declare tally_collect.simps(2) [simp del]

lemma tally_collect_descending: "descending t \<Longrightarrow> descending (tally_collect bs ws t)"
  by (induction ws arbitrary: t) (auto simp: tally_collect_step tally_step_spec(1))

lemma tally_collect_sound:
  "(x, b) \<in> set (tally_collect bs ws t) \<Longrightarrow> (x, b) \<in> set t \<or> (\<exists>h. (h, x) \<in> set ws \<and> map_of bs h = Some b)"
proof (induction ws arbitrary: t)
  case (Cons hw ws)
  obtain h w where hw: "hw = (h, w)" by (cases hw)
  from Cons.IH [of "tally_step bs h w t"] Cons.prems tally_step_spec(2) [of x b bs h w t] show ?case
    by (auto simp: hw tally_collect_step)
qed simp

lemma tally_collect_complete:
  "fst ` set (tally_collect bs ws t) = fst ` set t \<union> {w. \<exists>h. (h, w) \<in> set ws \<and> map_of bs h \<noteq> None}"
proof (induction ws arbitrary: t)
  case (Cons hw ws)
  obtain h w where hw: "hw = (h, w)" by (cases hw)
  show ?case unfolding hw tally_collect_step Cons.IH tally_step_spec(3) by auto
qed simp

section \<open>Tally and quorum\<close>

text \<open>Traversing an unordered map visits every entry once.\<close>

definition order_ok :: "node_view \<Rightarrow> bool" where
  "order_ok V = (\<forall>ws. mset (hash_order V ws) = mset ws)"

lemma tally_spec:
  assumes "tally V e = (t, e')" "order_ok V"
  shows "e' = e\<lparr>last_tally := block_weights (weight V) (last_votes e)\<rparr>" "descending t"
    and "(w, b) \<in> set t \<Longrightarrow>
      \<exists>h. map_of (election_blocks e) h = Some b \<and> h \<in> voted_hashes (last_votes e) \<and> w = voted (weight V) (last_votes e) h"
    and "h \<in> voted_hashes (last_votes e) \<Longrightarrow> map_of (election_blocks e) h \<noteq> None \<Longrightarrow>
      voted (weight V) (last_votes e) h \<in> fst ` set t"
proof -
  let ?ws = "block_weights (weight V) (last_votes e)"
  have set: "set (hash_order V ?ws) = set ?ws" using assms(2) unfolding order_ok_def by (metis set_mset_mset)
  have t: "t = tally_collect (election_blocks e) (hash_order V ?ws) []" and e': "e' = e\<lparr>last_tally := ?ws\<rparr>"
    using assms(1) by (auto simp: tally_def Let_def)
  show "e' = e\<lparr>last_tally := ?ws\<rparr>" by (rule e')
  show "descending t" unfolding t by (rule tally_collect_descending) simp
  show "\<exists>h. map_of (election_blocks e) h = Some b \<and> h \<in> voted_hashes (last_votes e) \<and> w = voted (weight V) (last_votes e) h"
    if "(w, b) \<in> set t"
    using tally_collect_sound [OF that [unfolded t]] set block_weights_set by force
  show "voted (weight V) (last_votes e) h \<in> fst ` set t"
    if "h \<in> voted_hashes (last_votes e)" "map_of (election_blocks e) h \<noteq> None"
    unfolding t tally_collect_complete using that set block_weights_set by force
qed

lemma tally_nonempty:
  assumes "tally V e = (t, e')" "order_ok V" "h \<in> voted_hashes (last_votes e)" "map_of (election_blocks e) h \<noteq> None"
  shows "t \<noteq> []"
  using tally_spec(4) [OF assms] by auto

text \<open>
  With a quorum of at most one half, the sum of the second weight and the margin does not wrap. The first
  block has more than the margin, and every other block that is voted for either has the very same
  weight or is behind by more than the margin.
\<close>

lemma delta_bound: "online_weight_quorum V \<le> 50 \<Longrightarrow> unat (delta V) < 2 ^ 127"
proof -
  assume "online_weight_quorum V \<le> 50"
  then have q: "unat (online_weight_quorum V) \<le> 50" by (simp add: word_le_nat_alt)
  have "unat (ucast (online_weight_quorum V) :: u128) = unat (online_weight_quorum V)"
    using q by (simp add: unsigned_ucast_eq take_bit_nat_eq_self)
  then have "unat (delta V) = (unat (online_stake V) div 100 * unat (online_weight_quorum V)) mod 2 ^ 128"
    by (simp add: delta_def unat_word_ariths unat_div mod_mult_left_eq)
  also have "\<dots> \<le> unat (online_stake V) div 100 * unat (online_weight_quorum V)" by (rule mod_less_eq_dividend)
  also have "\<dots> \<le> unat (online_stake V) div 100 * 50" using q by (rule mult_le_mono2)
  also have "\<dots> < 2 ^ 127" using unat_lt_2p [of "online_stake V"] by simp
  finally show ?thesis .
qed

lemma quorum_margin:
  assumes q: "have_quorum V t tsum = Some True" and t: "t = (w, b) # rest" "descending t"
    and two: "\<And>w' b'. (w', b') \<in> set rest \<Longrightarrow> unat w + unat w' < 2 ^ 128" and half: "online_weight_quorum V \<le> 50"
  shows "unat (delta V) < unat w" "(w', b') \<in> set rest \<Longrightarrow> unat w' + unat (delta V) < unat w" "online_weight_minimum V \<le> tsum"
proof -
  let ?second = "case rest of [] \<Rightarrow> 0 | (x, _) # _ \<Rightarrow> x"
  have gt: "w > ?second + delta V" and "online_weight_minimum V \<le> tsum"
    using q t(1) by (auto simp: have_quorum_def Let_def split: if_splits)
  then show "online_weight_minimum V \<le> tsum" by simp
  have s: "unat ?second < 2 ^ 127"
  proof (cases rest)
    case (Cons x xs)
    obtain x1 x2 where x: "x = (x1, x2)" by (cases x)
    then have "x1 < w" "unat w + unat x1 < 2 ^ 128" using t Cons two [of x1 x2] by auto
    then show ?thesis by (simp add: Cons x word_less_nat_alt)
  qed simp
  have "unat ?second + unat (delta V) < 2 ^ LENGTH(128)" using s delta_bound [OF half] by simp
  then have margin: "unat ?second + unat (delta V) < unat w"
    using gt unat_add_bounded [of ?second "delta V"] by (simp add: word_less_nat_alt)
  then show "unat (delta V) < unat w" by simp
  show "unat w' + unat (delta V) < unat w" if "(w', b') \<in> set rest"
  proof -
    have "w' \<le> ?second" using that t by (cases rest) (auto simp: less_imp_le)
    then show ?thesis using margin by (simp add: word_le_nat_alt)
  qed
qed

end
