(* ===== verification/Election_Life.thy ===== *)
theory Election_Life
  imports Election_Tally
begin

text \<open>
  The life of an election: its invariant, what \<open>confirm_if_quorum\<close> decides, the steps it can take, and that
  a confirmed election keeps its winner.
\<close>

section \<open>The invariant\<close>

definition view_ok :: "crypto \<Rightarrow> account \<Rightarrow> node_view \<Rightarrow> bool" where
  "view_ok C a V = (crypto_of V = C \<and> not_an_account V = a \<and> order_ok V \<and> (\<forall>h. a \<notin> set (generated_votes V h)))"

text \<open>The entry of \<open>not_an_account\<close> keeps the tally from being empty.\<close>

definition election_ok :: "crypto \<Rightarrow> account \<Rightarrow> election \<Rightarrow> bool" where
  "election_ok C a e = (distinct (map fst (last_votes e)) \<and> distinct (map fst (election_blocks e))
     \<and> list_all (\<lambda>(h, b). generate_hash C b = h) (election_blocks e)
     \<and> map_of (election_blocks e) (generate_hash C (winner (status e))) \<noteq> None
     \<and> (\<exists>i. map_of (last_votes e) a = Some i \<and> map_of (election_blocks e) (vi_hash i) \<noteq> None))"

lemma view_okD: "view_ok C a V \<Longrightarrow> crypto_of V = C" "view_ok C a V \<Longrightarrow> order_ok V" "view_ok C a V \<Longrightarrow> a \<notin> set (generated_votes V h)"
  by (simp_all add: view_ok_def)

lemma election_okD:
  assumes "election_ok C a e"
  shows "distinct (map fst (last_votes e))" "distinct (map fst (election_blocks e))"
    "map_of (election_blocks e) h = Some b \<Longrightarrow> generate_hash C b = h"
    "map_of (election_blocks e) (generate_hash C (winner (status e))) \<noteq> None"
    "\<exists>i. map_of (last_votes e) a = Some i \<and> map_of (election_blocks e) (vi_hash i) \<noteq> None"
  using assms by (auto simp: election_ok_def list_all_iff dest: map_of_SomeD)

lemma election_okI:
  assumes "distinct (map fst (last_votes e))" "distinct (map fst (election_blocks e))"
    "list_all (\<lambda>(h, b). generate_hash C b = h) (election_blocks e)"
    "map_of (election_blocks e) (generate_hash C (winner (status e))) \<noteq> None"
    "map_of (last_votes e) a = Some i" "map_of (election_blocks e) (vi_hash i) \<noteq> None"
  shows "election_ok C a e"
  using assms unfolding election_ok_def by blast

lemma election_ok_cong:
  assumes "election_ok C a e" "last_votes e' = last_votes e" "election_blocks e' = election_blocks e" "winner (status e') = winner (status e)"
  shows "election_ok C a e'"
  using assms by (simp only: election_ok_def simp_thms)

lemma election_ok_votes:
  assumes "election_ok C a e" "distinct (map fst (last_votes e'))" "map_of (last_votes e') a = map_of (last_votes e) a"
    "election_blocks e' = election_blocks e" "map_of (election_blocks e) (generate_hash C (winner (status e'))) \<noteq> None"
  shows "election_ok C a e'"
  using assms by (simp only: election_ok_def simp_thms)

text \<open>The blocks of the election that somebody has voted for.\<close>

definition contenders :: "election \<Rightarrow> block_hash set" where
  "contenders e = voted_hashes (last_votes e) \<inter> dom (map_of (election_blocks e))"

lemma election_ok_contender:
  assumes "election_ok C a e"
  obtains h where "h \<in> contenders e"
proof -
  obtain i where i: "map_of (last_votes e) a = Some i" "map_of (election_blocks e) (vi_hash i) \<noteq> None"
    using election_okD(5) [OF assms] by blast
  then have "vi_hash i \<in> voted_hashes (last_votes e)" by (force simp: voted_hashes_def dest: map_of_SomeD)
  with i(2) that show ?thesis by (auto simp: contenders_def)
qed

lemma tally_weights:
  assumes "tally V e = (t, e')" "order_ok V"
  shows "fst ` set t = voted (weight V) (last_votes e) ` contenders e"
  using tally_spec(3,4) [OF assms] by (fastforce simp: contenders_def)

lemma finite_contenders [simp]: "finite (contenders e)"
  by (simp add: contenders_def voted_hashes_def)

section \<open>What \<open>confirm_if_quorum\<close> decides\<close>

text \<open>
  The condition of the code. The sum runs over the different weights, since the map by weight keeps one
  block for each; a block with the very weight of the leading one does not count against it.
\<close>

definition leads :: "node_view \<Rightarrow> election \<Rightarrow> block_hash \<Rightarrow> bool" where
  "leads V e h = (h \<in> contenders e \<and> unat (delta V) < unat (voted (weight V) (last_votes e) h)
     \<and> (\<forall>h' \<in> contenders e. voted (weight V) (last_votes e) h' = voted (weight V) (last_votes e) h
          \<or> unat (voted (weight V) (last_votes e) h') + unat (delta V) < unat (voted (weight V) (last_votes e) h)))"

definition weight_present :: "node_view \<Rightarrow> election \<Rightarrow> bool" where
  "weight_present V e = (online_weight_minimum V \<le> (\<Sum>w \<in> voted (weight V) (last_votes e) ` contenders e. w))"

definition counted :: "node_view \<Rightarrow> election \<Rightarrow> bool" where
  "counted V e = (online_weight_quorum V \<le> 50 \<and> vote_weight (weight V) (last_votes e) < 2 ^ 128)"

lemma descending_sum: "descending t \<Longrightarrow> sum_list (map fst t) = \<Sum> (fst ` set t)"
proof -
  assume "descending t"
  then have "distinct (map fst t)" by (induction t) auto
  then show ?thesis using sum_list_distinct_conv_sum_set [of "map fst t" id] by simp
qed

lemma adopt_winner_frame:
  assumes "adopt_winner V b s e = (e', fx)"
  shows "state_m e' = state_m e" "election_blocks e' = election_blocks e" "last_tally e' = last_tally e"
    "last_votes e' = last_votes e \<or> (\<exists>h. last_votes e' = filter (\<lambda>(a, _). a \<notin> set (generated_votes V h)) (last_votes e))"
    "winner (status e') = (if online_weight_minimum V \<le> s \<and> hash_of V b \<noteq> hash_of V (winner (status e)) then b else winner (status e))"
    "status_tally (status e') = status_tally (status e)"
  using assms by (auto simp: adopt_winner_def remove_votes_def Let_def split: if_splits)

lemma confirm_once_frame:
  assumes "confirm_once V t e = (e', fx)"
  shows "state_m e' = Confirmed" "election_blocks e' = election_blocks e" "last_tally e' = last_tally e" "last_votes e' = last_votes e"
    "winner (status e') = winner (status e)" "status_tally (status e') = status_tally (status e)"
  using assms by (auto simp: confirm_once_def Let_def split: if_splits)

text \<open>The leading entry of the tally, and whether it has the quorum.\<close>

lemma tally_quorum:
  assumes t: "tally V e = (t, e1)" and ok: "election_ok C a e" and V: "view_ok C a V" and c: "counted V e"
  obtains w b rest h where "t = (w, b) # rest" "map_of (election_blocks e) h = Some b" "h \<in> contenders e"
    "w = voted (weight V) (last_votes e) h"
    "have_quorum V t (sum_list (map fst t)) = Some (weight_present V e \<and> (\<exists>h. leads V e h))"
    "(\<exists>h'. leads V e h') \<longrightarrow> leads V e h"
proof -
  let ?v = "voted (weight V) (last_votes e)"
  note order = view_okD(2) [OF V]
  obtain h0 where "h0 \<in> contenders e" by (rule election_ok_contender [OF ok])
  then have "t \<noteq> []" using tally_weights [OF t order] by auto
  then obtain w b rest where tw: "t = (w, b) # rest" by (cases t) auto
  then obtain h where h: "map_of (election_blocks e) h = Some b" "h \<in> contenders e" "w = ?v h"
    using tally_spec(3) [OF t order, of w b] by (auto simp: contenders_def)
  note desc = tally_spec(2) [OF t order]
  have s: "sum_list (map fst t) = (\<Sum>w \<in> ?v ` contenders e. w)"
    using descending_sum [OF desc] tally_weights [OF t order] by simp
  have top: "?v h' \<le> w" if "h' \<in> contenders e" for h'
  proof -
    have "?v h' \<in> fst ` set t" using that tally_weights [OF t order] by auto
    then show ?thesis using desc tw by (auto simp: less_imp_le)
  qed
  have two: "unat w + unat w' < 2 ^ 128" if mem: "(w', b') \<in> set rest" for w' b'
  proof -
    obtain h' where h': "w' = ?v h'" "h' \<in> contenders e"
      using tally_spec(3) [OF t order, of w' b'] mem tw by (auto simp: contenders_def)
    moreover have "w' < w" using mem tw desc by auto
    ultimately have "h' \<noteq> h" using h(3) by auto
    with two_blocks_weight [OF election_okD(1) [OF ok], of "weight V" h h'] c h' h(3) show ?thesis by (auto simp: counted_def)
  qed
  note margin = quorum_margin [OF _ tw desc two]
  have q: "have_quorum V t (sum_list (map fst t)) = Some (weight_present V e \<and> leads V e h)"
  proof (cases "weight_present V e")
    case True
    have "have_quorum V t (sum_list (map fst t)) = Some True \<longleftrightarrow> leads V e h"
    proof
      assume Q: "have_quorum V t (sum_list (map fst t)) = Some True"
      have "?v h' = w \<or> unat (?v h') + unat (delta V) < unat w" if "h' \<in> contenders e" for h'
      proof -
        have "?v h' \<in> fst ` set t" using that tally_weights [OF t order] by auto
        then show ?thesis using margin(2) [OF Q] c tw by (auto simp: counted_def)
      qed
      then show "leads V e h" using margin(1) [OF Q] c h by (simp add: leads_def counted_def)
    next
      assume L: "leads V e h"
      let ?second = "case rest of [] \<Rightarrow> 0 | (x, _) # _ \<Rightarrow> x"
      have "unat ?second + unat (delta V) < unat w"
      proof (cases rest)
        case Nil
        with L h(3) show ?thesis by (simp add: leads_def)
      next
        case (Cons x xs)
        obtain x1 x2 where x: "x = (x1, x2)" by (cases x)
        obtain h' where h': "x1 = ?v h'" "h' \<in> contenders e"
          using tally_spec(3) [OF t order, of x1 x2] tw Cons x by (auto simp: contenders_def)
        moreover have "x1 < w" using desc tw Cons x by auto
        ultimately show ?thesis using L h(3) by (auto simp: leads_def Cons x)
      qed
      then have "?second + delta V < w"
        using unat_add_bounded [of ?second "delta V"] unat_lt_2p [of w] by (simp add: word_less_nat_alt)
      then show "have_quorum V t (sum_list (map fst t)) = Some True"
        using True s tw by (simp add: have_quorum_def weight_present_def Let_def)
    qed
    moreover have "have_quorum V t (sum_list (map fst t)) \<noteq> None" using tw by (simp add: have_quorum_def Let_def del: not_None_eq)
    ultimately show ?thesis using True by (cases "have_quorum V t (sum_list (map fst t))") auto
  next
    case False
    then show ?thesis using s by (simp add: have_quorum_def weight_present_def)
  qed
  have "leads V e h" if "leads V e h'" for h'
  proof -
    have "?v h' = w"
    proof -
      have "?v h = ?v h' \<or> unat (?v h) + unat (delta V) < unat (?v h')" "?v h' \<le> w"
        using that h(2) top by (auto simp: leads_def)
      then show ?thesis using h(3) by (auto simp: word_le_nat_alt)
    qed
    with that h show ?thesis by (auto simp: leads_def)
  qed
  then have "(\<exists>h'. leads V e h') \<longleftrightarrow> leads V e h" by blast
  with that tw h q show ?thesis by simp
qed

text \<open>
  The decision: it always returns; the election is confirmed exactly when enough weight is present and a
  block leads, and then the winner is such a block; otherwise the state stays as it is.
\<close>

lemma confirm_if_quorum_spec:
  assumes ok: "election_ok C a e" and V: "view_ok C a V" and c: "counted V e"
  obtains e' fx where "confirm_if_quorum V e = Some (e', fx)"
    "state_m e' = (if weight_present V e \<and> (\<exists>h. leads V e h) then Confirmed else state_m e)"
    "weight_present V e \<and> (\<exists>h. leads V e h) \<longrightarrow> leads V e (generate_hash C (winner (status e')))"
proof -
  obtain t e1 where t: "tally V e = (t, e1)" by (cases "tally V e")
  obtain w b rest h where q: "t = (w, b) # rest" "map_of (election_blocks e) h = Some b"
      "have_quorum V t (sum_list (map fst t)) = Some (weight_present V e \<and> (\<exists>h. leads V e h))" "(\<exists>h'. leads V e h') \<longrightarrow> leads V e h"
      "sum_list (map fst t) = (\<Sum>w \<in> voted (weight V) (last_votes e) ` contenders e. w)"
    using tally_quorum [OF t ok V c] descending_sum [OF tally_spec(2) [OF t view_okD(2) [OF V]]]
      tally_weights [OF t view_okD(2) [OF V]] by (metis (no_types, lifting))
  have e1: "e1 = e\<lparr>last_tally := block_weights (weight V) (last_votes e)\<rparr>" using tally_spec(1) [OF t view_okD(2) [OF V]] .
  let ?e2 = "e1\<lparr>status := (status e1)\<lparr>status_tally := w\<rparr>\<rparr>"
  obtain e3 fx3 where e3: "adopt_winner V b (sum_list (map fst t)) ?e2 = (e3, fx3)" by (cases "adopt_winner V b (sum_list (map fst t)) ?e2")
  obtain e4 fx4 where e4: "confirm_once V Active_confirmed_quorum e3 = (e4, fx4)" by (cases "confirm_once V Active_confirmed_quorum e3")
  let ?Q = "weight_present V e \<and> (\<exists>h. leads V e h)"
  have run: "confirm_if_quorum V e = (if ?Q then Some (e4, fx3 @ fx4) else Some (e3, fx3))"
    using t q(1,3) e3 e4 by (cases ?Q) (simp_all only: confirm_if_quorum_def Let_def prod.case list.case option.case bool.case if_True if_False simp_thms)
  show ?thesis
  proof (cases ?Q)
    case True
    then have "online_weight_minimum V \<le> sum_list (map fst t)" using q(5) by (simp add: weight_present_def)
    then have "hash_of V (winner (status e4)) = hash_of V b"
      using adopt_winner_frame(5) [OF e3] confirm_once_frame(5) [OF e4] by (simp split: if_splits)
    then have "generate_hash C (winner (status e4)) = h" using election_okD(3) [OF ok q(2)] view_okD(1) [OF V] by simp
    with True that [of e4 "fx3 @ fx4"] run confirm_once_frame(1) [OF e4] q(4) show ?thesis by simp
  next
    case False
    with that [of e3 fx3] run adopt_winner_frame(1) [OF e3] e1 show ?thesis by simp
  qed
qed

section \<open>The invariant is kept\<close>

lemma filter_votes_ok:
  assumes "view_ok C a V" "distinct (map fst vs)"
    "vs' = vs \<or> (\<exists>h. vs' = filter (\<lambda>(x, _). x \<notin> set (generated_votes V h)) vs)"
  shows "distinct (map fst vs')" "map_of vs' a = map_of vs a"
proof -
  show "distinct (map fst vs')" using assms(2,3) by (auto simp: distinct_map_filter)
  show "map_of vs' a = map_of vs a"
  proof (cases "vs' = vs")
    case False
    then obtain h where vs': "vs' = filter (\<lambda>(x, _). x \<notin> set (generated_votes V h)) vs" using assms(3) by blast
    have "a \<notin> set (generated_votes V h)" by (rule view_okD(3) [OF assms(1)])
    then show ?thesis unfolding vs' by (induction vs) auto
  qed simp
qed

lemma confirm_if_quorum_ok:
  assumes ok: "election_ok C a e" and V: "view_ok C a V"
  obtains e' fx where "confirm_if_quorum V e = Some (e', fx)" "election_ok C a e'"
    "election_blocks e' = election_blocks e" "state_m e' = state_m e \<or> state_m e' = Confirmed"
proof -
  obtain t e1 where t: "tally V e = (t, e1)" by (cases "tally V e")
  note order = view_okD(2) [OF V]
  obtain h0 where "h0 \<in> contenders e" by (rule election_ok_contender [OF ok])
  then have "t \<noteq> []" using tally_weights [OF t order] by auto
  then obtain w b rest where tw: "t = (w, b) # rest" by (cases t) auto
  then obtain h where h: "map_of (election_blocks e) h = Some b" using tally_spec(3) [OF t order, of w b] by auto
  have e1: "e1 = e\<lparr>last_tally := block_weights (weight V) (last_votes e)\<rparr>" using tally_spec(1) [OF t order] .
  let ?e2 = "e1\<lparr>status := (status e1)\<lparr>status_tally := w\<rparr>\<rparr>" and ?s = "sum_list (map fst t)"
  obtain e3 fx3 where e3: "adopt_winner V b ?s ?e2 = (e3, fx3)" by (cases "adopt_winner V b ?s ?e2")
  obtain e4 fx4 where e4: "confirm_once V Active_confirmed_quorum e3 = (e4, fx4)" by (cases "confirm_once V Active_confirmed_quorum e3")
  have "have_quorum V t ?s \<noteq> None" using tw by (simp add: have_quorum_def Let_def del: not_None_eq)
  then obtain q where q: "have_quorum V t ?s = Some q" by blast
  have run: "confirm_if_quorum V e = (if q then Some (e4, fx3 @ fx4) else Some (e3, fx3))"
    using t tw q e3 e4
    by (cases q) (simp_all only: confirm_if_quorum_def Let_def prod.case list.case option.case bool.case if_True if_False simp_thms)
  note f3 = adopt_winner_frame [OF e3] and f4 = confirm_once_frame [OF e4]
  have "generate_hash C b = h" by (rule election_okD(3) [OF ok h])
  then have win: "map_of (election_blocks e) (generate_hash C (winner (status e3))) \<noteq> None"
    using f3(5) h election_okD(4) [OF ok] e1 by (simp split: if_splits)
  have vs: "last_votes e3 = last_votes e \<or> (\<exists>h. last_votes e3 = filter (\<lambda>(a, _). a \<notin> set (generated_votes V h)) (last_votes e))"
    using f3(4) e1 by simp
  have ok3: "election_ok C a e3"
    using filter_votes_ok [OF V election_okD(1) [OF ok] vs] f3(2) e1 win by (intro election_ok_votes [OF ok]) simp_all
  then have ok4: "election_ok C a e4" using f4 by (intro election_ok_cong [OF ok3])
  have b3: "election_blocks e3 = election_blocks e" "state_m e3 = state_m e" using f3(1,2) e1 by simp_all
  show ?thesis
  proof (cases q)
    case True
    show ?thesis by (rule that [of e4 "fx3 @ fx4"]) (use True run ok4 f4(1,2) b3(1) in simp_all)
  next
    case False
    show ?thesis by (rule that [of e3 fx3]) (use False run ok3 b3 in simp_all)
  qed
qed

lemma update_votes_ok:
  assumes "election_ok C a e" "rep \<noteq> a"
  shows "election_ok C a (e\<lparr>last_votes := AList.update rep i (last_votes e)\<rparr>)"
  using assms(2) election_okD [OF assms(1)] by (intro election_ok_votes [OF assms(1)]) (simp_all add: distinct_update update_conv)

text \<open>What every step keeps: the invariant, and of a confirmed election the state, the winner and the blocks.\<close>

definition step_kept :: "crypto \<Rightarrow> account \<Rightarrow> election \<Rightarrow> election \<Rightarrow> bool" where
  "step_kept C a e e' = (election_ok C a e' \<and> (confirmed e \<longrightarrow> confirmed e' \<and> winner (status e') = winner (status e)
     \<and> election_blocks e' = election_blocks e))"

lemma step_keptI:
  "election_ok C a e' \<Longrightarrow> \<not> confirmed e \<Longrightarrow> step_kept C a e e'"
  "election_ok C a e \<Longrightarrow> last_votes e' = last_votes e \<Longrightarrow> election_blocks e' = election_blocks e \<Longrightarrow>
     winner (status e') = winner (status e) \<Longrightarrow> (confirmed e \<Longrightarrow> confirmed e') \<Longrightarrow> step_kept C a e e'"
  by (simp_all add: step_kept_def election_ok_cong)

lemma vote_ok:
  assumes ok: "election_ok C a e" and V: "view_ok C a V" and rep: "rep \<noteq> a"
  obtains r e' fx where "election_vote V rep q h e = Some (r, e', fx)" "step_kept C a e e'"
proof -
  let ?i = "\<lparr>vi_time = steady_now V, vi_sequence = q, vi_hash = h\<rparr>"
  let ?e = "e\<lparr>last_votes := AList.update rep ?i (last_votes e)\<rparr>"
  note ok1 = update_votes_ok [OF ok rep, of ?i]
  obtain e1 fx1 where e1: "confirm_if_quorum V ?e = Some (e1, fx1)" "election_ok C a e1" by (rule confirm_if_quorum_ok [OF ok1 V])
  have cases: "election_vote V rep q h e = Some (r, e', fx) \<Longrightarrow> e' = e \<or> (\<not> confirmed e \<and> e' = e1) \<or> (confirmed e \<and> e' = ?e)" for r e' fx
    using e1(1) by (auto simp: election_vote_def Let_def confirmed_def split: if_splits prod.splits)
  have "election_vote V rep q h e \<noteq> None"
    using e1(1) by (simp add: election_vote_def Let_def confirmed_def del: not_None_eq split: prod.split)
  then obtain r e' fx where run: "election_vote V rep q h e = Some (r, e', fx)" by (auto simp del: split_paired_Ex)
  have "step_kept C a e e'"
    using cases [OF run] ok ok1 e1(2) by (auto simp: step_kept_def confirmed_def)
  with run that show ?thesis by blast
qed

lemma emplace_votes_ok:
  assumes "distinct (map fst vs)"
  shows "distinct (map fst (fst (emplace_votes h reps vs)))"
    "map_of vs a = Some i \<Longrightarrow> map_of (fst (emplace_votes h reps vs)) a = Some i"
proof -
  let ?new = "\<lambda>rep. (rep, \<lparr>vi_time = time_point_min, vi_sequence = 0, vi_hash = h\<rparr>)"
  have step: "fst (emplace_votes h (rep # reps) vs) = fst (emplace_votes h reps (if map_of vs rep = None then vs @ [?new rep] else vs))"
    for rep reps vs
    by (simp add: Let_def case_prod_beta)
  show "distinct (map fst (fst (emplace_votes h reps vs)))"
    using assms
  proof (induction reps arbitrary: vs)
    case (Cons rep reps)
    have "distinct (map fst (if map_of vs rep = None then vs @ [?new rep] else vs))"
      using Cons.prems by (auto simp: map_of_eq_None_iff)
    from Cons.IH [OF this] show ?case unfolding step .
  qed simp
  show "map_of (fst (emplace_votes h reps vs)) a = Some i" if "map_of vs a = Some i"
    using that
  proof (induction reps arbitrary: vs)
    case (Cons rep reps)
    have "map_of (if map_of vs rep = None then vs @ [?new rep] else vs) a = Some i" using Cons.prems by (simp add: map_add_Some_iff)
    from Cons.IH [OF this] show ?case unfolding step .
  qed simp
qed

lemma cached_ok:
  assumes ok: "election_ok C a e" and V: "view_ok C a V"
  obtains n e' fx where "insert_inactive_votes_cache V h e = Some (n, e', fx)" "step_kept C a e e'" "n = 0 \<Longrightarrow> e' = e"
proof -
  obtain vs fx where vs: "emplace_votes h (inactive_voters V h) (last_votes e) = (vs, fx)"
    by (cases "emplace_votes h (inactive_voters V h) (last_votes e)")
  let ?e = "e\<lparr>last_votes := vs\<rparr>"
  obtain i where "map_of (last_votes e) a = Some i" using election_okD(5) [OF ok] by blast
  then have ok1: "election_ok C a ?e"
    using emplace_votes_ok [OF election_okD(1) [OF ok], where h = h and reps = "inactive_voters V h"] vs election_okD(4) [OF ok] by (intro election_ok_votes [OF ok]) simp_all
  obtain e1 fx1 where e1: "confirm_if_quorum V ?e = Some (e1, fx1)" "election_ok C a e1" by (rule confirm_if_quorum_ok [OF ok1 V])
  have empty: "inactive_voters V h = [] \<Longrightarrow> vs = last_votes e" using vs by simp
  show ?thesis
  proof (cases "\<not> confirmed e \<and> inactive_voters V h \<noteq> []")
    case True
    then obtain fx2 where "insert_inactive_votes_cache V h e = Some (length (inactive_voters V h), e1, fx2)"
      using vs e1(1) by (auto simp: insert_inactive_votes_cache_def Let_def confirmed_def)
    with True that e1(2) step_keptI(1) show ?thesis by force
  next
    case False
    then have "insert_inactive_votes_cache V h e = Some (length (inactive_voters V h), ?e, fx)"
      using vs by (auto simp: insert_inactive_votes_cache_def Let_def confirmed_def)
    moreover have "step_kept C a e ?e" using ok1 by (simp add: step_kept_def confirmed_def)
    ultimately show ?thesis using that empty by auto
  qed
qed

lemma touch_tally_frame [simp]:
  "last_votes (touch_tally h e) = last_votes e" "election_blocks (touch_tally h e) = election_blocks e"
  "status (touch_tally h e) = status e" "state_m (touch_tally h e) = state_m e"
  by (simp_all add: touch_tally_def)

lemma add_block_ok:
  assumes ok: "election_ok C a e" and new: "map_of (election_blocks e) (generate_hash C b) = None"
  shows "election_ok C a (e\<lparr>election_blocks := election_blocks e @ [(generate_hash C b, b)]\<rparr>)"
proof -
  let ?bs = "election_blocks e @ [(generate_hash C b, b)]"
  have known: "map_of ?bs h \<noteq> None" if "map_of (election_blocks e) h \<noteq> None" for h using that by (auto simp: map_add_Some_iff)
  obtain i where i: "map_of (last_votes e) a = Some i" "map_of (election_blocks e) (vi_hash i) \<noteq> None"
    using election_okD(5) [OF ok] by blast
  show ?thesis
  proof (rule election_okI [where i = i])
    show "distinct (map fst (election_blocks (e\<lparr>election_blocks := ?bs\<rparr>)))"
      using election_okD(2) [OF ok] new by (auto simp: map_of_eq_None_iff)
    show "list_all (\<lambda>(h, b). generate_hash C b = h) (election_blocks (e\<lparr>election_blocks := ?bs\<rparr>))"
      using ok by (simp add: election_ok_def)
  qed (use i election_okD(1,4) [OF ok] known in \<open>simp_all del: map_of_append\<close>)
qed

lemma publish_new_ok:
  assumes ok: "election_ok C a e" and V: "view_ok C a V" and new: "map_of (election_blocks e) (hash_of V b) = None"
  obtains e' fx where "publish_new V b e = Some (False, e', fx)" "election_ok C a e'"
proof -
  let ?e = "e\<lparr>election_blocks := election_blocks e @ [(hash_of V b, b)]\<rparr>"
  have ok1: "election_ok C a ?e" using add_block_ok [OF ok] new view_okD(1) [OF V] by simp
  obtain n e1 fx1 where e1: "insert_inactive_votes_cache V (hash_of V b) ?e = Some (n, e1, fx1)" "step_kept C a ?e e1"
    by (rule cached_ok [OF ok1 V])
  then have ok2: "election_ok C a e1" by (simp add: step_kept_def)
  obtain e2 fx2 where e2: "confirm_if_quorum V e1 = Some (e2, fx2)" "election_ok C a e2" by (rule confirm_if_quorum_ok [OF ok2 V])
  show ?thesis
  proof (cases "n = 0")
    case True
    then have "publish_new V b e = Some (False, e2, fx1 @ fx2 @ [Flood_block b])" using e1 e2 by (simp add: publish_new_def)
    with e2(2) that show ?thesis by blast
  next
    case False
    then have "publish_new V b e = Some (False, e1, fx1 @ [] @ [Flood_block b])" using e1 by (simp add: publish_new_def)
    with ok2 that show ?thesis by blast
  qed
qed

lemma publish_existing_ok:
  assumes ok: "election_ok C a e" and V: "view_ok C a V" and old: "map_of (election_blocks e) (hash_of V b) \<noteq> None"
  shows "election_ok C a (publish_existing V b e)"
proof -
  let ?bs = "AList.update (hash_of V b) b (election_blocks e)"
  have known: "map_of ?bs h \<noteq> None \<longleftrightarrow> map_of (election_blocks e) h \<noteq> None" for h using old by (auto simp: update_conv')
  have dist: "distinct (map fst ?bs)" using election_okD(2) [OF ok] by (rule distinct_update)
  have keyed: "list_all (\<lambda>(h, b). generate_hash C b = h) ?bs"
  proof -
    have "generate_hash C y = x" if "map_of ?bs x = Some y" for x y
      using that election_okD(3) [OF ok] view_okD(1) [OF V] by (auto simp: update_conv split: if_splits)
    then show ?thesis using dist by (auto simp: list_all_iff)
  qed
  obtain i where i: "map_of (last_votes e) a = Some i" "map_of (election_blocks e) (vi_hash i) \<noteq> None"
    using election_okD(5) [OF ok] by blast
  have bs: "election_blocks (publish_existing V b e) = ?bs" "last_votes (publish_existing V b e) = last_votes e"
    "hash_of V (winner (status (publish_existing V b e))) = hash_of V (winner (status e))"
    by (simp_all add: publish_existing_def Let_def)
  show ?thesis
    by (rule election_okI [where i = i])
      (use dist keyed i known bs view_okD(1) [OF V] election_okD(1,4) [OF ok] in \<open>simp_all del: not_None_eq\<close>)
qed

lemma publish_ok:
  assumes ok: "election_ok C a e" and V: "view_ok C a V"
  obtains r e' fx where "election_publish V b e = Some (r, e', fx)" "step_kept C a e e'"
proof (cases "confirmed e")
  case True
  then show ?thesis using that [of True e "[]"] step_keptI(2) [OF ok] by (simp add: election_publish_def Let_def)
next
  case False
  let ?h = "hash_of V b"
  let ?full = "length (election_blocks e) \<ge> 10"
  define e1 where "e1 = (if ?full then touch_tally ?h e else e)"
  have ok1: "election_ok C a e1" unfolding e1_def by (intro election_ok_cong [OF ok]) simp_all
  have run: "election_publish V b e = (if ?full \<and> tally_of ?h e1 < online_stake V div 10 then Some (True, e1, [])
      else (case map_of (election_blocks e1) ?h of None \<Rightarrow> publish_new V b e1 | Some _ \<Rightarrow> Some (True, publish_existing V b e1, [])))"
    using False by (simp only: election_publish_def Let_def e1_def if_False)
  note unconfirmed = step_keptI(1) [OF _ False]
  show ?thesis
  proof (cases "?full \<and> tally_of ?h e1 < online_stake V div 10")
    case True
    with run that unconfirmed [OF ok1] show ?thesis by simp
  next
    case room: False
    show ?thesis
    proof (cases "map_of (election_blocks e1) ?h")
      case None
      with publish_new_ok [OF ok1 V None] run room unconfirmed that show ?thesis by (metis option.case(1))
    next
      case (Some b')
      with publish_existing_ok [OF ok1 V] run room unconfirmed that show ?thesis by simp
    qed
  qed
qed

lemma state_change_frame:
  "last_votes (snd (state_change V x y e)) = last_votes e" "election_blocks (snd (state_change V x y e)) = election_blocks e"
  "status (snd (state_change V x y e)) = status e"
  "state_m (snd (state_change V x y e)) = (if valid_change x y \<and> state_m e = x then y else state_m e)"
  by (simp_all add: state_change_def)

lemma time_frame [simp]:
  "last_votes (send_confirm_req V e) = last_votes e" "election_blocks (send_confirm_req V e) = election_blocks e"
  "status (send_confirm_req V e) = status e" "state_m (send_confirm_req V e) = state_m e"
  "last_votes (broadcast_block V e) = last_votes e" "election_blocks (broadcast_block V e) = election_blocks e"
  "status (broadcast_block V e) = status e" "state_m (broadcast_block V e) = state_m e"
  by (simp_all add: send_confirm_req_def broadcast_block_def)

lemma tally_frame [simp]:
  "last_votes (snd (tally V e)) = last_votes e" "election_blocks (snd (tally V e)) = election_blocks e"
  "status (snd (tally V e)) = status e" "state_m (snd (tally V e)) = state_m e"
  by (simp_all add: tally_def Let_def)

text \<open>Where time can take an election: the fall-through of \<open>valid_change\<close> is never used.\<close>

fun time_moves :: "state_t \<Rightarrow> state_t list" where
  "time_moves Passive = [Passive, Active, Expired_unconfirmed]"
| "time_moves Active = [Active, Broadcasting, Expired_unconfirmed]"
| "time_moves Broadcasting = [Broadcasting, Backtracking, Expired_unconfirmed]"
| "time_moves Backtracking = [Backtracking, Expired_unconfirmed]"
| "time_moves Confirmed = [Confirmed, Expired_confirmed]"
| "time_moves s = [s]"

lemmas change_defs = change_from_broadcasting_def change_from_backtracking_def change_from_confirmed_def

lemma transition_time_frame:
  assumes "transition_time V e = (r, e', fx)"
  shows "last_votes e' = last_votes e" "election_blocks e' = election_blocks e" "winner (status e') = winner (status e)"
    "state_m e' \<in> set (time_moves (state_m e))"
  using assms
  by (cases "state_m e"; auto simp: transition_time_def Let_def state_change_frame confirmed_def change_defs split: if_splits)+

lemma transition_time_ok:
  assumes "election_ok C a e" "transition_time V e = (r, e', fx)"
  shows "step_kept C a e e'"
proof (rule step_keptI(2) [OF assms(1)])
  show "confirmed e'" if "confirmed e"
    using that transition_time_frame(4) [OF assms(2)] by (cases "state_m e") (auto simp: confirmed_def)
qed (use transition_time_frame [OF assms(2)] in simp_all)

lemma make_election_ok:
  assumes "view_ok C a V" "make_election V b p = Some (e, fx)"
  shows "election_ok C a e"
  using assms by (auto simp: make_election_def election_ok_def view_ok_def Let_def bind_eq_Some_conv)

section \<open>Runs\<close>

inductive election_step :: "crypto \<Rightarrow> account \<Rightarrow> election \<Rightarrow> election \<Rightarrow> bool" for C a where
  vote: "view_ok C a V \<Longrightarrow> rep \<noteq> a \<Longrightarrow> election_vote V rep q h e = Some (r, e', fx) \<Longrightarrow> election_step C a e e'"
| publish: "view_ok C a V \<Longrightarrow> election_publish V b e = Some (r, e', fx) \<Longrightarrow> election_step C a e e'"
| cached: "view_ok C a V \<Longrightarrow> insert_inactive_votes_cache V h e = Some (n, e', fx) \<Longrightarrow> election_step C a e e'"
| cemented: "view_ok C a V \<Longrightarrow> \<not> confirmed e \<Longrightarrow> confirm_once V Active_confirmation_height e = (e', fx) \<Longrightarrow> election_step C a e e'"
| time: "view_ok C a V \<Longrightarrow> transition_time V e = (r, e', fx) \<Longrightarrow> election_step C a e e'"
| to_passive: "view_ok C a V \<Longrightarrow> election_step C a e (transition_passive V e)"
| to_active: "view_ok C a V \<Longrightarrow> election_step C a e (transition_active V e)"
| prioritize: "view_ok C a V \<Longrightarrow> prioritize_election V e = (e', fx) \<Longrightarrow> election_step C a e e'"
| dependent: "\<not> confirmed e \<Longrightarrow> election_step C a e (e\<lparr>dependent_set := List.insert h (dependent_set e)\<rparr>)"

lemma election_step_kept:
  assumes "election_ok C a e" "election_step C a e e'"
  shows "step_kept C a e e'"
  using assms(2)
proof cases
  case (vote V rep q h r fx)
  with vote_ok [OF assms(1) vote(1,2), of q h] show ?thesis by auto
next
  case (publish V b r fx)
  with publish_ok [OF assms(1) publish(1), of b] show ?thesis by auto
next
  case (cached V h n fx)
  with cached_ok [OF assms(1) cached(1), of h] show ?thesis by auto
next
  case (cemented V fx)
  with confirm_once_frame [OF cemented(3)] election_ok_cong [OF assms(1)] show ?thesis by (intro step_keptI(1)) simp_all
next
  case (time V r fx)
  with transition_time_ok assms(1) show ?thesis by blast
next
  case (to_passive V)
  then show ?thesis
    by (intro step_keptI(2) [OF assms(1)]) (auto simp: transition_passive_def state_change_frame confirmed_def)
next
  case (to_active V)
  then show ?thesis
    by (intro step_keptI(2) [OF assms(1)]) (auto simp: transition_active_def state_change_frame confirmed_def)
next
  case (prioritize V fx)
  then show ?thesis by (intro step_keptI(2) [OF assms(1)]) (auto simp: prioritize_election_def confirmed_def)
next
  case (dependent h)
  then show ?thesis by (intro step_keptI(2) [OF assms(1)]) (auto simp: confirmed_def)
qed

inductive election_run :: "crypto \<Rightarrow> account \<Rightarrow> election \<Rightarrow> bool" for C a where
  begins: "view_ok C a V \<Longrightarrow> make_election V b p = Some (e, fx) \<Longrightarrow> election_run C a e"
| goes_on: "election_run C a e \<Longrightarrow> election_step C a e e' \<Longrightarrow> election_run C a e'"

lemma election_run_ok: "election_run C a e \<Longrightarrow> election_ok C a e"
  by (induction rule: election_run.induct) (auto dest: make_election_ok election_step_kept simp: step_kept_def)

lemma confirmed_for_good:
  assumes "(election_step C a)\<^sup>*\<^sup>* e e'" "election_ok C a e" "confirmed e"
  shows "election_ok C a e' \<and> confirmed e' \<and> winner (status e') = winner (status e) \<and> election_blocks e' = election_blocks e"
  using assms(1)
proof induction
  case (step y z)
  with election_step_kept [of C a y z] show ?case by (auto simp: step_kept_def)
qed (use assms in simp)

section \<open>Agreement\<close>

text \<open>
  Two confirmations of different blocks share a voter, if the margins together are at least the weight of
  all representatives.
\<close>

lemma leads_weight:
  assumes "leads V e h" "election_ok C a e" "counted V e"
  shows "unat (delta V) < (\<Sum>x \<in> voters (last_votes e) h. unat (weight V x))"
  using assms unat_voted [OF election_okD(1) [OF assms(2)]] by (simp add: leads_def counted_def)

lemma common_voter:
  assumes "leads V e h" "leads V' e' h'" "election_ok C a e" "election_ok C a e'" "counted V e" "counted V' e'"
    "weight V' = weight V" "finite A" "fst ` set (last_votes e) \<subseteq> A" "fst ` set (last_votes e') \<subseteq> A"
    "(\<Sum>x \<in> A. unat (weight V x)) \<le> unat (delta V) + unat (delta V')"
  shows "voters (last_votes e) h \<inter> voters (last_votes e') h' \<noteq> {}"
proof
  assume disj: "voters (last_votes e) h \<inter> voters (last_votes e') h' = {}"
  let ?S = "voters (last_votes e) h" and ?S' = "voters (last_votes e') h'" and ?w = "\<lambda>x. unat (weight V x)"
  have "sum ?w ?S + sum ?w ?S' = sum ?w (?S \<union> ?S')" using disj by (simp add: sum.union_disjoint)
  also have "\<dots> \<le> sum ?w A"
  proof (rule sum_mono2 [OF assms(8)])
    show "?S \<union> ?S' \<subseteq> A"
      using subset_trans [OF voters_subset assms(9)] subset_trans [OF voters_subset assms(10)] by simp
  qed simp
  finally show False
    using leads_weight [OF assms(1,3,5)] leads_weight [OF assms(2,4,6)] assms(7,11) by simp
qed

lemma confirmed_leads:
  assumes "election_ok C a e" "view_ok C a V" "counted V e" "confirm_if_quorum V e = Some (e', fx)" "\<not> confirmed e" "confirmed e'"
  shows "leads V e (generate_hash C (winner (status e')))"
proof -
  obtain e1 fx1 where e1: "confirm_if_quorum V e = Some (e1, fx1)"
      "state_m e1 = (if weight_present V e \<and> (\<exists>h. leads V e h) then Confirmed else state_m e)"
      "weight_present V e \<and> (\<exists>h. leads V e h) \<longrightarrow> leads V e (generate_hash C (winner (status e1)))"
    by (rule confirm_if_quorum_spec [OF assms(1-3)])
  then have "e1 = e'" using assms(4) by simp
  with e1(2) assms(5,6) have "weight_present V e \<and> (\<exists>h. leads V e h)" by (auto simp: confirmed_def split: if_splits)
  with e1(3) \<open>e1 = e'\<close> show ?thesis by simp
qed

section \<open>The rules for votes\<close>

text \<open>The weight that allows to vote and the cooldown, as natural numbers.\<close>

definition votes_count :: "node_view \<Rightarrow> account \<Rightarrow> bool" where
  "votes_count V rep = (is_test_network V \<or> unat (online_stake V) div 1000 < unat (weight V rep))"

definition cooldown_seconds :: "nat \<Rightarrow> nat \<Rightarrow> int" where
  "cooldown_seconds stake w = (if w < stake div 100 then 15 else if w < stake div 20 then 5 else 1)"

lemma principal_weight_nat:
  "principal_weight_factor V = 1000 \<Longrightarrow>
     (minimum_principal_weight V < w) = (unat (online_stake V) div 1000 < unat w)"
  by (simp add: minimum_principal_weight_def word_less_nat_alt unat_div)

lemma vote_cooldown_nat: "vote_cooldown V w = cooldown_seconds (unat (online_stake V)) (unat w)"
  by (simp add: vote_cooldown_def cooldown_seconds_def word_less_nat_alt unat_div)

definition newer_vote :: "u64 \<Rightarrow> block_hash \<Rightarrow> vote_info \<Rightarrow> bool" where
  "newer_vote q h l = (vi_sequence l < q \<or> vi_sequence l = q \<and> vi_hash l < h)"

lemma election_vote_cases:
  assumes "election_vote V rep q h e = Some ((replay, processed), e', fx)" "principal_weight_factor V = 1000"
  shows "replay \<longleftrightarrow> votes_count V rep \<and> (\<exists>l. map_of (last_votes e) rep = Some l \<and> \<not> newer_vote q h l)"
    "processed \<longleftrightarrow> votes_count V rep \<and> (\<forall>l. map_of (last_votes e) rep = Some l \<longrightarrow> newer_vote q h l
       \<and> vi_time l + cooldown_seconds (unat (online_stake V)) (unat (weight V rep)) * 1000000000 \<le> steady_now V)"
    "\<not> processed \<Longrightarrow> e' = e \<and> fx = []"
  using assms
  by (auto simp: election_vote_def Let_def votes_count_def newer_vote_def principal_weight_nat vote_cooldown_nat seconds_def
      split: if_splits option.splits)

lemma election_vote_recorded:
  assumes "election_vote V rep q h e = Some ((replay, True), e', fx)"
    and "e1 = e\<lparr>last_votes := AList.update rep \<lparr>vi_time = steady_now V, vi_sequence = q, vi_hash = h\<rparr> (last_votes e)\<rparr>"
  shows "if confirmed e then e' = e1 \<and> fx = [Stat_inc ''vote_new'' 1]
    else \<exists>fx'. confirm_if_quorum V e1 = Some (e', fx') \<and> fx = Stat_inc ''vote_new'' 1 # fx'"
  using assms
  by (auto simp: election_vote_def Let_def confirmed_def split: if_splits option.splits)

end
