(* ===== verification/History.thy ===== *)
theory History
  imports Ledger_Invariant
begin

text \<open>
  What a ledger remembers of the blocks it accepted, which is what undoing them relies on: every stored
  block belongs to the chain of one account, linked to its predecessor and successor; the pending table
  holds exactly the sends no stored block has collected; the record of an account is determined by its
  head block. \<open>rk\<close> is a rank that grows along chains and from a send to the block that collects it (the
  order of acceptance is one), and \<open>g\<close> is the hash of the genesis block, which collects nothing.
\<close>

subsection \<open>What a stored block says about itself\<close>

definition sb_of :: "block \<Rightarrow> block_sideband" where
  "sb_of b = (case sideband_m b of Some sb \<Rightarrow> sb | None \<Rightarrow> default_sideband)"

definition own_account :: "block \<Rightarrow> account" where
  "own_account b = (if block_account b = 0 then sideband_account (sb_of b) else block_account b)"

definition own_balance :: "block \<Rightarrow> amount" where
  "own_balance b = (case hashables b of Send h \<Rightarrow> send_balance h | State h \<Rightarrow> state_balance h
     | _ \<Rightarrow> sideband_balance (sb_of b))"

definition own_version :: "block \<Rightarrow> epoch" where
  "own_version b = (if type_of b = State_type then details_epoch (details (sb_of b)) else epoch_0)"

abbreviation own_height :: "block \<Rightarrow> u64" where
  "own_height b \<equiv> height (sb_of b)"

abbreviation own_successor :: "block \<Rightarrow> block_hash" where
  "own_successor b \<equiv> successor (sb_of b)"

lemma own_defined:
  assumes "has_sideband b"
  shows "sideband b = Some (sb_of b)" "block_account_calculated b = Some (own_account b)"
    "block_balance_calculated b = Some (own_balance b)"
  using assms
  by (auto simp: has_sideband_def sideband_def sb_of_def block_account_calculated_def own_account_def
      block_balance_calculated_def own_balance_def split: block_hashables.split)

lemma stored_queries:
  assumes "blocks_ok s" "block_get s h = Some b"
  shows "store_block_account s h = Some (own_account b)" "block_balance s h = Some (own_balance b)"
    "block_account_height s h = Some (own_height b)" "block_version s h = Some (own_version b)"
    "block_successor s h = own_successor b"
  using assms own_defined [OF block_get_sideband [OF assms]]
  by (simp_all add: store_block_account_def block_balance_def block_account_height_def block_version_def
      own_version_def block_successor_def)

lemma own_with_successor [simp]:
  "has_predecessor (with_successor h b) = has_predecessor b"
  "own_account (with_successor h b) = own_account b"
  "own_balance (with_successor h b) = own_balance b"
  "own_version (with_successor h b) = own_version b"
  "own_height (with_successor h b) = own_height b"
  "has_sideband b \<Longrightarrow> own_successor (with_successor h b) = h"
  by (auto simp: own_account_def own_balance_def own_version_def sb_of_def with_successor_def has_predecessor_def
      type_of_def block_account_def has_sideband_def split: option.split block_hashables.split)

text \<open>The balance before a block, and the pending entry the block added or collected.\<close>

definition prior_balance :: "store \<Rightarrow> block \<Rightarrow> amount" where
  "prior_balance s b = (if has_predecessor b
     then (case block_get s (block_previous b) of Some p \<Rightarrow> own_balance p | None \<Rightarrow> 0) else 0)"

definition stored_change :: "env \<Rightarrow> store \<Rightarrow> block_hash \<Rightarrow> block \<Rightarrow> pending_change" where
  "stored_change E s h b = block_change E h b (own_account b) (prior_balance s b) (own_balance b) (own_version b)"

definition collected :: "env \<Rightarrow> block_hash \<Rightarrow> store \<Rightarrow> pending_key \<Rightarrow> bool" where
  "collected E g s k = (\<exists>h b. block_get s h = Some b \<and> h \<noteq> g \<and> stored_change E s h b = Pending_del k)"

subsection \<open>The invariant\<close>

definition link_ok :: "store \<Rightarrow> block_hash \<Rightarrow> block \<Rightarrow> bool" where
  "link_ok s h b =
     (if has_predecessor b
      then \<exists>p. block_get s (block_previous b) = Some p \<and> own_account p = own_account b \<and> own_successor p = h
             \<and> unat (own_height b) = Suc (unat (own_height p)) \<and> (type_of p = State_type \<longrightarrow> type_of b = State_type)
      else own_height b = 1 \<and> (\<exists>i. account_get s (own_account b) = Some i \<and> open_block i = h))"

definition successor_ok :: "store \<Rightarrow> block_hash \<Rightarrow> block \<Rightarrow> bool" where
  "successor_ok s h b =
     (if own_successor b = 0 then \<exists>i. account_get s (own_account b) = Some i \<and> head i = h
      else \<exists>c. block_get s (own_successor b) = Some c \<and> has_predecessor c \<and> block_previous c = h)"

definition amount_ok :: "env \<Rightarrow> block_hash \<Rightarrow> store \<Rightarrow> block_hash \<Rightarrow> block \<Rightarrow> bool" where
  "amount_ok E g s h b = (case stored_change E s h b of
     Pending_none \<Rightarrow> own_balance b = prior_balance s b
   | Pending_add k p \<Rightarrow> own_balance b \<le> prior_balance s b
   | Pending_del k \<Rightarrow> h \<noteq> g \<longrightarrow> (\<exists>src p. block_get s (snd k) = Some src \<and> stored_change E s (snd k) src = Pending_add k p
       \<and> own_balance b = prior_balance s b + pending_amount p \<and> prior_balance s b \<le> own_balance b \<and> (type_of b \<noteq> State_type \<longrightarrow> pending_epoch p = epoch_0)))"

definition rank_ok :: "env \<Rightarrow> block_hash \<Rightarrow> (block_hash \<Rightarrow> nat) \<Rightarrow> store \<Rightarrow> block_hash \<Rightarrow> block \<Rightarrow> bool" where
  "rank_ok E g rk s h b = ((has_predecessor b \<longrightarrow> rk (block_previous b) < rk h)
     \<and> (\<forall>k. h \<noteq> g \<and> stored_change E s h b = Pending_del k \<longrightarrow> rk (snd k) < rk h))"

definition block_ok :: "env \<Rightarrow> block_hash \<Rightarrow> (block_hash \<Rightarrow> nat) \<Rightarrow> store \<Rightarrow> block_hash \<Rightarrow> block \<Rightarrow> bool" where
  "block_ok E g rk s h b =
     (generate_hash (crypto_fns E) b = h \<and> account_get s (own_account b) \<noteq> None \<and> own_version b < 32
      \<and> \<not> ledger_is_epoch_link E h \<and> link_ok s h b \<and> successor_ok s h b \<and> amount_ok E g s h b \<and> rank_ok E g rk s h b
      \<and> (type_of b = State_type \<longrightarrow> block_account b \<noteq> 0))"

definition head_ok :: "crypto \<Rightarrow> store \<Rightarrow> account \<Rightarrow> account_info \<Rightarrow> bool" where
  "head_ok C s a i = (\<exists>b. block_get s (head i) = Some b \<and> own_account b = a \<and> own_successor b = 0
     \<and> own_height b = block_count i \<and> own_version b = epoch_m i
     \<and> table_get (frontiers s) (head i) = (if type_of b = State_type then None else Some a)
     \<and> (\<exists>rh rb. representative_calculated C s (head i) = Some rh \<and> block_get s rh = Some rb
          \<and> block_representative rb = representative i))"

definition pending_ok :: "env \<Rightarrow> block_hash \<Rightarrow> store \<Rightarrow> bool" where
  "pending_ok E g s =
     ((\<forall>k p. pending_get s k = Some p \<longleftrightarrow>
         (\<exists>b. block_get s (snd k) = Some b \<and> stored_change E s (snd k) b = Pending_add k p) \<and> \<not> collected E g s k)
      \<and> (\<forall>h b h' b' k. block_get s h = Some b \<longrightarrow> h \<noteq> g \<longrightarrow> stored_change E s h b = Pending_del k
           \<longrightarrow> block_get s h' = Some b' \<longrightarrow> h' \<noteq> g \<longrightarrow> stored_change E s h' b' = Pending_del k \<longrightarrow> h' = h))"

definition history_ok :: "env \<Rightarrow> block_hash \<Rightarrow> (block_hash \<Rightarrow> nat) \<Rightarrow> store \<Rightarrow> bool" where
  "history_ok E g rk s =
     ((\<forall>h b. block_get s h = Some b \<longrightarrow> block_ok E g rk s h b)
      \<and> (\<forall>a i. account_get s a = Some i \<longrightarrow> head_ok (crypto_fns E) s a i)
      \<and> pending_ok E g s)"

text \<open>
  What a processed block must satisfy beyond \<open>hash_ok\<close>: its hash is no epoch link, its account is not
  full, and a state block for an account that is not open has no predecessor (an epoch block that
  violates this is accepted and breaks the chain it points into).
\<close>

definition chain_start_ok :: "store \<Rightarrow> block \<Rightarrow> bool" where
  "chain_start_ok s b = (type_of b = State_type \<and> account_get s (block_account b) = None \<longrightarrow> \<not> has_predecessor b)"

definition extends_ok :: "env \<Rightarrow> store \<Rightarrow> block \<Rightarrow> bool" where
  "extends_ok E s b = (\<not> ledger_is_epoch_link E (generate_hash (crypto_fns E) b) \<and> chain_start_ok s b
     \<and> list_all (\<lambda>e. block_count (snd e) \<noteq> - 1) (accounts s)
     \<and> list_all (\<lambda>e. fst e < 32) (ledger_epochs (params E)))"

lemma history_okD:
  assumes "history_ok E g rk s" "block_get s h = Some b"
  shows "generate_hash (crypto_fns E) b = h" "account_get s (own_account b) \<noteq> None" "own_version b < 32"
    "\<not> ledger_is_epoch_link E h" "link_ok s h b" "successor_ok s h b" "amount_ok E g s h b" "rank_ok E g rk s h b"
    "type_of b = State_type \<longrightarrow> block_account b \<noteq> 0"
  using assms by (simp_all add: history_ok_def block_ok_def)

lemma history_ok_head: "history_ok E g rk s \<Longrightarrow> account_get s a = Some i \<Longrightarrow> head_ok (crypto_fns E) s a i"
  by (simp add: history_ok_def)

lemma history_pending:
  assumes "history_ok E g rk s"
  shows "pending_get s k = Some p \<longleftrightarrow>
    (\<exists>b. block_get s (snd k) = Some b \<and> stored_change E s (snd k) b = Pending_add k p) \<and> \<not> collected E g s k"
  using assms unfolding history_ok_def pending_ok_def by blast

lemma history_collector_unique:
  assumes "history_ok E g rk s" "block_get s h = Some b" "h \<noteq> g" "stored_change E s h b = Pending_del k"
    "block_get s h' = Some b'" "h' \<noteq> g" "stored_change E s h' b' = Pending_del k"
  shows "h' = h"
  using assms unfolding history_ok_def pending_ok_def by blast

text \<open>A predecessor of a stored block is stored, in the same account, and points back.\<close>

lemma history_predecessor:
  assumes "history_ok E g rk s" "block_get s h = Some b" "has_predecessor b"
  obtains p where "block_get s (block_previous b) = Some p" "own_account p = own_account b" "own_successor p = h"
    "unat (own_height b) = Suc (unat (own_height p))" "type_of p = State_type \<longrightarrow> type_of b = State_type"
    "rk (block_previous b) < rk h"
  using history_okD(5,8) [OF assms(1,2)] assms(3) by (auto simp: link_ok_def rank_ok_def)

text \<open>What a stored block collected was sent by a stored block, and collecting it did not wrap.\<close>

lemma history_source:
  assumes "history_ok E g rk s" "block_get s h = Some b" "h \<noteq> g" "stored_change E s h b = Pending_del k"
  obtains src p where "block_get s (snd k) = Some src" "stored_change E s (snd k) src = Pending_add k p"
    "own_balance b = prior_balance s b + pending_amount p" "prior_balance s b \<le> own_balance b"
    "type_of b \<noteq> State_type \<longrightarrow> pending_epoch p = epoch_0" "rk (snd k) < rk h"
proof -
  have "\<exists>src p. block_get s (snd k) = Some src \<and> stored_change E s (snd k) src = Pending_add k p
      \<and> own_balance b = prior_balance s b + pending_amount p \<and> prior_balance s b \<le> own_balance b
      \<and> (type_of b \<noteq> State_type \<longrightarrow> pending_epoch p = epoch_0)"
    using history_okD(7) [OF assms(1,2)] assms(3,4) unfolding amount_ok_def assms(4) by simp
  moreover have "rk (snd k) < rk h" using history_okD(8) [OF assms(1,2)] assms(3,4) by (simp add: rank_ok_def)
  ultimately show ?thesis using that by blast
qed

lemma prior_balance_stored:
  assumes "block_get s (block_previous b) = Some p" "has_predecessor b"
  shows "prior_balance s b = own_balance p"
  using assms by (simp add: prior_balance_def)

subsection \<open>Representatives\<close>

lemma representative_calculated_step:
  assumes "block_get s h = Some b"
  shows "representative_calculated C s h =
    (if keeps_representative b then representative_calculated C s (block_previous b)
     else if generate_hash C b = 0 then representative_calculated C s h else Some (generate_hash C b))"
  using assms
  by (subst representative_calculated.simps)
     (auto simp: keeps_representative_def type_of_def block_previous_def split: block_hashables.split)

text \<open>
  The representative of a block is found among its ancestors, so it is the same in every store that has
  the blocks of the chain.
\<close>

lemma representative_transfer:
  assumes hist: "history_ok E g rk s" and z: "block_get s 0 = None" and b: "block_get s h = Some b"
    and same: "\<forall>h' b'. block_get s h' = Some b' \<and> own_account b' = own_account b \<and> rk h' \<le> rk h \<longrightarrow>
      (\<exists>b''. block_get s' h' = Some b'' \<and> hashables b'' = hashables b')"
  shows "\<exists>r rb. representative_calculated (crypto_fns E) s h = Some r \<and> representative_calculated (crypto_fns E) s' h = Some r
    \<and> block_get s r = Some rb \<and> own_account rb = own_account b \<and> rk r \<le> rk h"
  using b same
proof (induction "rk h" arbitrary: h b rule: less_induct)
  case less
  obtain b'' where b'': "block_get s' h = Some b''" "hashables b'' = hashables b"
    using less.prems by blast
  have hash: "generate_hash (crypto_fns E) b = h" using history_okD(1) [OF hist less.prems(1)] .
  have h0: "h \<noteq> 0" using z less.prems(1) by auto
  have eq: "keeps_representative b'' = keeps_representative b" "block_previous b'' = block_previous b"
      "generate_hash (crypto_fns E) b'' = h"
    using b''(2) hash by (simp_all add: keeps_representative_def type_of_def block_previous_def generate_hash_def)
  show ?case
  proof (cases "keeps_representative b")
    case False
    then show ?thesis
      using representative_calculated_step [OF less.prems(1), of "crypto_fns E"]
        representative_calculated_step [OF b''(1), of "crypto_fns E"] eq hash h0 less.prems(1)
      by auto
  next
    case True
    then have "has_predecessor b"
      by (auto simp: keeps_representative_def type_of_def has_predecessor_def split: block_hashables.splits)
    then obtain p where p: "block_get s (block_previous b) = Some p" "own_account p = own_account b"
        "rk (block_previous b) < rk h"
      using history_predecessor [OF hist less.prems(1)] by metis
    have "\<exists>r rb. representative_calculated (crypto_fns E) s (block_previous b) = Some r
        \<and> representative_calculated (crypto_fns E) s' (block_previous b) = Some r
        \<and> block_get s r = Some rb \<and> own_account rb = own_account p \<and> rk r \<le> rk (block_previous b)"
      using less.prems(2) p by (intro less.hyps [OF p(3) p(1)]) (metis le_trans less_imp_le)
    then show ?thesis
      using True p representative_calculated_step [OF less.prems(1), of "crypto_fns E"]
        representative_calculated_step [OF b''(1), of "crypto_fns E"] eq
      by (metis le_trans less_imp_le)
  qed
qed

subsection \<open>Heads\<close>

lemma finite_blocks: "finite {h. block_get s h \<noteq> None}"
proof -
  have "{h. block_get s h \<noteq> None} \<subseteq> (\<Union>t \<in> set block_types. fst ` set (block_table t s))"
  proof
    fix h assume "h \<in> {h. block_get s h \<noteq> None}"
    then obtain b where "block_get s h = Some b" by auto
    then obtain t where "t \<in> set block_types" "table_get (block_table t s) h = Some b"
      using first_some_SomeD [of "\<lambda>t. table_get (block_table t s) h" block_types b] by (auto simp: block_get_def)
    then show "h \<in> (\<Union>t \<in> set block_types. fst ` set (block_table t s))"
      using table_get_SomeD by force
  qed
  then show ?thesis by (rule finite_subset) simp
qed

text \<open>The head of an account is its latest block.\<close>

lemma head_latest:
  assumes hist: "history_ok E g rk s" and b: "block_get s h = Some b" and i: "account_get s (own_account b) = Some i"
  shows "rk h \<le> rk (head i) \<and> unat (own_height b) \<le> unat (block_count i)"
  using b i
proof (induction "Max (rk ` {h. block_get s h \<noteq> None}) - rk h" arbitrary: h b rule: less_induct)
  case less
  show ?case
  proof (cases "own_successor b = 0")
    case True
    then have "head i = h"
      using history_okD(6) [OF hist less.prems(1)] less.prems(2) by (simp add: successor_ok_def)
    then show ?thesis
      using history_ok_head [OF hist less.prems(2)] less.prems(1) by (auto simp: head_ok_def)
  next
    case False
    then obtain c where c: "block_get s (own_successor b) = Some c" "has_predecessor c" "block_previous c = h"
      using history_okD(6) [OF hist less.prems(1)] by (auto simp: successor_ok_def)
    have p: "own_account b = own_account c" "rk h < rk (own_successor b)" "unat (own_height c) = Suc (unat (own_height b))"
      using history_predecessor [OF hist c(1,2)] c(3) less.prems(1) by auto
    have "rk (own_successor b) \<le> Max (rk ` {h. block_get s h \<noteq> None})"
      using c(1) finite_blocks [of s] by (intro Max_ge) auto
    then have "Max (rk ` {h. block_get s h \<noteq> None}) - rk (own_successor b) < Max (rk ` {h. block_get s h \<noteq> None}) - rk h"
      using p(2) by linarith
    from less.hyps [OF this c(1)] p less.prems(2) show ?thesis by simp
  qed
qed

subsection \<open>Stores that differ in successors\<close>

text \<open>The writers of an existing block change its successor only.\<close>

definition same_block :: "block \<Rightarrow> block \<Rightarrow> bool" where
  "same_block b c = (with_successor 0 b = with_successor 0 c)"

lemma same_block_refl [simp]: "same_block b b"
  by (simp add: same_block_def)

lemma same_block_sym: "same_block b c \<Longrightarrow> same_block c b"
  by (simp add: same_block_def)

lemma same_block_with_successor [simp]: "same_block (with_successor h b) c = same_block b c" "same_block b (with_successor h c) = same_block b c"
  by (simp_all add: same_block_def with_successor_def option.map_comp comp_def)

lemma same_blockD:
  assumes "same_block b c"
  shows "hashables b = hashables c" "type_of b = type_of c" "block_previous b = block_previous c"
    "has_predecessor b = has_predecessor c" "own_account b = own_account c" "own_balance b = own_balance c"
    "own_version b = own_version c" "own_height b = own_height c" "generate_hash C b = generate_hash C c"
    "block_representative b = block_representative c" "has_sideband b = has_sideband c"
    "block_account b = block_account c"
proof -
  have eq: "with_successor 0 b = with_successor 0 c" using assms by (simp add: same_block_def)
  show "hashables b = hashables c" "type_of b = type_of c" "block_previous b = block_previous c"
    "has_predecessor b = has_predecessor c" "own_account b = own_account c" "own_balance b = own_balance c"
    "own_version b = own_version c" "own_height b = own_height c" "generate_hash C b = generate_hash C c"
    "block_representative b = block_representative c" "has_sideband b = has_sideband c"
    "block_account b = block_account c"
    using arg_cong [OF eq, of hashables] arg_cong [OF eq, of type_of] arg_cong [OF eq, of block_previous]
      arg_cong [OF eq, of has_predecessor] arg_cong [OF eq, of own_account] arg_cong [OF eq, of own_balance]
      arg_cong [OF eq, of own_version] arg_cong [OF eq, of own_height] arg_cong [OF eq, of "generate_hash C"]
      arg_cong [OF eq, of block_representative] arg_cong [OF eq, of has_sideband]
      arg_cong [OF eq, of block_account]
    by simp_all
qed

lemma same_block_eq:
  assumes "same_block b c" "has_sideband b" "own_successor b = own_successor c"
  shows "b = c"
proof -
  have b: "with_successor (own_successor x) (with_successor 0 x) = x" if "has_sideband x" for x
    using that by (cases x) (auto simp: with_successor_def sb_of_def has_sideband_def)
  show ?thesis
    using b [OF assms(2)] b [of c] same_blockD(11) [OF assms(1)] assms
    unfolding same_block_def by metis
qed

lemma stored_change_same:
  assumes "same_block b c"
    and "has_predecessor b \<longrightarrow> (\<exists>p q. block_get s (block_previous b) = Some p \<and> block_get s' (block_previous b) = Some q
      \<and> same_block p q)"
  shows "stored_change E s' h c = stored_change E s h b" "prior_balance s' c = prior_balance s b"
proof -
  note c = same_blockD [OF assms(1)]
  show pb: "prior_balance s' c = prior_balance s b"
    using assms(2) c(3,4) by (auto simp: prior_balance_def dest: same_blockD(6))
  show "stored_change E s' h c = stored_change E s h b"
    using pb c by (simp add: stored_change_def block_change_def)
qed

end
