(* ===== verification/History_Process.thy ===== *)
theory History_Process
  imports History
begin

text \<open>
  Accepting a block keeps the history of the ledger: the new block joins the end of its chain, the
  pending table still holds exactly the uncollected sends, and the genesis ledger has a history.
\<close>

definition stored_form :: "block_sideband \<Rightarrow> block \<Rightarrow> block" where
  "stored_form sb b = sideband_set (sideband_stored (type_of b) sb) b"

definition accepted ::
    "env \<Rightarrow> block_hash \<Rightarrow> (block_hash \<Rightarrow> nat) \<Rightarrow> store \<Rightarrow> block \<Rightarrow> block_sideband \<Rightarrow> account \<Rightarrow> account_info
      \<Rightarrow> pending_change \<Rightarrow> store \<Rightarrow> bool" where
  "accepted E g rk s b sb a i ch s' =
     (history_ok E g rk s \<and> store_ok s \<and> effect_ok (crypto_fns E) s b sb a i ch
      \<and> store_applied (crypto_fns E) s b sb a i ch s' \<and> effect_shape E s b sb a i ch \<and> extends_ok E s b
      \<and> block_get s g \<noteq> None \<and> total_supply s < 2 ^ 128)"

lemma acceptedD:
  assumes "accepted E g rk s b sb a i ch s'"
  shows "history_ok E g rk s" "store_ok s" "effect_ok (crypto_fns E) s b sb a i ch"
    "store_applied (crypto_fns E) s b sb a i ch s'" "effect_shape E s b sb a i ch" "extends_ok E s b"
    "block_get s g \<noteq> None" "total_supply s < 2 ^ 128"
  using assms by (simp_all add: accepted_def)

lemma accepted_get:
  assumes "accepted E g rk s b sb a i ch s'"
  shows "block_get s' h =
      (if h = generate_hash (crypto_fns E) b then Some (stored_form sb b)
       else if has_predecessor b \<and> h = block_previous b
       then map_option (with_successor (generate_hash (crypto_fns E) b)) (block_get s h) else block_get s h)"
    and "block_get s (generate_hash (crypto_fns E) b) = None" "generate_hash (crypto_fns E) b \<noteq> g"
    and "generate_hash (crypto_fns E) b \<noteq> 0"
  using acceptedD [OF assms]
  by (auto simp: store_applied_def blocks_applied_def stored_form_def effect_ok_def Let_def)

text \<open>The blocks stored before are stored still, with at most another successor.\<close>

lemma accepted_old:
  assumes "accepted E g rk s b sb a i ch s'" "block_get s h = Some c"
  shows "\<exists>c'. block_get s' h = Some c' \<and> same_block c c'"
  using assms accepted_get [OF assms(1)] by auto

lemma accepted_cases:
  assumes "accepted E g rk s b sb a i ch s'" "block_get s' h = Some c"
  shows "(h = generate_hash (crypto_fns E) b \<and> c = stored_form sb b) \<or> (\<exists>c'. block_get s h = Some c' \<and> same_block c' c)"
  using assms accepted_get [OF assms(1)] by (auto split: if_splits)

lemma accepted_old_change:
  assumes ac: "accepted E g rk s b sb a i ch s'" and c: "block_get s h = Some c" "same_block c c'"
  shows "stored_change E s' h c' = stored_change E s h c" "prior_balance s' c' = prior_balance s c"
proof -
  have "\<exists>p q. block_get s (block_previous c) = Some p \<and> block_get s' (block_previous c) = Some q \<and> same_block p q"
    if "has_predecessor c"
    using history_predecessor [OF acceptedD(1) [OF ac] c(1) that] accepted_old [OF ac] by metis
  then show "stored_change E s' h c' = stored_change E s h c" "prior_balance s' c' = prior_balance s c"
    using stored_change_same [OF c(2)] by blast+
qed

text \<open>The account was open exactly when the block has a predecessor, which then was the head.\<close>

lemma accepted_prior:
  assumes ac: "accepted E g rk s b sb a i ch s'"
  shows "has_predecessor b \<longleftrightarrow> account_get s a \<noteq> None"
    and "account_get s a = Some j \<Longrightarrow> block_previous b = head j"
    and "type_of b = State_type \<longrightarrow> block_account b = a"
proof -
  have "account_get s (block_account b) = None \<longrightarrow> \<not> has_predecessor b" if "type_of b = State_type"
    using acceptedD(6) [OF ac] that by (simp add: extends_ok_def chain_start_ok_def)
  moreover have sa: "block_account b = a" if "type_of b = State_type"
    using effect_okD(1) [OF acceptedD(3) [OF ac]] effect_shapeD(2) [OF acceptedD(5) [OF ac]] that
    by (auto simp: block_account_calculated_def sideband_def sideband_stored_def has_sideband_account_def split: if_splits)
  ultimately show "has_predecessor b \<longleftrightarrow> account_get s a \<noteq> None"
    using effect_okD(6) [OF acceptedD(3) [OF ac]] effect_shapeD(6) [OF acceptedD(5) [OF ac]] by blast
  show "account_get s a = Some j \<Longrightarrow> block_previous b = head j"
    by (rule effect_okD(7) [OF acceptedD(3) [OF ac]])
  show "type_of b = State_type \<longrightarrow> block_account b = a" using sa by blast
qed

lemma epochs_epoch_in:
  assumes "epochs_epoch es l = Some e"
  shows "\<exists>x. (e, x) \<in> set es"
  using assms by (auto simp: epochs_epoch_def dest!: find_SomeD)

lemma accepted_epoch_small:
  assumes ac: "accepted E g rk s b sb a i ch s'"
  shows "epoch_m i < 32"
proof -
  have hist: "history_ok E g rk s" using acceptedD(1) [OF ac] .
  have "epoch_m j < 32" if "account_get s a = Some j" for j
    using history_ok_head [OF hist that] history_okD(3) [OF hist] unfolding head_ok_def by metis
  moreover have "pending_epoch p < 32" if p: "pending_get s k = Some p" for k p
  proof -
    obtain c where "block_get s (snd k) = Some c" "stored_change E s (snd k) c = Pending_add k p"
      using history_pending [OF hist] p by blast
    then show ?thesis
      using history_okD(3) [OF hist]
      by (auto simp: stored_change_def block_change_def Let_def split: block_hashables.splits if_splits)
  qed
  moreover have "e < 32" if "epochs_epoch (ledger_epochs (params E)) l = Some e" for l e
    using epochs_epoch_in [OF that] acceptedD(6) [OF ac] by (auto simp: extends_ok_def list_all_iff)
  moreover have "epoch_0 < 32" by (simp add: epoch_defs)
  ultimately show ?thesis
    using effect_shapeD(4) [OF acceptedD(5) [OF ac]] unfolding epoch_origin_def by metis
qed

lemma stored_form_frame [simp]:
  "hashables (stored_form sb b) = hashables b" "type_of (stored_form sb b) = type_of b"
  "block_previous (stored_form sb b) = block_previous b" "has_predecessor (stored_form sb b) = has_predecessor b"
  "generate_hash C (stored_form sb b) = generate_hash C b" "has_sideband (stored_form sb b)"
  "block_account (stored_form sb b) = block_account b"
  "block_representative (stored_form sb b) = block_representative b"
  "keeps_representative (stored_form sb b) = keeps_representative b"
  "sb_of (stored_form sb b) = sideband_stored (type_of b) sb"
  by (simp_all add: stored_form_def has_predecessor_def has_sideband_def sb_of_def keeps_representative_def)

lemma accepted_block:
  assumes ac: "accepted E g rk s b sb a i ch s'"
  shows "own_account (stored_form sb b) = a" "own_balance (stored_form sb b) = info_balance i"
    "own_version (stored_form sb b) = epoch_m i" "own_height (stored_form sb b) = block_count i"
    "own_successor (stored_form sb b) = 0"
proof -
  note e = effect_okD [OF acceptedD(3) [OF ac]] and d = effect_shapeD [OF acceptedD(5) [OF ac]]
  show "own_account (stored_form sb b) = a" "own_balance (stored_form sb b) = info_balance i"
    using d(2) e(11) own_defined(2,3) [of "stored_form sb b"] by (simp_all add: stored_form_def has_sideband_def)
  show "own_successor (stored_form sb b) = 0" using d(1) by simp
  show "own_version (stored_form sb b) = epoch_m i"
    using d(3) accepted_epoch_small [OF ac] unpack_packed [of "details sb"]
    by (auto simp: own_version_def sideband_stored_def details_ok_def)
  have "block_count i = 1" if "type_of b = Open_type"
  proof -
    have "\<not> has_predecessor b" using that by (auto simp: has_predecessor_def type_of_def split: block_hashables.splits)
    then show ?thesis using e(9) accepted_prior(1) [OF ac] by simp
  qed
  then show "own_height (stored_form sb b) = block_count i"
    using e(10) by (auto simp: sideband_stored_def)
qed

lemma accepted_prior_balance:
  assumes ac: "accepted E g rk s b sb a i ch s'"
  shows "prior_balance s' (stored_form sb b) = entry_value info_balance (account_get s a)"
proof (cases "account_get s a")
  case None
  then show ?thesis using accepted_prior(1) [OF ac] by (simp add: prior_balance_def)
next
  case (Some j)
  have pr: "has_predecessor b" "block_previous b = head j" using accepted_prior [OF ac] Some by auto
  obtain p where p: "block_get s (head j) = Some p"
    using history_ok_head [OF acceptedD(1) [OF ac] Some] by (auto simp: head_ok_def)
  have "own_balance p = info_balance j"
    using stored_queries(2) [OF store_okD(1) [OF acceptedD(2) [OF ac]] p]
      store_ok_account [OF acceptedD(2) [OF ac] Some] by (simp add: account_ok_def)
  moreover obtain p' where "block_get s' (head j) = Some p'" "same_block p p'"
    using accepted_old [OF ac p] by blast
  ultimately show ?thesis
    using pr Some prior_balance_stored [of s' "stored_form sb b" p'] by (auto dest: same_blockD(6))
qed

lemma accepted_new_change:
  assumes ac: "accepted E g rk s b sb a i ch s'"
  shows "stored_change E s' (generate_hash (crypto_fns E) b) (stored_form sb b) = ch"
proof -
  have "\<not> (ch = Pending_del k \<and> ledger_is_epoch_link E (snd k))" for k
    using effect_shapeD(8) [OF acceptedD(5) [OF ac]] history_okD(4) [OF acceptedD(1) [OF ac]] by blast
  then have "ch = block_change E (generate_hash (crypto_fns E) b) b a (entry_value info_balance (account_get s a))
      (info_balance i) (epoch_m i)"
    using effect_shapeD(10) [OF acceptedD(5) [OF ac]] by blast
  then show ?thesis
    using accepted_block [OF ac] accepted_prior_balance [OF ac] by (simp add: stored_change_def block_change_def)
qed

subsection \<open>Blocks stored before\<close>

lemma accepted_account:
  assumes "accepted E g rk s b sb a i ch s'"
  shows "account_get s' a' = (if a' = a then Some i else account_get s a')"
  by (rule account_get_applied [OF acceptedD(4) [OF assms]])

lemma accepted_predecessor_head:
  assumes ac: "accepted E g rk s b sb a i ch s'" and "has_predecessor b" "block_get s (block_previous b) = Some c"
  shows "own_account c = a" "own_successor c = 0" "\<exists>j. account_get s a = Some j \<and> head j = block_previous b"
proof -
  obtain j where j: "account_get s a = Some j" using accepted_prior(1) [OF ac] assms(2) by blast
  then have "block_previous b = head j" by (rule accepted_prior(2) [OF ac])
  with j assms(3) history_ok_head [OF acceptedD(1) [OF ac] j]
  show "own_account c = a" "own_successor c = 0" "\<exists>j. account_get s a = Some j \<and> head j = block_previous b"
    by (auto simp: head_ok_def)
qed

lemma stored_nonzero: "store_ok s \<Longrightarrow> block_get s h = Some c \<Longrightarrow> h \<noteq> 0"
  using store_okD(6) by auto

lemma accepted_link:
  assumes ac: "accepted E g rk s b sb a i ch s'" and c: "block_get s h = Some c" and same: "same_block c c'"
  shows "link_ok s' h c'"
proof (cases "has_predecessor c")
  case True
  obtain p where p: "block_get s (block_previous c) = Some p" "own_account p = own_account c" "own_successor p = h"
      "unat (own_height c) = Suc (unat (own_height p))" "type_of p = State_type \<longrightarrow> type_of c = State_type"
    using history_predecessor [OF acceptedD(1) [OF ac] c True] by metis
  have "\<not> (has_predecessor b \<and> block_previous c = block_previous b)"
    using accepted_predecessor_head(2) [OF ac] p(1,3) stored_nonzero [OF acceptedD(2) [OF ac] c] by auto
  moreover have "block_previous c \<noteq> generate_hash (crypto_fns E) b" using p(1) accepted_get(2) [OF ac] by auto
  ultimately have "block_get s' (block_previous c) = Some p" using p(1) accepted_get(1) [OF ac] by auto
  with p True same_blockD [OF same] show ?thesis by (auto simp: link_ok_def)
next
  case False
  then obtain i' where i': "own_height c = 1" "account_get s (own_account c) = Some i'" "open_block i' = h"
    using history_okD(5) [OF acceptedD(1) [OF ac] c] by (auto simp: link_ok_def)
  have "open_block i = open_block i'" if "own_account c = a"
    using effect_okD(8) [OF acceptedD(3) [OF ac]] i' that by simp
  with i' False same_blockD [OF same] accepted_account [OF ac] show ?thesis by (auto simp: link_ok_def)
qed

lemma accepted_successor:
  assumes ac: "accepted E g rk s b sb a i ch s'" and c: "block_get s h = Some c" and c': "block_get s' h = Some c'"
  shows "successor_ok s' h c'"
proof (cases "has_predecessor b \<and> h = block_previous b")
  case True
  have "has_sideband c" using block_get_sideband [OF store_okD(1) [OF acceptedD(2) [OF ac]] c] .
  moreover have "h \<noteq> generate_hash (crypto_fns E) b" using c accepted_get(2) [OF ac] by auto
  ultimately have "own_successor c' = generate_hash (crypto_fns E) b" using c' c True accepted_get(1) [OF ac, of h] by auto
  with True accepted_get [OF ac] show ?thesis by (auto simp: successor_ok_def)
next
  case False
  moreover have "h \<noteq> generate_hash (crypto_fns E) b" using c accepted_get(2) [OF ac] by auto
  ultimately have [simp]: "c' = c" using c c' accepted_get(1) [OF ac, of h] by auto
  have su: "successor_ok s h c" using history_okD(6) [OF acceptedD(1) [OF ac] c] .
  show ?thesis
  proof (cases "own_successor c = 0")
    case True
    then obtain i' where i': "account_get s (own_account c) = Some i'" "head i' = h"
      using su by (auto simp: successor_ok_def)
    have "own_account c \<noteq> a"
      using i' accepted_prior [OF ac] False by auto
    with True i' accepted_account [OF ac] show ?thesis by (simp add: successor_ok_def)
  next
    case False
    then obtain d where d: "block_get s (own_successor c) = Some d" "has_predecessor d" "block_previous d = h"
      using su by (auto simp: successor_ok_def)
    then obtain d' where "block_get s' (own_successor c) = Some d'" "same_block d d'" using accepted_old [OF ac] by blast
    with d False same_blockD [of d d'] show ?thesis by (auto simp: successor_ok_def)
  qed
qed

lemma accepted_source:
  assumes ac: "accepted E g rk s b sb a i ch s'" and c: "block_get s h = Some c" "stored_change E s h c = Pending_add k p"
  shows "\<exists>c'. block_get s' h = Some c' \<and> stored_change E s' h c' = Pending_add k p"
  using accepted_old [OF ac c(1)] accepted_old_change [OF ac c(1)] c(2) by metis

lemma accepted_amount:
  assumes ac: "accepted E g rk s b sb a i ch s'" and c: "block_get s h = Some c" and same: "same_block c c'"
  shows "amount_ok E g s' h c'"
proof -
  have am: "amount_ok E g s h c" using history_okD(7) [OF acceptedD(1) [OF ac] c] .
  note eq = accepted_old_change [OF ac c same] same_blockD [OF same]
  show ?thesis
  proof (cases "stored_change E s h c")
    case (Pending_del k)
    with am have "h \<noteq> g \<longrightarrow> (\<exists>src p. block_get s (snd k) = Some src \<and> stored_change E s (snd k) src = Pending_add k p
       \<and> own_balance c = prior_balance s c + pending_amount p \<and> prior_balance s c \<le> own_balance c \<and> (type_of c \<noteq> State_type \<longrightarrow> pending_epoch p = epoch_0))"
      by (simp add: amount_ok_def)
    with eq Pending_del accepted_source [OF ac] show ?thesis
      unfolding amount_ok_def by (simp, metis)
  qed (use am eq in \<open>simp_all add: amount_ok_def\<close>)
qed

subsection \<open>The new rank\<close>

definition next_rank :: "store \<Rightarrow> (block_hash \<Rightarrow> nat) \<Rightarrow> nat" where
  "next_rank s rk = Suc (Max (insert 0 (rk ` {h. block_get s h \<noteq> None})))"

lemma next_rank_greater: "block_get s h \<noteq> None \<Longrightarrow> rk h < next_rank s rk"
  unfolding next_rank_def using finite_blocks [of s] by (intro le_imp_less_Suc Max_ge) auto

lemma accepted_old_ok:
  assumes ac: "accepted E g rk s b sb a i ch s'" and c: "block_get s h = Some c" and c': "block_get s' h = Some c'"
  shows "block_ok E g (rk(generate_hash (crypto_fns E) b := next_rank s rk)) s' h c'"
proof -
  have same: "same_block c c'" using accepted_old [OF ac c] c' by auto
  note hist = acceptedD(1) [OF ac]
  note d = history_okD [OF hist c] and eq = same_blockD [OF same] accepted_old_change [OF ac c same]
  have fresh: "x \<noteq> generate_hash (crypto_fns E) b" if "block_get s x \<noteq> None" for x
    using that accepted_get(2) [OF ac] by auto
  have "block_get s (snd k) \<noteq> None" if "h \<noteq> g" "stored_change E s h c = Pending_del k" for k
    using d(7) that by (auto simp: amount_ok_def)
  moreover have "block_get s (block_previous c) \<noteq> None" if "has_predecessor c"
    using history_predecessor [OF hist c that] by auto
  ultimately have "rank_ok E g (rk(generate_hash (crypto_fns E) b := next_rank s rk)) s' h c'"
    using d(8) eq fresh c unfolding rank_ok_def by (metis fun_upd_other option.distinct(1))
  then show ?thesis
    using d eq accepted_account [OF ac] accepted_link [OF ac c same] accepted_successor [OF ac c c'] accepted_amount [OF ac c same]
    by (simp add: block_ok_def)
qed

subsection \<open>The new block\<close>

lemma accepted_new_link:
  assumes ac: "accepted E g rk s b sb a i ch s'"
  shows "link_ok s' (generate_hash (crypto_fns E) b) (stored_form sb b)"
proof (cases "account_get s a")
  case None
  then show ?thesis
    using effect_okD(8,9) [OF acceptedD(3) [OF ac]] accepted_prior(1) [OF ac] accepted_block [OF ac] accepted_account [OF ac]
    by (simp add: link_ok_def)
next
  case (Some j)
  have pr: "has_predecessor b" "block_previous b = head j" using accepted_prior [OF ac] Some by auto
  obtain p where p: "block_get s (head j) = Some p" "own_account p = a" "own_height p = block_count j"
    using history_ok_head [OF acceptedD(1) [OF ac] Some] by (auto simp: head_ok_def)
  let ?p = "with_successor (generate_hash (crypto_fns E) b) p"
  have get: "block_get s' (block_previous b) = Some ?p"
    using p(1) pr accepted_get [OF ac] by auto
  have sbp: "has_sideband p" using block_get_sideband [OF store_okD(1) [OF acceptedD(2) [OF ac]] p(1)] .
  have "block_count j \<noteq> - 1"
    using acceptedD(6) [OF ac] table_get_SomeD [of "accounts s" a j] Some
    by (auto simp: extends_ok_def list_all_iff account_get_def)
  then have "unat (block_count i) = Suc (unat (block_count j))"
    using effect_okD(9) [OF acceptedD(3) [OF ac]] Some unatSuc [of "block_count j"] max_word_wrap [of "block_count j"]
    by (auto simp: add.commute)
  moreover have "type_of p = State_type \<longrightarrow> type_of b = State_type"
    using effect_shapeD(7) [OF acceptedD(5) [OF ac]] pr p(1) by metis
  ultimately show ?thesis
    using get p pr sbp accepted_block [OF ac] by (auto simp: link_ok_def)
qed

lemma accepted_new_amount:
  assumes ac: "accepted E g rk s b sb a i ch s'"
  shows "amount_ok E g s' (generate_hash (crypto_fns E) b) (stored_form sb b)"
proof -
  note bal = effect_okD(12) [OF acceptedD(3) [OF ac]]
  note eq = accepted_new_change [OF ac] accepted_block [OF ac] accepted_prior_balance [OF ac]
  show ?thesis
  proof (cases ch)
    case (Pending_del k)
    with bal obtain p where p: "pending_get s k = Some p"
        "info_balance i = entry_value info_balance (account_get s a) + pending_amount p"
      by (auto simp: pending_get_def split: option.splits)
    then obtain src where "block_get s (snd k) = Some src" "stored_change E s (snd k) src = Pending_add k p"
      using history_pending [OF acceptedD(1) [OF ac]] by blast
    then obtain src' where "block_get s' (snd k) = Some src'" "stored_change E s' (snd k) src' = Pending_add k p"
      using accepted_source [OF ac] by blast
    moreover have "type_of b \<noteq> State_type \<longrightarrow> pending_epoch p = epoch_0"
      using effect_shapeD(9) [OF acceptedD(5) [OF ac] Pending_del] p(1) by auto
    moreover have "entry_value info_balance (account_get s a) \<le> info_balance i"
      using collect_no_wrap [OF acceptedD(2,8) [OF ac], of k p a] p by (simp add: word_le_nat_alt pending_get_def)
    ultimately show ?thesis using eq p Pending_del by (simp add: amount_ok_def)
  qed (use bal eq in \<open>simp_all add: amount_ok_def\<close>)
qed

lemma accepted_new_ok:
  assumes ac: "accepted E g rk s b sb a i ch s'"
  shows "block_ok E g (rk(generate_hash (crypto_fns E) b := next_rank s rk)) s' (generate_hash (crypto_fns E) b) (stored_form sb b)"
proof -
  let ?h = "generate_hash (crypto_fns E) b"
  have fresh: "x \<noteq> ?h" if "block_get s x \<noteq> None" for x
    using that accepted_get(2) [OF ac] by auto
  have "rank_ok E g (rk(?h := next_rank s rk)) s' ?h (stored_form sb b)"
    using effect_okD(5) [OF acceptedD(3) [OF ac]] effect_shapeD(8) [OF acceptedD(5) [OF ac]] accepted_new_change [OF ac]
      fresh next_rank_greater [of s] by (simp add: rank_ok_def)
  moreover have "successor_ok s' ?h (stored_form sb b)"
    using accepted_block [OF ac] accepted_account [OF ac] effect_okD(4) [OF acceptedD(3) [OF ac]]
    by (simp add: successor_ok_def)
  moreover have "\<not> ledger_is_epoch_link E ?h" using acceptedD(6) [OF ac] by (simp add: extends_ok_def)
  ultimately show ?thesis
    using accepted_block [OF ac] accepted_account [OF ac] accepted_epoch_small [OF ac] accepted_new_link [OF ac]
      accepted_new_amount [OF ac] accepted_prior(3) [OF ac] effect_okD(1) [OF acceptedD(3) [OF ac]] by (simp add: block_ok_def)
qed

subsection \<open>Heads and pending entries\<close>

lemma accepted_representative:
  assumes ac: "accepted E g rk s b sb a i ch s'" and c: "block_get s h = Some c"
  shows "\<exists>r rb rb'. representative_calculated (crypto_fns E) s h = Some r \<and> representative_calculated (crypto_fns E) s' h = Some r
    \<and> block_get s r = Some rb \<and> block_get s' r = Some rb' \<and> block_representative rb' = block_representative rb"
proof -
  have same: "\<exists>b''. block_get s' h' = Some b'' \<and> hashables b'' = hashables b'" if "block_get s h' = Some b'" for h' b'
    using accepted_old [OF ac that] same_blockD(1) by metis
  obtain r rb where r: "representative_calculated (crypto_fns E) s h = Some r" "representative_calculated (crypto_fns E) s' h = Some r"
      "block_get s r = Some rb"
    using representative_transfer [OF acceptedD(1) [OF ac] store_okD(6) [OF acceptedD(2) [OF ac]] c] same by blast
  then show ?thesis using accepted_old [OF ac r(3)] same_blockD(10) by metis
qed

lemma accepted_frontier:
  assumes "accepted E g rk s b sb a i ch s'"
  shows "table_get (frontiers s') h =
    (if h = generate_hash (crypto_fns E) b \<and> type_of b \<noteq> State_type then Some a
     else if \<exists>j. account_get s a = Some j \<and> head j = h then None else table_get (frontiers s) h)"
  using acceptedD(4) [OF assms]
  by (auto simp: store_applied_def frontiers_apply_def Let_def split: option.split)

lemma accepted_other_head:
  assumes ac: "accepted E g rk s b sb a i ch s'" and i': "account_get s a' = Some i'" "a' \<noteq> a"
  shows "head_ok (crypto_fns E) s' a' i'"
proof -
  obtain c rh rb where c: "block_get s (head i') = Some c" "own_account c = a'" "own_successor c = 0"
      "own_height c = block_count i'" "own_version c = epoch_m i'"
      "table_get (frontiers s) (head i') = (if type_of c = State_type then None else Some a')"
      "representative_calculated (crypto_fns E) s (head i') = Some rh" "block_get s rh = Some rb"
      "block_representative rb = representative i'"
    using history_ok_head [OF acceptedD(1) [OF ac] i'(1)] by (auto simp: head_ok_def)
  have ne: "head i' \<noteq> generate_hash (crypto_fns E) b" using c(1) accepted_get(2) [OF ac] by auto
  have "\<not> (has_predecessor b \<and> head i' = block_previous b)"
    using accepted_predecessor_head(1) [OF ac] c(1,2) i'(2) by auto
  then have get: "block_get s' (head i') = Some c" using accepted_get(1) [OF ac, of "head i'"] ne c(1) by auto
  have "\<not> (\<exists>j. account_get s a = Some j \<and> head j = head i')"
    using accepted_prior [OF ac] accepted_predecessor_head(1) [OF ac] c(1,2) i'(2) by auto
  then have "table_get (frontiers s') (head i') = table_get (frontiers s) (head i')"
    using accepted_frontier [OF ac, of "head i'"] ne by auto
  then show ?thesis
    using get c accepted_representative [OF ac c(1)] by (auto simp: head_ok_def)
qed

lemma accepted_new_head:
  assumes ac: "accepted E g rk s b sb a i ch s'"
  shows "head_ok (crypto_fns E) s' a i"
proof -
  let ?C = "crypto_fns E" let ?h = "generate_hash ?C b"
  have hd: "head i = ?h" by (rule effect_okD(4) [OF acceptedD(3) [OF ac]])
  have get: "block_get s' ?h = Some (stored_form sb b)" by (simp add: accepted_get(1) [OF ac])
  have rep: "\<exists>rh rb. representative_calculated ?C s' ?h = Some rh \<and> block_get s' rh = Some rb
      \<and> block_representative rb = representative i"
  proof (cases "keeps_representative b")
    case False
    then show ?thesis
      using representative_calculated_step [OF get, of ?C] get accepted_get(4) [OF ac]
        effect_shapeD(5) [OF acceptedD(5) [OF ac]] by auto
  next
    case True
    then have "has_predecessor b"
      by (auto simp: keeps_representative_def type_of_def has_predecessor_def split: block_hashables.splits)
    then obtain j where j: "account_get s a = Some j" "block_previous b = head j"
      using accepted_prior [OF ac] by auto
    obtain c rh rb where "block_get s (head j) = Some c" "representative_calculated ?C s (head j) = Some rh"
        "block_get s rh = Some rb" "block_representative rb = representative j"
      using history_ok_head [OF acceptedD(1) [OF ac] j(1)] by (auto simp: head_ok_def)
    then obtain rb' where "representative_calculated ?C s' (head j) = Some rh" "block_get s' rh = Some rb'"
        "block_representative rb' = representative j"
      using accepted_representative [OF ac] by fastforce
    then show ?thesis
      using representative_calculated_step [OF get, of ?C] True j effect_shapeD(5) [OF acceptedD(5) [OF ac]] by simp
  qed
  have "table_get (frontiers s) ?h = None"
    using acceptedD(2) [OF ac] accepted_get(2) [OF ac] history_ok_head [OF acceptedD(1) [OF ac]]
    unfolding store_ok_def chains_ok_def head_ok_def by (metis not_None_eq)
  then have "table_get (frontiers s') ?h = (if type_of b = State_type then None else Some a)"
    using accepted_frontier [OF ac, of ?h] by auto
  then show ?thesis using hd get rep accepted_block [OF ac] by (auto simp: head_ok_def)
qed

lemma accepted_collected:
  assumes ac: "accepted E g rk s b sb a i ch s'"
  shows "collected E g s' k \<longleftrightarrow> collected E g s k \<or> ch = Pending_del k"
proof
  assume "collected E g s' k"
  then obtain h c where "block_get s' h = Some c" "h \<noteq> g" "stored_change E s' h c = Pending_del k"
    by (auto simp: collected_def)
  then show "collected E g s k \<or> ch = Pending_del k"
    using accepted_cases [OF ac] accepted_new_change [OF ac] accepted_old_change(1) [OF ac]
    unfolding collected_def by metis
next
  assume "collected E g s k \<or> ch = Pending_del k"
  then show "collected E g s' k"
  proof
    assume "collected E g s k"
    then show ?thesis
      using accepted_old [OF ac] accepted_old_change(1) [OF ac] unfolding collected_def by metis
  next
    assume "ch = Pending_del k"
    then show ?thesis
      using accepted_new_change [OF ac] accepted_get [OF ac] unfolding collected_def by metis
  qed
qed

lemma accepted_send:
  assumes ac: "accepted E g rk s b sb a i ch s'"
  shows "(\<exists>c. block_get s' (snd k) = Some c \<and> stored_change E s' (snd k) c = Pending_add k p) \<longleftrightarrow>
    (\<exists>c. block_get s (snd k) = Some c \<and> stored_change E s (snd k) c = Pending_add k p) \<or> ch = Pending_add k p"
proof
  assume "\<exists>c. block_get s' (snd k) = Some c \<and> stored_change E s' (snd k) c = Pending_add k p"
  then show "(\<exists>c. block_get s (snd k) = Some c \<and> stored_change E s (snd k) c = Pending_add k p) \<or> ch = Pending_add k p"
    using accepted_cases [OF ac] accepted_new_change [OF ac] accepted_old_change(1) [OF ac] by metis
next
  assume "(\<exists>c. block_get s (snd k) = Some c \<and> stored_change E s (snd k) c = Pending_add k p) \<or> ch = Pending_add k p"
  then show "\<exists>c. block_get s' (snd k) = Some c \<and> stored_change E s' (snd k) c = Pending_add k p"
  proof
    assume "ch = Pending_add k p"
    moreover from this have "snd k = generate_hash (crypto_fns E) b"
      using effect_okD(12) [OF acceptedD(3) [OF ac]] by simp
    ultimately show ?thesis using accepted_new_change [OF ac] accepted_get(1) [OF ac, of "snd k"] by simp
  qed (use accepted_source [OF ac] in blast)
qed

lemma accepted_pending_get:
  assumes ac: "accepted E g rk s b sb a i ch s'"
  shows "pending_get s' k = (case ch of Pending_none \<Rightarrow> pending_get s k
     | Pending_add k' p \<Rightarrow> if k = k' then Some p else pending_get s k
     | Pending_del k' \<Rightarrow> if k = k' then None else pending_get s k)"
  using acceptedD(4) [OF ac] by (cases ch) (simp_all add: store_applied_def pending_get_def)

lemma accepted_pending_ok:
  assumes ac: "accepted E g rk s b sb a i ch s'"
  shows "pending_ok E g s'"
proof -
  note hist = acceptedD(1) [OF ac] and bal = effect_okD(12) [OF acceptedD(3) [OF ac]]
  have no_source: "\<not> collected E g s k" if "snd k = generate_hash (crypto_fns E) b" for k
    using that history_okD(7) [OF hist] accepted_get(2) [OF ac] unfolding collected_def amount_ok_def by fastforce
  have not_stored: "\<not> (\<exists>c. block_get s (snd k) = Some c \<and> P c)" if "snd k = generate_hash (crypto_fns E) b" for k P
    using that accepted_get(2) [OF ac] by simp
  have del: "\<not> collected E g s k" if "ch = Pending_del k" for k
    using that bal history_pending [OF hist, of k] by (auto simp: pending_get_def split: option.splits)
  have entries: "pending_get s' k = Some p \<longleftrightarrow>
     (\<exists>c. block_get s' (snd k) = Some c \<and> stored_change E s' (snd k) c = Pending_add k p) \<and> \<not> collected E g s' k" for k p
  proof (cases ch)
    case Pending_none
    then show ?thesis
      using accepted_pending_get [OF ac] history_pending [OF hist] accepted_send [OF ac] accepted_collected [OF ac] by simp
  next
    case (Pending_add k' p')
    with bal have k': "snd k' = generate_hash (crypto_fns E) b" by simp
    show ?thesis
      using Pending_add accepted_pending_get [OF ac, of k] history_pending [OF hist, of k p] accepted_send [OF ac, of k p]
        accepted_collected [OF ac, of k] no_source [OF k'] not_stored [OF k'] by auto
  next
    case (Pending_del k')
    then show ?thesis
      using accepted_pending_get [OF ac, of k] history_pending [OF hist, of k p] accepted_send [OF ac, of k p]
        accepted_collected [OF ac, of k] by auto
  qed
  have unique: "h' = h" if "block_get s' h = Some c" "h \<noteq> g" "stored_change E s' h c = Pending_del k"
      "block_get s' h' = Some c'" "h' \<noteq> g" "stored_change E s' h' c' = Pending_del k" for h c h' c' k
  proof -
    have old: "h = generate_hash (crypto_fns E) b \<and> ch = Pending_del k
        \<or> (\<exists>c'. block_get s h = Some c' \<and> stored_change E s h c' = Pending_del k)"
      if "block_get s' h = Some c" "stored_change E s' h c = Pending_del k" for h c
      using that accepted_cases [OF ac that(1)] accepted_new_change [OF ac] accepted_old_change(1) [OF ac] by metis
    show ?thesis
      using old [OF that(1,3)] old [OF that(4,6)] that(2,5) del history_collector_unique [OF hist] unfolding collected_def by metis
  qed
  show ?thesis unfolding pending_ok_def using entries unique by blast
qed

lemma accepted_history_ok:
  assumes ac: "accepted E g rk s b sb a i ch s'"
  shows "history_ok E g (rk(generate_hash (crypto_fns E) b := next_rank s rk)) s'"
  unfolding history_ok_def
proof (intro conjI allI impI)
  fix h c assume c: "block_get s' h = Some c"
  show "block_ok E g (rk(generate_hash (crypto_fns E) b := next_rank s rk)) s' h c"
    using accepted_cases [OF ac c] accepted_new_ok [OF ac] accepted_old_ok [OF ac _ c] by blast
next
  fix a' i' assume "account_get s' a' = Some i'"
  then show "head_ok (crypto_fns E) s' a' i'"
    using accepted_account [OF ac, of a'] accepted_new_head [OF ac] accepted_other_head [OF ac]
    by (cases "a' = a") auto
qed (rule accepted_pending_ok [OF ac])

subsection \<open>The genesis ledger\<close>

definition genesis_info :: "env \<Rightarrow> block \<Rightarrow> account_info" where
  "genesis_info E g = \<lparr>head = generate_hash (crypto_fns E) g, representative = genesis_account (params E),
     open_block = generate_hash (crypto_fns E) g, info_balance = u128_max, modified = clock_account E, block_count = 1,
     epoch_m = epoch_0\<rparr>"

definition genesis_stored :: "env \<Rightarrow> block \<Rightarrow> block" where
  "genesis_stored E g = stored_form (make_sideband (genesis_account (params E)) (genesis_amount (params E)) 1
     (clock_sideband E) legacy_details) g"

lemma genesis_tables:
  assumes gk: "genesis_ok E g" and run: "genesis_ledger E g gc cb = Some L"
  shows "block_get (ledger_store L) h = (if h = generate_hash (crypto_fns E) g then Some (genesis_stored E g) else None)"
    and "account_get (ledger_store L) a = (if a = genesis_account (params E) then Some (genesis_info E g) else None)"
    and "table_get (frontiers (ledger_store L)) h =
      (if h = generate_hash (crypto_fns E) g then Some (genesis_account (params E)) else None)"
    and "pending_get (ledger_store L) k = None"
    and "confirmation_height_get (ledger_store L) a = (if a = genesis_account (params E)
      then Some \<lparr>conf_height = 1, conf_frontier = generate_hash (crypto_fns E) g\<rparr> else None)"
proof -
  let ?C = "crypto_fns E" let ?h = "generate_hash ?C g" let ?a = "genesis_account (params E)"
  let ?sb = "make_sideband ?a (genesis_amount (params E)) 1 (clock_sideband E) legacy_details"
  have "\<not> has_predecessor g"
    using gk by (cases "hashables g") (auto simp: genesis_ok_def type_of_def has_predecessor_def)
  then obtain s1 where s1: "block_put ?C empty_store ?h (sideband_set ?sb g) = Some s1"
      "blocks_applied ?C empty_store g ?sb s1" "store_rest s1 = store_rest empty_store"
    using block_put_store [OF blocks_ok_empty empty_store_get, of g] by auto
  note rest = store_rest_eqD [OF s1(3)]
  have s: "ledger_store L = s1\<lparr>confirmation_heights := [(?a, \<lparr>conf_height = 1, conf_frontier = ?h\<rparr>)],
      accounts := [(?a, genesis_info E g)], frontiers := [(?h, ?a)]\<rparr>"
    using run s1(1) rest
    by (auto simp: genesis_ledger_def store_initialize_def Let_def make_ledger_def make_cache_empty
        confirmation_height_put_def account_put_def frontier_put_def genesis_info_def)
  then show "block_get (ledger_store L) h = (if h = ?h then Some (genesis_stored E g) else None)"
    using s1(2) by (simp add: blocks_applied_def stored_form_def genesis_stored_def)
  show "account_get (ledger_store L) a = (if a = ?a then Some (genesis_info E g) else None)"
    "table_get (frontiers (ledger_store L)) h = (if h = ?h then Some ?a else None)" "pending_get (ledger_store L) k = None"
    "confirmation_height_get (ledger_store L) a = (if a = ?a then Some \<lparr>conf_height = 1, conf_frontier = ?h\<rparr> else None)"
    by (simp_all add: s account_get_def table_get_Cons pending_get_def rest confirmation_height_get_def)
qed

text \<open>The genesis block names the genesis account, as its account and as its representative; its hash is no epoch link.\<close>

definition genesis_chain_ok :: "env \<Rightarrow> block \<Rightarrow> bool" where
  "genesis_chain_ok E g = (genesis_ok E g \<and> \<not> ledger_is_epoch_link E (generate_hash (crypto_fns E) g)
     \<and> block_account g = genesis_account (params E) \<and> block_representative g = genesis_account (params E))"

lemma genesis_own:
  assumes "genesis_chain_ok E g"
  shows "own_account (genesis_stored E g) = genesis_account (params E)" "own_version (genesis_stored E g) = epoch_0"
    "own_height (genesis_stored E g) = 1" "own_successor (genesis_stored E g) = 0"
  using assms
  by (auto simp: own_account_def own_version_def genesis_stored_def stored_form_def sb_of_def sideband_stored_def
      make_sideband_def genesis_chain_ok_def genesis_ok_def)

lemma genesis_history:
  assumes gk: "genesis_chain_ok E g" and run: "genesis_ledger E g gc cb = Some L"
  shows "history_ok E (generate_hash (crypto_fns E) g) (\<lambda>_. 0) (ledger_store L)"
proof -
  let ?C = "crypto_fns E" let ?h = "generate_hash ?C g" let ?a = "genesis_account (params E)"
  let ?b = "genesis_stored E g" let ?i = "genesis_info E g"
  have gok: "genesis_ok E g" and rep: "block_representative g = ?a" and lnk: "\<not> ledger_is_epoch_link E ?h"
    using gk by (simp_all add: genesis_chain_ok_def)
  obtain oh where g: "hashables g = Open oh"
    using gok by (cases "hashables g") (auto simp: genesis_ok_def type_of_def)
  note t = genesis_tables [OF gok run] and own = genesis_own [OF gk]
  have nz: "?h \<noteq> 0" "?a \<noteq> 0" using gok by (simp_all add: genesis_ok_def)
  have b: "hashables ?b = Open oh" "generate_hash ?C ?b = ?h" "block_representative ?b = ?a"
    using g rep by (simp_all add: genesis_stored_def)
  have ch: "stored_change E s h ?b = Pending_del (?a, open_source oh)" for s h
    using b own by (simp add: stored_change_def block_change_def)
  have "block_ok E ?h (\<lambda>_. 0) (ledger_store L) ?h ?b"
    using own nz lnk b t
    by (simp add: block_ok_def link_ok_def successor_ok_def amount_ok_def rank_ok_def ch has_predecessor_def epoch_defs
        type_of_def genesis_info_def)
  moreover have "head_ok ?C (ledger_store L) ?a ?i"
    using own b t nz representative_calculated_step [of "ledger_store L" ?h ?b ?C]
    by (auto simp: head_ok_def type_of_def keeps_representative_def genesis_info_def)
  moreover have "pending_ok E ?h (ledger_store L)"
    using t ch by (auto simp: pending_ok_def split: if_splits)
  ultimately show ?thesis
    using t by (auto simp: history_ok_def split: if_splits)
qed

end
