(* ===== verification/Undo.thy ===== *)
theory Undo
  imports History
begin

text \<open>
  The abstract effect of undoing the head block of an account, and that it keeps the history, the tables
  and the supply of the ledger. \<open>Rollback_Correct\<close> shows that the visitors of \<open>Rollback\<close> have this effect.
\<close>

definition blocks_undone :: "store \<Rightarrow> block_hash \<Rightarrow> block \<Rightarrow> store \<Rightarrow> bool" where
  "blocks_undone s h b s' =
     (blocks_ok s' \<and> total_blocks s = Suc (total_blocks s')
      \<and> (\<forall>h'. block_get s' h' = (if h' = h then None
           else if has_predecessor b \<and> h' = block_previous b then map_option (with_successor 0) (block_get s h')
           else block_get s h')))"

text \<open>The record of the account before its head block.\<close>

definition prior_info_ok :: "crypto \<Rightarrow> store \<Rightarrow> block \<Rightarrow> account_info \<Rightarrow> account_info \<Rightarrow> bool" where
  "prior_info_ok C s b i j =
     (head j = block_previous b \<and> open_block j = open_block i \<and> block_count j = block_count i - 1
      \<and> info_balance j = prior_balance s b
      \<and> (\<exists>p. block_get s (block_previous b) = Some p \<and> epoch_m j = own_version p)
      \<and> (\<exists>rh rb. representative_calculated C s (block_previous b) = Some rh \<and> block_get s rh = Some rb
           \<and> representative j = block_representative rb))"

definition accounts_undone :: "crypto \<Rightarrow> store \<Rightarrow> block \<Rightarrow> account_info \<Rightarrow> store \<Rightarrow> bool" where
  "accounts_undone C s b i s' =
     (if has_predecessor b
      then (\<exists>j. prior_info_ok C s b i j \<and> accounts s' = table_put (accounts s) (own_account b) j)
        \<and> confirmation_heights s' = confirmation_heights s
      else accounts s' = table_drop_key (accounts s) (own_account b)
        \<and> confirmation_heights s' = table_drop_key (confirmation_heights s) (own_account b))"

definition pending_undone :: "env \<Rightarrow> store \<Rightarrow> block_hash \<Rightarrow> block \<Rightarrow> store \<Rightarrow> bool" where
  "pending_undone E s h b s' = (case stored_change E s h b of
     Pending_none \<Rightarrow> pending s' = pending s
   | Pending_add k p \<Rightarrow> pending_get s k = Some p \<and> pending s' = table_drop_key (pending s) k
   | Pending_del k \<Rightarrow> (\<exists>src p. block_get s (snd k) = Some src \<and> stored_change E s (snd k) src = Pending_add k p
       \<and> pending s' = table_put (pending s) k p))"

definition legacy_predecessor :: "store \<Rightarrow> block \<Rightarrow> bool" where
  "legacy_predecessor s b = (has_predecessor b
     \<and> (case block_get s (block_previous b) of None \<Rightarrow> False | Some p \<Rightarrow> type_of p \<noteq> State_type))"

definition frontiers_undone :: "store \<Rightarrow> block_hash \<Rightarrow> block \<Rightarrow> (block_hash, account) table" where
  "frontiers_undone s h b =
     (let t = (if type_of b = State_type then frontiers s else table_drop_key (frontiers s) h)
      in if legacy_predecessor s b then table_put t (block_previous b) (own_account b) else t)"

definition undone :: "env \<Rightarrow> store \<Rightarrow> block_hash \<Rightarrow> block \<Rightarrow> account_info \<Rightarrow> store \<Rightarrow> bool" where
  "undone E s h b i s' =
     (block_get s h = Some b \<and> account_get s (own_account b) = Some i \<and> head i = h
      \<and> blocks_undone s h b s' \<and> accounts_undone (crypto_fns E) s b i s' \<and> pending_undone E s h b s'
      \<and> frontiers s' = frontiers_undone s h b
      \<and> unchecked_table s' = unchecked_table s \<and> online_weight s' = online_weight s \<and> peers s' = peers s)"

definition undoing ::
    "env \<Rightarrow> block_hash \<Rightarrow> (block_hash \<Rightarrow> nat) \<Rightarrow> store \<Rightarrow> block_hash \<Rightarrow> block \<Rightarrow> account_info \<Rightarrow> store \<Rightarrow> bool" where
  "undoing E g rk s h b i s' = (history_ok E g rk s \<and> store_ok s \<and> h \<noteq> g \<and> undone E s h b i s')"

lemma undoingD:
  assumes "undoing E g rk s h b i s'"
  shows "history_ok E g rk s" "store_ok s" "h \<noteq> g" "block_get s h = Some b" "account_get s (own_account b) = Some i"
    "head i = h" "blocks_undone s h b s'" "accounts_undone (crypto_fns E) s b i s'" "pending_undone E s h b s'"
    "frontiers s' = frontiers_undone s h b"
  using assms by (simp_all add: undoing_def undone_def)

lemma undoing_get:
  assumes "undoing E g rk s h b i s'"
  shows "block_get s' h' = (if h' = h then None
           else if has_predecessor b \<and> h' = block_previous b then map_option (with_successor 0) (block_get s h')
           else block_get s h')"
  using undoingD(7) [OF assms] by (simp add: blocks_undone_def)

lemma undoing_successor:
  assumes "undoing E g rk s h b i s'"
  shows "own_successor b = 0" "own_height b = block_count i" "own_version b = epoch_m i"
  using history_ok_head [OF undoingD(1,5) [OF assms]] undoingD(4,6) [OF assms] by (auto simp: head_ok_def)

lemma undoing_keep:
  assumes "undoing E g rk s h b i s'" "block_get s h' = Some c" "h' \<noteq> h"
  shows "\<exists>c'. block_get s' h' = Some c' \<and> same_block c c'"
  using assms undoing_get [OF assms(1), of h'] by auto

lemma undoing_cases:
  assumes "undoing E g rk s h b i s'" "block_get s' h' = Some c'"
  shows "h' \<noteq> h" "\<exists>c. block_get s h' = Some c \<and> same_block c c'"
  using assms undoing_get [OF assms(1), of h'] by (auto split: if_splits)

text \<open>No stored block continues the undone one.\<close>

lemma undoing_not_previous:
  assumes un: "undoing E g rk s h b i s'" and c: "block_get s h' = Some c" "has_predecessor c"
  shows "block_previous c \<noteq> h"
  using history_predecessor [OF undoingD(1) [OF un] c] undoing_successor(1) [OF un] undoingD(4) [OF un]
    store_okD(6) [OF undoingD(2) [OF un]] c(1)
  by (metis option.distinct(1) option.inject)

lemma undoing_change:
  assumes un: "undoing E g rk s h b i s'" and c: "block_get s h' = Some c" "same_block c c'"
  shows "stored_change E s' h' c' = stored_change E s h' c" "prior_balance s' c' = prior_balance s c"
proof -
  have "\<exists>p q. block_get s (block_previous c) = Some p \<and> block_get s' (block_previous c) = Some q \<and> same_block p q"
    if "has_predecessor c"
    using history_predecessor [OF undoingD(1) [OF un] c(1) that] undoing_keep [OF un] undoing_not_previous [OF un c(1) that]
    by metis
  then show "stored_change E s' h' c' = stored_change E s h' c" "prior_balance s' c' = prior_balance s c"
    using stored_change_same [OF c(2)] by blast+
qed

subsection \<open>Accounts\<close>

lemma undoing_account:
  assumes un: "undoing E g rk s h b i s'"
  shows "a' \<noteq> own_account b \<Longrightarrow> account_get s' a' = account_get s a'"
    "\<not> has_predecessor b \<Longrightarrow> account_get s' (own_account b) = None"
    "has_predecessor b \<Longrightarrow> \<exists>j. account_get s' (own_account b) = Some j \<and> prior_info_ok (crypto_fns E) s b i j"
  using undoingD(8) [OF un] by (auto simp: accounts_undone_def account_get_def split: if_splits)

text \<open>When the first block of an account goes, it was the only one.\<close>

lemma undoing_only_block:
  assumes un: "undoing E g rk s h b i s'" and np: "\<not> has_predecessor b"
    and c: "block_get s h' = Some c" "own_account c = own_account b"
  shows "h' = h"
  using c
proof (induction "rk h'" arbitrary: h' c rule: less_induct)
  case less
  note hist = undoingD(1) [OF un]
  have open_b: "open_block i = h"
    using history_okD(5) [OF hist undoingD(4) [OF un]] np undoingD(5) [OF un] by (simp add: link_ok_def)
  show ?case
  proof (cases "has_predecessor c")
    case False
    then show ?thesis
      using history_okD(5) [OF hist less.prems(1)] less.prems(2) undoingD(5) [OF un] open_b by (simp add: link_ok_def)
  next
    case True
    then obtain p where "block_get s (block_previous c) = Some p" "own_account p = own_account c" "rk (block_previous c) < rk h'"
      using history_predecessor [OF hist less.prems(1)] by metis
    then have "block_previous c = h" using less.hyps less.prems(2) by metis
    with undoing_not_previous [OF un less.prems(1) True] show ?thesis by simp
  qed
qed

lemma undoing_account_kept:
  assumes un: "undoing E g rk s h b i s'" and c: "block_get s h' = Some c" "h' \<noteq> h"
  shows "\<exists>j k. account_get s (own_account c) = Some j \<and> account_get s' (own_account c) = Some k \<and> open_block k = open_block j"
proof (cases "own_account c = own_account b")
  case True
  then have "has_predecessor b" using undoing_only_block [OF un _ c(1)] c(2) by blast
  then show ?thesis using undoing_account(3) [OF un] True undoingD(5) [OF un] by (auto simp: prior_info_ok_def)
next
  case False
  then show ?thesis
    using undoing_account(1) [OF un False] history_okD(2) [OF undoingD(1) [OF un] c(1)] by auto
qed

subsection \<open>The remaining blocks\<close>

lemma undoing_previous:
  assumes un: "undoing E g rk s h b i s'" and "has_predecessor b"
  obtains p where "block_get s (block_previous b) = Some p" "own_account p = own_account b" "own_successor p = h"
    "unat (block_count i) = Suc (unat (own_height p))" "block_previous b \<noteq> h"
    "type_of p = State_type \<longrightarrow> type_of b = State_type" "block_get s' (block_previous b) = Some (with_successor 0 p)"
    "has_sideband p"
proof -
  obtain p where p: "block_get s (block_previous b) = Some p" "own_account p = own_account b" "own_successor p = h"
      "unat (own_height b) = Suc (unat (own_height p))" "type_of p = State_type \<longrightarrow> type_of b = State_type"
    using history_predecessor [OF undoingD(1,4) [OF un] assms(2)] by metis
  have "block_previous b \<noteq> h" by (rule undoing_not_previous [OF un undoingD(4) [OF un] assms(2)])
  with p undoing_get [OF un, of "block_previous b"] assms(2) undoing_successor(2) [OF un]
    block_get_sideband [OF store_okD(1) [OF undoingD(2) [OF un]] p(1)]
  show ?thesis by (intro that [of p]) auto
qed

lemma undoing_link:
  assumes un: "undoing E g rk s h b i s'" and c: "block_get s h' = Some c" "h' \<noteq> h" and same: "same_block c c'"
  shows "link_ok s' h' c'"
proof (cases "has_predecessor c")
  case True
  obtain p where p: "block_get s (block_previous c) = Some p" "own_account p = own_account c" "own_successor p = h'"
      "unat (own_height c) = Suc (unat (own_height p))" "type_of p = State_type \<longrightarrow> type_of c = State_type"
    using history_predecessor [OF undoingD(1) [OF un] c(1) True] by metis
  have "\<not> (has_predecessor b \<and> block_previous c = block_previous b)"
    using undoing_previous [OF un] p(1,3) c(2) by (metis option.inject)
  moreover have "block_previous c \<noteq> h" by (rule undoing_not_previous [OF un c(1) True])
  ultimately have "block_get s' (block_previous c) = Some p" using p(1) undoing_get [OF un] by auto
  with p True same_blockD [OF same] show ?thesis by (auto simp: link_ok_def)
next
  case False
  then show ?thesis
    using history_okD(5) [OF undoingD(1) [OF un] c(1)] undoing_account_kept [OF un c] same_blockD [OF same]
    by (auto simp: link_ok_def)
qed

lemma undoing_successor_ok:
  assumes un: "undoing E g rk s h b i s'" and c: "block_get s h' = Some c" and c': "block_get s' h' = Some c'"
  shows "successor_ok s' h' c'"
proof (cases "has_predecessor b \<and> h' = block_previous b")
  case True
  have "own_account c = own_account b" "has_sideband c" using undoing_previous [OF un] True c by (metis option.inject)+
  then have "own_account c' = own_account b" "own_successor c' = 0"
    using True c c' undoing_get [OF un, of h'] by (auto split: if_splits)
  moreover obtain j where "account_get s' (own_account b) = Some j" "head j = h'"
    using undoing_account(3) [OF un] True by (auto simp: prior_info_ok_def)
  ultimately show ?thesis by (simp add: successor_ok_def)
next
  case False
  have ne: "h' \<noteq> h" by (rule undoing_cases(1) [OF un c'])
  then have [simp]: "c' = c" using False c c' undoing_get [OF un, of h'] by auto
  have su: "successor_ok s h' c" using history_okD(6) [OF undoingD(1) [OF un] c] .
  show ?thesis
  proof (cases "own_successor c = 0")
    case True
    then obtain j where j: "account_get s (own_account c) = Some j" "head j = h'"
      using su by (auto simp: successor_ok_def)
    then have "own_account c \<noteq> own_account b" using ne undoingD(5,6) [OF un] by auto
    with True j undoing_account(1) [OF un] show ?thesis by (simp add: successor_ok_def)
  next
    case ns: False
    then obtain d where d: "block_get s (own_successor c) = Some d" "has_predecessor d" "block_previous d = h'"
      using su by (auto simp: successor_ok_def)
    with False undoingD(4) [OF un] have "own_successor c \<noteq> h" by auto
    then obtain d' where "block_get s' (own_successor c) = Some d'" "same_block d d'" using undoing_keep [OF un d(1)] by blast
    with d ns same_blockD [of d d'] show ?thesis by (auto simp: successor_ok_def)
  qed
qed

text \<open>What a remaining block collected was not sent by the undone one: that was still pending.\<close>

lemma undoing_not_source:
  assumes un: "undoing E g rk s h b i s'" and c: "block_get s h' = Some c" "h' \<noteq> g" "stored_change E s h' c = Pending_del k"
    and src: "stored_change E s (snd k) src = Pending_add k p" "block_get s (snd k) = Some src"
  shows "snd k \<noteq> h"
proof
  assume "snd k = h"
  with src undoingD(4) [OF un] have "stored_change E s h b = Pending_add k p" by auto
  then have "pending_get s k = Some p" using undoingD(9) [OF un] by (simp add: pending_undone_def)
  then have "\<not> collected E g s k" using history_pending [OF undoingD(1) [OF un]] by blast
  with c show False by (auto simp: collected_def)
qed

lemma undoing_amount:
  assumes un: "undoing E g rk s h b i s'" and c: "block_get s h' = Some c" and same: "same_block c c'"
  shows "amount_ok E g s' h' c'"
proof -
  have am: "amount_ok E g s h' c" using history_okD(7) [OF undoingD(1) [OF un] c] .
  note eq = undoing_change [OF un c same] same_blockD [OF same]
  show ?thesis
  proof (cases "stored_change E s h' c")
    case (Pending_del k)
    show ?thesis
    proof (cases "h' = g")
      case True
      then show ?thesis using Pending_del eq by (simp add: amount_ok_def)
    next
      case False
      obtain src p where src: "block_get s (snd k) = Some src" "stored_change E s (snd k) src = Pending_add k p"
         "own_balance c = prior_balance s c + pending_amount p" "prior_balance s c \<le> own_balance c" "type_of c \<noteq> State_type \<longrightarrow> pending_epoch p = epoch_0"
        by (rule history_source [OF undoingD(1) [OF un] c False Pending_del])
      have "snd k \<noteq> h" by (rule undoing_not_source [OF un c False Pending_del src(2,1)])
      then obtain src' where "block_get s' (snd k) = Some src'" "stored_change E s' (snd k) src' = Pending_add k p"
        using undoing_keep [OF un src(1)] undoing_change(1) [OF un src(1)] src(2) by metis
      with eq src Pending_del show ?thesis by (simp add: amount_ok_def)
    qed
  qed (use am eq in \<open>simp_all add: amount_ok_def\<close>)
qed

lemma undoing_block_ok:
  assumes un: "undoing E g rk s h b i s'" and c': "block_get s' h' = Some c'"
  shows "block_ok E g rk s' h' c'"
proof -
  obtain c where c: "block_get s h' = Some c" "same_block c c'" "h' \<noteq> h" using undoing_cases [OF un c'] by blast
  note d = history_okD [OF undoingD(1) [OF un] c(1)] and eq = same_blockD [OF c(2)] undoing_change [OF un c(1,2)]
  have "rank_ok E g rk s' h' c'" using d(8) eq by (simp add: rank_ok_def)
  then show ?thesis
    using d eq undoing_account_kept [OF un c(1,3)] undoing_link [OF un c(1,3,2)] undoing_successor_ok [OF un c(1) c']
      undoing_amount [OF un c(1,2)] by (auto simp: block_ok_def)
qed

subsection \<open>Heads\<close>

lemma undoing_representative:
  assumes un: "undoing E g rk s h b i s'" and c: "block_get s h' = Some c" and ne: "own_account c \<noteq> own_account b \<or> rk h' < rk h"
  shows "\<exists>r rb rb'. representative_calculated (crypto_fns E) s h' = Some r \<and> representative_calculated (crypto_fns E) s' h' = Some r
    \<and> block_get s r = Some rb \<and> block_get s' r = Some rb' \<and> block_representative rb' = block_representative rb"
proof -
  have other: "h'' \<noteq> h" if "block_get s h'' = Some b'" "own_account b' = own_account c" "rk h'' \<le> rk h'" for h'' b'
    using that ne undoingD(4) [OF un] by auto
  have same: "\<exists>b''. block_get s' h'' = Some b'' \<and> hashables b'' = hashables b'"
    if "block_get s h'' = Some b'" "own_account b' = own_account c" "rk h'' \<le> rk h'" for h'' b'
    using undoing_keep [OF un that(1) other [OF that]] same_blockD(1) by metis
  obtain r rb where r: "representative_calculated (crypto_fns E) s h' = Some r" "representative_calculated (crypto_fns E) s' h' = Some r"
      "block_get s r = Some rb" "own_account rb = own_account c" "rk r \<le> rk h'"
    using representative_transfer [OF undoingD(1) [OF un] store_okD(6) [OF undoingD(2) [OF un]] c, of s'] same by blast
  then obtain rb' where "block_get s' r = Some rb'" "same_block rb rb'"
    using undoing_keep [OF un r(3) other [OF r(3-5)]] by blast
  with r same_blockD(10) show ?thesis by metis
qed

lemma undoing_frontier:
  assumes un: "undoing E g rk s h b i s'"
  shows "table_get (frontiers s') h' =
    (if legacy_predecessor s b \<and> h' = block_previous b then Some (own_account b)
     else if type_of b \<noteq> State_type \<and> h' = h then None else table_get (frontiers s) h')"
  using undoingD(10) [OF un] by (simp add: frontiers_undone_def Let_def)

lemma undoing_other_head:
  assumes un: "undoing E g rk s h b i s'" and j: "account_get s a' = Some j" "a' \<noteq> own_account b"
  shows "head_ok (crypto_fns E) s' a' j"
proof -
  obtain c rh rb where c: "block_get s (head j) = Some c" "own_account c = a'" "own_successor c = 0"
      "own_height c = block_count j" "own_version c = epoch_m j"
      "table_get (frontiers s) (head j) = (if type_of c = State_type then None else Some a')"
      "representative_calculated (crypto_fns E) s (head j) = Some rh" "block_get s rh = Some rb"
      "block_representative rb = representative j"
    using history_ok_head [OF undoingD(1) [OF un] j(1)] by (auto simp: head_ok_def)
  have ne: "head j \<noteq> h" using c(1,2) j(2) undoingD(4) [OF un] by auto
  have np: "\<not> (has_predecessor b \<and> head j = block_previous b)"
    using undoing_previous [OF un] c(1,2) j(2) by (metis option.inject)
  then have get: "block_get s' (head j) = Some c" using undoing_get [OF un, of "head j"] ne c(1) by auto
  have "table_get (frontiers s') (head j) = table_get (frontiers s) (head j)"
    using undoing_frontier [OF un, of "head j"] ne np by (auto simp: legacy_predecessor_def)
  then show ?thesis
    using get c undoing_representative [OF un c(1)] j(2) by (auto simp: head_ok_def)
qed

lemma undoing_new_head:
  assumes un: "undoing E g rk s h b i s'" and hp: "has_predecessor b" and j: "prior_info_ok (crypto_fns E) s b i j"
  shows "head_ok (crypto_fns E) s' (own_account b) j"
proof -
  obtain p where p: "block_get s (block_previous b) = Some p" "own_account p = own_account b" "own_successor p = h"
    "unat (block_count i) = Suc (unat (own_height p))" "block_previous b \<noteq> h"
    "block_get s' (block_previous b) = Some (with_successor 0 p)" "has_sideband p"
    by (rule undoing_previous [OF un hp])
  have hgt: "own_height p = block_count i - 1"
    using p(4) unat_minus_one [of "block_count i"] by (auto simp: word_unat_eq_iff)
  have rkp: "rk (block_previous b) < rk h"
    using history_predecessor [OF undoingD(1,4) [OF un] hp] by metis
  obtain r rb rb' where r: "representative_calculated (crypto_fns E) s (block_previous b) = Some r"
      "representative_calculated (crypto_fns E) s' (block_previous b) = Some r" "block_get s r = Some rb"
      "block_get s' r = Some rb'" "block_representative rb' = block_representative rb"
    using undoing_representative [OF un p(1)] rkp by blast
  have "table_get (frontiers s) (block_previous b) = None"
  proof (rule ccontr)
    assume "table_get (frontiers s) (block_previous b) \<noteq> None"
    then obtain a' j' where "account_get s a' = Some j'" "head j' = block_previous b"
      using undoingD(2) [OF un] unfolding store_ok_def chains_ok_def by blast
    moreover from this have "a' = own_account b" using history_ok_head [OF undoingD(1) [OF un]] p(1,2) by (fastforce simp: head_ok_def)
    ultimately show False using undoingD(5,6) [OF un] p(5) by simp
  qed
  then have fr: "table_get (frontiers s') (block_previous b) = (if type_of p = State_type then None else Some (own_account b))"
    using undoing_frontier [OF un, of "block_previous b"] p(1,5) hp by (auto simp: legacy_predecessor_def)
  have "head j = block_previous b" "block_count j = own_height p" "epoch_m j = own_version p"
      "representative j = block_representative rb'"
    using j hgt p(1) r by (auto simp: prior_info_ok_def)
  with p r fr show ?thesis by (auto simp: head_ok_def)
qed

subsection \<open>Pending entries\<close>

lemma undoing_collected:
  assumes un: "undoing E g rk s h b i s'"
  shows "collected E g s' k \<longleftrightarrow> collected E g s k \<and> stored_change E s h b \<noteq> Pending_del k"
proof
  assume "collected E g s' k"
  then obtain h' c' where c': "block_get s' h' = Some c'" "h' \<noteq> g" "stored_change E s' h' c' = Pending_del k"
    by (auto simp: collected_def)
  then obtain c where c: "block_get s h' = Some c" "same_block c c'" "h' \<noteq> h" using undoing_cases [OF un] by blast
  then have "stored_change E s h' c = Pending_del k" using c' undoing_change(1) [OF un] by metis
  then show "collected E g s k \<and> stored_change E s h b \<noteq> Pending_del k"
    using c c'(2) history_collector_unique [OF undoingD(1,4,3) [OF un]] unfolding collected_def by metis
next
  assume "collected E g s k \<and> stored_change E s h b \<noteq> Pending_del k"
  then obtain h' c where c: "block_get s h' = Some c" "h' \<noteq> g" "stored_change E s h' c = Pending_del k" "h' \<noteq> h"
    using undoingD(4) [OF un] unfolding collected_def by (metis option.inject)
  then show "collected E g s' k"
    using undoing_keep [OF un] undoing_change(1) [OF un] unfolding collected_def by metis
qed

lemma undoing_send:
  assumes un: "undoing E g rk s h b i s'"
  shows "(\<exists>c. block_get s' (snd k) = Some c \<and> stored_change E s' (snd k) c = Pending_add k p) \<longleftrightarrow>
    (\<exists>c. block_get s (snd k) = Some c \<and> stored_change E s (snd k) c = Pending_add k p) \<and> snd k \<noteq> h"
proof
  assume "\<exists>c. block_get s' (snd k) = Some c \<and> stored_change E s' (snd k) c = Pending_add k p"
  then show "(\<exists>c. block_get s (snd k) = Some c \<and> stored_change E s (snd k) c = Pending_add k p) \<and> snd k \<noteq> h"
    using undoing_cases [OF un] undoing_change(1) [OF un] by metis
next
  assume "(\<exists>c. block_get s (snd k) = Some c \<and> stored_change E s (snd k) c = Pending_add k p) \<and> snd k \<noteq> h"
  then show "\<exists>c. block_get s' (snd k) = Some c \<and> stored_change E s' (snd k) c = Pending_add k p"
    using undoing_keep [OF un] undoing_change(1) [OF un] by metis
qed

lemma stored_change_add_key: "stored_change E s h b = Pending_add k p \<Longrightarrow> snd k = h"
  by (auto simp: stored_change_def block_change_def Let_def split: block_hashables.splits if_splits)

lemma undoing_pending_ok:
  assumes un: "undoing E g rk s h b i s'"
  shows "pending_ok E g s'"
proof -
  note hist = undoingD(1) [OF un]
  define snt where "snt s k p = (\<exists>c. block_get s (snd k) = Some c \<and> stored_change E s (snd k) c = Pending_add k p)" for s k p
  have own: "stored_change E s h b = Pending_add k p" if "snt s k p" "snd k = h" for k p
    using that undoingD(4) [OF un] unfolding snt_def by (metis option.inject)
  have pend: "pending_get s k = Some p \<longleftrightarrow> snt s k p \<and> \<not> collected E g s k" for k p
    unfolding snt_def by (rule history_pending [OF hist])
  have snd': "snt s' k p \<longleftrightarrow> snt s k p \<and> snd k \<noteq> h" for k p
    unfolding snt_def by (rule undoing_send [OF un])
  note facts = pend snd' undoing_collected [OF un]
  have entries: "pending_get s' k = Some p \<longleftrightarrow> snt s' k p \<and> \<not> collected E g s' k" for k p
  proof (cases "stored_change E s h b")
    case Pending_none
    then have "pending_get s' k = pending_get s k" using undoingD(9) [OF un] by (simp add: pending_undone_def pending_get_def)
    then show ?thesis using facts own [of k p] Pending_none by auto
  next
    case (Pending_add k' p')
    then have "pending_get s' k = (if k = k' then None else pending_get s k)"
      using undoingD(9) [OF un] by (simp add: pending_undone_def pending_get_def)
    then show ?thesis
      using stored_change_add_key [OF Pending_add] facts own [of k p] Pending_add by auto
  next
    case (Pending_del k')
    then obtain src p' where pd: "block_get s (snd k') = Some src" "stored_change E s (snd k') src = Pending_add k' p'"
        "pending s' = table_put (pending s) k' p'"
      using undoingD(9) [OF un] by (auto simp: pending_undone_def)
    have "snt s k' q \<longleftrightarrow> q = p'" for q using pd by (auto simp: snt_def)
    moreover have "pending_get s' k = (if k = k' then Some p' else pending_get s k)"
      using pd(3) by (simp add: pending_get_def)
    moreover have "collected E g s k'" using Pending_del undoingD(3,4) [OF un] by (auto simp: collected_def)
    moreover have "snd k' \<noteq> h" by (rule undoing_not_source [OF un undoingD(4,3) [OF un] Pending_del pd(2,1)])
    ultimately show ?thesis using facts own [of k p] Pending_del by auto
  qed
  have unique: "h'' = h'" if "block_get s' h' = Some c" "h' \<noteq> g" "stored_change E s' h' c = Pending_del k"
      "block_get s' h'' = Some c'" "h'' \<noteq> g" "stored_change E s' h'' c' = Pending_del k" for h' c h'' c' k
  proof -
    have old: "\<exists>c'. block_get s h' = Some c' \<and> stored_change E s h' c' = Pending_del k"
      if "block_get s' h' = Some c" "stored_change E s' h' c = Pending_del k" for h' c
      using that undoing_cases(2) [OF un that(1)] undoing_change(1) [OF un] by metis
    show ?thesis
      using old [OF that(1,3)] old [OF that(4,6)] that(2,5) history_collector_unique [OF hist] by metis
  qed
  show ?thesis unfolding pending_ok_def using entries [unfolded snt_def] unique by blast
qed

lemma undoing_history_ok:
  assumes un: "undoing E g rk s h b i s'"
  shows "history_ok E g rk s'"
  unfolding history_ok_def
proof (intro conjI allI impI)
  fix a' j assume j: "account_get s' a' = Some j"
  show "head_ok (crypto_fns E) s' a' j"
  proof (cases "a' = own_account b")
    case True
    then show ?thesis
      using j undoing_account(2,3) [OF un] undoing_new_head [OF un] by (cases "has_predecessor b") auto
  next
    case False
    with j undoing_account(1) [OF un] undoing_other_head [OF un _ False] show ?thesis by simp
  qed
qed (use undoing_block_ok [OF un] undoing_pending_ok [OF un] in blast)+

subsection \<open>Tables, supply and voting weight\<close>

lemma undoing_account_ok:
  assumes un: "undoing E g rk s h b i s'" and j: "account_get s' a' = Some j"
  shows "account_ok s' a' j"
proof -
  have ok: "blocks_ok s'" using undoingD(7) [OF un] by (simp add: blocks_undone_def)
  note st = undoingD(2) [OF un]
  show ?thesis
  proof (cases "a' = own_account b")
    case True
    with j undoing_account(2) [OF un] have hp: "has_predecessor b" by (metis option.distinct(1))
    with undoing_account(3) [OF un] j True have pj: "prior_info_ok (crypto_fns E) s b i j" by auto
    obtain p where p: "block_get s (block_previous b) = Some p" "block_get s' (block_previous b) = Some (with_successor 0 p)"
      by (rule undoing_previous [OF un hp])
    have "block_balance s' (head j) = Some (info_balance j)"
      using pj stored_queries(2) [OF ok p(2)] prior_balance_stored [OF p(1) hp] by (simp add: prior_info_ok_def)
    moreover have "block_previous b \<noteq> 0" using p(1) store_okD(6) [OF st] by auto
    moreover have "confirmation_heights s' = confirmation_heights s"
      using undoingD(8) [OF un] hp by (simp add: accounts_undone_def)
    ultimately show ?thesis
      using pj store_ok_account [OF st undoingD(5) [OF un]] True
      by (simp add: account_ok_def prior_info_ok_def confirmation_height_get_def)
  next
    case False
    then have j': "account_get s a' = Some j" using j undoing_account(1) [OF un] by simp
    obtain c where c: "block_get s (head j) = Some c" "own_account c = a'"
      using history_ok_head [OF undoingD(1) [OF un] j'] by (auto simp: head_ok_def)
    then have "head j \<noteq> h" using False undoingD(4) [OF un] by auto
    then obtain c' where "block_get s' (head j) = Some c'" "same_block c c'" using undoing_keep [OF un c(1)] by blast
    then have "block_balance s' (head j) = block_balance s (head j)"
      using stored_queries(2) [OF ok] stored_queries(2) [OF store_okD(1) [OF st] c(1)] same_blockD(6) by metis
    moreover have "confirmation_height_get s' a' = confirmation_height_get s a'"
      using undoingD(8) [OF un] False by (auto simp: accounts_undone_def confirmation_height_get_def split: if_splits)
    ultimately show ?thesis using store_ok_account [OF st j'] by (simp add: account_ok_def)
  qed
qed

lemma undoing_frontier_ok:
  assumes un: "undoing E g rk s h b i s'" and f: "table_get (frontiers s') h' = Some a'"
  shows "\<exists>j. account_get s' a' = Some j \<and> head j = h'"
proof (cases "legacy_predecessor s b \<and> h' = block_previous b")
  case True
  then show ?thesis
    using f undoing_frontier [OF un, of h'] undoing_account(3) [OF un] by (auto simp: legacy_predecessor_def prior_info_ok_def)
next
  case False
  then have old: "table_get (frontiers s) h' = Some a'" and ne: "\<not> (type_of b \<noteq> State_type \<and> h' = h)"
    using f undoing_frontier [OF un, of h'] by (auto split: if_splits)
  obtain j where j: "account_get s a' = Some j" "head j = h'"
    using undoingD(2) [OF un] old unfolding store_ok_def chains_ok_def by blast
  have "a' \<noteq> own_account b"
  proof
    assume "a' = own_account b"
    with j undoingD(5,6) [OF un] have "h' = h" by simp
    with ne old undoingD(4,5,6) [OF un] history_ok_head [OF undoingD(1,5) [OF un]] show False
      by (auto simp: head_ok_def)
  qed
  with j undoing_account(1) [OF un] show ?thesis by simp
qed

lemma undoing_tables_ok:
  assumes un: "undoing E g rk s h b i s'"
  shows "tables_ok s'"
proof -
  note st = undoingD(2) [OF un]
  have "table_ok (pending s')"
    using undoingD(9) [OF un] store_okD(3) [OF st]
    by (auto simp: pending_undone_def split: pending_change.splits)
  moreover have "table_ok (frontiers s')"
    using store_okD(4) [OF st] by (simp add: undoingD(10) [OF un] frontiers_undone_def Let_def)
  moreover have "table_ok (accounts s')" "table_ok (confirmation_heights s')"
    using undoingD(8) [OF un] store_okD(2,5) [OF st] by (auto simp: accounts_undone_def split: if_splits)
  moreover have "blocks_ok s'" using undoingD(7) [OF un] by (simp add: blocks_undone_def)
  ultimately show ?thesis by (simp add: tables_ok_def)
qed

lemma undoing_store_ok:
  assumes un: "undoing E g rk s h b i s'"
  shows "store_ok s'"
proof -
  have "block_get s' 0 = None"
    using store_okD(6) [OF undoingD(2) [OF un]] undoing_get [OF un, of 0] by simp
  moreover have "block_get s' h' \<noteq> None" if pe: "pending_get s' (a', h') \<noteq> None" for a' h'
  proof -
    obtain p where "pending_get s' (a', h') = Some p" using pe by (cases "pending_get s' (a', h')") auto
    then show ?thesis using history_pending [OF undoing_history_ok [OF un], of "(a', h')" p] by auto
  qed
  ultimately show ?thesis
    using undoing_tables_ok [OF un] undoing_account_ok [OF un] undoing_frontier_ok [OF un]
    unfolding store_ok_def chains_ok_def by blast
qed

lemma undoing_balance:
  assumes un: "undoing E g rk s h b i s'"
  shows "info_balance i = own_balance b"
  using store_ok_account [OF undoingD(2,5) [OF un]] stored_queries(2) [OF store_okD(1) [OF undoingD(2) [OF un]] undoingD(4) [OF un]]
    undoingD(6) [OF un] by (simp add: account_ok_def)

text \<open>The entry of the account, as a sum over all accounts sees it: the prior record or none.\<close>

lemma undoing_account_sum:
  fixes f :: "account_info \<Rightarrow> 'n::comm_monoid_add"
  assumes un: "undoing E g rk s h b i s'"
  shows "table_sum f (accounts s') + f i = table_sum f (accounts s) + entry_value f (account_get s' (own_account b))"
proof -
  note ok = store_okD(2) [OF undoingD(2) [OF un]] and acc = undoingD(5) [OF un, unfolded account_get_def]
  show ?thesis
  proof (cases "has_predecessor b")
    case True
    then obtain j where j: "accounts s' = table_put (accounts s) (own_account b) j"
      using undoingD(8) [OF un] by (auto simp: accounts_undone_def)
    then have "account_get s' (own_account b) = Some j" by (simp add: account_get_def)
    then show ?thesis using table_sum_put [OF ok, of f "own_account b" j] acc j by simp
  next
    case False
    then have "accounts s' = table_drop_key (accounts s) (own_account b)"
      using undoingD(8) [OF un] by (simp add: accounts_undone_def)
    moreover from this have "account_get s' (own_account b) = None" by (simp add: account_get_def)
    ultimately show ?thesis using table_sum_drop_key [OF ok, of f "own_account b"] acc by simp
  qed
qed

lemma undoing_prior_balance:
  assumes un: "undoing E g rk s h b i s'"
  shows "entry_value info_balance (account_get s' (own_account b)) = prior_balance s b"
  using undoing_account(2,3) [OF un]
  by (cases "has_predecessor b") (auto simp: prior_info_ok_def prior_balance_def)

lemma undoing_total_supply:
  assumes un: "undoing E g rk s h b i s'"
  shows "total_supply s' = total_supply s"
proof -
  let ?P = "table_sum (\<lambda>p. unat (pending_amount p))"
  have acc: "table_sum (\<lambda>i. unat (info_balance i)) (accounts s') + unat (own_balance b) =
      table_sum (\<lambda>i. unat (info_balance i)) (accounts s) + unat (prior_balance s b)"
    using undoing_account_sum [OF un, of "\<lambda>i. unat (info_balance i)"] undoing_balance [OF un]
      undoing_prior_balance [OF un] by (metis unat_entry_value)
  note am = history_okD(7) [OF undoingD(1,4) [OF un]] and ok = store_okD(3) [OF undoingD(2) [OF un]]
  show ?thesis
  proof (cases "stored_change E s h b")
    case Pending_none
    then show ?thesis
      using acc am undoingD(9) [OF un] by (simp add: total_supply_def amount_ok_def pending_undone_def)
  next
    case (Pending_add k p)
    then have pd: "pending_get s k = Some p" "pending s' = table_drop_key (pending s) k" "own_balance b \<le> prior_balance s b"
      using undoingD(9) [OF un] am by (simp_all add: pending_undone_def amount_ok_def)
    have "pending_amount p = prior_balance s b - own_balance b"
      using Pending_add by (auto simp: stored_change_def block_change_def Let_def split: block_hashables.splits if_splits)
    then have "unat (own_balance b) + unat (pending_amount p) = unat (prior_balance s b)"
      using unat_diff_add [OF pd(3)] by simp
    moreover have "?P (pending s') + unat (pending_amount p) = ?P (pending s)"
      using table_sum_drop_key [OF ok, of "\<lambda>p. unat (pending_amount p)" k] pd by (simp add: pending_get_def)
    ultimately show ?thesis using acc by (simp add: total_supply_def)
  next
    case (Pending_del k)
    then obtain src p where pd: "block_get s (snd k) = Some src" "stored_change E s (snd k) src = Pending_add k p"
        "pending s' = table_put (pending s) k p"
      using undoingD(9) [OF un] by (auto simp: pending_undone_def)
    then have ge: "own_balance b = prior_balance s b + pending_amount p" "prior_balance s b \<le> own_balance b"
      using am Pending_del undoingD(3) [OF un] by (auto simp: amount_ok_def)
    then have "unat (prior_balance s b) + unat (pending_amount p) = unat (own_balance b)"
      using unat_diff_add [OF ge(2)] by simp
    moreover have "collected E g s k" using Pending_del undoingD(3,4) [OF un] by (auto simp: collected_def)
    then have "table_get (pending s) k = None"
      using history_pending [OF undoingD(1) [OF un], of k] by (cases "table_get (pending s) k") (auto simp: pending_get_def)
    then have "?P (pending s') = ?P (pending s) + unat (pending_amount p)"
      using table_sum_put [OF ok, of "\<lambda>p. unat (pending_amount p)" k p] pd(3) by simp
    ultimately show ?thesis using acc by (simp add: total_supply_def)
  qed
qed

text \<open>The voting weight delegated to each representative after the step.\<close>

lemma undoing_delegated:
  assumes un: "undoing E g rk s h b i s'"
  shows "delegated s' r = delegated s r - (if representative i = r then info_balance i else 0)
    + entry_value (\<lambda>j. if representative j = r then info_balance j else 0) (account_get s' (own_account b))"
  using undoing_account_sum [OF un, of "\<lambda>j. if representative j = r then info_balance j else 0"]
  by (simp add: delegated_def algebra_simps split: if_splits)

lemma undoing_counts:
  assumes un: "undoing E g rk s h b i s'"
  shows "total_blocks s = Suc (total_blocks s')"
    "account_count s = account_count s' + (if has_predecessor b then 0 else 1)"
proof -
  show "total_blocks s = Suc (total_blocks s')" using undoingD(7) [OF un] by (simp add: blocks_undone_def)
  have len: "table_sum (\<lambda>_. Suc 0) t = length t" for t :: "(account, account_info) table"
    by (induction t) auto
  show "account_count s = account_count s' + (if has_predecessor b then 0 else 1)"
    using undoing_account_sum [OF un, of "\<lambda>_. 1::nat"] undoing_account(2,3) [OF un]
    by (cases "has_predecessor b") (auto simp: account_count_def len)
qed

end
