(* ===== verification/Undo_Steps.thy ===== *)
theory Undo_Steps
  imports Undo
begin

text \<open>
  Sequences of undo steps: what a rollback does to the store as a whole. Cemented blocks (at or below the
  confirmation height of their account) are never undone, and what was collected by a cemented block was
  sent by a cemented one. The bound \<open>\<rho>\<close> on the ranks of the undone blocks says which accounts a nested
  rollback leaves alone.
\<close>

definition cemented :: "store \<Rightarrow> block \<Rightarrow> bool" where
  "cemented s b = (case confirmation_height_get s (own_account b) of
     None \<Rightarrow> False | Some c \<Rightarrow> own_height b \<le> conf_height c)"

definition cement_ok :: "env \<Rightarrow> block_hash \<Rightarrow> store \<Rightarrow> bool" where
  "cement_ok E g s =
     ((\<exists>b. block_get s g = Some b \<and> cemented s b)
      \<and> (\<forall>h b k src. block_get s h = Some b \<longrightarrow> h \<noteq> g \<longrightarrow> stored_change E s h b = Pending_del k
           \<longrightarrow> block_get s (snd k) = Some src \<longrightarrow> cemented s b \<longrightarrow> cemented s src))"

definition undo_inv :: "env \<Rightarrow> block_hash \<Rightarrow> (block_hash \<Rightarrow> nat) \<Rightarrow> store \<Rightarrow> bool" where
  "undo_inv E g rk s = (history_ok E g rk s \<and> store_ok s \<and> cement_ok E g s)"

lemma undo_invD:
  assumes "undo_inv E g rk s"
  shows "history_ok E g rk s" "store_ok s" "cement_ok E g s"
  using assms by (simp_all add: undo_inv_def)

lemma undoingI:
  assumes "undo_inv E g rk s" "undone E s h b i s'" "\<not> cemented s b"
  shows "undoing E g rk s h b i s'"
proof -
  have "h \<noteq> g" using assms by (auto simp: undo_inv_def cement_ok_def undone_def)
  with assms show ?thesis by (simp add: undoing_def undo_inv_def)
qed

lemma undoing_cemented:
  assumes un: "undoing E g rk s h b i s'" and c: "block_get s h' = Some c" "h' \<noteq> h" and same: "same_block c c'"
  shows "cemented s' c' = cemented s c"
proof -
  have "confirmation_height_get s' (own_account c) = confirmation_height_get s (own_account c)"
  proof (cases "has_predecessor b")
    case True
    then show ?thesis
      using undoingD(8) [OF un] by (simp add: accounts_undone_def confirmation_height_get_def)
  next
    case False
    then have "own_account c \<noteq> own_account b" using undoing_only_block [OF un False c(1)] c(2) by blast
    with False show ?thesis
      using undoingD(8) [OF un] by (simp add: accounts_undone_def confirmation_height_get_def)
  qed
  with same_blockD(5,8) [OF same] show ?thesis by (auto simp: cemented_def split: option.split)
qed

lemma undoing_inv:
  assumes inv: "undo_inv E g rk s" and un: "undone E s h b i s'" and nc: "\<not> cemented s b"
  shows "undo_inv E g rk s'"
proof -
  note u = undoingI [OF inv un nc]
  have "\<exists>c. block_get s' g = Some c \<and> cemented s' c"
    using undo_invD(3) [OF inv] undoing_keep [OF u] undoing_cemented [OF u] undoingD(3) [OF u] unfolding cement_ok_def by metis
  moreover have "cemented s' src'" if a: "block_get s' h' = Some c'" "h' \<noteq> g" "stored_change E s' h' c' = Pending_del k"
      "block_get s' (snd k) = Some src'" "cemented s' c'" for h' c' k src'
  proof -
    obtain c where c: "block_get s h' = Some c" "same_block c c'" "h' \<noteq> h" using undoing_cases [OF u a(1)] by blast
    obtain src where src: "block_get s (snd k) = Some src" "same_block src src'" "snd k \<noteq> h" using undoing_cases [OF u a(4)] by blast
    have "stored_change E s h' c = Pending_del k" using a(3) undoing_change(1) [OF u c(1,2)] by simp
    moreover have "cemented s c" using a(5) undoing_cemented [OF u c(1,3,2)] by simp
    ultimately have "cemented s src" using undo_invD(3) [OF inv] c(1) src(1) a(2) unfolding cement_ok_def by metis
    then show ?thesis using undoing_cemented [OF u src(1,3,2)] by simp
  qed
  ultimately have "cement_ok E g s'" unfolding cement_ok_def by blast
  with undoing_history_ok [OF u] undoing_store_ok [OF u] show ?thesis by (simp add: undo_inv_def)
qed

subsection \<open>Steps\<close>

inductive undo_steps :: "env \<Rightarrow> (block_hash \<Rightarrow> nat) \<Rightarrow> nat \<Rightarrow> store \<Rightarrow> store \<Rightarrow> bool" for E rk \<rho> where
  undo_refl: "undo_steps E rk \<rho> s s"
| undo_step: "undo_steps E rk \<rho> s s1 \<Longrightarrow> undone E s1 h b i s2 \<Longrightarrow> \<not> cemented s1 b \<Longrightarrow> \<rho> \<le> rk h \<Longrightarrow> undo_steps E rk \<rho> s s2"

lemma undo_steps_trans:
  assumes "undo_steps E rk \<rho> s1 s2" "undo_steps E rk \<rho> s s1"
  shows "undo_steps E rk \<rho> s s2"
  using assms by (induction rule: undo_steps.induct) (auto intro: undo_steps.intros)

lemma undo_steps_mono:
  assumes "undo_steps E rk \<rho> s s'" "\<sigma> \<le> \<rho>"
  shows "undo_steps E rk \<sigma> s s'"
  using assms by (induction rule: undo_steps.induct) (auto intro: undo_steps.intros)

lemma undo_steps_inv:
  assumes "undo_steps E rk \<rho> s s'" "undo_inv E g rk s"
  shows "undo_inv E g rk s'" "total_blocks s' \<le> total_blocks s" "total_supply s' = total_supply s"
proof -
  have "undo_inv E g rk s' \<and> total_blocks s' \<le> total_blocks s \<and> total_supply s' = total_supply s"
    using assms
  proof (induction rule: undo_steps.induct)
    case (undo_step s s1 h b i s2)
    then have inv: "undo_inv E g rk s1" by simp
    note u = undoingI [OF inv undo_step(2,3)]
    show ?case
      using undo_step undoing_inv [OF inv undo_step(2,3)] undoing_counts(1) [OF u] undoing_total_supply [OF u] by simp
  qed simp
  then show "undo_inv E g rk s'" "total_blocks s' \<le> total_blocks s" "total_supply s' = total_supply s" by simp_all
qed

text \<open>Remaining blocks differ in their successors only, and are cemented as before.\<close>

lemma undo_steps_shrink:
  assumes "undo_steps E rk \<rho> s s'" "undo_inv E g rk s" "block_get s' h = Some c'"
  shows "\<exists>c. block_get s h = Some c \<and> same_block c c' \<and> cemented s' c' = cemented s c
    \<and> stored_change E s' h c' = stored_change E s h c"
  using assms
proof (induction arbitrary: c' rule: undo_steps.induct)
  case (undo_step s s1 h' b i s2)
  note u = undoingI [OF undo_steps_inv(1) [OF undo_step(1,6)] undo_step(2,3)]
  obtain c1 where c1: "block_get s1 h = Some c1" "same_block c1 c'" "h \<noteq> h'" using undoing_cases [OF u undo_step(7)] by blast
  obtain c where c: "block_get s h = Some c" "same_block c c1" "cemented s1 c1 = cemented s c"
      "stored_change E s1 h c1 = stored_change E s h c"
    using undo_step.IH [OF undo_step(6) c1(1)] by blast
  then show ?case
    using c1 undoing_cemented [OF u c1(1,3,2)] undoing_change(1) [OF u c1(1,2)] by (auto simp: same_block_def)
qed auto

text \<open>Blocks of lower rank stay, and so do the accounts that end in one.\<close>

lemma undo_steps_keep:
  assumes "undo_steps E rk \<rho> s s'" "undo_inv E g rk s"
  shows "block_get s h \<noteq> None \<Longrightarrow> rk h < \<rho> \<Longrightarrow> block_get s' h \<noteq> None"
    and "account_get s a = Some j \<Longrightarrow> rk (head j) < \<rho> \<Longrightarrow> account_get s' a = Some j"
proof -
  have "(block_get s h \<noteq> None \<longrightarrow> rk h < \<rho> \<longrightarrow> block_get s' h \<noteq> None)
      \<and> (account_get s a = Some j \<longrightarrow> rk (head j) < \<rho> \<longrightarrow> account_get s' a = Some j)"
    using assms
  proof (induction rule: undo_steps.induct)
    case (undo_step s s1 h' b i s2)
    note u = undoingI [OF undo_steps_inv(1) [OF undo_step(1,6)] undo_step(2,3)]
    have "block_get s2 h \<noteq> None" if "block_get s h \<noteq> None" "rk h < \<rho>"
      using that undo_step undoing_keep [OF u, of h] by fastforce
    moreover have "account_get s2 a = Some j" if "account_get s a = Some j" "rk (head j) < \<rho>"
    proof -
      have j: "account_get s1 a = Some j" using that undo_step by simp
      have "a \<noteq> own_account b" using j that(2) undo_step(4) undoingD(5,6) [OF u] by auto
      with j undoing_account(1) [OF u] show ?thesis by simp
    qed
    ultimately show ?case by blast
  qed simp
  then show "block_get s h \<noteq> None \<Longrightarrow> rk h < \<rho> \<Longrightarrow> block_get s' h \<noteq> None"
    "account_get s a = Some j \<Longrightarrow> rk (head j) < \<rho> \<Longrightarrow> account_get s' a = Some j" by blast+
qed

text \<open>Every block that goes was not cemented.\<close>

lemma undo_steps_cemented:
  assumes "undo_steps E rk \<rho> s s'" "undo_inv E g rk s" "block_get s h = Some b" "cemented s b"
  shows "block_get s' h \<noteq> None"
proof -
  have "\<exists>b'. block_get s' h = Some b' \<and> cemented s' b'"
    using assms
  proof (induction rule: undo_steps.induct)
    case (undo_step s s1 h' b' i s2)
    note u = undoingI [OF undo_steps_inv(1) [OF undo_step(1,6)] undo_step(2,3)]
    obtain c where c: "block_get s1 h = Some c" "cemented s1 c" using undo_step by blast
    then have "h \<noteq> h'" using undo_step(3) undoingD(4) [OF u] by auto
    then show ?case using undoing_keep [OF u c(1)] undoing_cemented [OF u c(1)] c(2) by metis
  qed auto
  then show ?thesis by auto
qed

lemma undo_steps_confirmation:
  assumes "undo_steps E rk \<rho> s s'" "undo_inv E g rk s" "account_get s' a \<noteq> None"
  shows "confirmation_height_get s' a = confirmation_height_get s a"
  using assms
proof (induction rule: undo_steps.induct)
  case (undo_step s s1 h b i s2)
  note u = undoingI [OF undo_steps_inv(1) [OF undo_step(1,6)] undo_step(2,3)]
  have "account_get s1 a \<noteq> None \<and> confirmation_height_get s2 a = confirmation_height_get s1 a"
    using undo_step(7) undoing_account(1,2) [OF u] undoingD(5,8) [OF u]
    by (cases "a = own_account b"; cases "has_predecessor b") (auto simp: accounts_undone_def confirmation_height_get_def)
  with undo_step show ?case by simp
qed simp

lemma undo_steps_fewer:
  assumes "undo_steps E rk \<rho> s s'" "undo_inv E g rk s" "block_get s h \<noteq> None" "block_get s' h = None"
  shows "total_blocks s' < total_blocks s"
  using assms
proof (cases rule: undo_steps.cases)
  case (undo_step s1 h' b i)
  then show ?thesis
    using undo_steps_inv(2) [OF undo_step(1) assms(2)]
      undoing_counts(1) [OF undoingI [OF undo_steps_inv(1) [OF undo_step(1) assms(2)] undo_step(2,3)]] by simp
qed simp

text \<open>An account that ends below the bound keeps its head block and the representative before it.\<close>

lemma undo_steps_head:
  assumes st: "undo_steps E rk \<rho> s s'" and inv: "undo_inv E g rk s" and j: "account_get s a = Some j" "rk (head j) < \<rho>"
    and b: "block_get s (head j) = Some b"
  shows "block_get s' (head j) = Some b" "account_get s' a = Some j" "prior_balance s' b = prior_balance s b"
    and "has_predecessor b \<Longrightarrow> \<exists>r rb rb'. representative_calculated (crypto_fns E) s (block_previous b) = Some r
      \<and> representative_calculated (crypto_fns E) s' (block_previous b) = Some r
      \<and> block_get s r = Some rb \<and> block_get s' r = Some rb' \<and> block_representative rb' = block_representative rb"
proof -
  have inv': "undo_inv E g rk s'" by (rule undo_steps_inv(1) [OF st inv])
  have keep: "\<exists>c'. block_get s' h = Some c' \<and> same_block c c'" if c: "block_get s h = Some c" "rk h < \<rho>" for h c
    using undo_steps_keep(1) [OF st inv, of h] undo_steps_shrink [OF st inv, of h] c by fastforce
  show j': "account_get s' a = Some j" by (rule undo_steps_keep(2) [OF st inv j])
  obtain b' where b': "block_get s' (head j) = Some b'" "same_block b b'" using keep [OF b j(2)] by blast
  have "own_successor b = 0" "own_successor b' = 0"
    using history_ok_head [OF undo_invD(1) [OF inv] j(1)] history_ok_head [OF undo_invD(1) [OF inv'] j'] b b'(1)
    by (auto simp: head_ok_def)
  then have "b = b'"
    using same_block_eq [OF b'(2)] block_get_sideband [OF store_okD(1) [OF undo_invD(2) [OF inv]] b] by simp
  with b' show get: "block_get s' (head j) = Some b" by simp
  have prev: "\<exists>p. block_get s (block_previous b) = Some p \<and> own_account p = own_account b \<and> rk (block_previous b) < rk (head j)"
    if "has_predecessor b"
    using history_predecessor [OF undo_invD(1) [OF inv] b that] by metis
  then show "prior_balance s' b = prior_balance s b"
    using keep [of "block_previous b"] j(2) by (fastforce simp: prior_balance_def dest: same_blockD(6))
  assume "has_predecessor b"
  then obtain p where p: "block_get s (block_previous b) = Some p" "rk (block_previous b) < rk (head j)" using prev by blast
  have same: "\<exists>b''. block_get s' h' = Some b'' \<and> hashables b'' = hashables b'"
    if "block_get s h' = Some b'" "rk h' \<le> rk (block_previous b)" for h' b'
    using keep [OF that(1)] that(2) p(2) j(2) same_blockD(1) by fastforce
  obtain r rb where r: "representative_calculated (crypto_fns E) s (block_previous b) = Some r"
      "representative_calculated (crypto_fns E) s' (block_previous b) = Some r" "block_get s r = Some rb" "rk r \<le> rk (block_previous b)"
    using representative_transfer [OF undo_invD(1) [OF inv] store_okD(6) [OF undo_invD(2) [OF inv]] p(1), of s'] same by blast
  then obtain rb' where "block_get s' r = Some rb'" "same_block rb rb'" using keep [OF r(3)] p(2) j(2) by fastforce
  with r same_blockD(10) show "\<exists>r rb rb'. representative_calculated (crypto_fns E) s (block_previous b) = Some r
      \<and> representative_calculated (crypto_fns E) s' (block_previous b) = Some r
      \<and> block_get s r = Some rb \<and> block_get s' r = Some rb' \<and> block_representative rb' = block_representative rb" by metis
qed

end
