(* ===== verification/Rollback.thy ===== *)
theory Rollback
  imports Ledger
begin

text \<open>
  Undoing blocks (\<open>ledger::rollback\<close> and \<open>rollback_visitor\<close> in \<open>futurehead/secure/ledger.cpp\<close>). To remove a
  block, the heads of its account are undone one after the other until the block is gone; undoing a
  send whose amount was already collected first rolls back the account that collected it. The two
  functions call each other, and both loops end only because blocks run out, so \<open>rollback\<close> carries
  fuel: \<open>None\<close> is no fuel, a failed \<open>release_assert\<close>, or a null pointer that only a \<open>debug_assert\<close>
  guards. \<open>Rollback_Correct\<close> shows that enough fuel always gives a result.

  A visitor returns the ledger, the list of undone blocks and its member \<open>error\<close>. The visitor of state
  blocks declares a local \<open>error\<close> that hides the member: a nested rollback that fails is not reported.
\<close>

type_synonym rollback_result = "(ledger \<times> block list \<times> bool) option"
type_synonym rollback_fn = "ledger \<Rightarrow> block_hash \<Rightarrow> block list \<Rightarrow> rollback_result"

fun while_fuel :: "nat \<Rightarrow> ('s \<Rightarrow> bool) \<Rightarrow> ('s \<Rightarrow> 's option) \<Rightarrow> 's \<Rightarrow> 's option" where
  "while_fuel 0 c f s = None"
| "while_fuel (Suc n) c f s = (if c s then do { s \<leftarrow> f s; while_fuel n c f s } else Some s)"

definition ledger_representative :: "crypto \<Rightarrow> ledger \<Rightarrow> block_hash \<Rightarrow> block_hash option" where
  "ledger_representative C L h = representative_calculated C (ledger_store L) h"

text \<open>\<open>while (!error && <no pending entry>) error = ledger.rollback (latest (destination))\<close>\<close>

definition rollback_until ::
    "nat \<Rightarrow> rollback_fn \<Rightarrow> (ledger \<Rightarrow> bool) \<Rightarrow> account \<Rightarrow> ledger \<times> block list \<times> bool \<Rightarrow> rollback_result" where
  "rollback_until n rb found destination =
     while_fuel n (\<lambda>(L, lst, error). \<not> error \<and> \<not> found L) (\<lambda>(L, lst, error). rb L (latest L destination) lst)"

definition rollback_send ::
    "nat \<Rightarrow> env \<Rightarrow> rollback_fn \<Rightarrow> block \<Rightarrow> send_hashables \<Rightarrow> ledger \<Rightarrow> block list \<Rightarrow> rollback_result" where
  "rollback_send n E rb b h L lst = do {
     let hash = generate_hash (crypto_fns E) b;
     let key = (send_destination h, hash);
     (L, lst, error) \<leftarrow> rollback_until n rb (\<lambda>L. pending_get (ledger_store L) key \<noteq> None) (send_destination h) (L, lst, False);
     if error then Some (L, lst, True) else do {
       pend \<leftarrow> pending_get (ledger_store L) key;
       let info = info_or_default (account_get (ledger_store L) (pending_source pend));
       L \<leftarrow> on_store (\<lambda>s. pending_del s key) L;
       let L = weights_add (representative info) (pending_amount pend) L;
       balance \<leftarrow> ledger_balance L (send_previous h);
       let new_info = \<lparr>head = send_previous h, representative = representative info, open_block = open_block info,
             info_balance = balance, modified = clock_account E, block_count = block_count info - 1,
             epoch_m = epoch_0\<rparr>;
       L \<leftarrow> change_latest (pending_source pend) info new_info L;
       L \<leftarrow> on_store (\<lambda>s. block_del s hash (type_of b)) L;
       L \<leftarrow> on_store (\<lambda>s. frontier_del s hash) L;
       let L = in_store (\<lambda>s. frontier_put s (send_previous h) (pending_source pend)) L;
       L \<leftarrow> on_store (\<lambda>s. block_successor_clear s (send_previous h)) L;
       Some (stats_inc Stat_rollback Detail_send L, lst, False) } }"

definition rollback_receive :: "env \<Rightarrow> block \<Rightarrow> receive_hashables \<Rightarrow> ledger \<Rightarrow> block list \<Rightarrow> rollback_result" where
  "rollback_receive E b h L lst = do {
     let hash = generate_hash (crypto_fns E) b;
     amount \<leftarrow> ledger_amount L (receive_source h);
     destination_account \<leftarrow> ledger_account L hash;
     source_account \<leftarrow> ledger_account L (receive_source h);
     let info = info_or_default (account_get (ledger_store L) destination_account);
     let L = weights_add (representative info) (0 - amount) L;
     balance \<leftarrow> ledger_balance L (receive_previous h);
     let new_info = \<lparr>head = receive_previous h, representative = representative info, open_block = open_block info,
           info_balance = balance, modified = clock_account E, block_count = block_count info - 1,
           epoch_m = epoch_0\<rparr>;
     L \<leftarrow> change_latest destination_account info new_info L;
     L \<leftarrow> on_store (\<lambda>s. block_del s hash (type_of b)) L;
     let L = in_store (\<lambda>s. pending_put s (destination_account, receive_source h)
           \<lparr>pending_source = source_account, pending_amount = amount, pending_epoch = epoch_0\<rparr>) L;
     L \<leftarrow> on_store (\<lambda>s. frontier_del s hash) L;
     let L = in_store (\<lambda>s. frontier_put s (receive_previous h) destination_account) L;
     L \<leftarrow> on_store (\<lambda>s. block_successor_clear s (receive_previous h)) L;
     Some (stats_inc Stat_rollback Detail_receive L, lst, False) }"

definition rollback_open :: "env \<Rightarrow> block \<Rightarrow> open_hashables \<Rightarrow> ledger \<Rightarrow> block list \<Rightarrow> rollback_result" where
  "rollback_open E b h L lst = do {
     let hash = generate_hash (crypto_fns E) b;
     amount \<leftarrow> ledger_amount L (open_source h);
     destination_account \<leftarrow> ledger_account L hash;
     source_account \<leftarrow> ledger_account L (open_source h);
     let L = weights_add (block_representative b) (0 - amount) L;
     L \<leftarrow> change_latest destination_account default_account_info default_account_info L;
     L \<leftarrow> on_store (\<lambda>s. block_del s hash (type_of b)) L;
     let L = in_store (\<lambda>s. pending_put s (destination_account, open_source h)
           \<lparr>pending_source = source_account, pending_amount = amount, pending_epoch = epoch_0\<rparr>) L;
     L \<leftarrow> on_store (\<lambda>s. frontier_del s hash) L;
     Some (stats_inc Stat_rollback Detail_open L, lst, False) }"

definition rollback_change :: "env \<Rightarrow> block \<Rightarrow> change_hashables \<Rightarrow> ledger \<Rightarrow> block list \<Rightarrow> rollback_result" where
  "rollback_change E b h L lst = do {
     let hash = generate_hash (crypto_fns E) b;
     rep_block \<leftarrow> ledger_representative (crypto_fns E) L (change_previous h);
     account \<leftarrow> ledger_account L (change_previous h);
     let info = info_or_default (account_get (ledger_store L) account);
     balance \<leftarrow> ledger_balance L (change_previous h);
     rep \<leftarrow> block_get (ledger_store L) rep_block;
     let L = weights_add (block_representative b) (0 - balance) L;
     let L = weights_add (block_representative rep) balance L;
     L \<leftarrow> on_store (\<lambda>s. block_del s hash (type_of b)) L;
     let new_info = \<lparr>head = change_previous h, representative = block_representative rep, open_block = open_block info,
           info_balance = info_balance info, modified = clock_account E, block_count = block_count info - 1,
           epoch_m = epoch_0\<rparr>;
     L \<leftarrow> change_latest account info new_info L;
     L \<leftarrow> on_store (\<lambda>s. frontier_del s hash) L;
     let L = in_store (\<lambda>s. frontier_put s (change_previous h) account) L;
     L \<leftarrow> on_store (\<lambda>s. block_successor_clear s (change_previous h)) L;
     Some (stats_inc Stat_rollback Detail_change L, lst, False) }"

text \<open>
  The visitor of state blocks in three parts: the weights, the pending entry (with the nested
  rollbacks of a collected send, whose error stays local), and the tables.
\<close>

definition rollback_state_weights :: "env \<Rightarrow> state_hashables \<Rightarrow> amount \<Rightarrow> ledger \<Rightarrow> (account \<times> ledger) option" where
  "rollback_state_weights E h balance L = do {
     rep_block_hash \<leftarrow> (if state_previous h \<noteq> 0 then ledger_representative (crypto_fns E) L (state_previous h) else Some 0);
     let L = weights_add (state_representative h) (0 - state_balance h) L;
     if rep_block_hash \<noteq> 0 then do {
       rep \<leftarrow> block_get (ledger_store L) rep_block_hash;
       Some (block_representative rep, weights_add (block_representative rep) balance L) }
     else Some (0, L) }"

definition rollback_state_pending ::
    "nat \<Rightarrow> env \<Rightarrow> rollback_fn \<Rightarrow> block_hash \<Rightarrow> state_hashables \<Rightarrow> amount \<Rightarrow> bool \<Rightarrow> ledger \<Rightarrow> block list \<Rightarrow>
      (ledger \<times> block list) option" where
  "rollback_state_pending n E rb hash h balance error L lst =
     (if state_balance h < balance then do {
        let key = (state_link h, hash);
        (L, lst, error) \<leftarrow> rollback_until n rb (\<lambda>L. pending_exists (ledger_store L) key) (state_link h) (L, lst, error);
        L \<leftarrow> on_store (\<lambda>s. pending_del s key) L;
        Some (stats_inc Stat_rollback Detail_send L, lst) }
      else if state_link h \<noteq> 0 \<and> \<not> ledger_is_epoch_link E (state_link h) then do {
        source_version \<leftarrow> block_version (ledger_store L) (state_link h);
        source_account \<leftarrow> ledger_account L (state_link h);
        let L = in_store (\<lambda>s. pending_put s (state_account h, state_link h)
              \<lparr>pending_source = source_account, pending_amount = state_balance h - balance,
               pending_epoch = source_version\<rparr>) L;
        Some (stats_inc Stat_rollback Detail_receive L, lst) }
      else Some (L, lst))"

definition rollback_state_previous :: "state_hashables \<Rightarrow> ledger \<Rightarrow> ledger option" where
  "rollback_state_previous h L = (case block_get (ledger_store L) (state_previous h) of
     Some previous \<Rightarrow> do {
       L \<leftarrow> on_store (\<lambda>s. block_successor_clear s (state_previous h)) L;
       Some (if block_type_code (type_of previous) < block_type_code State_type
             then in_store (\<lambda>s. frontier_put s (state_previous h) (state_account h)) L else L) }
   | None \<Rightarrow> Some (stats_inc Stat_rollback Detail_open L))"

definition rollback_state ::
    "nat \<Rightarrow> env \<Rightarrow> rollback_fn \<Rightarrow> block \<Rightarrow> state_hashables \<Rightarrow> ledger \<Rightarrow> block list \<Rightarrow> rollback_result" where
  "rollback_state n E rb b h L lst = do {
     let hash = generate_hash (crypto_fns E) b;
     balance \<leftarrow> ledger_balance L (state_previous h);
     (rep, L) \<leftarrow> rollback_state_weights E h balance L;
     let acct = account_get (ledger_store L) (state_account h);
     let info = info_or_default acct;
     (L, lst) \<leftarrow> rollback_state_pending n E rb hash h balance (acct = None) L lst;
     previous_version \<leftarrow> block_version (ledger_store L) (state_previous h);
     let new_info = \<lparr>head = state_previous h, representative = rep, open_block = open_block info,
           info_balance = balance, modified = clock_account E, block_count = block_count info - 1,
           epoch_m = previous_version\<rparr>;
     L \<leftarrow> change_latest (state_account h) info new_info L;
     L \<leftarrow> rollback_state_previous h L;
     L \<leftarrow> on_store (\<lambda>s. block_del s hash (type_of b)) L;
     Some (L, lst, False) }"

definition rollback_visit :: "nat \<Rightarrow> env \<Rightarrow> rollback_fn \<Rightarrow> block \<Rightarrow> ledger \<Rightarrow> block list \<Rightarrow> rollback_result" where
  "rollback_visit n E rb b L lst = (case hashables b of
     Send h \<Rightarrow> rollback_send n E rb b h L lst
   | Receive h \<Rightarrow> rollback_receive E b h L lst
   | Open h \<Rightarrow> rollback_open E b h L lst
   | Change h \<Rightarrow> rollback_change E b h L lst
   | State h \<Rightarrow> rollback_state n E rb b h L lst)"

text \<open>
  One round of the loop: \<open>account_info\<close> is declared outside of it and keeps its value when the account
  has no record; \<open>confirmation_height_info\<close> has no initializer, so an account without a confirmation
  height has no defined result.
\<close>

definition rollback_round ::
    "nat \<Rightarrow> env \<Rightarrow> rollback_fn \<Rightarrow> account \<Rightarrow> u64 \<Rightarrow> ledger \<times> block list \<times> account_info \<times> bool \<Rightarrow>
      (ledger \<times> block list \<times> account_info \<times> bool) option" where
  "rollback_round n E rb account_l target_height = (\<lambda>(L, lst, account_info, error). do {
     ch \<leftarrow> confirmation_height_get (ledger_store L) account_l;
     if target_height > conf_height ch then do {
       let account_info = (case account_get (ledger_store L) account_l of Some i \<Rightarrow> i | None \<Rightarrow> account_info);
       b \<leftarrow> block_get (ledger_store L) (head account_info);
       (L, lst, error) \<leftarrow> rollback_visit n E rb b L (lst @ [b]);
       Some (if error then L else block_count_add (- 1) L, lst, account_info, error) }
     else Some (L, lst, account_info, True) })"

fun rollback :: "nat \<Rightarrow> env \<Rightarrow> rollback_fn" where
  "rollback 0 E L block lst = None"
| "rollback (Suc n) E L block lst = do {
     account_l \<leftarrow> ledger_account L block;
     height \<leftarrow> block_account_height (ledger_store L) block;
     (L, lst, account_info, error) \<leftarrow> while_fuel n
       (\<lambda>(L, lst, account_info, error). \<not> error \<and> block_exists (ledger_store L) block)
       (rollback_round n E (rollback n E) account_l height) (L, lst, default_account_info, False);
     Some (L, lst, error) }"

text \<open>The overload that drops the list of undone blocks.\<close>

definition rollback_discard :: "nat \<Rightarrow> env \<Rightarrow> ledger \<Rightarrow> block_hash \<Rightarrow> (ledger \<times> bool) option" where
  "rollback_discard n E L block = do { (L, lst, error) \<leftarrow> rollback n E L block []; Some (L, error) }"

end
