(* ===== verification/Rollback_Visit.thy ===== *)
theory Rollback_Visit
  imports Undo_Steps Rollback
begin

text \<open>
  Each visitor of \<open>rollback_visitor\<close>, on the head block of an account whose send (if it is one) is still
  pending, returns and has the abstract effect \<open>undone\<close>; the cache moves with the tables, which \<open>same_drift\<close>
  expresses as the distance between the cache and what the tables say staying the same.
\<close>

subsection \<open>Block tables\<close>

lemma block_del_frame:
  "block_del (s\<lparr>accounts := a\<rparr>) h t = map_option (\<lambda>s. s\<lparr>accounts := a\<rparr>) (block_del s h t)"
  "block_del (s\<lparr>pending := p\<rparr>) h t = map_option (\<lambda>s. s\<lparr>pending := p\<rparr>) (block_del s h t)"
  "block_del (s\<lparr>frontiers := f\<rparr>) h t = map_option (\<lambda>s. s\<lparr>frontiers := f\<rparr>) (block_del s h t)"
  "block_del (s\<lparr>confirmation_heights := c\<rparr>) h t = map_option (\<lambda>s. s\<lparr>confirmation_heights := c\<rparr>) (block_del s h t)"
  by (cases t; simp add: table_del_def)+

lemma block_entry_put_frame:
  "block_entry_put (s\<lparr>accounts := a\<rparr>) h b = (block_entry_put s h b)\<lparr>accounts := a\<rparr>"
  "block_entry_put (s\<lparr>pending := p\<rparr>) h b = (block_entry_put s h b)\<lparr>pending := p\<rparr>"
  "block_entry_put (s\<lparr>frontiers := f\<rparr>) h b = (block_entry_put s h b)\<lparr>frontiers := f\<rparr>"
  "block_entry_put (s\<lparr>confirmation_heights := c\<rparr>) h b = (block_entry_put s h b)\<lparr>confirmation_heights := c\<rparr>"
  by (simp_all add: block_entry_put_def split: block_hashables.split)

lemma block_successor_clear_frame:
  "block_successor_clear (s\<lparr>accounts := a\<rparr>) h = map_option (\<lambda>s. s\<lparr>accounts := a\<rparr>) (block_successor_clear s h)"
  "block_successor_clear (s\<lparr>pending := p\<rparr>) h = map_option (\<lambda>s. s\<lparr>pending := p\<rparr>) (block_successor_clear s h)"
  "block_successor_clear (s\<lparr>frontiers := f\<rparr>) h = map_option (\<lambda>s. s\<lparr>frontiers := f\<rparr>) (block_successor_clear s h)"
  "block_successor_clear (s\<lparr>confirmation_heights := c\<rparr>) h = map_option (\<lambda>s. s\<lparr>confirmation_heights := c\<rparr>) (block_successor_clear s h)"
  by (cases "block_get s h"; simp add: block_successor_clear_def block_entry_put_frame map_option_bind comp_def)+

lemmas block_frame = block_del_frame block_successor_clear_frame

lemma block_del_spec:
  assumes "blocks_ok s" "block_get s h = Some b"
  obtains s' where "block_del s h (type_of b) = Some s'" "blocks_ok s'" "store_rest s' = store_rest s"
    "total_blocks s = Suc (total_blocks s')" "\<And>h'. block_get s' h' = (if h' = h then None else block_get s h')"
proof -
  obtain s' where s': "block_del s h (type_of b) = Some s'" "blocks_ok s'" "store_rest s' = store_rest s"
      "\<And>h'. block_get s' h' = (if h' = h then None else block_get s h')"
    using block_del_present [OF assms] by blast
  let ?t = "block_table (type_of b) s"
  have "s' = block_table_set (type_of b) (table_drop_key ?t h) s"
    using s'(1) by (simp add: block_del_set split: if_splits)
  moreover have "length (table_drop_key ?t h) + 1 = length ?t"
  proof -
    have len: "table_sum (\<lambda>_. Suc 0) t = length t" for t :: "(block_hash, block) table" by (induction t) auto
    have "table_get ?t h = Some b" using assms by (simp add: block_get_iff)
    then show ?thesis
      using table_sum_drop_key [OF blocks_okD(1) [OF assms(1)], of "\<lambda>_. Suc 0" "type_of b" h] by (simp add: len)
  qed
  ultimately have "total_blocks s = Suc (total_blocks s')"
    using total_blocks_table_set [of "type_of b" "table_drop_key ?t h" s] by simp
  with s' show ?thesis by (intro that)
qed

lemma block_successor_clear_spec:
  assumes "blocks_ok s" "block_get s h = Some p"
  obtains s' where "block_successor_clear s h = Some s'" "blocks_ok s'" "store_rest s' = store_rest s"
    "total_blocks s' = total_blocks s" "\<And>h'. block_get s' h' = (if h' = h then Some (with_successor 0 p) else block_get s h')"
proof -
  obtain sb where sb: "sideband p = Some sb"
    using block_get_sideband [OF assms] by (auto simp: has_sideband_def sideband_def)
  have "block_successor_clear s h = Some (block_entry_put s h (with_successor 0 p))"
    using assms(2) sb by (simp add: block_successor_clear_def with_successor_set)
  moreover have "total_blocks (block_entry_put s h (with_successor 0 p)) = total_blocks s"
    using assms by (subst total_blocks_entry_put) auto
  ultimately show ?thesis
    using that store_blocks.rewrite_sideband [OF assms, of "sb\<lparr>successor := 0\<rparr>"] sb
    by (simp add: with_successor_set)
qed

lemma del_then_clear:
  assumes "blocks_ok s" "block_get s h = Some b" "has_predecessor b" "block_get s (block_previous b) = Some p"
    "block_previous b \<noteq> h"
  obtains s1 s2 where "block_del s h (type_of b) = Some s1" "store_rest s1 = store_rest s"
    "block_successor_clear s1 (block_previous b) = Some s2" "store_rest s2 = store_rest s" "blocks_undone s h b s2"
proof -
  obtain s1 where s1: "block_del s h (type_of b) = Some s1" "blocks_ok s1" "store_rest s1 = store_rest s"
    "total_blocks s = Suc (total_blocks s1)" "\<And>h'. block_get s1 h' = (if h' = h then None else block_get s h')"
    by (rule block_del_spec [OF assms(1,2)]) blast
  then have "block_get s1 (block_previous b) = Some p" using assms(4,5) by simp
  then obtain s2 where "block_successor_clear s1 (block_previous b) = Some s2" "blocks_ok s2" "store_rest s2 = store_rest s1"
    "total_blocks s2 = total_blocks s1"
    "\<And>h'. block_get s2 h' = (if h' = block_previous b then Some (with_successor 0 p) else block_get s1 h')"
    using block_successor_clear_spec [OF s1(2)] by metis
  with s1 assms show ?thesis by (intro that [of s1 s2]) (auto simp: blocks_undone_def)
qed

lemma clear_then_del:
  assumes "blocks_ok s" "block_get s h = Some b" "has_predecessor b" "block_get s (block_previous b) = Some p"
    "block_previous b \<noteq> h"
  obtains s1 s2 where "block_successor_clear s (block_previous b) = Some s1" "store_rest s1 = store_rest s"
    "block_del s1 h (type_of b) = Some s2" "store_rest s2 = store_rest s" "blocks_undone s h b s2"
proof -
  obtain s1 where s1: "block_successor_clear s (block_previous b) = Some s1" "blocks_ok s1" "store_rest s1 = store_rest s"
    "total_blocks s1 = total_blocks s"
    "\<And>h'. block_get s1 h' = (if h' = block_previous b then Some (with_successor 0 p) else block_get s h')"
    by (rule block_successor_clear_spec [OF assms(1,4)]) blast
  then have "block_get s1 h = Some b" using assms(2,5) by simp
  then obtain s2 where "block_del s1 h (type_of b) = Some s2" "blocks_ok s2" "store_rest s2 = store_rest s1"
    "total_blocks s1 = Suc (total_blocks s2)" "\<And>h'. block_get s2 h' = (if h' = h then None else block_get s1 h')"
    using block_del_spec [OF s1(2)] by metis
  with s1 assms show ?thesis by (intro that [of s1 s2]) (auto simp: blocks_undone_def)
qed

lemma del_only:
  assumes "blocks_ok s" "block_get s h = Some b" "\<not> has_predecessor b"
  obtains s1 where "block_del s h (type_of b) = Some s1" "store_rest s1 = store_rest s" "blocks_undone s h b s1"
  using block_del_spec [OF assms(1,2)] assms(3) by (metis blocks_undone_def)

subsection \<open>The cache\<close>

definition weight_drift :: "ledger \<Rightarrow> account \<Rightarrow> u128" where
  "weight_drift L r = representation_get (rep_weights (cache L)) r - delegated (ledger_store L) r"

definition same_drift :: "ledger \<Rightarrow> ledger \<Rightarrow> bool" where
  "same_drift L L' =
     ((\<forall>r. weight_drift L' r = weight_drift L r)
      \<and> cache_block_count (cache L') - of_nat (total_blocks (ledger_store L'))
        = cache_block_count (cache L) - of_nat (total_blocks (ledger_store L))
      \<and> cache_account_count (cache L') - of_nat (account_count (ledger_store L'))
        = cache_account_count (cache L) - of_nat (account_count (ledger_store L))
      \<and> cemented_count (cache L') = cemented_count (cache L)
      \<and> cache_unchecked_count (cache L') = cache_unchecked_count (cache L))"

lemma same_drift_refl: "same_drift L L"
  by (simp add: same_drift_def)

lemma same_drift_trans: "same_drift L L1 \<Longrightarrow> same_drift L1 L2 \<Longrightarrow> same_drift L L2"
  by (simp add: same_drift_def)

lemma same_drift_agrees: "same_drift L L' \<Longrightarrow> cache_agrees L \<Longrightarrow> cache_agrees L'"
  by (simp add: same_drift_def cache_agrees_def weight_drift_def eq_iff_diff_eq_0 [symmetric])

text \<open>What the weights of the account's representatives change by when its record goes back.\<close>

definition weight_undone :: "block \<Rightarrow> account_info \<Rightarrow> store \<Rightarrow> account \<Rightarrow> u128" where
  "weight_undone b i s' r = entry_value (\<lambda>j. if representative j = r then info_balance j else 0) (account_get s' (own_account b))
     - (if representative i = r then info_balance i else 0)"

definition cache_undone :: "ledger \<Rightarrow> block \<Rightarrow> account_info \<Rightarrow> ledger \<Rightarrow> bool" where
  "cache_undone L b i L' =
     ((\<forall>r. representation_get (rep_weights (cache L')) r = representation_get (rep_weights (cache L)) r
         + weight_undone b i (ledger_store L') r)
      \<and> cache_block_count (cache L') = cache_block_count (cache L)
      \<and> cache_account_count (cache L') = cache_account_count (cache L) - (if has_predecessor b then 0 else 1)
      \<and> cemented_count (cache L') = cemented_count (cache L)
      \<and> cache_unchecked_count (cache L') = cache_unchecked_count (cache L))"

lemma cache_undone_drift:
  assumes un: "undoing E g rk (ledger_store L) h b i (ledger_store L')" and ca: "cache_undone L b i L'"
  shows "same_drift L (block_count_add (- 1) L')"
proof -
  have "weight_drift L' r = weight_drift L r" for r
    using undoing_delegated [OF un, of r] ca by (simp add: weight_drift_def cache_undone_def weight_undone_def)
  then show ?thesis
    using undoing_counts [OF un] ca by (auto simp: same_drift_def cache_undone_def block_count_add_def weight_drift_def)
qed

subsection \<open>The head block of an account\<close>

definition at_head :: "env \<Rightarrow> block_hash \<Rightarrow> (block_hash \<Rightarrow> nat) \<Rightarrow> store \<Rightarrow> block_hash \<Rightarrow> block \<Rightarrow> account_info \<Rightarrow> bool" where
  "at_head E g rk s h b i = (history_ok E g rk s \<and> store_ok s \<and> h \<noteq> g \<and> block_get s h = Some b
     \<and> account_get s (own_account b) = Some i \<and> head i = h)"

lemma at_headD:
  assumes "at_head E g rk s h b i"
  shows "history_ok E g rk s" "store_ok s" "h \<noteq> g" "block_get s h = Some b" "account_get s (own_account b) = Some i" "head i = h"
    "generate_hash (crypto_fns E) b = h" "h \<noteq> 0" "table_get (accounts s) (own_account b) = Some i"
    "info_balance i = own_balance b" "confirmation_height_get s (own_account b) \<noteq> None"
    "table_get (frontiers s) h = (if type_of b = State_type then None else Some (own_account b))"
proof -
  show h: "history_ok E g rk s" "store_ok s" "h \<noteq> g" "block_get s h = Some b" "account_get s (own_account b) = Some i" "head i = h"
    using assms by (simp_all add: at_head_def)
  show "generate_hash (crypto_fns E) b = h" by (rule history_okD(1) [OF h(1,4)])
  show "h \<noteq> 0" using store_okD(6) [OF h(2)] h(4) by auto
  show "table_get (accounts s) (own_account b) = Some i" using h(5) by (simp add: account_get_def)
  show "info_balance i = own_balance b" "confirmation_height_get s (own_account b) \<noteq> None"
    using store_ok_account [OF h(2,5)] stored_queries(2) [OF store_okD(1) [OF h(2)] h(4)] h(6)
    by (simp_all add: account_ok_def)
  show "table_get (frontiers s) h = (if type_of b = State_type then None else Some (own_account b))"
    using history_ok_head [OF h(1,5)] h(4,6) by (auto simp: head_ok_def)
qed

lemma at_head_previous:
  assumes hd: "at_head E g rk s h b i" and hp: "has_predecessor b"
  obtains p where "block_get s (block_previous b) = Some p" "own_account p = own_account b" "block_previous b \<noteq> h"
    "block_previous b \<noteq> 0" "type_of b \<noteq> State_type \<longrightarrow> type_of p \<noteq> State_type" "prior_balance s b = own_balance p"
    "block_balance s (block_previous b) = Some (own_balance p)" "block_version s (block_previous b) = Some (own_version p)"
    "store_block_account s (block_previous b) = Some (own_account b)"
proof -
  note d = at_headD [OF hd]
  obtain p where p: "block_get s (block_previous b) = Some p" "own_account p = own_account b" "rk (block_previous b) < rk h"
      "type_of p = State_type \<longrightarrow> type_of b = State_type"
    using history_predecessor [OF d(1,4) hp] by metis
  moreover have "block_previous b \<noteq> 0" using p(1) store_okD(6) [OF d(2)] by auto
  ultimately show ?thesis
    using stored_queries [OF store_okD(1) [OF d(2)] p(1)] prior_balance_stored [OF p(1) hp] by (intro that [of p]) auto
qed

text \<open>The representative that held before the block.\<close>

lemma at_head_representative:
  assumes hd: "at_head E g rk s h b i" and hp: "has_predecessor b"
  obtains rh rb where "representative_calculated (crypto_fns E) s (block_previous b) = Some rh" "rh \<noteq> 0" "block_get s rh = Some rb"
    "keeps_representative b \<longrightarrow> representative i = block_representative rb"
proof -
  note d = at_headD [OF hd]
  obtain p where p: "block_get s (block_previous b) = Some p" by (rule at_head_previous [OF hd hp])
  obtain rh rb where r: "representative_calculated (crypto_fns E) s (block_previous b) = Some rh" "block_get s rh = Some rb"
    using representative_transfer [OF d(1) store_okD(6) [OF d(2)] p, of s] by blast
  have "representative i = block_representative rb" if "keeps_representative b"
    using history_ok_head [OF d(1,5)] representative_calculated_step [OF d(4), of "crypto_fns E"] that r d(6)
    by (auto simp: head_ok_def)
  moreover have "rh \<noteq> 0" using r(2) store_okD(6) [OF d(2)] by auto
  ultimately show ?thesis using r by (intro that [of rh rb]) auto
qed

lemma prior_info_okI:
  assumes "block_get s (block_previous b) = Some p" "has_predecessor b"
    and "representative_calculated C s (block_previous b) = Some rh" "block_get s rh = Some rb"
    and "j = \<lparr>head = block_previous b, representative = block_representative rb, open_block = open_block i,
      info_balance = own_balance p, modified = m, block_count = block_count i - 1, epoch_m = own_version p\<rparr>"
  shows "prior_info_ok C s b i j"
  using assms by (simp add: prior_info_ok_def prior_balance_stored)

lemma blocks_undone_frame [simp]:
  "blocks_undone s h b (s'\<lparr>accounts := x\<rparr>) = blocks_undone s h b s'"
  "blocks_undone s h b (s'\<lparr>pending := y\<rparr>) = blocks_undone s h b s'"
  "blocks_undone s h b (s'\<lparr>frontiers := z\<rparr>) = blocks_undone s h b s'"
  "blocks_undone s h b (s'\<lparr>confirmation_heights := c\<rparr>) = blocks_undone s h b s'"
  by (simp_all add: blocks_undone_def)

lemma prior_info_put:
  "prior_info_ok C s b i j \<Longrightarrow> \<exists>j'. prior_info_ok C s b i j' \<and> table_put t a j = table_put t a j'"
  by blast

lemma change_latest_first:
  assumes "head new_info = 0" "table_get (accounts (ledger_store L)) a \<noteq> None"
    "table_get (confirmation_heights (ledger_store L)) a \<noteq> None"
  shows "change_latest a old_info new_info L = Some (L\<lparr>
    ledger_store := (ledger_store L)\<lparr>confirmation_heights := table_drop_key (confirmation_heights (ledger_store L)) a,
      accounts := table_drop_key (accounts (ledger_store L)) a\<rparr>,
    cache := (cache L)\<lparr>cache_account_count := cache_account_count (cache L) - 1\<rparr>\<rparr>)"
  using assms by (simp add: change_latest_def on_store_def confirmation_height_del_def account_del_def table_del_def
      account_count_add_def)

lemmas undone_defs = undone_def accounts_undone_def frontiers_undone_def legacy_predecessor_def Let_def

text \<open>The source of a collecting block, as the queries of the visitors see it.\<close>

lemma at_head_source:
  assumes hd: "at_head E g rk s h b i" and ch: "stored_change E s h b = Pending_del k"
  obtains src p where "block_get s (snd k) = Some src" "stored_change E s (snd k) src = Pending_add k p"
    "store_block_account s (snd k) = Some (pending_source p)" "block_version s (snd k) = Some (pending_epoch p)"
    "own_balance b = prior_balance s b + pending_amount p" "snd k \<noteq> 0" "has_predecessor src"
    "block_balance s (snd k) = Some (own_balance src)"
    "block_balance s (block_previous src) = Some (own_balance src + pending_amount p)" "own_balance src \<le> own_balance src + pending_amount p"
    "block_previous src \<noteq> 0" "type_of b \<noteq> State_type \<longrightarrow> pending_epoch p = epoch_0"
proof -
  note d = at_headD [OF hd]
  obtain src p where src: "block_get s (snd k) = Some src" "stored_change E s (snd k) src = Pending_add k p"
      "own_balance b = prior_balance s b + pending_amount p" "type_of b \<noteq> State_type \<longrightarrow> pending_epoch p = epoch_0"
    by (rule history_source [OF d(1,4,3) ch])
  have p: "pending_source p = own_account src" "pending_epoch p = own_version src"
      "pending_amount p = prior_balance s src - own_balance src" "has_predecessor src"
    using src(2) by (auto simp: stored_change_def block_change_def Let_def has_predecessor_def prior_balance_def
        split: block_hashables.splits if_splits)
  have le: "own_balance src \<le> prior_balance s src"
    using history_okD(7) [OF d(1) src(1)] src(2) by (simp add: amount_ok_def)
  obtain q where q: "block_get s (block_previous src) = Some q"
    using history_predecessor [OF d(1) src(1) p(4)] by metis
  have "block_balance s (block_previous src) = Some (prior_balance s src)"
    using stored_queries(2) [OF store_okD(1) [OF d(2)] q] prior_balance_stored [OF q p(4)] by simp
  moreover have "snd k \<noteq> 0" "block_previous src \<noteq> 0" using src(1) q store_okD(6) [OF d(2)] by auto
  ultimately show ?thesis
    using src p le stored_queries [OF store_okD(1) [OF d(2)] src(1)] by (intro that [of src p]) auto
qed

lemma source_amount:
  assumes "block_get (ledger_store L) h = Some src" "h \<noteq> 0" "block_previous src \<noteq> 0"
    "block_balance (ledger_store L) h = Some v" "block_balance (ledger_store L) (block_previous src) = Some (v + x)" "v \<le> v + x"
  shows "ledger_amount L h = Some x"
  using assms by (auto simp: ledger_amount_def ledger_balance_def)

subsection \<open>Legacy visitors\<close>

lemma on_store_simp: "on_store f L = map_option (\<lambda>s. L\<lparr>ledger_store := s\<rparr>) (f (ledger_store L))"
  by (simp add: on_store_def map_option_case bind_split split: option.split)

lemmas visit_simps = on_store_def in_store_def weights_add_def stats_inc_def pending_put_def pending_del_def
  frontier_put_def frontier_del_def table_del_def ledger_balance_def pending_get_def

lemma rollback_send_visited:
  assumes hd: "at_head E g rk (ledger_store L) h b i" and hb: "hashables b = Send sh"
    and un: "rollback_until n rb (\<lambda>L. pending_get (ledger_store L) (send_destination sh, h) \<noteq> None) (send_destination sh) (L0, lst0, False)
      = Some (L, lst, False)"
    and pend: "pending_get (ledger_store L) (send_destination sh, h) \<noteq> None"
  shows "\<exists>L'. rollback_send n E rb b sh L0 lst0 = Some (L', lst, False) \<and> undone E (ledger_store L) h b i (ledger_store L')
    \<and> cache_undone L b i L'"
proof -
  let ?s = "ledger_store L"
  note d = at_headD [OF hd]
  have hp: "has_predecessor b" and prev: "block_previous b = send_previous sh" and ty: "type_of b = Send_type"
    and kr: "keeps_representative b"
    using hb by (simp_all add: has_predecessor_def block_previous_def type_of_def keeps_representative_def)
  obtain p where p: "block_get ?s (send_previous sh) = Some p" "send_previous sh \<noteq> h" "send_previous sh \<noteq> 0"
      "type_of p \<noteq> State_type" "prior_balance ?s b = own_balance p" "block_balance ?s (send_previous sh) = Some (own_balance p)"
    using at_head_previous [OF hd hp] prev ty by auto
  obtain rh rb' where r: "representative_calculated (crypto_fns E) ?s (send_previous sh) = Some rh" "block_get ?s rh = Some rb'"
      "representative i = block_representative rb'"
    using at_head_representative [OF hd hp] prev kr by metis
  obtain pd where pd: "pending_get ?s (send_destination sh, h) = Some pd" using pend by auto
  have ch: "stored_change E ?s h b = Pending_add (send_destination sh, h) pd"
    using pd history_pending [OF d(1), of "(send_destination sh, h)" pd] d(4) by simp
  then have pdv: "pending_source pd = own_account b" "pending_amount pd = own_balance p - own_balance b"
    using hb p(5) by (auto simp: stored_change_def block_change_def)
  obtain s1 s2 where s: "block_del ?s h (type_of b) = Some s1" "store_rest s1 = store_rest ?s"
      "block_successor_clear s1 (send_previous sh) = Some s2" "store_rest s2 = store_rest ?s" "blocks_undone ?s h b s2"
    using del_then_clear [OF store_okD(1) [OF d(2)] d(4) hp] p(1,2) prev by metis
  note rest = store_rest_eqD [OF s(2)] store_rest_eqD [OF s(4)]
  let ?j = "\<lparr>head = send_previous sh, representative = representative i, open_block = open_block i,
    info_balance = own_balance p, modified = clock_account E, block_count = block_count i - 1, epoch_m = epoch_0\<rparr>"
  have j: "prior_info_ok (crypto_fns E) ?s b i ?j"
    using p(1,4) r hp prev by (intro prior_info_okI [of ?s b p _ rh rb']) (simp_all add: own_version_def)
  have bal: "block_balance (?s\<lparr>pending := x\<rparr>) y = block_balance ?s y" for x y by (simp add: block_balance_def)
  show ?thesis
    using un pd pdv d p s(1,3,5) hp prev prior_info_put [OF j] ch ty
    by (simp add: rollback_send_def Let_def visit_simps change_latest_head account_get_def bal block_frame rest
        store_okD [OF d(2)] undone_defs pending_undone_def cache_undone_def weight_undone_def
        del: block_del.simps)
qed

lemma rollback_receive_visited:
  assumes hd: "at_head E g rk (ledger_store L) h b i" and hb: "hashables b = Receive rh"
  shows "\<exists>L'. rollback_receive E b rh L lst = Some (L', lst, False) \<and> undone E (ledger_store L) h b i (ledger_store L')
    \<and> cache_undone L b i L'"
proof -
  let ?s = "ledger_store L" let ?k = "(own_account b, receive_source rh)"
  note d = at_headD [OF hd]
  have hp: "has_predecessor b" and prev: "block_previous b = receive_previous rh" and ty: "type_of b = Receive_type"
    and kr: "keeps_representative b"
    using hb by (simp_all add: has_predecessor_def block_previous_def type_of_def keeps_representative_def)
  obtain p where p: "block_get ?s (receive_previous rh) = Some p" "receive_previous rh \<noteq> h" "receive_previous rh \<noteq> 0"
      "type_of p \<noteq> State_type" "prior_balance ?s b = own_balance p" "block_balance ?s (receive_previous rh) = Some (own_balance p)"
    using at_head_previous [OF hd hp] prev ty by auto
  obtain rp rb' where r: "representative_calculated (crypto_fns E) ?s (receive_previous rh) = Some rp" "block_get ?s rp = Some rb'"
      "representative i = block_representative rb'"
    using at_head_representative [OF hd hp] prev kr by metis
  have ch: "stored_change E ?s h b = Pending_del ?k" using hb by (simp add: stored_change_def block_change_def)
  obtain src pd where src: "block_get ?s (receive_source rh) = Some src" "stored_change E ?s (receive_source rh) src = Pending_add ?k pd"
      "store_block_account ?s (receive_source rh) = Some (pending_source pd)" "pending_epoch pd = epoch_0"
      "own_balance b = own_balance p + pending_amount pd" "ledger_amount L (receive_source rh) = Some (pending_amount pd)"
    by (rule at_head_source [OF hd ch]) (use source_amount [of L "receive_source rh"] ty p(5) in \<open>simp del: table_del_eq_Some\<close>)
  have entry: "\<lparr>pending_source = pending_source pd, pending_amount = pending_amount pd, pending_epoch = epoch_0\<rparr> = pd"
    using src(4) by simp
  obtain s1 s2 where s: "block_del ?s h (type_of b) = Some s1" "store_rest s1 = store_rest ?s"
      "block_successor_clear s1 (receive_previous rh) = Some s2" "store_rest s2 = store_rest ?s" "blocks_undone ?s h b s2"
    using del_then_clear [OF store_okD(1) [OF d(2)] d(4) hp] p(1,2) prev by metis
  note rest = store_rest_eqD [OF s(2)] store_rest_eqD [OF s(4)]
  let ?j = "\<lparr>head = receive_previous rh, representative = representative i, open_block = open_block i,
    info_balance = own_balance p, modified = clock_account E, block_count = block_count i - 1, epoch_m = epoch_0\<rparr>"
  have j: "prior_info_ok (crypto_fns E) ?s b i ?j"
    using p(1,4) r hp prev by (intro prior_info_okI [of ?s b p _ rp rb']) (simp_all add: own_version_def)
  have acct: "store_block_account ?s h = Some (own_account b)" by (rule stored_queries(1) [OF store_okD(1) [OF d(2)] d(4)])
  show ?thesis
    using src acct d p s(1,3,5) hp prev prior_info_put [OF j] ch ty
    by (simp add: rollback_receive_def Let_def visit_simps change_latest_head account_get_def block_frame rest entry
        ledger_account_def store_okD [OF d(2)] undone_defs pending_undone_def cache_undone_def weight_undone_def
        del: block_del.simps)
qed

lemma rollback_open_visited:
  assumes hd: "at_head E g rk (ledger_store L) h b i" and hb: "hashables b = Open oh"
  shows "\<exists>L'. rollback_open E b oh L lst = Some (L', lst, False) \<and> undone E (ledger_store L) h b i (ledger_store L')
    \<and> cache_undone L b i L'"
proof -
  let ?s = "ledger_store L" let ?k = "(own_account b, open_source oh)"
  note d = at_headD [OF hd]
  have np: "\<not> has_predecessor b" and ty: "type_of b = Open_type" and kr: "\<not> keeps_representative b"
    using hb by (simp_all add: has_predecessor_def type_of_def keeps_representative_def)
  have prior: "prior_balance ?s b = 0" using np by (simp add: prior_balance_def)
  have rep: "representative i = block_representative b"
    using history_ok_head [OF d(1,5)] representative_calculated_step [OF d(4), of "crypto_fns E"] kr d(4,6,7,8)
    by (auto simp: head_ok_def)
  have ch: "stored_change E ?s h b = Pending_del ?k" using hb by (simp add: stored_change_def block_change_def)
  obtain src pd where src: "block_get ?s (open_source oh) = Some src" "stored_change E ?s (open_source oh) src = Pending_add ?k pd"
      "store_block_account ?s (open_source oh) = Some (pending_source pd)" "pending_epoch pd = epoch_0"
      "own_balance b = pending_amount pd" "ledger_amount L (open_source oh) = Some (pending_amount pd)"
    by (rule at_head_source [OF hd ch]) (use source_amount [of L "open_source oh"] ty prior in \<open>simp del: table_del_eq_Some\<close>)
  have entry: "\<lparr>pending_source = pending_source pd, pending_amount = pending_amount pd, pending_epoch = epoch_0\<rparr> = pd"
    using src(4) by simp
  obtain s1 where s: "block_del ?s h (type_of b) = Some s1" "store_rest s1 = store_rest ?s" "blocks_undone ?s h b s1"
    by (rule del_only [OF store_okD(1) [OF d(2)] d(4) np])
  note rest = store_rest_eqD [OF s(2)]
  have acct: "store_block_account ?s h = Some (own_account b)" by (rule stored_queries(1) [OF store_okD(1) [OF d(2)] d(4)])
  have conf: "table_get (confirmation_heights ?s) (own_account b) \<noteq> None" using d(11) by (simp add: confirmation_height_get_def)
  show ?thesis
    using src acct d s(1,3) np ch ty rep conf
    by (simp add: rollback_open_def Let_def visit_simps change_latest_first account_get_def block_frame rest entry default_account_info_def
        ledger_account_def store_okD [OF d(2)] undone_defs pending_undone_def cache_undone_def weight_undone_def
        del: block_del.simps)
qed

lemma rollback_change_visited:
  assumes hd: "at_head E g rk (ledger_store L) h b i" and hb: "hashables b = Change ch"
  shows "\<exists>L'. rollback_change E b ch L lst = Some (L', lst, False) \<and> undone E (ledger_store L) h b i (ledger_store L')
    \<and> cache_undone L b i L'"
proof -
  let ?s = "ledger_store L"
  note d = at_headD [OF hd]
  have hp: "has_predecessor b" and prev: "block_previous b = change_previous ch" and ty: "type_of b = Change_type"
    and kr: "\<not> keeps_representative b"
    using hb by (simp_all add: has_predecessor_def block_previous_def type_of_def keeps_representative_def)
  obtain p where p: "block_get ?s (change_previous ch) = Some p" "change_previous ch \<noteq> h" "change_previous ch \<noteq> 0"
      "type_of p \<noteq> State_type" "prior_balance ?s b = own_balance p" "block_balance ?s (change_previous ch) = Some (own_balance p)"
      "store_block_account ?s (change_previous ch) = Some (own_account b)"
    using at_head_previous [OF hd hp] prev ty by auto
  obtain rp rb' where r: "representative_calculated (crypto_fns E) ?s (change_previous ch) = Some rp" "block_get ?s rp = Some rb'"
    using at_head_representative [OF hd hp] prev by metis
  have rep: "representative i = block_representative b"
    using history_ok_head [OF d(1,5)] representative_calculated_step [OF d(4), of "crypto_fns E"] kr d(4,6,7,8)
    by (auto simp: head_ok_def)
  have chg: "stored_change E ?s h b = Pending_none" using hb by (simp add: stored_change_def block_change_def)
  then have same: "own_balance b = own_balance p" using history_okD(7) [OF d(1,4)] p(5) by (simp add: amount_ok_def)
  obtain s1 s2 where s: "block_del ?s h (type_of b) = Some s1" "store_rest s1 = store_rest ?s"
      "block_successor_clear s1 (change_previous ch) = Some s2" "store_rest s2 = store_rest ?s" "blocks_undone ?s h b s2"
    using del_then_clear [OF store_okD(1) [OF d(2)] d(4) hp] p(1,2) prev by metis
  note rest = store_rest_eqD [OF s(2)] store_rest_eqD [OF s(4)]
  let ?j = "\<lparr>head = change_previous ch, representative = block_representative rb', open_block = open_block i,
    info_balance = own_balance p, modified = clock_account E, block_count = block_count i - 1, epoch_m = epoch_0\<rparr>"
  have j: "prior_info_ok (crypto_fns E) ?s b i ?j"
    using p(1,4) r hp prev by (intro prior_info_okI [of ?s b p _ rp rb']) (simp_all add: own_version_def)
  show ?thesis
    using d p r s(1,3,5) hp prev prior_info_put [OF j] chg ty rep same
    by (cases "block_representative rb' = block_representative b") (simp_all add: rollback_change_def Let_def visit_simps change_latest_head account_get_def block_frame rest ledger_representative_def
        ledger_account_def store_okD [OF d(2)] undone_defs pending_undone_def cache_undone_def weight_undone_def
        del: block_del.simps)
qed

subsection \<open>The visitor of state blocks\<close>

text \<open>The first part moves the weights as the record of the account will go back.\<close>

definition state_weight_change :: "store \<Rightarrow> block \<Rightarrow> account_info \<Rightarrow> account \<Rightarrow> account \<Rightarrow> u128" where
  "state_weight_change s b i rep r = (if has_predecessor b \<and> rep = r then prior_balance s b else 0)
     - (if representative i = r then info_balance i else 0)"

lemma rollback_state_weights_ok:
  assumes hd: "at_head E g rk (ledger_store L) h b i" and hb: "hashables b = State sh"
  obtains rep L1 where "rollback_state_weights E sh (prior_balance (ledger_store L) b) L = Some (rep, L1)"
    "ledger_balance L (state_previous sh) = Some (prior_balance (ledger_store L) b)"
    "ledger_store L1 = ledger_store L"
    "\<And>r. representation_get (rep_weights (cache L1)) r = representation_get (rep_weights (cache L)) r
      + state_weight_change (ledger_store L) b i rep r"
    "cache_block_count (cache L1) = cache_block_count (cache L)"
    "cache_account_count (cache L1) = cache_account_count (cache L)"
    "cemented_count (cache L1) = cemented_count (cache L)"
    "cache_unchecked_count (cache L1) = cache_unchecked_count (cache L)"
    "has_predecessor b \<Longrightarrow> \<exists>rh rb. representative_calculated (crypto_fns E) (ledger_store L) (state_previous sh) = Some rh
      \<and> block_get (ledger_store L) rh = Some rb \<and> rep = block_representative rb"
proof -
  let ?s = "ledger_store L"
  note d = at_headD [OF hd]
  have prev: "block_previous b = state_previous sh" and kr: "\<not> keeps_representative b"
    and hp: "has_predecessor b \<longleftrightarrow> state_previous sh \<noteq> 0"
    using hb by (simp_all add: has_predecessor_def block_previous_def type_of_def keeps_representative_def)
  have rep: "representative i = state_representative sh"
    using history_ok_head [OF d(1,5)] representative_calculated_step [OF d(4), of "crypto_fns E"] kr d(4,6,7,8) hb
    by (auto simp: head_ok_def block_representative_def)
  have bal: "info_balance i = state_balance sh" using d(10) hb by (simp add: own_balance_def)
  show ?thesis
  proof (cases "has_predecessor b")
    case True
    obtain p where p: "prior_balance ?s b = own_balance p" "block_balance ?s (block_previous b) = Some (own_balance p)"
      by (rule at_head_previous [OF hd True])
    obtain rh rb where r: "representative_calculated (crypto_fns E) ?s (block_previous b) = Some rh" "rh \<noteq> 0"
        "block_get ?s rh = Some rb"
      by (rule at_head_representative [OF hd True])
    show ?thesis
      by (rule that [of "block_representative rb"
            "weights_add (block_representative rb) (own_balance p) (weights_add (state_representative sh) (0 - state_balance sh) L)"])
         (use True hp prev p r rep bal in \<open>simp_all add: rollback_state_weights_def ledger_representative_def weights_add_def
            ledger_balance_def Let_def state_weight_change_def\<close>)
  next
    case False
    show ?thesis
      by (rule that [of 0 "weights_add (state_representative sh) (0 - state_balance sh) L"])
         (use False hp rep bal in \<open>simp_all add: rollback_state_weights_def weights_add_def ledger_balance_def Let_def
            state_weight_change_def prior_balance_def\<close>)
  qed
qed

text \<open>The last part rewrites the tables; it works on the store as the nested rollbacks left it.\<close>

definition state_tail :: "env \<Rightarrow> block_hash \<Rightarrow> block \<Rightarrow> state_hashables \<Rightarrow> account \<Rightarrow> amount \<Rightarrow> account_info \<Rightarrow> ledger \<Rightarrow> ledger option" where
  "state_tail E hash b h rep balance info L = do {
     previous_version \<leftarrow> block_version (ledger_store L) (state_previous h);
     let new_info = \<lparr>head = state_previous h, representative = rep, open_block = open_block info,
           info_balance = balance, modified = clock_account E, block_count = block_count info - 1,
           epoch_m = previous_version\<rparr>;
     L \<leftarrow> change_latest (state_account h) info new_info L;
     L \<leftarrow> rollback_state_previous h L;
     on_store (\<lambda>s. block_del s hash (type_of b)) L }"

lemma rollback_state_parts:
  assumes "ledger_balance L (state_previous h) = Some bal" "rollback_state_weights E h bal L = Some (rep, L1)"
    "account_get (ledger_store L1) (state_account h) = Some i"
    "rollback_state_pending n E rb (generate_hash (crypto_fns E) b) h bal False L1 lst = Some (L2, lst')"
    "state_tail E (generate_hash (crypto_fns E) b) b h rep bal i L2 = Some L3"
  shows "rollback_state n E rb b h L lst = Some (L3, lst', False)"
  using assms by (auto simp: rollback_state_def state_tail_def Let_def bind_eq_Some_conv)

lemma state_tail_ok:
  assumes hd: "at_head E g rk s h b i" and hb: "hashables b = State sh" and s: "ledger_store L = s\<lparr>pending := P\<rparr>"
    and rep: "has_predecessor b \<longrightarrow> (\<exists>rh rb. representative_calculated (crypto_fns E) s (state_previous sh) = Some rh
      \<and> block_get s rh = Some rb \<and> rep = block_representative rb)"
    and pu: "pending_undone E s h b (s\<lparr>pending := P\<rparr>)"
  shows "\<exists>L'. state_tail E h b sh rep (prior_balance s b) i L = Some L' \<and> undone E s h b i (ledger_store L')
    \<and> rep_weights (cache L') = rep_weights (cache L) \<and> cache_block_count (cache L') = cache_block_count (cache L)
    \<and> cache_account_count (cache L') = cache_account_count (cache L) - (if has_predecessor b then 0 else 1)
    \<and> cemented_count (cache L') = cemented_count (cache L) \<and> cache_unchecked_count (cache L') = cache_unchecked_count (cache L)
    \<and> (has_predecessor b \<longrightarrow> (\<exists>j. account_get (ledger_store L') (own_account b) = Some j \<and> representative j = rep))"
proof -
  note d = at_headD [OF hd]
  have prev: "block_previous b = state_previous sh" and ty: "type_of b = State_type"
    and hp: "has_predecessor b \<longleftrightarrow> state_previous sh \<noteq> 0"
    using hb by (simp_all add: has_predecessor_def block_previous_def type_of_def)
  have acct: "state_account sh = own_account b"
    using history_okD(9) [OF d(1,4)] hb ty by (simp add: own_account_def block_account_def)
  have ver: "block_version (s\<lparr>pending := P\<rparr>) x = block_version s x" for x by (simp add: block_version_def)
  have pu': "pending_undone E s h b x" if "pending x = P" for x
    using pu that by (cases "stored_change E s h b") (auto simp: pending_undone_def)
  show ?thesis
  proof (cases "has_predecessor b")
    case True
    obtain p where p: "block_get s (block_previous b) = Some p" "block_previous b \<noteq> h" "block_previous b \<noteq> 0"
        "prior_balance s b = own_balance p" "block_version s (block_previous b) = Some (own_version p)"
      by (rule at_head_previous [OF hd True])
    obtain rh rb' where r: "representative_calculated (crypto_fns E) s (block_previous b) = Some rh" "block_get s rh = Some rb'"
        "rep = block_representative rb'"
      using rep True prev by auto
    obtain s1 s2 where sx: "block_successor_clear s (block_previous b) = Some s1" "store_rest s1 = store_rest s"
        "block_del s1 h (type_of b) = Some s2" "store_rest s2 = store_rest s" "blocks_undone s h b s2"
      by (rule clear_then_del [OF store_okD(1) [OF d(2)] d(4) True p(1,2)])
    note rest = store_rest_eqD [OF sx(2)] store_rest_eqD [OF sx(4)]
    let ?j = "\<lparr>head = block_previous b, representative = rep, open_block = open_block i,
      info_balance = own_balance p, modified = clock_account E, block_count = block_count i - 1, epoch_m = own_version p\<rparr>"
    have j: "prior_info_ok (crypto_fns E) s b i ?j"
      using p(1) r True by (intro prior_info_okI [of s b p _ rh rb']) simp_all
    have code: "block_type_code (type_of p) < block_type_code State_type \<longleftrightarrow> type_of p \<noteq> State_type"
      using block_type_cases [of p] by (cases "type_of p") simp_all
    have "rollback_state_previous sh L' = (if type_of p \<noteq> State_type
          then Some (L'\<lparr>ledger_store := s1\<lparr>pending := P, accounts := A,
            frontiers := table_put (frontiers s) (block_previous b) (own_account b)\<rparr>\<rparr>)
          else Some (L'\<lparr>ledger_store := s1\<lparr>pending := P, accounts := A\<rparr>\<rparr>))"
      if "ledger_store L' = s\<lparr>pending := P, accounts := A\<rparr>" for L' A
      using that sx(1) p(1) prev code acct rest
      by (simp add: rollback_state_previous_def on_store_def in_store_def frontier_put_def block_frame)
    note step = this
    show ?thesis
      using True prev p sx(3,5) prior_info_put [OF j] d acct ty rest s ver pu'
      by (cases "type_of p = State_type")
         (simp_all add: state_tail_def Let_def change_latest_head step on_store_def block_frame store_okD [OF d(2)] undone_defs
           account_get_def del: block_del.simps)
  next
    case False
    obtain s1 where sx: "block_del s h (type_of b) = Some s1" "store_rest s1 = store_rest s" "blocks_undone s h b s1"
      by (rule del_only [OF store_okD(1) [OF d(2)] d(4) False])
    note rest = store_rest_eqD [OF sx(2)]
    have conf: "table_get (confirmation_heights s) (own_account b) \<noteq> None" using d(11) by (simp add: confirmation_height_get_def)
    show ?thesis
      using False hp sx(1,3) d acct ty rest s ver pu' conf store_okD(6) [OF d(2)]
      by (simp add: state_tail_def Let_def change_latest_first rollback_state_previous_def stats_inc_def block_version_def
          on_store_def block_frame undone_defs account_get_def del: block_del.simps)
  qed
qed

lemma state_visit_drift:
  assumes w1: "\<And>r. representation_get (rep_weights (cache L1)) r = representation_get (rep_weights (cache L)) r
      + state_weight_change (ledger_store L) b i rep r"
    and c1: "cache_block_count (cache L1) = cache_block_count (cache L)"
      "cache_account_count (cache L1) = cache_account_count (cache L)" "cemented_count (cache L1) = cemented_count (cache L)"
      "cache_unchecked_count (cache L1) = cache_unchecked_count (cache L)" "ledger_store L1 = ledger_store L"
    and d12: "same_drift L1 L2" and pb: "prior_balance (ledger_store L2) b = prior_balance (ledger_store L) b"
    and un: "undoing E g rk (ledger_store L2) h b i (ledger_store L')"
    and c': "rep_weights (cache L') = rep_weights (cache L2)" "cache_block_count (cache L') = cache_block_count (cache L2)"
      "cache_account_count (cache L') = cache_account_count (cache L2) - (if has_predecessor b then 0 else 1)"
      "cemented_count (cache L') = cemented_count (cache L2)" "cache_unchecked_count (cache L') = cache_unchecked_count (cache L2)"
    and rj: "has_predecessor b \<longrightarrow> (\<exists>j. account_get (ledger_store L') (own_account b) = Some j \<and> representative j = rep)"
  shows "same_drift L (block_count_add (- 1) L')"
proof -
  have "entry_value (\<lambda>j. if representative j = r then info_balance j else 0) (account_get (ledger_store L') (own_account b))
      = (if has_predecessor b \<and> rep = r then prior_balance (ledger_store L) b else 0)" for r
    using rj undoing_account(2) [OF un] undoing_prior_balance [OF un] pb by (cases "has_predecessor b") auto
  then have "weight_drift L' r = weight_drift L2 r - state_weight_change (ledger_store L) b i rep r" for r
    using undoing_delegated [OF un, of r] c'(1) by (simp add: weight_drift_def state_weight_change_def)
  moreover have "weight_drift L2 r = weight_drift L r + state_weight_change (ledger_store L) b i rep r" for r
    using d12 w1 [of r] c1(5) by (simp add: same_drift_def weight_drift_def)
  ultimately have "weight_drift L' r = weight_drift L r" for r by simp
  moreover have "weight_drift (block_count_add (- 1) L') r = weight_drift L' r" for r
    by (simp add: weight_drift_def block_count_add_def)
  ultimately show ?thesis
    using undoing_counts [OF un] d12 c1 c' by (auto simp: same_drift_def block_count_add_def diff_diff_eq add.commute)
qed

end
