(* ===== verification/Rollback_Correct.thy ===== *)
theory Rollback_Correct
  imports Rollback_Visit
begin

text \<open>
  Rollback returns. Undoing a head block calls \<open>rollback\<close> only on blocks of higher rank, and every completed
  visit removes a block, so with enough fuel every call ends without error; what it did to the store is a
  sequence of undo steps, and the cache kept its distance from the tables.
\<close>

subsection \<open>Enough fuel\<close>

definition settles :: "(nat \<Rightarrow> 'a option) \<Rightarrow> 'a \<Rightarrow> bool" where
  "settles f r = (\<exists>k. \<forall>n \<ge> k. f n = Some r)"

definition settles2 :: "(nat \<Rightarrow> nat \<Rightarrow> 'a option) \<Rightarrow> 'a \<Rightarrow> bool" where
  "settles2 f r = (\<exists>k. \<forall>m \<ge> k. \<forall>n \<ge> k. f m n = Some r)"

lemma settles_const: "settles (\<lambda>_. Some r) r"
  by (simp add: settles_def)

lemma settles_bind:
  assumes "settles f x" "settles (\<lambda>n. g n x) r"
  shows "settles (\<lambda>n. f n \<bind> g n) r"
proof -
  obtain j k where "\<forall>n \<ge> j. f n = Some x" "\<forall>n \<ge> k. g n x = Some r" using assms by (auto simp: settles_def)
  then have "\<forall>n \<ge> max j k. f n \<bind> g n = Some r" by simp
  then show ?thesis unfolding settles_def by blast
qed

lemma settles_map: "settles f x \<Longrightarrow> g x = Some r \<Longrightarrow> settles (\<lambda>n. f n \<bind> g) r"
  unfolding settles_def by (metis bind.bind_lunit)

lemma settles_cong: "settles f r \<Longrightarrow> (\<And>n. h n = f n) \<Longrightarrow> settles h r"
  by (simp add: settles_def)

lemma settles_Suc: "settles (\<lambda>n. f (Suc n)) r \<Longrightarrow> settles f r"
  unfolding settles_def by (metis Suc_le_D Suc_le_mono)

lemma settles2_diag: "settles2 f r \<Longrightarrow> settles (\<lambda>n. f n n) r"
  by (auto simp: settles_def settles2_def)

lemma while_done: "\<not> c s \<Longrightarrow> settles2 (\<lambda>m n. while_fuel m c (body n) s) s"
  unfolding settles2_def by (rule exI [of _ 1]) (auto simp: Suc_le_eq gr0_conv_Suc)

lemma while_step:
  assumes "c s" "settles (\<lambda>n. body n s) s1" "settles2 (\<lambda>m n. while_fuel m c (body n) s1) r"
  shows "settles2 (\<lambda>m n. while_fuel m c (body n) s) r"
proof -
  obtain j k where "\<forall>n \<ge> j. body n s = Some s1" "\<forall>m \<ge> k. \<forall>n \<ge> k. while_fuel m c (body n) s1 = Some r"
    using assms(2,3) by (auto simp: settles_def settles2_def)
  then have "while_fuel m c (body n) s = Some r" if "Suc (max j k) \<le> m" "Suc (max j k) \<le> n" for m n
    using that assms(1) by (cases m) simp_all
  then show ?thesis unfolding settles2_def by blast
qed

subsection \<open>What a call and a visit achieve\<close>

definition call_ok :: "env \<Rightarrow> (block_hash \<Rightarrow> nat) \<Rightarrow> ledger \<Rightarrow> block_hash \<Rightarrow> block list \<Rightarrow> bool" where
  "call_ok E rk L t lst = (\<exists>L' lst'. settles (\<lambda>n. rollback n E L t lst) (L', lst', False)
     \<and> undo_steps E rk (rk t) (ledger_store L) (ledger_store L') \<and> block_get (ledger_store L') t = None \<and> same_drift L L')"

definition visit_ok :: "env \<Rightarrow> (block_hash \<Rightarrow> nat) \<Rightarrow> ledger \<Rightarrow> block_hash \<Rightarrow> block \<Rightarrow> block list \<Rightarrow> bool" where
  "visit_ok E rk L h b lst = (\<exists>L' lst'. settles (\<lambda>n. rollback_visit n E (rollback n E) b L lst) (L', lst', False)
     \<and> undo_steps E rk (rk h) (ledger_store L) (ledger_store L') \<and> block_get (ledger_store L') h = None
     \<and> same_drift L (block_count_add (- 1) L'))"

text \<open>An uncemented head of an account.\<close>

definition free_head :: "env \<Rightarrow> block_hash \<Rightarrow> (block_hash \<Rightarrow> nat) \<Rightarrow> store \<Rightarrow> block_hash \<Rightarrow> block \<Rightarrow> account_info \<Rightarrow> bool" where
  "free_head E g rk s h b i = (undo_inv E g rk s \<and> block_get s h = Some b \<and> account_get s (own_account b) = Some i
     \<and> head i = h \<and> \<not> cemented s b)"

lemma free_head_at: "free_head E g rk s h b i \<Longrightarrow> at_head E g rk s h b i"
  by (auto simp: free_head_def at_head_def undo_inv_def cement_ok_def)

lemma head_of_uncemented:
  assumes inv: "undo_inv E g rk s" and t: "block_get s t = Some bt" "\<not> cemented s bt"
  obtains i b c where "account_get s (own_account bt) = Some i" "free_head E g rk s (head i) b i" "rk t \<le> rk (head i)"
    "own_account b = own_account bt" "confirmation_height_get s (own_account bt) = Some c" "conf_height c < own_height bt"
proof -
  note hist = undo_invD(1) [OF inv] and st = undo_invD(2) [OF inv]
  obtain i where i: "account_get s (own_account bt) = Some i" using history_okD(2) [OF hist t(1)] by blast
  obtain b where b: "block_get s (head i) = Some b" "own_account b = own_account bt" "own_height b = block_count i"
    using history_ok_head [OF hist i] by (auto simp: head_ok_def)
  obtain c where c: "confirmation_height_get s (own_account bt) = Some c"
    using store_ok_account [OF st i] by (auto simp: account_ok_def)
  have lt: "conf_height c < own_height bt" using t(2) c by (simp add: cemented_def)
  have le: "rk t \<le> rk (head i)" "unat (own_height bt) \<le> unat (block_count i)" using head_latest [OF hist t(1) i] by simp_all
  then have "\<not> cemented s b" using lt b c by (simp add: cemented_def word_le_nat_alt word_less_nat_alt)
  with inv i b c lt le show ?thesis by (intro that [of i b c]) (simp_all add: free_head_def)
qed

subsection \<open>The loop of rollback\<close>

lemma round_settles:
  assumes v: "settles (\<lambda>n. rollback_visit n E (rollback n E) b L (lst @ [b])) (L', lst', False)"
    and "confirmation_height_get (ledger_store L) a = Some c" "conf_height c < hgt"
    and "account_get (ledger_store L) a = Some i" "block_get (ledger_store L) (head i) = Some b"
  shows "settles (\<lambda>n. rollback_round n E (rollback n E) a hgt (L, lst, info, False)) (block_count_add (- 1) L', lst', i, False)"
proof -
  have "rollback_round n E (rollback n E) a hgt (L, lst, info, False) =
      rollback_visit n E (rollback n E) b L (lst @ [b]) \<bind>
        (\<lambda>(L, lst, error). Some (if error then L else block_count_add (- 1) L, lst, i, error))" for n
    using assms(2-) by (simp add: rollback_round_def)
  then show ?thesis by (intro settles_cong [OF settles_map [OF v]]) simp_all
qed

lemma ledger_store_block_count_add [simp]: "ledger_store (block_count_add n L) = ledger_store L"
  by (simp add: block_count_add_def)

lemma loop_settles:
  assumes inv: "undo_inv E g rk (ledger_store L)" and t: "block_get (ledger_store L) t = Some bt" "\<not> cemented (ledger_store L) bt"
    and V: "\<forall>L1 h b i lst. undo_steps E rk (rk t) (ledger_store L) (ledger_store L1) \<longrightarrow> rk t \<le> rk h
      \<longrightarrow> free_head E g rk (ledger_store L1) h b i \<longrightarrow> visit_ok E rk L1 h b lst"
    and st: "undo_steps E rk (rk t) (ledger_store L) (ledger_store L1)" "same_drift L L1"
  shows "\<exists>L' lst' info'. settles2 (\<lambda>m n. while_fuel m (\<lambda>(L, lst, info, error). \<not> error \<and> block_exists (ledger_store L) t)
      (rollback_round n E (rollback n E) (own_account bt) (own_height bt)) (L1, lsta, infoa, False)) (L', lst', info', False)
    \<and> undo_steps E rk (rk t) (ledger_store L) (ledger_store L') \<and> block_get (ledger_store L') t = None \<and> same_drift L L'"
  using st
proof (induction "total_blocks (ledger_store L1)" arbitrary: L1 lsta infoa rule: less_induct)
  case less
  let ?s = "ledger_store L1"
  let ?c = "\<lambda>(L, lst, info, error). \<not> error \<and> block_exists (ledger_store L) t"
  let ?r = "\<lambda>n. rollback_round n E (rollback n E) (own_account bt) (own_height bt)"
  show ?case
  proof (cases "block_get ?s t")
    case None
    then have "\<not> ?c (L1, lsta, infoa, False)" by (simp add: block_exists_iff)
    with None less.prems show ?thesis using while_done [of ?c "(L1, lsta, infoa, False)" ?r] by blast
  next
    case (Some bt')
    have inv1: "undo_inv E g rk ?s" by (rule undo_steps_inv(1) [OF less.prems(1) inv])
    obtain bt0 where "block_get (ledger_store L) t = Some bt0" "same_block bt0 bt'" "cemented ?s bt' = cemented (ledger_store L) bt0"
      using undo_steps_shrink [OF less.prems(1) inv Some] by blast
    then have same: "same_block bt bt'" and nc: "\<not> cemented ?s bt'" using t by auto
    note eq = same_blockD(5,8) [OF same]
    obtain i b c where i: "account_get ?s (own_account bt) = Some i" "free_head E g rk ?s (head i) b i" "rk t \<le> rk (head i)"
        "confirmation_height_get ?s (own_account bt) = Some c" "conf_height c < own_height bt"
      using head_of_uncemented [OF inv1 Some nc] eq by metis
    obtain L2 lst2 where v: "settles (\<lambda>n. rollback_visit n E (rollback n E) b L1 (lsta @ [b])) (L2, lst2, False)"
        "undo_steps E rk (rk (head i)) ?s (ledger_store L2)" "block_get (ledger_store L2) (head i) = None"
        "same_drift L1 (block_count_add (- 1) L2)"
      using V less.prems(1) i(3,2) unfolding visit_ok_def by blast
    have bh: "block_get ?s (head i) = Some b" using i(2) by (simp add: free_head_def)
    have fewer: "total_blocks (ledger_store (block_count_add (- 1) L2)) < total_blocks ?s"
      using undo_steps_fewer [OF v(2) inv1 _ v(3)] bh by simp
    have steps: "undo_steps E rk (rk t) (ledger_store L) (ledger_store (block_count_add (- 1) L2))"
      using undo_steps_trans [OF undo_steps_mono [OF v(2) i(3)] less.prems(1)] by simp
    have round: "settles (\<lambda>n. ?r n (L1, lsta, infoa, False)) (block_count_add (- 1) L2, lst2, i, False)"
      by (rule round_settles [OF v(1) i(4,5,1) bh])
    have go: "?c (L1, lsta, infoa, False)" using Some by (simp add: block_exists_iff)
    show ?thesis
      using less.hyps [OF fewer steps same_drift_trans [OF less.prems(2) v(4)], of lst2 i] while_step [of ?c "(L1, lsta, infoa, False)" ?r, OF go round] by blast
  qed
qed

lemma call_settles:
  assumes inv: "undo_inv E g rk (ledger_store L)" and t: "block_get (ledger_store L) t = Some bt" "\<not> cemented (ledger_store L) bt"
    and V: "\<forall>L1 h b i lst. undo_steps E rk (rk t) (ledger_store L) (ledger_store L1) \<longrightarrow> rk t \<le> rk h
      \<longrightarrow> free_head E g rk (ledger_store L1) h b i \<longrightarrow> visit_ok E rk L1 h b lst"
  shows "call_ok E rk L t lst"
proof -
  let ?W = "\<lambda>m n. while_fuel m (\<lambda>(L, lst, info, error). \<not> error \<and> block_exists (ledger_store L) t)
      (rollback_round n E (rollback n E) (own_account bt) (own_height bt)) (L, lst, default_account_info, False)"
  obtain L' lst' info' where w: "settles2 ?W (L', lst', info', False)"
      "undo_steps E rk (rk t) (ledger_store L) (ledger_store L')" "block_get (ledger_store L') t = None" "same_drift L L'"
    using loop_settles [OF inv t V undo_refl same_drift_refl, where lsta = lst and infoa = default_account_info] by blast
  have "rollback (Suc n) E L t lst = ?W n n \<bind> (\<lambda>(L, lst, info, error). Some (L, lst, error))" for n
    using stored_queries(1,3) [OF store_okD(1) [OF undo_invD(2) [OF inv]] t(1)] by (simp add: ledger_account_def)
  then have "settles (\<lambda>n. rollback (Suc n) E L t lst) (L', lst', False)"
    by (intro settles_cong [OF settles_map [OF settles2_diag [OF w(1)]]]) simp_all
  then have "settles (\<lambda>n. rollback n E L t lst) (L', lst', False)"
    by (rule settles_Suc [where f = "\<lambda>n. rollback n E L t lst"])
  then show ?thesis using w(2-) unfolding call_ok_def by blast
qed

subsection \<open>Rolling back the account that collected a send\<close>

text \<open>
  A send that is no longer pending was collected; the head of the collecting account has a higher rank and
  is not cemented, so it can be rolled back.
\<close>

lemma collector_head:
  assumes fh: "free_head E g rk s h b i" and ch: "stored_change E s h b = Pending_add k p" and np: "pending_get s k = None"
  obtains j c where "account_get s (fst k) = Some j" "block_get s (head j) = Some c" "\<not> cemented s c" "rk h < rk (head j)"
proof -
  have inv: "undo_inv E g rk s" and b: "block_get s h = Some b" "\<not> cemented s b" using fh by (simp_all add: free_head_def)
  note hist = undo_invD(1) [OF inv]
  have "snd k = h" using ch by (auto simp: stored_change_def block_change_def Let_def split: block_hashables.splits if_splits)
  then have "collected E g s k" using np history_pending [OF hist, of k p] b ch by auto
  then obtain h' c where c: "block_get s h' = Some c" "h' \<noteq> g" "stored_change E s h' c = Pending_del k"
    by (auto simp: collected_def)
  have own: "own_account c = fst k"
    using c(3) by (auto simp: stored_change_def block_change_def Let_def split: block_hashables.splits if_splits)
  have "\<not> cemented s c" using undo_invD(3) [OF inv] c b \<open>snd k = h\<close> unfolding cement_ok_def by metis
  then obtain j b' where "account_get s (own_account c) = Some j" "free_head E g rk s (head j) b' j" "rk h' \<le> rk (head j)"
    using head_of_uncemented [OF inv c(1)] by metis
  moreover have "rk h < rk h'" using history_okD(8) [OF hist c(1)] c(2,3) \<open>snd k = h\<close> by (simp add: rank_ok_def)
  ultimately show ?thesis using that own by (auto simp: free_head_def)
qed

text \<open>The block stays the head of its account while accounts of higher rank are rolled back.\<close>

lemma free_head_kept:
  assumes fh: "free_head E g rk s h b i" and st: "undo_steps E rk (Suc (rk h)) s s'"
  shows "free_head E g rk s' h b i" "stored_change E s' h b = stored_change E s h b" "prior_balance s' b = prior_balance s b"
proof -
  have inv: "undo_inv E g rk s" and b: "block_get s h = Some b" "\<not> cemented s b" "account_get s (own_account b) = Some i" "head i = h"
    using fh by (simp_all add: free_head_def)
  have k: "block_get s' h = Some b" "account_get s' (own_account b) = Some i" "prior_balance s' b = prior_balance s b"
    using undo_steps_head(1-3) [OF st inv b(3)] b by simp_all
  obtain c where "block_get s h = Some c" "cemented s' b = cemented s c" "stored_change E s' h b = stored_change E s h c"
    using undo_steps_shrink [OF st inv k(1)] by blast
  with b have c: "\<not> cemented s' b" "stored_change E s' h b = stored_change E s h b" by auto
  with k b undo_steps_inv(1) [OF st inv] show "free_head E g rk s' h b i" by (simp add: free_head_def)
  show "stored_change E s' h b = stored_change E s h b" "prior_balance s' b = prior_balance s b" using c k by simp_all
qed

lemma until_settles:
  assumes found: "\<And>L. store_ok (ledger_store L) \<Longrightarrow> found L \<longleftrightarrow> pending_get (ledger_store L) k \<noteq> None"
    and fh: "free_head E g rk (ledger_store L) h b i" and ch: "stored_change E (ledger_store L) h b = Pending_add k p"
    and R: "\<forall>L1 t bt lst. undo_steps E rk (Suc (rk h)) (ledger_store L) (ledger_store L1) \<longrightarrow> rk h < rk t
      \<longrightarrow> undo_inv E g rk (ledger_store L1) \<longrightarrow> block_get (ledger_store L1) t = Some bt
      \<longrightarrow> \<not> cemented (ledger_store L1) bt \<longrightarrow> call_ok E rk L1 t lst"
  shows "\<exists>L' lst'. settles (\<lambda>n. rollback_until n (rollback n E) found (fst k) (L, lst, False)) (L', lst', False)
    \<and> undo_steps E rk (Suc (rk h)) (ledger_store L) (ledger_store L') \<and> pending_get (ledger_store L') k \<noteq> None \<and> same_drift L L'"
proof -
  let ?c = "\<lambda>(L, lst, error). \<not> error \<and> \<not> found L"
  let ?r = "\<lambda>n (L, lst, error). rollback n E L (latest L (fst k)) lst"
  have loop: "\<exists>L' lst'. settles2 (\<lambda>m n. while_fuel m ?c (?r n) (L1, lsta, False)) (L', lst', False)
      \<and> undo_steps E rk (Suc (rk h)) (ledger_store L) (ledger_store L') \<and> pending_get (ledger_store L') k \<noteq> None \<and> same_drift L L'"
    if "undo_steps E rk (Suc (rk h)) (ledger_store L) (ledger_store L1)" "same_drift L L1" for L1 lsta
    using that
  proof (induction "total_blocks (ledger_store L1)" arbitrary: L1 lsta rule: less_induct)
    case less
    let ?s = "ledger_store L1"
    have fh1: "free_head E g rk ?s h b i" and ch1: "stored_change E ?s h b = Pending_add k p"
      using free_head_kept [OF fh less.prems(1)] ch by simp_all
    then have inv1: "undo_inv E g rk ?s" by (simp add: free_head_def)
    have f: "found L1 \<longleftrightarrow> pending_get ?s k \<noteq> None" by (rule found [OF undo_invD(2) [OF inv1]])
    show ?case
    proof (cases "pending_get ?s k")
      case (Some q)
      then have "\<not> ?c (L1, lsta, False)" using f by simp
      with Some less.prems show ?thesis using while_done [of ?c "(L1, lsta, False)" ?r] by blast
    next
      case None
      obtain j c where j: "account_get ?s (fst k) = Some j" "block_get ?s (head j) = Some c" "\<not> cemented ?s c" "rk h < rk (head j)"
        by (rule collector_head [OF fh1 ch1 None])
      obtain L2 lst2 where v: "settles (\<lambda>n. rollback n E L1 (head j) lsta) (L2, lst2, False)"
          "undo_steps E rk (rk (head j)) ?s (ledger_store L2)" "block_get (ledger_store L2) (head j) = None" "same_drift L1 L2"
        using R less.prems(1) j(4) inv1 j(2,3) unfolding call_ok_def by blast
      have fewer: "total_blocks (ledger_store L2) < total_blocks ?s"
        using undo_steps_fewer [OF v(2) inv1 _ v(3)] j(2) by simp
      have steps: "undo_steps E rk (Suc (rk h)) (ledger_store L) (ledger_store L2)"
        using undo_steps_trans [OF undo_steps_mono [OF v(2)] less.prems(1)] j(4) by simp
      have step: "settles (\<lambda>n. ?r n (L1, lsta, False)) (L2, lst2, False)"
        using v(1) j(1) by (simp add: latest_def)
      have go: "?c (L1, lsta, False)" using None f by simp
      show ?thesis
        using less.hyps [OF fewer steps same_drift_trans [OF less.prems(2) v(4)], of lst2] while_step [of ?c "(L1, lsta, False)" ?r, OF go step] by blast
    qed
  qed
  obtain L' lst' where w: "settles2 (\<lambda>m n. while_fuel m ?c (?r n) (L, lst, False)) (L', lst', False)"
      "undo_steps E rk (Suc (rk h)) (ledger_store L) (ledger_store L')" "pending_get (ledger_store L') k \<noteq> None" "same_drift L L'"
    using loop [OF undo_refl same_drift_refl, of lst] by blast
  have "settles (\<lambda>n. rollback_until n (rollback n E) found (fst k) (L, lst, False)) (L', lst', False)"
    by (rule settles_cong [OF settles2_diag [OF w(1)]]) (simp add: rollback_until_def)
  with w(2-) show ?thesis by blast
qed

subsection \<open>Visits\<close>

lemma visit_step:
  assumes fh: "free_head E g rk s h b i" and un: "undone E s h b i s'"
  shows "undoing E g rk s h b i s'" "undo_steps E rk (rk h) s s'" "block_get s' h = None"
proof -
  have f: "undo_inv E g rk s" "\<not> cemented s b" using fh by (simp_all add: free_head_def)
  show u: "undoing E g rk s h b i s'" by (rule undoingI [OF f(1) un f(2)])
  show "undo_steps E rk (rk h) s s'" using undo_step [OF undo_refl un f(2)] by simp
  show "block_get s' h = None" using undoing_get [OF u, of h] by simp
qed

lemma visit_direct:
  assumes fh: "free_head E g rk (ledger_store L) h b i"
    and run: "\<And>n. rollback_visit n E (rollback n E) b L lst = Some (L', lst, False)"
    and un: "undone E (ledger_store L) h b i (ledger_store L')" and ca: "cache_undone L b i L'"
  shows "visit_ok E rk L h b lst"
  using visit_step [OF fh un] cache_undone_drift [OF _ ca] run unfolding visit_ok_def settles_def by blast

lemma send_settles:
  assumes fh: "free_head E g rk (ledger_store L) h b i" and hb: "hashables b = Send sh"
    and R: "\<forall>L1 t bt lst. undo_steps E rk (Suc (rk h)) (ledger_store L) (ledger_store L1) \<longrightarrow> rk h < rk t
      \<longrightarrow> undo_inv E g rk (ledger_store L1) \<longrightarrow> block_get (ledger_store L1) t = Some bt
      \<longrightarrow> \<not> cemented (ledger_store L1) bt \<longrightarrow> call_ok E rk L1 t lst"
  shows "visit_ok E rk L h b lst"
proof -
  let ?k = "(send_destination sh, h)" let ?f = "\<lambda>L. pending_get (ledger_store L) ?k \<noteq> None"
  obtain p where ch: "stored_change E (ledger_store L) h b = Pending_add ?k p"
    using hb by (simp add: stored_change_def block_change_def)
  obtain L1 lst1 where u: "settles (\<lambda>n. rollback_until n (rollback n E) ?f (send_destination sh) (L, lst, False)) (L1, lst1, False)"
      "undo_steps E rk (Suc (rk h)) (ledger_store L) (ledger_store L1)" "pending_get (ledger_store L1) ?k \<noteq> None" "same_drift L L1"
    using until_settles [OF _ fh ch R, of ?f lst] by auto
  have fh1: "free_head E g rk (ledger_store L1) h b i" by (rule free_head_kept(1) [OF fh u(2)])
  obtain m where m: "\<forall>n \<ge> m. rollback_until n (rollback n E) ?f (send_destination sh) (L, lst, False) = Some (L1, lst1, False)"
    using u(1) by (auto simp: settles_def)
  have vis: "\<exists>L'. rollback_send n E (rollback n E) b sh L lst = Some (L', lst1, False)
      \<and> undone E (ledger_store L1) h b i (ledger_store L') \<and> cache_undone L1 b i L'" if "m \<le> n" for n
    by (rule rollback_send_visited [OF free_head_at [OF fh1] hb _ u(3)]) (use m that in blast)
  have same: "rollback_send n E (rollback n E) b sh L lst = rollback_send m E (rollback m E) b sh L lst" if "m \<le> n" for n
    unfolding rollback_send_def using m that at_headD(7) [OF free_head_at [OF fh]] by simp
  obtain L' where v: "rollback_send m E (rollback m E) b sh L lst = Some (L', lst1, False)"
      "undone E (ledger_store L1) h b i (ledger_store L')" "cache_undone L1 b i L'"
    using vis [OF order_refl] by blast
  note w = visit_step [OF fh1 v(2)]
  have "settles (\<lambda>n. rollback_visit n E (rollback n E) b L lst) (L', lst1, False)"
    unfolding settles_def using same v(1) hb by (intro exI [of _ m]) (simp add: rollback_visit_def)
  moreover have "undo_steps E rk (rk h) (ledger_store L) (ledger_store L')"
    using undo_steps_trans [OF w(2) undo_steps_mono [OF u(2)]] by simp
  moreover have "same_drift L (block_count_add (- 1) L')"
    using same_drift_trans [OF u(4) cache_undone_drift [OF w(1) v(3)]] .
  ultimately show ?thesis using w(3) unfolding visit_ok_def by blast
qed

text \<open>
  The visitor of state blocks, from the ledger \<open>L1\<close> with the weights already moved, over the ledger \<open>L2\<close> the
  nested rollbacks leave and the ledger \<open>L3\<close> with the pending entry rewritten.
\<close>

lemma state_finish:
  assumes fh: "free_head E g rk (ledger_store L) h b i" and hb: "hashables b = State sh"
    and w: "rollback_state_weights E sh (prior_balance (ledger_store L) b) L = Some (rep, L1)"
      "ledger_balance L (state_previous sh) = Some (prior_balance (ledger_store L) b)" "ledger_store L1 = ledger_store L"
      "\<And>r. representation_get (rep_weights (cache L1)) r = representation_get (rep_weights (cache L)) r
        + state_weight_change (ledger_store L) b i rep r"
      "cache_block_count (cache L1) = cache_block_count (cache L)" "cache_account_count (cache L1) = cache_account_count (cache L)"
      "cemented_count (cache L1) = cemented_count (cache L)" "cache_unchecked_count (cache L1) = cache_unchecked_count (cache L)"
      "has_predecessor b \<Longrightarrow> \<exists>rh rb. representative_calculated (crypto_fns E) (ledger_store L) (state_previous sh) = Some rh
        \<and> block_get (ledger_store L) rh = Some rb \<and> rep = block_representative rb"
    and st: "undo_steps E rk (Suc (rk h)) (ledger_store L) (ledger_store L2)" "same_drift L1 L2"
    and p: "settles (\<lambda>n. rollback_state_pending n E (rollback n E) h sh (prior_balance (ledger_store L) b) False L1 lst) (L3, lst3)"
      "ledger_store L3 = (ledger_store L2)\<lparr>pending := P\<rparr>" "cache L3 = cache L2"
      "pending_undone E (ledger_store L2) h b ((ledger_store L2)\<lparr>pending := P\<rparr>)"
  shows "visit_ok E rk L h b lst"
proof -
  have hd: "at_head E g rk (ledger_store L) h b i" by (rule free_head_at [OF fh])
  note d = at_headD [OF hd]
  have fh2: "free_head E g rk (ledger_store L2) h b i" and pb: "prior_balance (ledger_store L2) b = prior_balance (ledger_store L) b"
    using free_head_kept [OF fh st(1)] by simp_all
  have inv: "undo_inv E g rk (ledger_store L)" using fh by (simp add: free_head_def)
  have "\<exists>rh rb. representative_calculated (crypto_fns E) (ledger_store L2) (state_previous sh) = Some rh
      \<and> block_get (ledger_store L2) rh = Some rb \<and> rep = block_representative rb" if hp: "has_predecessor b"
    using undo_steps_head(4) [OF st(1) inv d(5), of b] w(9) [OF hp] hp d(4,6) hb by (auto simp: block_previous_def)
  then obtain L' where t: "state_tail E h b sh rep (prior_balance (ledger_store L2) b) i L3 = Some L'"
      "undone E (ledger_store L2) h b i (ledger_store L')"
      "rep_weights (cache L') = rep_weights (cache L3)" "cache_block_count (cache L') = cache_block_count (cache L3)"
      "cache_account_count (cache L') = cache_account_count (cache L3) - (if has_predecessor b then 0 else 1)"
      "cemented_count (cache L') = cemented_count (cache L3)" "cache_unchecked_count (cache L') = cache_unchecked_count (cache L3)"
      "has_predecessor b \<longrightarrow> (\<exists>j. account_get (ledger_store L') (own_account b) = Some j \<and> representative j = rep)"
    using state_tail_ok [OF free_head_at [OF fh2] hb p(2) _ p(4)] by blast
  note v = visit_step [OF fh2 t(2)]
  have acct: "account_get (ledger_store L1) (state_account sh) = Some i"
    using d(5) w(3) history_okD(9) [OF d(1,4)] hb by (simp add: own_account_def block_account_def type_of_def)
  obtain m where "\<forall>n \<ge> m. rollback_state_pending n E (rollback n E) h sh (prior_balance (ledger_store L) b) False L1 lst = Some (L3, lst3)"
    using p(1) by (auto simp: settles_def)
  then have "rollback_state n E (rollback n E) b sh L lst = Some (L', lst3, False)" if "m \<le> n" for n
    using rollback_state_parts [OF w(2,1) acct] t(1) pb d(7) that by simp
  then have "settles (\<lambda>n. rollback_visit n E (rollback n E) b L lst) (L', lst3, False)"
    unfolding settles_def using hb by (intro exI [of _ m]) (simp add: rollback_visit_def)
  moreover have "undo_steps E rk (rk h) (ledger_store L) (ledger_store L')"
    using undo_steps_trans [OF v(2) undo_steps_mono [OF st(1)]] by simp
  moreover have "same_drift L (block_count_add (- 1) L')"
    by (rule state_visit_drift [OF w(4-8,3) st(2) pb v(1)]) (use t p(3) in simp_all)
  ultimately show ?thesis using v(3) unfolding visit_ok_def by blast
qed

lemma state_settles:
  assumes fh: "free_head E g rk (ledger_store L) h b i" and hb: "hashables b = State sh"
    and R: "\<forall>L1 t bt lst. undo_steps E rk (Suc (rk h)) (ledger_store L) (ledger_store L1) \<longrightarrow> rk h < rk t
      \<longrightarrow> undo_inv E g rk (ledger_store L1) \<longrightarrow> block_get (ledger_store L1) t = Some bt
      \<longrightarrow> \<not> cemented (ledger_store L1) bt \<longrightarrow> call_ok E rk L1 t lst"
  shows "visit_ok E rk L h b lst"
proof -
  let ?s = "ledger_store L" let ?bal = "prior_balance ?s b"
  have hd: "at_head E g rk ?s h b i" by (rule free_head_at [OF fh])
  note d = at_headD [OF hd]
  obtain rep L1 where w: "rollback_state_weights E sh ?bal L = Some (rep, L1)"
      "ledger_balance L (state_previous sh) = Some ?bal" "ledger_store L1 = ?s"
      "\<And>r. representation_get (rep_weights (cache L1)) r = representation_get (rep_weights (cache L)) r
        + state_weight_change ?s b i rep r"
      "cache_block_count (cache L1) = cache_block_count (cache L)" "cache_account_count (cache L1) = cache_account_count (cache L)"
      "cemented_count (cache L1) = cemented_count (cache L)" "cache_unchecked_count (cache L1) = cache_unchecked_count (cache L)"
      "has_predecessor b \<Longrightarrow> \<exists>rh rb. representative_calculated (crypto_fns E) ?s (state_previous sh) = Some rh
        \<and> block_get ?s rh = Some rb \<and> rep = block_representative rb"
    by (rule rollback_state_weights_ok [OF hd hb]) blast
  have ob: "own_balance b = state_balance sh" using hb by (simp add: own_balance_def)
  have acct: "state_account sh = own_account b"
    using history_okD(9) [OF d(1,4)] hb by (simp add: own_account_def block_account_def type_of_def)
  consider "state_balance sh < ?bal"
    | "\<not> state_balance sh < ?bal" "state_link sh \<noteq> 0 \<and> \<not> ledger_is_epoch_link E (state_link sh)"
    | "\<not> state_balance sh < ?bal" "\<not> (state_link sh \<noteq> 0 \<and> \<not> ledger_is_epoch_link E (state_link sh))" by blast
  then show ?thesis
  proof cases
    case 1
    let ?k = "(state_link sh, h)" let ?f = "\<lambda>L. pending_exists (ledger_store L) ?k"
    obtain p where ch: "stored_change E ?s h b = Pending_add ?k p"
      using hb 1 ob by (simp add: stored_change_def block_change_def)
    have found: "?f L \<longleftrightarrow> pending_get (ledger_store L) ?k \<noteq> None" if "store_ok (ledger_store L)" for L
      by (rule pending_exists_iff [OF store_okD(3) [OF that]])
    obtain L2 lst2 where u: "settles (\<lambda>n. rollback_until n (rollback n E) ?f (state_link sh) (L1, lst, False)) (L2, lst2, False)"
        "undo_steps E rk (Suc (rk h)) ?s (ledger_store L2)" "pending_get (ledger_store L2) ?k \<noteq> None" "same_drift L1 L2"
      using until_settles [where L = L1 and found = ?f and k = ?k and lst = lst, OF found, unfolded w(3), OF _ fh ch R] by auto
    have ch2: "stored_change E (ledger_store L2) h b = Pending_add ?k p" using free_head_kept(2) [OF fh u(2)] ch by simp
    have fh2: "free_head E g rk (ledger_store L2) h b i" by (rule free_head_kept(1) [OF fh u(2)])
    have "pending_get (ledger_store L2) ?k = Some p"
      using u(3) history_pending [OF at_headD(1) [OF free_head_at [OF fh2]], of ?k] at_headD(4) [OF free_head_at [OF fh2]] ch2 by auto
    then have pu: "pending_undone E (ledger_store L2) h b ((ledger_store L2)\<lparr>pending := table_drop_key (pending (ledger_store L2)) ?k\<rparr>)"
        and ex: "table_get (pending (ledger_store L2)) ?k \<noteq> None"
      using ch2 by (simp_all add: pending_undone_def pending_get_def)
    let ?L3 = "stats_inc Stat_rollback Detail_send (L2\<lparr>ledger_store := (ledger_store L2)\<lparr>pending := table_drop_key (pending (ledger_store L2)) ?k\<rparr>\<rparr>)"
    have "settles (\<lambda>n. rollback_state_pending n E (rollback n E) h sh ?bal False L1 lst) (?L3, lst2)"
      by (rule settles_cong [OF settles_map [OF u(1), of "\<lambda>(L, lst, error). do {
            L \<leftarrow> on_store (\<lambda>s. pending_del s ?k) L; Some (stats_inc Stat_rollback Detail_send L, lst) }"]])
         (use 1 ex in \<open>simp_all add: rollback_state_pending_def on_store_def pending_del_def table_del_def Let_def\<close>)
    from state_finish [OF fh hb w u(2,4) this _ _ pu] show ?thesis by (simp add: stats_inc_def)
  next
    case 2
    let ?k = "(own_account b, state_link sh)"
    have ch: "stored_change E ?s h b = Pending_del ?k"
      using hb 2 ob by (auto simp: stored_change_def block_change_def)
    obtain src p where src: "block_get ?s (snd ?k) = Some src" "stored_change E ?s (snd ?k) src = Pending_add ?k p"
        "store_block_account ?s (snd ?k) = Some (pending_source p)" "block_version ?s (snd ?k) = Some (pending_epoch p)"
        "own_balance b = ?bal + pending_amount p"
      by (rule at_head_source [OF hd ch])
    have entry: "\<lparr>pending_source = pending_source p, pending_amount = state_balance sh - ?bal, pending_epoch = pending_epoch p\<rparr> = p"
      using src(5) ob by simp
    have pu: "pending_undone E ?s h b (?s\<lparr>pending := table_put (pending ?s) ?k p\<rparr>)"
      using ch src(1,2) by (auto simp: pending_undone_def)
    let ?L3 = "stats_inc Stat_rollback Detail_receive (L1\<lparr>ledger_store := ?s\<lparr>pending := table_put (pending ?s) ?k p\<rparr>\<rparr>)"
    have "rollback_state_pending n E (rollback n E) h sh ?bal False L1 lst = Some (?L3, lst)" for n
      using 2 src(3,4) w(3) acct entry
      by (simp add: rollback_state_pending_def ledger_account_def in_store_def pending_put_def Let_def)
    then have "settles (\<lambda>n. rollback_state_pending n E (rollback n E) h sh ?bal False L1 lst) (?L3, lst)" by (simp add: settles_def)
    from state_finish [OF fh hb w _ same_drift_refl this] pu w(3) show ?thesis by (simp add: stats_inc_def undo_refl)
  next
    case 3
    have ch: "stored_change E ?s h b = Pending_none"
      using hb 3 ob by (auto simp: stored_change_def block_change_def)
    have pu: "pending_undone E ?s h b (?s\<lparr>pending := pending ?s\<rparr>)" using ch by (simp add: pending_undone_def)
    have "settles (\<lambda>n. rollback_state_pending n E (rollback n E) h sh ?bal False L1 lst) (L1, lst)"
      using 3 by (auto simp: settles_def rollback_state_pending_def)
    from state_finish [where P = "pending ?s", OF fh hb w _ same_drift_refl this] pu w(3) show ?thesis by (simp add: undo_refl)
  qed
qed

lemma visit_settles:
  assumes "free_head E g rk (ledger_store L) h b i" and "\<And>h. block_get (ledger_store L) h \<noteq> None \<Longrightarrow> rk h \<le> B"
  shows "visit_ok E rk L h b lst"
  using assms
proof (induction "(total_blocks (ledger_store L), B - rk h)" arbitrary: L h b i lst
    rule: wf_induct_rule [OF wf_lex_prod [OF wf_less_than wf_less_than]])
  case 1
  let ?s = "ledger_store L"
  note fh = 1(2) and bound = 1(3)
  have inv: "undo_inv E g rk ?s" and b: "block_get ?s h = Some b" using fh by (simp_all add: free_head_def)
  have V: "visit_ok E rk L1 h' b' lst'" if st: "undo_steps E rk (Suc (rk h)) ?s (ledger_store L1)" and r: "rk h < rk h'"
      and f: "free_head E g rk (ledger_store L1) h' b' i'" for L1 h' b' i' lst'
  proof -
    have b1: "rk x \<le> B" if x: "block_get (ledger_store L1) x \<noteq> None" for x
      using x undo_steps_shrink [OF st inv, of x] bound [of x] by fastforce
    have "total_blocks (ledger_store L1) \<le> total_blocks ?s" by (rule undo_steps_inv(2) [OF st inv])
    moreover have "B - rk h' < B - rk h"
      using r b1 [of h'] f by (simp add: free_head_def)
    ultimately have "((total_blocks (ledger_store L1), B - rk h'), (total_blocks ?s, B - rk h)) \<in> less_than <*lex*> less_than"
      by (auto simp: le_less)
    then show ?thesis using 1(1) f b1 by blast
  qed
  have R: "call_ok E rk L1 t lst'" if st: "undo_steps E rk (Suc (rk h)) ?s (ledger_store L1)" and r: "rk h < rk t"
      and t: "undo_inv E g rk (ledger_store L1)" "block_get (ledger_store L1) t = Some bt" "\<not> cemented (ledger_store L1) bt"
    for L1 t bt lst'
  proof (rule call_settles [OF t], intro allI impI)
    fix L2 :: ledger and h' b' i' lst''
    assume a: "undo_steps E rk (rk t) (ledger_store L1) (ledger_store L2)" "rk t \<le> rk h'" "free_head E g rk (ledger_store L2) h' b' i'"
    have "undo_steps E rk (Suc (rk h)) ?s (ledger_store L2)"
      using undo_steps_trans [OF undo_steps_mono [OF a(1)] st] r by simp
    then show "visit_ok E rk L2 h' b' lst''" using V a(2,3) r by simp
  qed
  note hd = free_head_at [OF fh]
  show ?case
  proof (cases "hashables b")
    case (Send sh)
    then show ?thesis using send_settles [OF fh] R by blast
  next
    case (Receive rh)
    then show ?thesis using rollback_receive_visited [OF hd Receive] visit_direct [OF fh] by (fastforce simp: rollback_visit_def)
  next
    case (Open oh)
    then show ?thesis using rollback_open_visited [OF hd Open] visit_direct [OF fh] by (fastforce simp: rollback_visit_def)
  next
    case (Change c)
    then show ?thesis using rollback_change_visited [OF hd Change] visit_direct [OF fh] by (fastforce simp: rollback_visit_def)
  next
    case (State sh)
    then show ?thesis using state_settles [OF fh] R by blast
  qed
qed

text \<open>Rolling back an uncemented block returns without error, whatever the blocks that depend on it.\<close>

lemma rollback_settles:
  assumes inv: "undo_inv E g rk (ledger_store L)" and t: "block_get (ledger_store L) t = Some bt" "\<not> cemented (ledger_store L) bt"
  shows "call_ok E rk L t lst"
proof (rule call_settles [OF inv t], intro allI impI)
  fix L1 :: ledger and h b i lst
  assume a: "undo_steps E rk (rk t) (ledger_store L) (ledger_store L1)" "rk t \<le> rk h" "free_head E g rk (ledger_store L1) h b i"
  have "rk x \<le> Max (rk ` {h. block_get (ledger_store L1) h \<noteq> None})" if "block_get (ledger_store L1) x \<noteq> None" for x
    using that finite_blocks [of "ledger_store L1"] by (intro Max_ge) auto
  then show "visit_ok E rk L1 h b lst" by (rule visit_settles [OF a(3)])
qed

text \<open>A cemented block is refused at once.\<close>

lemma rollback_cemented:
  assumes "blocks_ok (ledger_store L)" "block_get (ledger_store L) t = Some bt" "cemented (ledger_store L) bt"
  shows "rollback (Suc (Suc (Suc n))) E L t lst = Some (L, lst, True)"
proof -
  obtain c where "confirmation_height_get (ledger_store L) (own_account bt) = Some c" "\<not> conf_height c < own_height bt"
    using assms(3) by (auto simp: cemented_def split: option.splits)
  then show ?thesis
    using stored_queries(1,3) [OF assms(1,2)] assms(2)
    by (simp add: ledger_account_def rollback_round_def block_exists_iff)
qed

subsection \<open>More fuel changes no result\<close>

definition returns_as :: "'a option \<Rightarrow> 'a option \<Rightarrow> bool" where
  "returns_as x y = (\<forall>r. x = Some r \<longrightarrow> y = Some r)"

lemma returns_as_refl [intro, simp]: "returns_as x x"
  by (simp add: returns_as_def)

lemma returns_as_bind: "returns_as x y \<Longrightarrow> (\<And>r. returns_as (f r) (g r)) \<Longrightarrow> returns_as (x \<bind> f) (y \<bind> g)"
  by (auto simp: returns_as_def bind_eq_Some_conv)

lemma returns_as_if: "returns_as x x' \<Longrightarrow> returns_as y y' \<Longrightarrow> returns_as (if c then x else y) (if c then x' else y')"
  by simp

lemma returns_as_prod: "(\<And>u v. returns_as (f u v) (g u v)) \<Longrightarrow> returns_as (case z of (u, v) \<Rightarrow> f u v) (case z of (u, v) \<Rightarrow> g u v)"
  by (cases z) simp

lemma returns_as_option:
  "returns_as x y \<Longrightarrow> (\<And>v. returns_as (f v) (g v)) \<Longrightarrow> returns_as (case z of None \<Rightarrow> x | Some v \<Rightarrow> f v) (case z of None \<Rightarrow> y | Some v \<Rightarrow> g v)"
  by (cases z) simp_all

lemmas returns_as_rules = returns_as_bind returns_as_if returns_as_prod returns_as_option returns_as_refl

lemma while_mono:
  assumes "\<And>s. returns_as (f s) (f' s)" "n \<le> n'"
  shows "returns_as (while_fuel n c f s) (while_fuel n' c f' s)"
  using assms(2)
proof (induction n arbitrary: n' s)
  case (Suc n)
  then obtain m where [simp]: "n' = Suc m" and le: "n \<le> m" by (cases n') auto
  show ?case using returns_as_bind [OF assms(1) Suc.IH [OF le]] by simp
qed (simp add: returns_as_def)

lemma until_mono:
  assumes "\<And>L t lst. returns_as (rb L t lst) (rb' L t lst)" "n \<le> n'"
  shows "returns_as (rollback_until n rb f d x) (rollback_until n' rb' f d x)"
  unfolding rollback_until_def by (rule while_mono [OF _ assms(2)]) (auto intro: returns_as_rules assms(1))

lemma visit_mono:
  assumes "\<And>L t lst. returns_as (rb L t lst) (rb' L t lst)" "n \<le> n'"
  shows "returns_as (rollback_visit n E rb b L lst) (rollback_visit n' E rb' b L lst)"
  unfolding rollback_visit_def rollback_send_def rollback_state_def rollback_state_pending_def Let_def
  by (cases "hashables b"; simp only: block_hashables.case) (intro returns_as_rules until_mono assms)+

lemma rollback_mono:
  assumes "n \<le> n'"
  shows "returns_as (rollback n E L t lst) (rollback n' E L t lst)"
  using assms
proof (induction n arbitrary: n' L t lst)
  case (Suc n)
  then obtain m where [simp]: "n' = Suc m" and le: "n \<le> m" by (cases n') auto
  have visit: "returns_as (rollback_visit n E (rollback n E) b L lst) (rollback_visit m E (rollback m E) b L lst)" for b L lst
    by (rule visit_mono [OF Suc.IH [OF le] le])
  have round: "returns_as (rollback_round n E (rollback n E) a hgt s) (rollback_round m E (rollback m E) a hgt s)" for a hgt s
    unfolding rollback_round_def Let_def by (intro returns_as_rules visit)
  show ?case by (simp only: \<open>n' = Suc m\<close> rollback.simps Let_def) (intro returns_as_rules while_mono round le)
qed (simp add: returns_as_def)

end
