(* ===== verification/Ledger_Runs.thy ===== *)
theory Ledger_Runs
  imports History_Process Rollback_Correct
begin

text \<open>
  The operations of the ledger keep the history that rollbacks rely on: \<open>process\<close>, whose accepted blocks
  are not cemented yet, \<open>rollback\<close>, and the creation of the genesis ledger. A rollback that returns has
  either refused a cemented block or undone blocks until its target was gone.
\<close>

lemma below_decrement: "x \<le> y - 1" if "x < (y :: u64)"
  using that unat_minus_one [of y] by (cases "y = 0") (simp_all add: word_le_nat_alt word_less_nat_alt)

lemma below_increment: "x < y + 1" if "x \<le> y" "y \<noteq> (- 1 :: u64)"
  using that unatSuc [of y] max_word_wrap [of y]
  by (cases "1 + y = 0") (simp_all add: word_le_nat_alt word_less_nat_alt add.commute)

subsection \<open>Confirmation heights stay within the accounts\<close>

definition confirmed_within :: "store \<Rightarrow> bool" where
  "confirmed_within s = (\<forall>a c. confirmation_height_get s a = Some c
     \<longrightarrow> (\<exists>i. account_get s a = Some i \<and> conf_height c \<le> block_count i))"

lemma undoing_confirmation_other:
  assumes "undoing E g rk s h b i s'" "a \<noteq> own_account b \<or> has_predecessor b"
  shows "confirmation_height_get s' a = confirmation_height_get s a"
  using undoingD(8) [OF assms(1)] assms(2)
  by (auto simp: accounts_undone_def confirmation_height_get_def split: if_splits)

lemma undoing_within:
  assumes u: "undoing E g rk s h b i s'" and w: "confirmed_within s" and nc: "\<not> cemented s b"
  shows "confirmed_within s'"
  unfolding confirmed_within_def
proof (intro allI impI)
  fix a c assume c: "confirmation_height_get s' a = Some c"
  show "\<exists>j. account_get s' a = Some j \<and> conf_height c \<le> block_count j"
  proof (cases "a = own_account b")
    case False
    then show ?thesis
      using w c undoing_account(1) [OF u] undoing_confirmation_other [OF u] by (auto simp: confirmed_within_def)
  next
    case True
    have pred: "has_predecessor b"
      using c True undoingD(8) [OF u] by (auto simp: accounts_undone_def confirmation_height_get_def split: if_splits)
    then obtain j where j: "account_get s' a = Some j" "block_count j = block_count i - 1"
      using undoing_account(3) [OF u] True by (auto simp: prior_info_ok_def)
    moreover have "conf_height c < block_count i"
      using nc True c undoing_confirmation_other [OF u] pred undoing_successor(2) [OF u] by (auto simp: cemented_def)
    ultimately show ?thesis by (simp add: below_decrement)
  qed
qed

lemma undo_steps_within:
  assumes "undo_steps E rk \<rho> s s'" "undo_inv E g rk s" "confirmed_within s"
  shows "confirmed_within s'"
  using assms
proof (induction rule: undo_steps.induct)
  case (undo_step s s1 h b i s2)
  then show ?case
    using undoing_within [OF undoingI [OF undo_steps_inv(1) [OF undo_step(1,6)] undo_step(2,3)]] by simp
qed simp

subsection \<open>Accepted blocks are not cemented\<close>

lemma accepted_confirmation:
  assumes ac: "accepted E g rk s b sb a i ch s'"
  shows "confirmation_height_get s' a' =
    (if a' = a \<and> account_get s a = None then Some \<lparr>conf_height = 0, conf_frontier = 0\<rparr> else confirmation_height_get s a')"
  using acceptedD(4) [OF ac] by (simp add: store_applied_def confirmation_height_get_def)

lemma accepted_count:
  assumes ac: "accepted E g rk s b sb a i ch s'"
  shows "block_count i = entry_value block_count (account_get s a) + 1" "account_get s a = Some j \<Longrightarrow> block_count j \<noteq> - 1"
proof -
  show "block_count i = entry_value block_count (account_get s a) + 1" by (rule effect_okD(9) [OF acceptedD(3) [OF ac]])
  show "block_count j \<noteq> - 1" if "account_get s a = Some j"
    using that acceptedD(6) [OF ac] table_get_SomeD [of "accounts s" a j]
    by (auto simp: extends_ok_def list_all_iff account_get_def)
qed

lemma accepted_old_cemented:
  assumes ac: "accepted E g rk s b sb a i ch s'" and c: "block_get s h = Some c" "same_block c c'"
  shows "cemented s' c' = cemented s c"
proof -
  have "account_get s (own_account c) \<noteq> None" by (rule history_okD(2) [OF acceptedD(1) [OF ac] c(1)])
  then have "confirmation_height_get s' (own_account c) = confirmation_height_get s (own_account c)"
    using accepted_confirmation [OF ac] by auto
  with same_blockD(5,8) [OF c(2)] show ?thesis by (auto simp: cemented_def split: option.split)
qed

lemma accepted_new_uncemented:
  assumes ac: "accepted E g rk s b sb a i ch s'" and w: "confirmed_within s"
  shows "\<not> cemented s' (stored_form sb b)" "confirmed_within s'"
proof -
  have lt: "conf_height c < block_count i" if c: "confirmation_height_get s' a = Some c" for c
  proof (cases "account_get s a")
    case None
    then show ?thesis using c accepted_confirmation [OF ac] accepted_count(1) [OF ac] by auto
  next
    case (Some j)
    then have "conf_height c \<le> block_count j" "block_count i = block_count j + 1"
      using c w accepted_confirmation [OF ac] accepted_count(1) [OF ac] by (fastforce simp: confirmed_within_def)+
    with accepted_count(2) [OF ac Some] show ?thesis by (simp add: below_increment)
  qed
  then show "\<not> cemented s' (stored_form sb b)"
    using accepted_block(1,4) [OF ac] by (auto simp: cemented_def split: option.splits)
  show "confirmed_within s'"
    using lt w accepted_account [OF ac] accepted_confirmation [OF ac]
    by (auto simp: confirmed_within_def split: if_splits intro: less_imp_le)
qed

lemma accepted_cement_ok:
  assumes ac: "accepted E g rk s b sb a i ch s'" and w: "confirmed_within s" and ce: "cement_ok E g s"
  shows "cement_ok E g s'"
proof -
  have "\<exists>c. block_get s' g = Some c \<and> cemented s' c"
    using ce accepted_old [OF ac] accepted_old_cemented [OF ac] unfolding cement_ok_def by metis
  moreover have "cemented s' src'" if x: "block_get s' h = Some c'" "h \<noteq> g" "stored_change E s' h c' = Pending_del k"
      "block_get s' (snd k) = Some src'" "cemented s' c'" for h c' k src'
  proof -
    obtain c where c: "block_get s h = Some c" "same_block c c'"
      using accepted_cases [OF ac x(1)] accepted_new_uncemented(1) [OF ac w] x(5) by blast
    then have ch: "stored_change E s h c = Pending_del k" "cemented s c"
      using x accepted_old_change(1) [OF ac c] accepted_old_cemented [OF ac c] by simp_all
    obtain src where src: "block_get s (snd k) = Some src"
      using history_source [OF acceptedD(1) [OF ac] c(1) x(2) ch(1)] by blast
    then obtain src2 where "block_get s' (snd k) = Some src2" "same_block src src2" using accepted_old [OF ac] by blast
    then have "same_block src src'" using x(4) by simp
    moreover have "cemented s src" using ce c(1) x(2) ch src unfolding cement_ok_def by metis
    ultimately show ?thesis using accepted_old_cemented [OF ac src] by simp
  qed
  ultimately show ?thesis unfolding cement_ok_def by blast
qed

subsection \<open>Ledgers with a history\<close>

definition ledger_history :: "env \<Rightarrow> block_hash \<Rightarrow> ledger \<Rightarrow> bool" where
  "ledger_history E g L = (ledger_ok L \<and> confirmed_within (ledger_store L) \<and> (\<exists>rk. undo_inv E g rk (ledger_store L)))"

lemma ledger_historyD:
  assumes "ledger_history E g L"
  shows "ledger_ok L" "confirmed_within (ledger_store L)" "\<exists>rk. undo_inv E g rk (ledger_store L)"
  using assms by (simp_all add: ledger_history_def)

text \<open>The clocks of the environment do not matter.\<close>

definition same_network :: "env \<Rightarrow> env \<Rightarrow> bool" where
  "same_network E F = (crypto_fns F = crypto_fns E \<and> params F = params E)"

lemma same_network_change:
  assumes "same_network E F"
  shows "stored_change F = stored_change E" "ledger_is_epoch_link F = ledger_is_epoch_link E"
proof -
  show "ledger_is_epoch_link F = ledger_is_epoch_link E"
    using assms by (intro ext) (simp add: same_network_def ledger_is_epoch_link_def)
  then show "stored_change F = stored_change E"
    unfolding stored_change_def block_change_def Let_def by (intro ext) (auto split: block_hashables.split)
qed

lemma same_network_inv:
  assumes "same_network E F"
  shows "undo_inv F g rk s = undo_inv E g rk s" "undoing F g rk s h b i s' = undoing E g rk s h b i s'"
proof -
  have net: "crypto_fns F = crypto_fns E" using assms by (simp add: same_network_def)
  show "undo_inv F g rk s = undo_inv E g rk s" "undoing F g rk s h b i s' = undoing E g rk s h b i s'"
    unfolding undo_inv_def history_ok_def cement_ok_def block_ok_def pending_ok_def amount_ok_def rank_ok_def collected_def
      undoing_def undone_def pending_undone_def same_network_change [OF assms] net by (rule refl)+
qed

lemma same_network_history: "same_network E F \<Longrightarrow> ledger_history F g L = ledger_history E g L"
  by (simp add: ledger_history_def same_network_inv)

subsection \<open>The steps keep the history\<close>

lemma genesis_ledger_history:
  assumes gk: "genesis_chain_ok E g" and run: "genesis_ledger E g gc cb = Some L"
  shows "ledger_history E (generate_hash (crypto_fns E) g) L"
proof -
  have gok: "genesis_ok E g" using gk by (simp add: genesis_chain_ok_def)
  note t = genesis_tables [OF gok run] and own = genesis_own [OF gk]
  have ok: "ledger_ok L" using genesis_ledger_ok [OF gok, of gc cb] run by auto
  have "cement_ok E (generate_hash (crypto_fns E) g) (ledger_store L)"
    unfolding cement_ok_def using t(1,5) own by (auto simp: cemented_def split: if_splits)
  then have "undo_inv E (generate_hash (crypto_fns E) g) (\<lambda>_. 0) (ledger_store L)"
    using genesis_history [OF gk run] ok by (simp add: undo_inv_def ledger_ok_def)
  moreover have "confirmed_within (ledger_store L)"
    using t(2,5) by (auto simp: confirmed_within_def genesis_info_def split: if_splits)
  ultimately show ?thesis using ok by (auto simp: ledger_history_def)
qed

lemma process_accepted:
  assumes inv: "undo_inv E g rk (ledger_store L)" and ok: "ledger_ok L" and p: "params_ok E" and h: "hash_ok E L b"
    and ext: "extends_ok E (ledger_store L) b" and run: "process E L b v = Some (L', b', r)" "code r = progress"
  obtains sb a i ch where "accepted E g rk (ledger_store L) b sb a i ch (ledger_store L')" "b' = sideband_set sb b"
    "ret_account r = Some a"
proof -
  obtain L1 sb a i ch where ap: "L' = block_count_add 1 L1" "b' = sideband_set sb b" "ret_account r = Some a"
      "block_applied (crypto_fns E) L b sb a i ch L1" "effect_shape E (ledger_store L) b sb a i ch"
    using process_progressE [OF ok p h run] by metis
  have "block_get (ledger_store L) g \<noteq> None" using undo_invD(3) [OF inv] by (auto simp: cement_ok_def)
  then have "accepted E g rk (ledger_store L) b sb a i ch (ledger_store L')"
    using ap undo_invD [OF inv] ok ext by (simp add: accepted_def block_applied_def ledger_ok_def)
  with ap show ?thesis by (intro that)
qed

lemma process_history:
  assumes H: "ledger_history E g L" and p: "params_ok E" and h: "hash_ok E L b"
    and ext: "extends_ok E (ledger_store L) b" and run: "process E L b v = Some (L', b', r)"
  shows "ledger_history E g L'"
proof -
  note ok = ledger_historyD(1) [OF H]
  have spec: "process_spec E L b (L', b', r)" using process_meets_spec [OF ok p h, of v] run by auto
  show ?thesis
  proof (cases "code r = progress")
    case False
    with spec H show ?thesis by (simp add: process_spec_def)
  next
    case True
    obtain rk where inv: "undo_inv E g rk (ledger_store L)" using ledger_historyD(3) [OF H] ..
    obtain sb a i ch where ac: "accepted E g rk (ledger_store L) b sb a i ch (ledger_store L')"
      using process_accepted [OF inv ok p h ext run True] by metis
    have ok': "ledger_ok L'" using spec by (simp add: process_spec_def)
    then have "undo_inv E g (rk(generate_hash (crypto_fns E) b := next_rank (ledger_store L) rk)) (ledger_store L')"
      using accepted_history_ok [OF ac] accepted_cement_ok [OF ac ledger_historyD(2) [OF H] undo_invD(3) [OF inv]]
      by (simp add: undo_inv_def ledger_ok_def)
    then show ?thesis
      using ok' accepted_new_uncemented(2) [OF ac ledger_historyD(2) [OF H]] by (auto simp: ledger_history_def)
  qed
qed

lemma rollback_result:
  assumes "settles (\<lambda>n. rollback n E L t lst) r" "rollback m E L t lst = Some r'"
  shows "r' = r"
proof -
  obtain k where "\<forall>n \<ge> k. rollback n E L t lst = Some r" using assms(1) by (auto simp: settles_def)
  moreover have "rollback (max m k) E L t lst = Some r'"
    using rollback_mono [of m "max m k" E L t lst] assms(2) by (simp add: returns_as_def)
  ultimately show ?thesis by simp
qed

text \<open>A rollback that returns either refused a cemented block or undid blocks until the target was gone.\<close>

lemma rollback_returned:
  assumes inv: "undo_inv E g rk (ledger_store L)" and run: "rollback n E L t lst = Some (L', lst', err)"
  obtains bt where "block_get (ledger_store L) t = Some bt"
    "err \<longleftrightarrow> cemented (ledger_store L) bt" "err \<Longrightarrow> L' = L \<and> lst' = lst"
    "\<not> err \<Longrightarrow> block_get (ledger_store L') t = None"
    "undo_steps E rk (rk t) (ledger_store L) (ledger_store L')" "same_drift L L'"
proof -
  have "n \<noteq> 0" using run by (intro notI) simp
  then obtain m where n: "n = Suc m" using not0_implies_Suc by blast
  have "rollback (Suc m) E L t lst = None" if "ledger_account L t = None"
    by (simp only: rollback.simps that bind.bind_lzero)
  then have "ledger_account L t \<noteq> None" using run n by (auto simp del: rollback.simps)
  then obtain bt where t: "block_get (ledger_store L) t = Some bt"
    by (cases "block_get (ledger_store L) t") (simp_all add: ledger_account_def store_block_account_def)
  show ?thesis
  proof (cases "cemented (ledger_store L) bt")
    case True
    have "rollback n E L t lst = Some (L, lst, True)" if "3 \<le> n" for n
      using rollback_cemented [OF store_okD(1) [OF undo_invD(2) [OF inv]] t True, of "n - 3" E lst] that
      by (simp add: numeral_3_eq_3 Suc_diff_Suc del: rollback.simps)
    then have "settles (\<lambda>n. rollback n E L t lst) (L, lst, True)" unfolding settles_def by blast
    from rollback_result [OF this run] have "L' = L" "lst' = lst" "err" by simp_all
    then show ?thesis
      using True undo_refl [of E rk "rk t" "ledger_store L"] same_drift_refl [of L] by (intro that [OF t]) simp_all
  next
    case False
    obtain L1 lst1 where "settles (\<lambda>n. rollback n E L t lst) (L1, lst1, False)"
        "undo_steps E rk (rk t) (ledger_store L) (ledger_store L1)" "block_get (ledger_store L1) t = None" "same_drift L L1"
      using rollback_settles [OF inv t False] unfolding call_ok_def by blast
    moreover from rollback_result [OF this(1) run] have "L' = L1" "lst' = lst1" "\<not> err" by simp_all
    ultimately show ?thesis using False by (intro that [OF t]) simp_all
  qed
qed

lemma rollback_history:
  assumes H: "ledger_history E g L" and run: "rollback n E L t lst = Some (L', lst', err)"
  shows "ledger_history E g L'" "total_supply (ledger_store L') = total_supply (ledger_store L)"
proof -
  obtain rk where inv: "undo_inv E g rk (ledger_store L)" using ledger_historyD(3) [OF H] ..
  obtain bt where u: "undo_steps E rk (rk t) (ledger_store L) (ledger_store L')" "same_drift L L'"
    using rollback_returned [OF inv run] by metis
  note i = undo_steps_inv [OF u(1) inv]
  have "ledger_ok L'"
    using ledger_historyD(1) [OF H] i undo_invD(2) [OF i(1)] same_drift_agrees [OF u(2)] by (simp add: ledger_ok_def)
  then show "ledger_history E g L'"
    using i(1) undo_steps_within [OF u(1) inv ledger_historyD(2) [OF H]] by (auto simp: ledger_history_def)
  show "total_supply (ledger_store L') = total_supply (ledger_store L)" by (rule i(3))
qed

end
