(* ===== verification/Cementing.thy ===== *)
theory Cementing
  imports Ledger_Runs
begin

text \<open>
  Writing confirmation heights: \<open>cement_blocks\<close> of the unbounded confirmation height processor. What the
  processor hands to it, \<open>writes_ok\<close>, is a list of heights to be reached in which the sources of an
  account's blocks come before the blocks that collect them; writing such a list keeps the history of
  the ledger.
\<close>

section \<open>The code\<close>

record conf_height_details =
  details_account :: account
  details_hash :: block_hash
  details_height :: u64
  num_blocks_confirmed :: u64
  block_callback_data :: "block_hash list"
  source_block_callback_data :: "block_hash list"

definition cemented_count_add :: "u64 \<Rightarrow> ledger \<Rightarrow> ledger" where
  "cemented_count_add n L = L\<lparr>cache := (cache L)\<lparr>cemented_count := cemented_count (cache L) + n\<rparr>\<rparr>"

text \<open>
  One write: the ledger, the blocks to notify the observers of, and whether the loop breaks. The result
  is \<open>None\<close> when \<open>block_cache.at\<close> throws.
\<close>

definition cement_write ::
    "(block_hash \<rightharpoonup> block) \<Rightarrow> conf_height_details \<Rightarrow> ledger \<Rightarrow> block list \<Rightarrow> (ledger \<times> block list \<times> bool \<times> bool) option" where
  "cement_write block_cache p L cemented_blocks =
     (case confirmation_height_get (ledger_store L) (details_account p) of
        None \<Rightarrow> Some (L, cemented_blocks, True, False)
      | Some info \<Rightarrow>
        if details_height p > conf_height info then
          (case block_get (ledger_store L) (details_hash p) of
             None \<Rightarrow> Some (L, cemented_blocks, True, True)
           | Some b \<Rightarrow> do {
               let n = details_height p - conf_height info;
               let L = stats_add Stat_confirmation_height Detail_blocks_confirmed n L;
               let L = stats_add Stat_confirmation_height Detail_blocks_confirmed_unbounded n L;
               let L = cemented_count_add (num_blocks_confirmed p) L;
               let L = in_store (\<lambda>s. confirmation_height_put s (details_account p)
                     \<lparr>conf_height = details_height p, conf_frontier = details_hash p\<rparr>) L;
               blocks \<leftarrow> those (map block_cache (rev (block_callback_data p)));
               Some (L, cemented_blocks @ blocks, False, False) })
        else Some (L, cemented_blocks, False, False))"

text \<open>The loop over the pending writes; a broken loop leaves the writes it did not reach.\<close>

fun cement_loop ::
    "(block_hash \<rightharpoonup> block) \<Rightarrow> conf_height_details list \<Rightarrow> ledger \<Rightarrow> block list \<Rightarrow> bool
      \<Rightarrow> (ledger \<times> block list \<times> bool \<times> conf_height_details list) option" where
  "cement_loop block_cache [] L cemented_blocks error = Some (L, cemented_blocks, error, [])"
| "cement_loop block_cache (p # ps) L cemented_blocks error = do {
     (L, cemented_blocks, error, break) \<leftarrow> cement_write block_cache p L cemented_blocks;
     if break then Some (L, cemented_blocks, error, p # ps)
     else cement_loop block_cache ps L cemented_blocks error }"

text \<open>The ledger, the blocks the observers are notified of, and the writes left; a failed \<open>release_assert\<close> is \<open>None\<close>.\<close>

definition cement_blocks ::
    "(block_hash \<rightharpoonup> block) \<Rightarrow> conf_height_details list \<Rightarrow> ledger \<Rightarrow> (ledger \<times> block list \<times> conf_height_details list) option" where
  "cement_blocks block_cache pending_writes L = do {
     (L, cemented_blocks, error, rest) \<leftarrow> cement_loop block_cache pending_writes L [] False;
     if error then None else Some (L, cemented_blocks, rest) }"

section \<open>Writing one height\<close>

text \<open>Confirmation heights are no part of the history of a store.\<close>

lemma confirmation_frame [simp]:
  "block_get (confirmation_height_put s a c) h = block_get s h"
  "account_get (confirmation_height_put s a c) a' = account_get s a'"
  "pending_get (confirmation_height_put s a c) k = pending_get s k"
  "frontiers (confirmation_height_put s a c) = frontiers s"
  "prior_balance (confirmation_height_put s a c) b = prior_balance s b"
  "stored_change E (confirmation_height_put s a c) h b = stored_change E s h b"
  "collected E g (confirmation_height_put s a c) k = collected E g s k"
  "confirmation_height_get (confirmation_height_put s a c) a' = (if a' = a then Some c else confirmation_height_get s a')"
  by (simp_all add: confirmation_height_put_def account_get_def pending_get_def confirmation_height_get_def
      prior_balance_def stored_change_def collected_def)

lemma confirmation_history:
  assumes hist: "history_ok E g rk s" and z: "block_get s 0 = None"
  shows "history_ok E g rk (confirmation_height_put s a c)"
proof -
  let ?s = "confirmation_height_put s a c"
  have "block_ok E g rk ?s h b = block_ok E g rk s h b" for h b
    unfolding block_ok_def link_ok_def successor_ok_def amount_ok_def rank_ok_def confirmation_frame ..
  moreover have "head_ok (crypto_fns E) ?s a' i" if i: "account_get s a' = Some i" for a' i
  proof -
    obtain b where b: "block_get s (head i) = Some b" using history_ok_head [OF hist i] by (auto simp: head_ok_def)
    have "representative_calculated (crypto_fns E) ?s (head i) = representative_calculated (crypto_fns E) s (head i)"
      using representative_transfer [OF hist z b, of ?s] by auto
    then show ?thesis using history_ok_head [OF hist i] by (simp add: head_ok_def)
  qed
  moreover have "pending_ok E g ?s = pending_ok E g s" unfolding pending_ok_def confirmation_frame ..
  ultimately show ?thesis using hist by (simp add: history_ok_def)
qed

lemma confirmation_store_ok:
  assumes "store_ok s"
  shows "store_ok (confirmation_height_put s a c)"
  using assms
  by (auto simp: store_ok_def tables_ok_def chains_ok_def account_ok_def block_balance_def)
     (simp_all add: confirmation_height_put_def)

text \<open>
  A write is in order when it names a block of the account at that height, and what the blocks up to it
  collected is cemented or lies in the same account below.
\<close>

definition write_ok :: "env \<Rightarrow> block_hash \<Rightarrow> store \<Rightarrow> conf_height_details \<Rightarrow> bool" where
  "write_ok E g s p =
     ((\<exists>b. block_get s (details_hash p) = Some b \<and> own_account b = details_account p \<and> own_height b = details_height p)
      \<and> (\<forall>h b k src. block_get s h = Some b \<longrightarrow> h \<noteq> g \<longrightarrow> own_account b = details_account p
           \<longrightarrow> own_height b \<le> details_height p \<longrightarrow> stored_change E s h b = Pending_del k
           \<longrightarrow> block_get s (snd k) = Some src
           \<longrightarrow> cemented s src \<or> own_account src = details_account p \<and> own_height src \<le> details_height p))"

definition height_written :: "store \<Rightarrow> conf_height_details \<Rightarrow> store" where
  "height_written s p = (case confirmation_height_get s (details_account p) of
     Some c \<Rightarrow> if details_height p > conf_height c
       then confirmation_height_put s (details_account p) \<lparr>conf_height = details_height p, conf_frontier = details_hash p\<rparr>
       else s
   | None \<Rightarrow> s)"

lemma height_written_cemented:
  assumes "cemented s b"
  shows "cemented (height_written s p) b"
  using assms by (auto simp: cemented_def height_written_def split: option.splits)

lemma height_written_inv:
  assumes inv: "undo_inv E g rk s" and w: "confirmed_within s" and p: "write_ok E g s p"
  shows "undo_inv E g rk (height_written s p)" "confirmed_within (height_written s p)"
proof -
  obtain b where b: "block_get s (details_hash p) = Some b" "own_account b = details_account p" "own_height b = details_height p"
    using p by (auto simp: write_ok_def)
  obtain i where i: "account_get s (details_account p) = Some i"
    using history_okD(2) [OF undo_invD(1) [OF inv] b(1)] b(2) by auto
  have le: "details_height p \<le> block_count i"
    using head_latest [OF undo_invD(1) [OF inv] b(1)] b i by (simp add: word_le_nat_alt)
  let ?s = "height_written s p"
  have frame: "block_get ?s = block_get s" "account_get ?s = account_get s" "stored_change E ?s = stored_change E s"
    by (auto simp: height_written_def fun_eq_iff split: option.split)
  show "confirmed_within ?s"
    using w i le by (auto simp: confirmed_within_def height_written_def split: option.split if_splits)
  have "cemented ?s src" if a: "block_get s h = Some c" "h \<noteq> g" "stored_change E s h c = Pending_del k"
      "block_get s (snd k) = Some src" "cemented ?s c" for h c k src
  proof (cases "cemented s c")
    case True
    then show ?thesis using a undo_invD(3) [OF inv] height_written_cemented unfolding cement_ok_def by metis
  next
    case False
    then have c: "own_account c = details_account p" "own_height c \<le> details_height p"
      and new: "?s = confirmation_height_put s (details_account p) \<lparr>conf_height = details_height p, conf_frontier = details_hash p\<rparr>"
      using a(5) by (auto simp: cemented_def height_written_def split: option.splits if_splits)
    have "cemented s src \<or> own_account src = details_account p \<and> own_height src \<le> details_height p"
      using p a(1-4) c unfolding write_ok_def by metis
    then show ?thesis using height_written_cemented [of s src p] new by (auto simp: cemented_def)
  qed
  moreover have "\<exists>c. block_get s g = Some c \<and> cemented ?s c"
    using undo_invD(3) [OF inv] height_written_cemented unfolding cement_ok_def by metis
  ultimately have "cement_ok E g ?s" unfolding cement_ok_def frame by blast
  then show "undo_inv E g rk ?s"
    using confirmation_history [OF undo_invD(1) [OF inv] store_okD(6) [OF undo_invD(2) [OF inv]]]
      confirmation_store_ok [OF undo_invD(2) [OF inv]] undo_invD(1,2) [OF inv]
    by (auto simp: undo_inv_def height_written_def split: option.split)
qed

lemma those_all: "\<forall>x \<in> set xs. f x \<noteq> None \<Longrightarrow> those (map f xs) = Some (map (\<lambda>x. the (f x)) xs)"
  by (induction xs) auto

lemma cement_write_spec:
  assumes H: "ledger_history E g L" and p: "write_ok E g (ledger_store L) p"
    and cb: "\<forall>h \<in> set (block_callback_data p). block_cache h \<noteq> None"
  shows "\<exists>L' bs. cement_write block_cache p L cem = Some (L', cem @ bs, False, False)
    \<and> ledger_store L' = height_written (ledger_store L) p \<and> ledger_history E g L'
    \<and> total_supply (ledger_store L') = total_supply (ledger_store L)"
proof -
  let ?s = "ledger_store L"
  obtain rk where inv: "undo_inv E g rk ?s" using ledger_historyD(3) [OF H] ..
  note w = height_written_inv [OF inv ledger_historyD(2) [OF H] p]
  obtain b where b: "block_get ?s (details_hash p) = Some b" "own_account b = details_account p"
    using p by (auto simp: write_ok_def)
  obtain i where i: "account_get ?s (details_account p) = Some i"
    using history_okD(2) [OF undo_invD(1) [OF inv] b(1)] b(2) by auto
  obtain c where c: "confirmation_height_get ?s (details_account p) = Some c"
    using store_ok_account [OF undo_invD(2) [OF inv] i] by (auto simp: account_ok_def)
  have keeps: "ledger_history E g L'" "total_supply (ledger_store L') = total_supply ?s"
    if a: "ledger_store L' = height_written ?s p" "rep_weights (cache L') = rep_weights (cache L)"
      "cache_block_count (cache L') = cache_block_count (cache L)"
      "cache_account_count (cache L') = cache_account_count (cache L)" for L'
  proof -
    have "accounts (height_written ?s p) = accounts ?s" "pending (height_written ?s p) = pending ?s"
        "total_blocks (height_written ?s p) = total_blocks ?s"
      by (auto simp: height_written_def confirmation_height_put_def split: option.split)
    then have eq: "total_supply (height_written ?s p) = total_supply ?s" "delegated (height_written ?s p) = delegated ?s"
        "account_count (height_written ?s p) = account_count ?s" "total_blocks (height_written ?s p) = total_blocks ?s"
      by (simp_all add: total_supply_def delegated_def account_count_def fun_eq_iff)
    show "total_supply (ledger_store L') = total_supply ?s" using a(1) eq by simp
    show "ledger_history E g L'"
      using ledger_historyD(1) [OF H] a eq undo_invD(2) [OF w(1)] w by (auto simp: ledger_history_def ledger_ok_def cache_agrees_def)
  qed
  show ?thesis
  proof (cases "details_height p > conf_height c")
    case True
    let ?L = "in_store (\<lambda>s. confirmation_height_put s (details_account p)
        \<lparr>conf_height = details_height p, conf_frontier = details_hash p\<rparr>) (cemented_count_add (num_blocks_confirmed p)
        (stats_add Stat_confirmation_height Detail_blocks_confirmed_unbounded (details_height p - conf_height c)
          (stats_add Stat_confirmation_height Detail_blocks_confirmed (details_height p - conf_height c) L)))"
    have st: "ledger_store ?L = height_written ?s p" "rep_weights (cache ?L) = rep_weights (cache L)"
        "cache_block_count (cache ?L) = cache_block_count (cache L)" "cache_account_count (cache ?L) = cache_account_count (cache L)"
      using True c by (simp_all add: in_store_def cemented_count_add_def stats_add_def height_written_def)
    have "cement_write block_cache p L cem = Some (?L, cem @ map (\<lambda>h. the (block_cache h)) (rev (block_callback_data p)), False, False)"
      using True c b those_all [of "rev (block_callback_data p)" block_cache] cb
      by (simp add: cement_write_def Let_def stats_add_def cemented_count_add_def in_store_def)
    with st keeps [OF st] show ?thesis by blast
  next
    case False
    then have "cement_write block_cache p L cem = Some (L, cem @ [], False, False)" "height_written ?s p = ?s"
      using c by (simp_all add: cement_write_def height_written_def)
    with H show ?thesis by metis
  qed
qed

section \<open>Writing all heights\<close>

fun writes_ok :: "env \<Rightarrow> block_hash \<Rightarrow> store \<Rightarrow> conf_height_details list \<Rightarrow> bool" where
  "writes_ok E g s [] = True"
| "writes_ok E g s (p # ps) = (write_ok E g s p \<and> writes_ok E g (height_written s p) ps)"

lemma cement_loop_spec:
  assumes "ledger_history E g L" "writes_ok E g (ledger_store L) ps"
    "\<forall>p \<in> set ps. \<forall>h \<in> set (block_callback_data p). block_cache h \<noteq> None"
  shows "\<exists>L' bs. cement_loop block_cache ps L cem False = Some (L', bs, False, [])
    \<and> ledger_store L' = foldl height_written (ledger_store L) ps \<and> ledger_history E g L'
    \<and> total_supply (ledger_store L') = total_supply (ledger_store L)"
  using assms
proof (induction ps arbitrary: L cem)
  case (Cons p ps)
  obtain L1 bs where w: "cement_write block_cache p L cem = Some (L1, cem @ bs, False, False)"
      "ledger_store L1 = height_written (ledger_store L) p" "ledger_history E g L1"
      "total_supply (ledger_store L1) = total_supply (ledger_store L)"
    using cement_write_spec [OF Cons.prems(1), of p block_cache cem] Cons.prems(2,3) by auto
  then show ?case using Cons.IH [OF w(3), of "cem @ bs"] Cons.prems(2,3) by simp
qed simp

lemma cement_blocks_spec:
  assumes "ledger_history E g L" "writes_ok E g (ledger_store L) ps"
    "\<forall>p \<in> set ps. \<forall>h \<in> set (block_callback_data p). block_cache h \<noteq> None"
  shows "\<exists>L' bs. cement_blocks block_cache ps L = Some (L', bs, [])
    \<and> ledger_store L' = foldl height_written (ledger_store L) ps \<and> ledger_history E g L'
    \<and> total_supply (ledger_store L') = total_supply (ledger_store L)"
  using cement_loop_spec [OF assms, of "[]"] by (auto simp: cement_blocks_def)

text \<open>No write lowers a height, and a written height is reached.\<close>

lemma heights_grow:
  assumes "confirmation_height_get s a = Some c"
  shows "\<exists>c'. confirmation_height_get (foldl height_written s ps) a = Some c' \<and> conf_height c \<le> conf_height c'
    \<and> (\<forall>p \<in> set ps. details_account p = a \<longrightarrow> details_height p \<le> conf_height c')"
  using assms
proof (induction ps arbitrary: s c)
  case (Cons p ps)
  obtain d where d: "confirmation_height_get (height_written s p) a = Some d" "conf_height c \<le> conf_height d"
      "details_account p = a \<longrightarrow> details_height p \<le> conf_height d"
    using Cons.prems
    by (cases "details_account p = a"; cases "conf_height c < details_height p"; cases "confirmation_height_get s (details_account p)")
       (auto simp: height_written_def)
  from Cons.IH [OF d(1)] d(2,3) show ?case by (auto intro: order_trans)
qed simp

end
