(* ===== verification/Ledger_Life.thy ===== *)
theory Ledger_Life
  imports Cementing
begin

text \<open>
  A ledger over its life: started from genesis, it processes blocks, has blocks cemented and rolls
  blocks back in any order. Rolling back the block processed last restores the ledger.
\<close>

section \<open>Reachable ledgers\<close>

text \<open>
  \<open>g\<close> is the hash of the genesis block. Every processed block satisfies \<open>hash_ok\<close> and \<open>extends_ok\<close>, every
  list of confirmation heights to be written satisfies \<open>writes_ok\<close>; nothing is asked of a rollback.
\<close>

inductive ledger_run :: "crypto \<Rightarrow> ledger_params \<Rightarrow> block_hash \<Rightarrow> ledger \<Rightarrow> bool" for C P g where
  run_genesis: "crypto_fns E = C \<Longrightarrow> params E = P \<Longrightarrow> genesis_chain_ok E b \<Longrightarrow> generate_hash C b = g \<Longrightarrow>
    genesis_ledger E b gc cb = Some L \<Longrightarrow> ledger_run C P g L"
| run_process: "ledger_run C P g L \<Longrightarrow> crypto_fns E = C \<Longrightarrow> params E = P \<Longrightarrow> hash_ok E L b \<Longrightarrow>
    extends_ok E (ledger_store L) b \<Longrightarrow> process E L b v = Some (L', b', r) \<Longrightarrow> ledger_run C P g L'"
| run_rollback: "ledger_run C P g L \<Longrightarrow> crypto_fns E = C \<Longrightarrow> params E = P \<Longrightarrow>
    rollback n E L t lst = Some (L', lst', err) \<Longrightarrow> ledger_run C P g L'"
| run_cement: "ledger_run C P g L \<Longrightarrow> crypto_fns E = C \<Longrightarrow> params E = P \<Longrightarrow> writes_ok E g (ledger_store L) ps \<Longrightarrow>
    \<forall>p \<in> set ps. \<forall>h \<in> set (block_callback_data p). block_cache h \<noteq> None \<Longrightarrow>
    cement_blocks block_cache ps L = Some (L', bs, rest) \<Longrightarrow> ledger_run C P g L'"

inductive_cases ledger_run_cases: "ledger_run C P g L"

lemma ledger_run_history:
  assumes "ledger_run C P g L" and P: "burn_account P = 0" "table_ok (ledger_epochs P)"
    and E: "crypto_fns E = C" "params E = P"
  shows "ledger_history E g L" "total_supply (ledger_store L) = 2 ^ 128 - 1"
proof -
  have net: "ledger_history F g L = ledger_history E g L" if "crypto_fns F = C" "params F = P" for F L
    using that E by (intro same_network_history) (simp add: same_network_def)
  have "ledger_history E g L \<and> total_supply (ledger_store L) = 2 ^ 128 - 1"
    using assms(1)
  proof (induction rule: ledger_run.induct)
    case (run_genesis F b gc cb L)
    have gok: "genesis_ok F b" using run_genesis(3) by (simp add: genesis_chain_ok_def)
    show ?case
      using genesis_ledger_history [OF run_genesis(3,5)] genesis_ledger_ok [OF gok, of gc cb] run_genesis net by simp
  next
    case (run_process L F b v L' b' r)
    have H: "ledger_history F g L" using run_process net by simp
    have p: "params_ok F" using P run_process by (simp add: params_ok_def)
    have "process_spec F L b (L', b', r)"
      using process_meets_spec [OF ledger_historyD(1) [OF H] p run_process(4), of v] run_process(6) by auto
    then show ?case using process_history [OF H p run_process(4-6)] run_process net by (simp add: process_spec_def)
  next
    case (run_rollback L F n t lst L' lst' err)
    then have H: "ledger_history F g L" using net by simp
    show ?case using rollback_history [OF H run_rollback(4)] run_rollback net by simp
  next
    case (run_cement L F ps block_cache L' bs rest)
    then have H: "ledger_history F g L" using net by simp
    show ?case using cement_blocks_spec [OF H run_cement(4,5)] run_cement net by auto
  qed
  then show "ledger_history E g L" "total_supply (ledger_store L) = 2 ^ 128 - 1" by simp_all
qed

section \<open>Undoing the block processed last\<close>

text \<open>Only the block of highest rank can go.\<close>

lemma undo_only:
  assumes "undo_steps E rk \<rho> s s'" "undo_inv E g rk s" "\<forall>x. block_get s x \<noteq> None \<longrightarrow> x \<noteq> h \<longrightarrow> rk x < \<rho>"
  shows "s' = s \<or> (\<exists>b i. undoing E g rk s h b i s')"
  using assms
proof (induction rule: undo_steps.induct)
  case (undo_step s s1 h' b i s2)
  note inv1 = undo_steps_inv(1) [OF undo_step(1,6)]
  note u = undoingI [OF inv1 undo_step(2,3)]
  obtain c where c: "block_get s h' = Some c" using undo_steps_shrink [OF undo_step(1,6) undoingD(4) [OF u]] by blast
  then have h: "h' = h" using undo_step(4,7) by force
  have "s1 = s"
    using undo_step.IH [OF undo_step(6,7)] undoing_get [of E g rk s h _ _ s1 h] undoingD(4) [OF u] h by auto
  with u h show ?case by blast
qed simp

text \<open>What a rollback restores: every table, but for the time at which the account was modified.\<close>

definition same_info :: "account_info \<Rightarrow> account_info \<Rightarrow> bool" where
  "same_info i j = (i\<lparr>modified := modified j\<rparr> = j)"

definition restored :: "store \<Rightarrow> store \<Rightarrow> bool" where
  "restored s s' = (s'\<lparr>accounts := accounts s\<rparr> = s \<and> (\<forall>a. rel_option same_info (account_get s' a) (account_get s a)))"

lemma restoredI:
  fixes s s' :: store
  assumes "blocks_ok s" "blocks_ok s'" "\<And>h. block_get s' h = block_get s h"
    and "pending s' = pending s" "frontiers s' = frontiers s" "confirmation_heights s' = confirmation_heights s"
    and "unchecked_table s' = unchecked_table s" "online_weight s' = online_weight s" "peers s' = peers s"
    and "\<And>a. rel_option same_info (account_get s' a) (account_get s a)"
  shows "restored s s'"
proof -
  have "s'\<lparr>accounts := accounts s\<rparr> = s"
    by (rule blocks_ext) (use assms in \<open>simp_all add: store_rest_def\<close>)
  then show ?thesis using assms(10) by (simp add: restored_def)
qed

lemma undone_blocks_restored:
  assumes ac: "accepted E g rk s b sb a i ch s1" and un: "undoing E g rk' s1 (generate_hash (crypto_fns E) b) b1 j s2"
  shows "b1 = stored_form sb b" "block_get s2 h = block_get s h"
proof -
  show b1: "b1 = stored_form sb b" using undoingD(4) [OF un] accepted_get(1) [OF ac] by simp
  have "map_option (with_successor 0) (map_option (with_successor (generate_hash (crypto_fns E) b)) (block_get s h)) = block_get s h"
    if "has_predecessor b" "h = block_previous b"
  proof (cases "block_get s h")
    case (Some p)
    have "own_successor p = 0" using accepted_predecessor_head(2) [OF ac that(1)] Some that(2) by simp
    moreover have "has_sideband p" by (rule block_get_sideband [OF store_okD(1) [OF acceptedD(2) [OF ac]] Some])
    ultimately have "with_successor 0 (with_successor (generate_hash (crypto_fns E) b) p) = p"
      by (intro same_block_eq [symmetric]) auto
    with Some show ?thesis by simp
  qed simp
  then show "block_get s2 h = block_get s h"
    using undoing_get [OF un, of h] accepted_get(1) [OF ac, of h] accepted_get(2) [OF ac] b1 by auto
qed

lemma undone_account_restored:
  assumes ac: "accepted E g rk s b sb a i ch s1" and un: "undoing E g rk' s1 (generate_hash (crypto_fns E) b) b1 j s2"
  shows "rel_option same_info (account_get s2 a') (account_get s a')"
proof (cases "a' = a")
  case False
  then show ?thesis
    using undoing_account(1) [OF un, of a'] accepted_account [OF ac, of a'] undone_blocks_restored(1) [OF ac un]
      accepted_block(1) [OF ac] by (auto simp: same_info_def option.rel_refl)
next
  case True
  have b1: "b1 = stored_form sb b" by (rule undone_blocks_restored(1) [OF ac un])
  have own: "own_account b1 = a" and ij: "j = i"
    using b1 accepted_block(1) [OF ac] undoingD(5) [OF un] accepted_account [OF ac, of a] by simp_all
  show ?thesis
  proof (cases "account_get s a")
    case None
    then have "\<not> has_predecessor b1" using accepted_prior(1) [OF ac] b1 by simp
    with undoing_account(2) [OF un] None own True show ?thesis by simp
  next
    case (Some k)
    have pr: "has_predecessor b1" "block_previous b1 = head k" using accepted_prior [OF ac] Some b1 by auto
    obtain i' where i': "account_get s2 a = Some i'" "prior_info_ok (crypto_fns E) s1 b1 i i'"
      using undoing_account(3) [OF un pr(1)] own ij by auto
    obtain p rh rb where p: "block_get s (head k) = Some p" "own_version p = epoch_m k"
        "representative_calculated (crypto_fns E) s (head k) = Some rh" "block_get s rh = Some rb"
        "block_representative rb = representative k"
      using history_ok_head [OF acceptedD(1) [OF ac] Some] by (auto simp: head_ok_def)
    obtain p' where p': "block_get s1 (head k) = Some p'" "own_version p' = own_version p"
      using accepted_old [OF ac p(1)] same_blockD by metis
    obtain rb' where r: "representative_calculated (crypto_fns E) s1 (head k) = Some rh" "block_get s1 rh = Some rb'"
        "block_representative rb' = representative k"
      using accepted_representative [OF ac p(1)] p(3-5) by auto
    have "info_balance i' = info_balance k"
      using i'(2) accepted_prior_balance [OF ac] b1 Some by (simp add: prior_info_ok_def)
    moreover have "open_block i = open_block k" "block_count i - 1 = block_count k"
      using effect_okD(8,9) [OF acceptedD(3) [OF ac]] Some by simp_all
    ultimately have "same_info i' k"
      using i'(2) pr p p' r by (intro account_info.equality [of "i'\<lparr>modified := modified k\<rparr>" k, folded same_info_def])
        (auto simp: prior_info_ok_def)
    with i'(1) Some True show ?thesis by simp
  qed
qed

lemma undone_pending_restored:
  assumes ac: "accepted E g rk s b sb a i ch s1" and un: "undoing E g rk' s1 (generate_hash (crypto_fns E) b) b1 j s2"
  shows "pending s2 = pending s"
proof -
  have st: "store_ok s" "store_ok s2" using acceptedD(2) [OF ac] undoing_store_ok [OF un] by simp_all
  have ch: "stored_change E s1 (generate_hash (crypto_fns E) b) b1 = ch"
    using undone_blocks_restored(1) [OF ac un] accepted_new_change [OF ac] by simp
  note pu = undoingD(9) [OF un, unfolded pending_undone_def ch]
  have "pending_get s2 k = pending_get s k" for k
  proof (cases ch)
    case Pending_none
    then show ?thesis using pu accepted_pending_get [OF ac, of k] by (simp add: pending_get_def)
  next
    case (Pending_add k' p)
    then have "snd k' = generate_hash (crypto_fns E) b" using effect_okD(12) [OF acceptedD(3) [OF ac]] by simp
    then have "pending_get s k' = None"
      using accepted_get(2) [OF ac] history_pending [OF acceptedD(1) [OF ac], of k'] by (cases "pending_get s k'") auto
    then show ?thesis
      using Pending_add pu accepted_pending_get [OF ac, of k] by (auto simp: pending_get_def)
  next
    case (Pending_del k')
    then obtain p where p: "pending_get s k' = Some p"
      using effect_okD(12) [OF acceptedD(3) [OF ac]] by (auto simp: pending_get_def split: option.splits)
    then obtain c where c: "block_get s (snd k') = Some c" "stored_change E s (snd k') c = Pending_add k' p"
      using history_pending [OF acceptedD(1) [OF ac]] by blast
    obtain c' where c': "block_get s1 (snd k') = Some c'" "stored_change E s1 (snd k') c' = Pending_add k' p"
      using accepted_source [OF ac c] by blast
    then have "pending s2 = table_put (pending s1) k' p" using pu Pending_del by auto
    then show ?thesis
      using Pending_del p accepted_pending_get [OF ac, of k] by (simp add: pending_get_def)
  qed
  then show ?thesis
    by (intro table_ext [OF store_okD(3) [OF st(2)] store_okD(3) [OF st(1)]]) (simp add: pending_get_def)
qed

lemma undone_frontiers_restored:
  assumes ac: "accepted E g rk s b sb a i ch s1" and un: "undoing E g rk' s1 (generate_hash (crypto_fns E) b) b1 j s2"
  shows "frontiers s2 = frontiers s"
proof (rule table_ext [OF store_okD(4) [OF undoing_store_ok [OF un]] store_okD(4) [OF acceptedD(2) [OF ac]]])
  fix h
  let ?h = "generate_hash (crypto_fns E) b"
  have b1: "b1 = stored_form sb b" by (rule undone_blocks_restored(1) [OF ac un])
  have new: "table_get (frontiers s) ?h = None"
    using acceptedD(2) [OF ac] accepted_get(2) [OF ac] history_ok_head [OF acceptedD(1) [OF ac]]
    unfolding store_ok_def chains_ok_def head_ok_def by (metis not_None_eq)
  have f2: "frontiers s2 = frontiers_undone s1 ?h b1" by (rule undoingD(10) [OF un])
  show "table_get (frontiers s2) h = table_get (frontiers s) h"
  proof (cases "account_get s a")
    case None
    then have "\<not> has_predecessor b" using accepted_prior(1) [OF ac] by simp
    then show ?thesis
      using None f2 new b1 accepted_frontier [OF ac, of h] by (auto simp: frontiers_undone_def legacy_predecessor_def)
  next
    case (Some k)
    have pr: "has_predecessor b" "block_previous b = head k" using accepted_prior [OF ac] Some by auto
    obtain p where p: "block_get s (head k) = Some p"
        "table_get (frontiers s) (head k) = (if type_of p = State_type then None else Some a)"
      using history_ok_head [OF acceptedD(1) [OF ac] Some] by (auto simp: head_ok_def)
    obtain p' where p': "block_get s1 (head k) = Some p'" "type_of p' = type_of p"
      using accepted_old [OF ac p(1)] same_blockD by metis
    then have leg: "legacy_predecessor s1 b1 \<longleftrightarrow> type_of p \<noteq> State_type" using pr b1 by (simp add: legacy_predecessor_def)
    have ne: "head k \<noteq> ?h" using accepted_get(2) [OF ac] p(1) by auto
    show ?thesis
      using Some f2 new b1 leg p(2) pr ne accepted_frontier [OF ac, of h] accepted_block(1) [OF ac]
      by (auto simp: frontiers_undone_def Let_def)
  qed
qed

lemma undone_confirmation_restored:
  assumes ac: "accepted E g rk s b sb a i ch s1" and un: "undoing E g rk' s1 (generate_hash (crypto_fns E) b) b1 j s2"
    and w: "confirmed_within s"
  shows "confirmation_heights s2 = confirmation_heights s"
proof (cases "account_get s a")
  case None
  have "\<not> has_predecessor b1" "own_account b1 = a"
    using None accepted_prior(1) [OF ac] undone_blocks_restored(1) [OF ac un] accepted_block(1) [OF ac] by simp_all
  moreover have "confirmation_height_get s a = None"
    using w None unfolding confirmed_within_def by (metis not_None_eq)
  ultimately show ?thesis
    using None acceptedD(4) [OF ac] undoingD(8) [OF un] store_okD(5) [OF undoing_store_ok [OF un]] store_okD(5) [OF acceptedD(2) [OF ac]]
    by (intro table_ext) (auto simp: store_applied_def accounts_undone_def confirmation_height_get_def)
next
  case (Some k)
  then have "has_predecessor b1"
    using accepted_prior(1) [OF ac] undone_blocks_restored(1) [OF ac un] by simp
  then show ?thesis
    using Some acceptedD(4) [OF ac] undoingD(8) [OF un] by (simp add: store_applied_def accounts_undone_def)
qed

lemma undone_restored:
  assumes ac: "accepted E g rk s b sb a i ch s1" and un: "undoing E g rk' s1 (generate_hash (crypto_fns E) b) b1 j s2"
    and w: "confirmed_within s"
  shows "restored s s2"
proof (rule restoredI)
  show "blocks_ok s" "blocks_ok s2" using acceptedD(2) [OF ac] undoing_store_ok [OF un] store_okD(1) by blast+
  show "pending s2 = pending s" "frontiers s2 = frontiers s" "confirmation_heights s2 = confirmation_heights s"
    using undone_pending_restored [OF ac un] undone_frontiers_restored [OF ac un] undone_confirmation_restored [OF ac un w] .
  show "unchecked_table s2 = unchecked_table s" "online_weight s2 = online_weight s" "peers s2 = peers s"
    using acceptedD(4) [OF ac] un by (simp_all add: store_applied_def undoing_def undone_def)
  show "block_get s2 h = block_get s h" for h by (rule undone_blocks_restored(2) [OF ac un])
  show "rel_option same_info (account_get s2 a') (account_get s a')" for a' by (rule undone_account_restored [OF ac un])
qed

text \<open>The weights and counts follow from the tables.\<close>

lemma restored_cache:
  assumes r: "restored (ledger_store L) (ledger_store L')" and ok: "ledger_ok L" "ledger_ok L'"
  shows "representation_get (rep_weights (cache L')) a = representation_get (rep_weights (cache L)) a"
    "cache_block_count (cache L') = cache_block_count (cache L)"
    "cache_account_count (cache L') = cache_account_count (cache L)"
proof -
  let ?s = "ledger_store L" let ?s' = "ledger_store L'"
  have tab: "table_ok (accounts ?s)" "table_ok (accounts ?s')" using ok store_okD(2) by (auto simp: ledger_ok_def)
  have rel: "rel_option same_info (table_get (accounts ?s') k) (table_get (accounts ?s) k)" for k
    using r by (simp add: restored_def account_get_def)
  have same: "info_balance i = info_balance j" "representative i = representative j" if "same_info i j" for i j
    using arg_cong [of _ _ info_balance, OF that [unfolded same_info_def]]
      arg_cong [of _ _ representative, OF that [unfolded same_info_def]] by simp_all
  have sum: "table_sum f (accounts ?s') = table_sum f (accounts ?s)" if "\<And>i j. same_info i j \<Longrightarrow> f i = f j"
    for f :: "account_info \<Rightarrow> 'n::comm_monoid_add"
    by (intro table_sum_rel [OF tab(2,1)] option.rel_mono_strong [OF rel] that)
  have "delegated ?s' a = delegated ?s a" for a unfolding delegated_def by (rule sum) (simp add: same)
  moreover have "account_count ?s' = account_count ?s"
    using sum [of "\<lambda>_. 1 :: nat"] by (simp add: account_count_def table_sum_def sum_list_triv)
  moreover have "total_blocks ?s' = total_blocks ?s"
  proof -
    have "total_blocks ?s' = total_blocks (?s'\<lparr>accounts := accounts ?s\<rparr>)" by simp
    also have "\<dots> = total_blocks ?s" using r by (simp add: restored_def)
    finally show ?thesis .
  qed
  ultimately show "representation_get (rep_weights (cache L')) a = representation_get (rep_weights (cache L)) a"
    "cache_block_count (cache L') = cache_block_count (cache L)"
    "cache_account_count (cache L') = cache_account_count (cache L)"
    using ok by (simp_all add: ledger_ok_def cache_agrees_def)
qed

section \<open>Processing and rolling back\<close>

lemma process_rollback_restored:
  assumes H: "ledger_history E g L" and p: "params_ok E" "hash_ok E L b" and ext: "extends_ok E (ledger_store L) b"
    and run: "process E L b v = Some (L1, b', r)" "code r = progress"
    and net: "same_network E F"
  shows "\<exists>n L2 lst'. (\<forall>m \<ge> n. rollback m F L1 (generate_hash (crypto_fns E) b) lst = Some (L2, lst', False))
    \<and> restored (ledger_store L) (ledger_store L2) \<and> ledger_history E g L2"
proof -
  let ?h = "generate_hash (crypto_fns E) b"
  obtain rk where inv: "undo_inv E g rk (ledger_store L)" using ledger_historyD(3) [OF H] ..
  obtain sb a i ch where ac: "accepted E g rk (ledger_store L) b sb a i ch (ledger_store L1)"
    using process_accepted [OF inv ledger_historyD(1) [OF H] p ext run] by metis
  note w = ledger_historyD(2) [OF H]
  let ?rk = "rk(?h := next_rank (ledger_store L) rk)"
  have H1: "ledger_history E g L1" by (rule process_history [OF H p ext run(1)])
  have invE: "undo_inv E g ?rk (ledger_store L1)"
    using accepted_history_ok [OF ac] accepted_cement_ok [OF ac w undo_invD(3) [OF inv]] ledger_historyD(1) [OF H1]
    by (simp add: undo_inv_def ledger_ok_def)
  then have inv1: "undo_inv F g ?rk (ledger_store L1)" by (simp add: same_network_inv [OF net])
  have t: "block_get (ledger_store L1) ?h = Some (stored_form sb b)" using accepted_get(1) [OF ac] by simp
  obtain L2 lst' where c: "settles (\<lambda>n. rollback n F L1 ?h lst) (L2, lst', False)"
      "undo_steps F ?rk (?rk ?h) (ledger_store L1) (ledger_store L2)" "block_get (ledger_store L2) ?h = None"
    using rollback_settles [OF inv1 t accepted_new_uncemented(1) [OF ac w]] unfolding call_ok_def by blast
  have "?rk x < ?rk ?h" if "block_get (ledger_store L1) x \<noteq> None" "x \<noteq> ?h" for x
    using that accepted_get(1) [OF ac, of x] next_rank_greater [of "ledger_store L" x rk] by (auto split: if_splits)
  then obtain b1 j where "undoing F g ?rk (ledger_store L1) ?h b1 j (ledger_store L2)"
    using undo_only [OF c(2) inv1, of ?h] c(3) t by auto
  then have "undoing E g ?rk (ledger_store L1) ?h b1 j (ledger_store L2)" by (simp add: same_network_inv [OF net])
  from undone_restored [OF ac this w] have "restored (ledger_store L) (ledger_store L2)" .
  moreover obtain n where n: "\<forall>m \<ge> n. rollback m F L1 ?h lst = Some (L2, lst', False)" using c(1) by (auto simp: settles_def)
  moreover have "ledger_history E g L2"
    using rollback_history(1) [of F g L1 n ?h lst L2 lst' False] n H1 by (simp add: same_network_history [OF net])
  ultimately show ?thesis by blast
qed

lemma run_history_ok:
  assumes "ledger_run (crypto_fns E) (params E) g L" "params_ok E"
  shows "ledger_history E g L" "total_supply (ledger_store L) = 2 ^ 128 - 1"
  using ledger_run_history [OF assms(1) _ _ refl refl] assms(2) by (simp_all add: params_ok_def)

text \<open>Rolling back an uncemented block of a reachable ledger.\<close>

lemma run_rollback_returns:
  assumes run: "ledger_run (crypto_fns E) (params E) g L" "params_ok E"
    and t: "block_get (ledger_store L) t = Some b" "\<not> cemented (ledger_store L) b"
  shows "\<exists>n L' lst'. (\<forall>m \<ge> n. rollback m E L t lst = Some (L', lst', False)) \<and> block_get (ledger_store L') t = None
    \<and> ledger_history E g L' \<and> total_supply (ledger_store L') = 2 ^ 128 - 1"
proof -
  note H = run_history_ok [OF run]
  obtain rk where inv: "undo_inv E g rk (ledger_store L)" using ledger_historyD(3) [OF H(1)] ..
  obtain L' lst' n where r: "\<forall>m \<ge> n. rollback m E L t lst = Some (L', lst', False)" "block_get (ledger_store L') t = None"
    using rollback_settles [OF inv t, of lst] unfolding call_ok_def settles_def by blast
  have "rollback n E L t lst = Some (L', lst', False)" using r(1) by simp
  from rollback_history [OF H(1) this] r H(2) show ?thesis by metis
qed

text \<open>What any rollback leaves: the cemented blocks, and no block that was not there.\<close>

lemma run_rollback_keeps:
  assumes run: "ledger_run (crypto_fns E) (params E) g L" "params_ok E"
    and rb: "rollback n E L t lst = Some (L', lst', err)"
  shows "block_get (ledger_store L) h = Some b \<Longrightarrow> cemented (ledger_store L) b \<Longrightarrow> block_get (ledger_store L') h \<noteq> None"
    and "block_get (ledger_store L') h = Some b' \<Longrightarrow> \<exists>b. block_get (ledger_store L) h = Some b \<and> same_block b b'
      \<and> cemented (ledger_store L') b' = cemented (ledger_store L) b"
    and "account_get (ledger_store L') a \<noteq> None \<Longrightarrow>
      confirmation_height_get (ledger_store L') a = confirmation_height_get (ledger_store L) a"
proof -
  obtain rk where inv: "undo_inv E g rk (ledger_store L)" using ledger_historyD(3) [OF run_history_ok(1) [OF run]] ..
  have st: "undo_steps E rk (rk t) (ledger_store L) (ledger_store L')" using rollback_returned [OF inv rb] by metis
  show "block_get (ledger_store L) h = Some b \<Longrightarrow> cemented (ledger_store L) b \<Longrightarrow> block_get (ledger_store L') h \<noteq> None"
    by (rule undo_steps_cemented [OF st inv])
  show "\<exists>b. block_get (ledger_store L) h = Some b \<and> same_block b b' \<and> cemented (ledger_store L') b' = cemented (ledger_store L) b"
    if "block_get (ledger_store L') h = Some b'"
    using undo_steps_shrink [OF st inv that] by blast
  show "account_get (ledger_store L') a \<noteq> None \<Longrightarrow>
      confirmation_height_get (ledger_store L') a = confirmation_height_get (ledger_store L) a"
    by (rule undo_steps_confirmation [OF st inv])
qed

end
