(* ===== verification/Examples.thy ===== *)
theory Examples
  imports Ledger_Life
begin

text \<open>
  Concrete inputs for the theorems: a test network whose digest is computed from the length of its
  input (so that a block of each class has its own hash), with work and signatures always sufficient,
  and the first blocks of a ledger on it.
\<close>

definition example_crypto :: crypto where
  "example_crypto = \<lparr>blake2b = (\<lambda>n bs. if n = 8 then bytes_native 8 u64_max else bytes_be 32 (of_nat (length bs) :: u256)),
     ed25519_sign_open = (\<lambda>m a s. True)\<rparr>"

definition example_params :: ledger_params where
  "example_params = \<lparr>network = Test_network, genesis_account = 1, genesis_amount = u128_max, burn_account = 0,
     ledger_epochs = [(epoch_1, \<lparr>epoch_signer = 7, epoch_link = 1000\<rparr>), (epoch_2, \<lparr>epoch_signer = 8, epoch_link = 2000\<rparr>)]\<rparr>"

definition example_env :: env where
  "example_env = \<lparr>crypto_fns = example_crypto, params = example_params, clock_sideband = 100, clock_account = 101\<rparr>"

definition example_genesis :: block where
  "example_genesis = \<lparr>hashables = Open \<lparr>open_source = 1, open_representative = 1, open_account = 1\<rparr>,
     block_signature = 0, block_work = 0, sideband_m = None\<rparr>"

definition example_gc :: generate_cache where
  "example_gc = \<lparr>gen_reps = True, gen_cemented_count = True, gen_unchecked_count = True,
     gen_account_count = True, gen_epoch_2 = True\<rparr>"

text \<open>A send of 1000 from the genesis account to account 2.\<close>

definition example_send :: block where
  "example_send = \<lparr>hashables = Send \<lparr>send_previous = 96, send_destination = 2, send_balance = u128_max - 1000\<rparr>,
     block_signature = 0, block_work = 0, sideband_m = None\<rparr>"

lemma example_params_ok: "params_ok example_env"
  by (simp add: params_ok_def example_env_def example_params_def table_ok_Cons epoch_defs)

lemma example_hash: "generate_hash example_crypto b = of_nat (length (hash_input (hashables b)))"
  by (simp add: generate_hash_def example_crypto_def word_be_bytes_be)

lemma example_hashes:
  "generate_hash example_crypto example_genesis = 96"
  "generate_hash example_crypto example_send = 80"
  by (simp_all add: example_hash example_genesis_def example_send_def)

lemma example_genesis_ok: "genesis_ok example_env example_genesis"
  using example_hashes(1)
  by (simp add: genesis_ok_def example_env_def example_params_def type_of_def example_genesis_def)

definition example_ledger :: ledger where
  "example_ledger = the (genesis_ledger example_env example_genesis example_gc False)"

lemma example_ledger_eq: "genesis_ledger example_env example_genesis example_gc False = Some example_ledger"
  and example_ledger_ok: "ledger_ok example_ledger"
  using genesis_ledger_ok [OF example_genesis_ok, of example_gc False] by (auto simp: example_ledger_def)

lemmas eval_defs = store_initialize_def make_ledger_def make_cache_empty block_put_def sideband_def Let_def
  block_predecessor_set_def block_entry_put_def empty_store_def empty_cache_def sideband_set_def type_of_def
  sideband_stored_def make_sideband_def has_sideband_account_def has_sideband_balance_def
  confirmation_height_put_def account_put_def frontier_put_def representation_put_def rep_put_def legacy_details_def
  default_details_def

lemma example_ledger_value: "example_ledger = \<lparr>
   ledger_store = \<lparr>send_blocks = [], receive_blocks = [],
     open_blocks = [(96, \<lparr>hashables = Open \<lparr>open_source = 1, open_representative = 1, open_account = 1\<rparr>,
       block_signature = 0, block_work = 0, sideband_m = Some \<lparr>successor = 0, sideband_account = 0,
         sideband_balance = u128_max, height = 1, timestamp = 100, details = default_details\<rparr>\<rparr>)],
     change_blocks = [], state_blocks = [],
     accounts = [(1, \<lparr>head = 96, representative = 1, open_block = 96, info_balance = u128_max, modified = 101,
       block_count = 1, epoch_m = epoch_0\<rparr>)],
     pending = [], frontiers = [(96, 1)], confirmation_heights = [(1, \<lparr>conf_height = 1, conf_frontier = 96\<rparr>)],
     unchecked_table = [], online_weight = [], peers = []\<rparr>,
   cache = \<lparr>rep_weights = [(1, u128_max)], cemented_count = 1, cache_block_count = 1, cache_unchecked_count = 0,
     cache_account_count = 1, epoch_2_started = False\<rparr>,
   stats = [], bootstrap_weights = [], bootstrap_weight_max_blocks = 1, check_bootstrap_weights = True,
   epoch_2_started_cb = False, epoch_2_callbacks = 0\<rparr>"
  using example_hashes make_cache_empty [of example_gc, unfolded empty_store_def]
  by (simp add: example_ledger_def genesis_ledger_def example_env_def example_params_def example_genesis_def eval_defs)

lemma example_send_hash_ok: "hash_ok example_env example_ledger example_send"
  using example_hashes
  by (simp add: hash_ok_def block_types_def block_exists_type_def table_get_def example_ledger_value
      example_env_def type_of_def example_send_def)

text \<open>In the examples every signature verifies and every nonce has the highest difficulty.\<close>

lemma example_signature [simp]: "validate_message example_crypto a m sig = False"
  by (simp add: validate_message_def example_crypto_def)

lemma example_work [simp]: "sufficient_work example_env b d"
proof -
  have "block_difficulty example_crypto b = u64_max"
    by (simp add: block_difficulty_def block_work_version_def work_v1_value_def example_crypto_def
        word_native_bytes_native)
  then show ?thesis by (simp add: sufficient_work_def example_env_def)
qed

lemmas process_eval = process_def process_visit_def process_send_def process_receive_def process_open_def
  process_change_def process_state_def process_state_impl_def state_position_def state_link_check_def
  move_existing_weight_def state_pending_update_def source_exists_def block_exists_def frontier_del_existing_def
  reject_def block_exists_type_def block_get_def block_types_def valid_predecessor_def frontier_get_def
  bad_signature_for_def on_store_def in_store_def weights_add_def change_latest_def stats_inc_def
  account_get_def pending_get_def pending_put_def pending_del_def frontier_del_def table_del_def table_drop_key_def
  table_get_def account_del_def account_count_add_def block_count_add_def representation_add_def rep_get_def
  fill_value_def block_previous_def initial_result_def epoch_defs

definition example_ledger_2 :: ledger where
  "example_ledger_2 = fst (the (process example_env example_ledger example_send Sig_unknown))"

lemma example_send_progress:
  "\<exists>b' r. process example_env example_ledger example_send Sig_unknown = Some (example_ledger_2, b', r) \<and> code r = progress"
  using example_hashes example_work
  by (simp add: example_ledger_2_def example_ledger_value example_env_def example_params_def example_send_def
      process_eval eval_defs)

lemma example_reachable: "reachable example_crypto example_params example_ledger_2"
proof -
  have "reachable example_crypto example_params example_ledger"
    by (rule reachable_genesis [OF _ _ example_genesis_ok example_ledger_eq]) (simp_all add: example_env_def)
  then show ?thesis
    using example_send_progress reachable_process [OF _ _ _ example_send_hash_ok]
    by (auto simp: example_env_def)
qed

text \<open>A receive whose predecessor is unknown.\<close>

definition example_orphan :: block where
  "example_orphan = \<lparr>hashables = Receive \<lparr>receive_previous = 5, receive_source = 6\<rparr>,
     block_signature = 0, block_work = 0, sideband_m = None\<rparr>"

lemma example_orphan_gap:
  "\<exists>L' b' r. process example_env example_ledger example_orphan Sig_unknown = Some (L', b', r) \<and> code r = gap_previous"
  using example_hash [of example_orphan]
  by (simp add: example_ledger_value example_env_def example_params_def example_orphan_def process_eval eval_defs)

subsection \<open>A life with a rollback\<close>

lemma example_epoch_link: "ledger_is_epoch_link example_env l \<longleftrightarrow> l = 1000 \<or> l = 2000"
  by (auto simp: ledger_is_epoch_link_def is_epoch_link_def example_env_def example_params_def)

lemma example_genesis_chain_ok: "genesis_chain_ok example_env example_genesis"
  using example_genesis_ok example_hashes
  by (simp add: genesis_chain_ok_def example_epoch_link)
     (simp add: example_env_def example_params_def example_genesis_def block_account_def block_representative_def)

lemma example_env_fields: "crypto_fns example_env = example_crypto" "params example_env = example_params"
  by (simp_all add: example_env_def)

lemma example_run: "ledger_run (crypto_fns example_env) (params example_env) 96 example_ledger"
  by (rule run_genesis [OF refl refl example_genesis_chain_ok _ example_ledger_eq]) (simp add: example_env_fields example_hashes)

lemma example_extends: "extends_ok example_env (ledger_store example_ledger) example_send"
  using example_hashes
  by (simp add: extends_ok_def example_epoch_link chain_start_ok_def example_ledger_value epoch_defs)
     (simp add: example_env_def example_params_def example_send_def type_of_def epoch_defs)

lemma example_run_2: "ledger_run (crypto_fns example_env) (params example_env) 96 example_ledger_2"
  using example_send_progress run_process [OF example_run refl refl example_send_hash_ok example_extends] by blast

lemma example_send_stored:
  "\<exists>b. block_get (ledger_store example_ledger_2) 80 = Some b \<and> \<not> cemented (ledger_store example_ledger_2) b
     \<and> own_account b = 1 \<and> own_height b = 2 \<and> hashables b = hashables example_send
     \<and> (\<forall>h. block_get (ledger_store example_ledger_2) h \<noteq> None \<longrightarrow> h = 80 \<or> h = 96)"
proof -
  note H = run_history_ok(1) [OF example_run example_params_ok]
  obtain rk where inv: "undo_inv example_env 96 rk (ledger_store example_ledger)" using ledger_historyD(3) [OF H] ..
  obtain b' r where "process example_env example_ledger example_send Sig_unknown = Some (example_ledger_2, b', r)"
      "code r = progress" using example_send_progress by blast
  from process_accepted [OF inv ledger_historyD(1) [OF H] example_params_ok example_send_hash_ok example_extends this]
  obtain sb a i ch where ac: "accepted example_env 96 rk (ledger_store example_ledger) example_send sb a i ch (ledger_store example_ledger_2)"
    by metis
  have "has_predecessor example_send" "block_previous example_send = 96"
    by (simp_all add: example_send_def has_predecessor_def block_previous_def)
  then obtain j where "account_get (ledger_store example_ledger) a = Some j" "head j = 96"
    using accepted_prior [OF ac] by auto
  then have "a = 1" "j = \<lparr>head = 96, representative = 1, open_block = 96, info_balance = u128_max, modified = 101,
       block_count = 1, epoch_m = epoch_0\<rparr>"
    by (auto simp: example_ledger_value account_get_def table_get_Cons split: if_splits)
  moreover have "h = 80 \<or> h = 96" if "block_get (ledger_store example_ledger_2) h \<noteq> None" for h
    using that accepted_get(1) [OF ac, of h] genesis_tables(1) [OF example_genesis_ok example_ledger_eq, of h]
    by (auto simp: example_env_fields example_hashes split: if_splits)
  ultimately show ?thesis
    using accepted_get(1) [OF ac, of 80] accepted_new_uncemented(1) [OF ac ledger_historyD(2) [OF H]] accepted_block [OF ac]
      accepted_count(1) [OF ac] example_hashes \<open>account_get (ledger_store example_ledger) a = Some j\<close>
    by (simp add: example_env_fields)
qed

lemma example_confirmed: "\<exists>c. confirmation_height_get (ledger_store example_ledger_2) 1 = Some c"
proof -
  obtain b where b: "block_get (ledger_store example_ledger_2) 80 = Some b" "own_account b = 1" using example_send_stored by blast
  note H = run_history_ok(1) [OF example_run_2 example_params_ok]
  obtain rk where inv: "undo_inv example_env 96 rk (ledger_store example_ledger_2)" using ledger_historyD(3) [OF H] ..
  obtain i where "account_get (ledger_store example_ledger_2) 1 = Some i"
    using history_okD(2) [OF undo_invD(1) [OF inv] b(1)] b(2) by auto
  then show ?thesis using store_ok_account [OF undo_invD(2) [OF inv]] by (auto simp: account_ok_def)
qed

lemma example_writes_ok:
  "writes_ok example_env 96 (ledger_store example_ledger_2) [\<lparr>details_account = 1, details_hash = 80, details_height = 2,
      num_blocks_confirmed = 1, block_callback_data = [80], source_block_callback_data = []\<rparr>]"
proof -
  obtain b where b: "block_get (ledger_store example_ledger_2) 80 = Some b" "own_account b = 1" "own_height b = 2"
      "hashables b = hashables example_send"
      "\<forall>h. block_get (ledger_store example_ledger_2) h \<noteq> None \<longrightarrow> h = 80 \<or> h = 96" using example_send_stored by blast
  have "stored_change example_env s h b \<noteq> Pending_del k" for s h k
    using b(4) by (simp add: stored_change_def block_change_def example_send_def)
  with b show ?thesis by (auto simp: write_ok_def)
qed

end
