(* ===== verification/Election_Examples.thy ===== *)
theory Election_Examples
  imports Election_Life Examples
begin

text \<open>
  A concrete election: two representatives with weights 60 and 40, a stake of 100, a margin of one half.
  The first representative's vote confirms the block.
\<close>

definition example_view :: node_view where
  "example_view = \<lparr>crypto_of = example_crypto, weight = (\<lambda>a. if a = 1 then 60 else if a = 2 then 40 else 0), online_stake = 100,
     online_weight_minimum = 50, online_weight_quorum = 50, principal_weight_factor = 1000, is_test_network = False,
     not_an_account = 77, steady_now = 0, system_now = 0, voting_enabled = False, generated_votes = (\<lambda>_. []),
     inactive_voters = (\<lambda>_. []), inactive_arrival = (\<lambda>_. 0), winner_details = (\<lambda>_. False), view_epoch_link = (\<lambda>_. False),
     hash_order = id, solicitor_add = False, solicitor_broadcast = False\<rparr>"

definition example_block :: block where
  "example_block = sideband_set default_sideband example_send"

definition example_election :: election where
  "example_election = fst (the (make_election example_view example_block False))"

definition example_confirmed_election :: election where
  "example_confirmed_election = fst (snd (the (election_vote example_view 1 5 80 example_election)))"

lemma example_view_ok: "view_ok example_crypto 77 example_view"
  by (simp add: view_ok_def order_ok_def example_view_def)

lemma example_election_run: "election_run example_crypto 77 example_election"
proof -
  obtain e fx where "make_election example_view example_block False = Some (e, fx)"
    by (auto simp: make_election_def example_block_def sideband_def sideband_set_def Let_def)
  then show ?thesis using election_run.begins [OF example_view_ok] by (simp add: example_election_def)
qed

lemma example_block_hash: "generate_hash example_crypto example_block = 80"
  using example_hashes(2) by (simp add: example_block_def)

lemma example_election_value:
  "last_votes example_election = [(77, \<lparr>vi_time = 0, vi_sequence = 0, vi_hash = 80\<rparr>)]"
  "election_blocks example_election = [(80, example_block)]" "state_m example_election = Idle"
  "winner (status example_election) = example_block"
  using example_block_hash
  by (simp_all add: example_election_def make_election_def example_view_def Let_def example_block_def sideband_def sideband_set_def)

text \<open>The election with the vote, before the tally.\<close>

definition example_voted :: election where
  "example_voted = example_election\<lparr>last_votes :=
     AList.update 1 \<lparr>vi_time = 0, vi_sequence = 5, vi_hash = 80\<rparr> (last_votes example_election)\<rparr>"

lemma example_voted_ok: "election_ok example_crypto 77 example_voted"
  unfolding example_voted_def by (rule update_votes_ok [OF election_run_ok [OF example_election_run]]) simp

lemma example_voted_value:
  "last_votes example_voted = [(77, \<lparr>vi_time = 0, vi_sequence = 0, vi_hash = 80\<rparr>), (1, \<lparr>vi_time = 0, vi_sequence = 5, vi_hash = 80\<rparr>)]"
  "contenders example_voted = {80}" "voted (weight example_view) (last_votes example_voted) 80 = 60"
  by (simp_all add: example_voted_def example_election_value contenders_def voted_hashes_def voted_def example_view_def)

lemma example_delta: "delta example_view = 50"
  by (simp add: delta_def example_view_def)

lemma example_counted: "counted example_view example_voted"
  by (simp add: counted_def vote_weight_def example_voted_value) (simp add: example_view_def)

lemma example_leads: "leads example_view example_voted 80" "weight_present example_view example_voted"
proof -
  show "leads example_view example_voted 80" by (simp add: leads_def example_voted_value(2,3) example_delta)
  show "weight_present example_view example_voted"
    by (simp add: weight_present_def example_voted_value(2,3)) (simp add: example_view_def)
qed

lemma example_confirmation:
  obtains e fx where "confirm_if_quorum example_view example_voted = Some (e, fx)" "confirmed e"
proof -
  have leads: "weight_present example_view example_voted \<and> (\<exists>h. leads example_view example_voted h)" using example_leads by blast
  obtain e fx where "confirm_if_quorum example_view example_voted = Some (e, fx)"
      "state_m e = (if weight_present example_view example_voted \<and> (\<exists>h. leads example_view example_voted h)
        then Confirmed else state_m example_voted)"
    by (rule confirm_if_quorum_spec [OF example_voted_ok example_view_ok example_counted])
  with leads that show ?thesis by (simp only: if_True confirmed_def simp_thms)
qed

lemma example_vote:
  obtains fx where "election_vote example_view 1 5 80 example_election = Some ((False, True), example_confirmed_election, fx)"
    "confirmed example_confirmed_election"
proof -
  obtain e fx where e: "confirm_if_quorum example_view example_voted = Some (e, fx)" "confirmed e" by (rule example_confirmation)
  have "election_vote example_view 1 5 80 example_election = Some ((False, True), e, Stat_inc ''vote_new'' 1 # fx)"
    using e(1) by (simp add: election_vote_def Let_def example_voted_def example_election_value confirmed_def minimum_principal_weight_def)
      (simp add: example_view_def)
  with e(2) that show ?thesis by (simp add: example_confirmed_election_def)
qed

lemma example_confirmed_run: "election_run example_crypto 77 example_confirmed_election"
proof -
  obtain fx where "election_vote example_view 1 5 80 example_election = Some ((False, True), example_confirmed_election, fx)"
    by (rule example_vote)
  then show ?thesis
    by (intro election_run.goes_on [OF example_election_run]) (rule election_step.vote [OF example_view_ok], simp_all)
qed

end
