(* ===== verification/Accounts.thy ===== *)
theory Accounts
  imports Blocks
begin

text \<open>
  The text form of an account (\<open>futurehead/lib/numbers.cpp\<close>, \<open>public_key::encode_account\<close> and
  \<open>decode_account\<close>): the prefix \<open>fpsc_\<close> and sixty characters of a base-32 alphabet, 256 bits of the key
  followed by a checksum of forty bits. Reading a text back gives the account, and an account has
  no other text than the one it is written as (and the one with a dash for the underscore).
\<close>

unbundle bit_operations_syntax

section \<open>The code\<close>

definition account_lookup :: string where
  "account_lookup = ''13456789abcdefghijkmnopqrstuwxyz''"

definition account_reverse :: string where
  "account_reverse = ''~0~1234567~~~~~~~~~~~~~~~~~~~~~~~~~~~~~~~~~~~~~~~89:;<=>?@AB~CDEFGHIJK~LMNO~~~~~''"

definition account_encode :: "u8 \<Rightarrow> char" where
  "account_encode value = account_lookup ! unat value"

definition account_decode :: "char \<Rightarrow> u8" where
  "account_decode value =
     (let result = of_char (account_reverse ! unat (of_char value - 0x30 :: u8)) :: u8
      in if result \<noteq> 0x7e then result - 0x30 else result)"

text \<open>\<open>blake2b\<close> with five bytes of output, written into the low bytes of a \<open>uint64_t\<close> that is zero.\<close>

definition account_check :: "crypto \<Rightarrow> account \<Rightarrow> u64" where
  "account_check C a = word_native (take 5 (blake2b C 5 (bytes_be 32 a)))"

fun encode_digits :: "nat \<Rightarrow> u512 \<Rightarrow> string" where
  "encode_digits 0 number_l = []"
| "encode_digits (Suc n) number_l = account_encode (ucast (number_l AND 0x1f)) # encode_digits n (drop_bit 5 number_l)"

definition encode_account :: "crypto \<Rightarrow> account \<Rightarrow> string" where
  "encode_account C a =
     (let number_l = push_bit 40 (ucast a :: u512) OR ucast (account_check C a)
      in rev (encode_digits 60 number_l @ ''_cspf''))"

definition to_account :: "crypto \<Rightarrow> account \<Rightarrow> string" where
  "to_account C a = encode_account C a"

definition to_node_id :: "crypto \<Rightarrow> account \<Rightarrow> string" where
  "to_node_id C a = ''node'' @ drop 4 (to_account C a)"

text \<open>The loop over the characters: whether it met an error, and the number read so far.\<close>

fun decode_digits :: "string \<Rightarrow> u512 \<Rightarrow> bool \<times> u512" where
  "decode_digits [] number_l = (False, number_l)"
| "decode_digits (character # cs) number_l =
     (if (of_char character :: u8) < 0x30 \<or> (of_char character :: u8) \<ge> 0x80 then (True, number_l)
      else let byte = account_decode character in
      if byte = 0x7e then (True, number_l) else decode_digits cs (push_bit 5 number_l + ucast byte))"

text \<open>The error, and the key, which is overwritten before the checksum is compared.\<close>

definition decode_account :: "crypto \<Rightarrow> account \<Rightarrow> string \<Rightarrow> bool \<times> account" where
  "decode_account C this source =
     (if length source < 5 then (True, this)
      else let prefix = source ! 0 = CHR ''f'' \<and> source ! 1 = CHR ''p'' \<and> source ! 2 = CHR ''s'' \<and> source ! 3 = CHR ''c''
             \<and> (source ! 4 = CHR ''_'' \<or> source ! 4 = CHR ''-'') in
      if prefix \<and> length source \<noteq> 65 then (True, this)
      else if \<not> prefix then (True, this)
      else if source ! 5 = CHR ''1'' \<or> source ! 5 = CHR ''3'' then
        (case decode_digits (drop 5 source) 0 of
           (True, _) \<Rightarrow> (True, this)
         | (False, number_l) \<Rightarrow>
             let key = ucast (drop_bit 40 number_l) :: account;
                 check = ucast (number_l AND 0xffffffffff) :: u64
             in (check \<noteq> account_check C key, key))
      else (True, this))"

definition decode_node_id :: "crypto \<Rightarrow> account \<Rightarrow> string \<Rightarrow> bool \<times> account" where
  "decode_node_id C this source = decode_account C this source"

section \<open>The alphabet\<close>

lemma unat_ucast: "unat (ucast w :: 'b::len word) = unat (w :: 'a::len word) mod 2 ^ LENGTH('b)"
  by (simp add: unsigned_ucast_eq take_bit_eq_mod)

definition digit_char :: "char \<Rightarrow> bool" where
  "digit_char c = ((of_char c :: u8) \<ge> 0x30 \<and> (of_char c :: u8) < 0x80 \<and> account_decode c \<noteq> 0x7e)"

lemma encode_decode_table:
  "list_all (\<lambda>n. digit_char (account_lookup ! n) \<and> account_decode (account_lookup ! n) = of_nat n) [0..<32]"
  by code_simp

text \<open>The characters from \<open>0x30\<close> to \<open>0x7f\<close>.\<close>

definition plain_chars :: string where
  "plain_chars = ''0123456789:;<=>?@ABCDEFGHIJKLMNOPQRSTUVWXYZ['' @ [CHR 0x5C] @ '']^_'' @ [CHR 0x60] @ ''abcdefghijklmnopqrstuvwxyz{|}~'' @ [CHR 0x7F]"

lemma plain_chars_codes: "map of_char plain_chars = [0x30..<0x80 :: nat]"
  by code_simp

lemma decode_encode_table:
  "list_all (\<lambda>c. digit_char c \<longrightarrow> unat (account_decode c) < 32 \<and> account_lookup ! unat (account_decode c) = c) plain_chars"
  by code_simp

lemma unat_of_char: "unat (of_char c :: u8) = (of_char c :: nat)"
proof -
  have "(of_char c :: u8) = of_nat (of_char c)" by (rule of_nat_of_char [symmetric])
  then show ?thesis by (simp add: unat_of_nat)
qed

lemma digit_char_decode:
  assumes "digit_char c"
  shows "unat (account_decode c) < 32" "account_lookup ! unat (account_decode c) = c"
proof -
  have "(of_char c :: nat) \<in> set [0x30..<0x80]"
    using assms unfolding set_upt atLeastLessThan_iff by (simp add: digit_char_def word_le_nat_alt word_less_nat_alt unat_of_char)
  then have "(of_char c :: nat) \<in> of_char ` set plain_chars"
    unfolding plain_chars_codes [symmetric] by simp
  then have "c \<in> set plain_chars" by auto
  then show "unat (account_decode c) < 32" "account_lookup ! unat (account_decode c) = c"
    using decode_encode_table assms by (auto simp: list_all_iff)
qed

lemma lookup_digit:
  assumes "n < 32"
  shows "digit_char (account_lookup ! n)" "account_decode (account_lookup ! n) = of_nat n"
  using encode_decode_table assms by (auto simp: list_all_iff)

section \<open>Digits\<close>

fun digits32 :: "nat \<Rightarrow> nat \<Rightarrow> nat list" where
  "digits32 0 v = []"
| "digits32 (Suc n) v = v mod 32 # digits32 n (v div 32)"

fun value32 :: "nat list \<Rightarrow> nat" where
  "value32 [] = 0"
| "value32 (d # ds) = d + 32 * value32 ds"

lemma digits32_bound: "d \<in> set (digits32 n v) \<Longrightarrow> d < 32"
  by (induction n arbitrary: v) auto

lemma length_digits32 [simp]: "length (digits32 n v) = n"
  by (induction n arbitrary: v) auto

lemma value32_digits32: "v < 32 ^ n \<Longrightarrow> value32 (digits32 n v) = v"
proof (induction n arbitrary: v)
  case (Suc n)
  then have "v div 32 < 32 ^ n" by (simp add: less_mult_imp_div_less mult.commute)
  then show ?case using Suc.IH by simp
qed simp

lemma digits32_value32: "\<forall>d \<in> set ds. d < 32 \<Longrightarrow> digits32 (length ds) (value32 ds) = ds"
  by (induction ds) auto

lemma value32_bound: "\<forall>d \<in> set ds. d < 32 \<Longrightarrow> value32 ds < 32 ^ length ds"
proof (induction ds)
  case (Cons d ds)
  then have "value32 ds + 1 \<le> 32 ^ length ds" "d < 32" by simp_all
  then have "d + 32 * value32 ds < 32 * (value32 ds + 1)" "32 * (value32 ds + 1) \<le> 32 * 32 ^ length ds" by (simp_all only: mult_le_mono2) simp
  then show ?case by simp
qed simp

lemma value32_append: "value32 (ds @ es) = value32 ds + 32 ^ length ds * value32 es"
  by (induction ds) (auto simp: algebra_simps)

lemma digits32_nth: "i < n \<Longrightarrow> digits32 n v ! i = v div 32 ^ i mod 32"
proof (induction n arbitrary: i v)
  case (Suc n)
  then show ?case by (cases i) (simp_all add: div_mult2_eq)
qed simp

lemma encode_digits_map: "encode_digits n w = map (\<lambda>d. account_lookup ! d) (digits32 n (unat w))"
proof (induction n arbitrary: w)
  case (Suc n)
  have "w AND 0x1f = take_bit 5 w" by (simp add: take_bit_eq_mask mask_eq_exp_minus_1)
  then have "unat (w AND 0x1f) = unat w mod 32" by (simp add: take_bit_eq_mod unat_mod)
  moreover from this have "unat (ucast (w AND 0x1f) :: u8) = unat w mod 32"
    by (simp add: unat_ucast)
  moreover have "unat (drop_bit 5 w) = unat w div 32" by (simp add: drop_bit_eq_div unat_div)
  ultimately show ?case using Suc.IH by (simp add: account_encode_def)
qed simp

lemma unat_shift_add:
  fixes w :: u512 and byte :: u8
  assumes "(unat w + 1) * 32 \<le> 2 ^ 512" "unat byte < 32"
  shows "unat (push_bit 5 w + ucast byte) = unat w * 32 + unat byte"
proof -
  have "push_bit 5 w = w * 32" by (simp add: push_bit_eq_mult)
  then have p: "unat (push_bit 5 w) = unat w * 32"
    using assms(1) by (simp add: unat_word_ariths)
  have u: "unat (ucast byte :: u512) = unat byte" using assms(2) by (simp add: unat_ucast)
  have "unat (push_bit 5 w) + unat (ucast byte :: u512) < 2 ^ LENGTH(512)" using p u assms by simp
  from unat_add_bounded [OF this] p u show ?thesis by simp
qed

lemma decode_digits_value:
  assumes "list_all digit_char cs" "(unat n + 1) * 32 ^ length cs \<le> 2 ^ 512"
  shows "\<exists>n'. decode_digits cs n = (False, n')
    \<and> unat n' = unat n * 32 ^ length cs + value32 (rev (map (\<lambda>c. unat (account_decode c)) cs))"
  using assms
proof (induction cs arbitrary: n)
  case (Cons c cs)
  let ?n = "push_bit 5 n + ucast (account_decode c)"
  have d: "unat (account_decode c) < 32" using Cons.prems(1) digit_char_decode(1) by simp
  have "(unat n + 1) * 32 \<le> (unat n + 1) * (32 * 32 ^ length cs)" by (intro mult_le_mono2) simp
  also have "\<dots> \<le> 2 ^ 512" using Cons.prems(2) by (simp only: length_Cons power_Suc mult.assoc)
  finally have v: "unat ?n = unat n * 32 + unat (account_decode c)" by (rule unat_shift_add [OF _ d])
  then have "unat ?n + 1 \<le> (unat n + 1) * 32" using d by simp
  then have "(unat ?n + 1) * 32 ^ length cs \<le> (unat n + 1) * 32 * 32 ^ length cs" by (rule mult_right_mono) simp
  also have "\<dots> \<le> 2 ^ 512" using Cons.prems(2) by (simp only: length_Cons power_Suc mult.assoc)
  finally obtain n' where n': "decode_digits cs ?n = (False, n')"
      "unat n' = unat ?n * 32 ^ length cs + value32 (rev (map (\<lambda>c. unat (account_decode c)) cs))"
    using Cons.IH [of ?n] Cons.prems(1) by auto
  have "unat n' = unat n * 32 ^ length (c # cs) + value32 (rev (map (\<lambda>c. unat (account_decode c)) (c # cs)))"
    using n'(2) v by (simp add: value32_append algebra_simps)
  moreover have "decode_digits (c # cs) n = (False, n')"
    using n'(1) Cons.prems(1) by (auto simp: digit_char_def Let_def not_le not_less)
  ultimately show ?case by blast
qed simp

lemma decode_digits_sound: "decode_digits cs n = (False, n') \<Longrightarrow> list_all digit_char cs"
  by (induction cs arbitrary: n) (auto simp: digit_char_def Let_def not_le not_less split: if_splits)

section \<open>Writing and reading accounts\<close>

text \<open>The number that is written: the key and the checksum.\<close>

definition account_number :: "crypto \<Rightarrow> account \<Rightarrow> nat" where
  "account_number C a = unat a * 2 ^ 40 + unat (account_check C a)"

lemma account_check_bound: "unat (account_check C a) < 2 ^ 40"
proof -
  let ?bs = "take 5 (blake2b C 5 (bytes_be 32 a))"
  have "nat_of_le ?bs < 256 ^ length ?bs" by (rule nat_of_le_bound)
  also have "\<dots> \<le> 256 ^ 5" by (rule power_increasing) simp_all
  finally have "nat_of_le ?bs < 2 ^ 40" by simp
  moreover from this have "unat (account_check C a) = nat_of_le ?bs" by (simp add: account_check_def word_native_def unat_of_nat)
  ultimately show ?thesis by simp
qed

lemma account_number_bound: "account_number C a < 2 ^ 296"
proof -
  have "unat a + 1 \<le> 2 ^ 256" using unat_lt_2p [of a] by simp
  then have "(unat a + 1) * 2 ^ 40 \<le> 2 ^ 256 * 2 ^ 40" by (rule mult_right_mono) simp
  then show ?thesis using account_check_bound [of C a] by (simp add: account_number_def)
qed

lemma account_number_word:
  "unat (push_bit 40 (ucast a :: u512) OR ucast (account_check C a)) = account_number C a"
proof -
  let ?k = "push_bit 40 (ucast a :: u512)" let ?c = "ucast (account_check C a) :: u512"
  have c: "unat ?c = unat (account_check C a)" using account_check_bound [of C a] by (simp add: unat_ucast)
  have k: "unat ?k = unat a * 2 ^ 40"
  proof -
    have "unat a * 2 ^ 40 < 2 ^ 512" using account_number_bound [of C a] by (simp add: account_number_def)
    moreover have "?k = ucast a * 2 ^ 40" by (simp add: push_bit_eq_mult)
    ultimately show ?thesis using unat_lt_2p [of a] by (simp add: unat_word_ariths unat_ucast)
  qed
  have "take_bit 40 ?c = ?c"
    using c account_check_bound [of C a] by (simp add: word_unat_eq_iff unsigned_take_bit_eq take_bit_nat_eq_self)
  then have low: "bit ?c n \<Longrightarrow> n < 40" for n by (metis bit_take_bit_iff)
  have "?k AND ?c = 0"
  proof (rule bit_word_eqI)
    show "bit (?k AND ?c) n = bit 0 n" for n using low [of n] by (auto simp: bit_and_iff bit_push_bit_iff)
  qed
  then have "?k OR ?c = ?k + ?c" using word_plus_and_or [of ?k ?c] by simp
  moreover note k
  moreover have "unat ?c = unat (account_check C a)" using account_check_bound [of C a] by (simp add: unat_ucast)
  moreover have "unat a * 2 ^ 40 + unat (account_check C a) < 2 ^ LENGTH(512)"
    using account_number_bound [of C a] by (simp add: account_number_def)
  ultimately show ?thesis using unat_add_bounded [of ?k ?c] by (simp add: account_number_def)
qed

lemma to_account_digits:
  "to_account C a = ''fpsc_'' @ map (\<lambda>d. account_lookup ! d) (rev (digits32 60 (account_number C a)))"
  by (simp add: to_account_def encode_account_def Let_def encode_digits_map account_number_word rev_map)

lemma account_number_inverse:
  fixes w :: u512
  assumes "unat w = account_number C a"
  shows "ucast (drop_bit 40 w) = a" "ucast (w AND 0xffffffffff) = account_check C a"
proof -
  have "unat (drop_bit 40 w) = unat a"
    using assms account_check_bound [of C a] by (simp add: drop_bit_eq_div unat_div account_number_def)
  then show "ucast (drop_bit 40 w) = a"
    using unat_lt_2p [of a] by (intro word_unat_eq_iff [THEN iffD2]) (simp add: unat_ucast)
  have "w AND 0xffffffffff = take_bit 40 w" by (simp add: take_bit_eq_mask mask_eq_exp_minus_1)
  then have "unat (w AND 0xffffffffff) = unat (account_check C a)"
    using assms account_check_bound [of C a] by (simp add: take_bit_eq_mod unat_mod account_number_def)
  then show "ucast (w AND 0xffffffffff) = account_check C a"
    using account_check_bound [of C a] by (intro word_unat_eq_iff [THEN iffD2]) (simp add: unat_ucast)
qed

lemma account_number_of_word:
  fixes w :: u512
  assumes "unat w < 2 ^ 296" "ucast (w AND 0xffffffffff) = account_check C (ucast (drop_bit 40 w))"
  shows "unat w = account_number C (ucast (drop_bit 40 w))"
proof -
  have "unat w div 2 ^ 40 < 2 ^ 256" using assms(1) by (simp add: less_mult_imp_div_less)
  then have "unat (ucast (drop_bit 40 w) :: account) = unat w div 2 ^ 40"
    by (simp add: unat_ucast drop_bit_eq_div unat_div)
  moreover have "w AND 0xffffffffff = take_bit 40 w" by (simp add: take_bit_eq_mask mask_eq_exp_minus_1)
  then have "unat (ucast (w AND 0xffffffffff) :: u64) = unat w mod 2 ^ 40"
    by (simp add: unat_ucast take_bit_eq_mod unat_mod)
  ultimately show ?thesis using assms(2) by (simp add: account_number_def)
qed

text \<open>Reading what was written, with an underscore or with a dash.\<close>

lemma decode_account_iff_digits:
  assumes "length source = 65" "take 4 source = ''fpsc''" "source ! 4 = CHR ''_'' \<or> source ! 4 = CHR ''-''"
  shows "decode_account C this source = (if source ! 5 = CHR ''1'' \<or> source ! 5 = CHR ''3'' then
        (case decode_digits (drop 5 source) 0 of
           (True, _) \<Rightarrow> (True, this)
         | (False, n) \<Rightarrow> (ucast (n AND 0xffffffffff) \<noteq> account_check C (ucast (drop_bit 40 n)), ucast (drop_bit 40 n)))
      else (True, this))"
proof -
  have "source ! i = take 4 source ! i" if "i < 4" for i using that by simp
  then have "source ! 0 = CHR ''f''" "source ! 1 = CHR ''p''" "source ! 2 = CHR ''s''" "source ! 3 = CHR ''c''"
    unfolding assms(2) by simp_all
  then show ?thesis using assms by (auto simp: decode_account_def Let_def split: prod.split bool.split)
qed

definition account_text :: "crypto \<Rightarrow> char \<Rightarrow> account \<Rightarrow> string" where
  "account_text C sep a = ''fpsc'' @ sep # map (\<lambda>d. account_lookup ! d) (rev (digits32 60 (account_number C a)))"

lemma to_account_text: "to_account C a = account_text C (CHR ''_'') a"
  by (simp add: to_account_digits account_text_def)

lemma length_account_text [simp]: "length (account_text C sep a) = 65"
  by (simp add: account_text_def)

lemma decode_account_text:
  assumes "sep = CHR ''_'' \<or> sep = CHR ''-''"
  shows "decode_account C this (account_text C sep a) = (False, a)"
proof -
  let ?N = "account_number C a" let ?s = "account_text C sep a"
  let ?body = "map (\<lambda>d. account_lookup ! d) (rev (digits32 60 ?N))"
  have body: "drop 5 ?s = ?body" "?s ! 4 = sep" "take 4 ?s = ''fpsc''" by (simp_all add: account_text_def)
  have N: "?N < 2 ^ 296" by (rule account_number_bound)
  have "?s ! 5 = ?body ! 0" using nth_drop [of 5 ?s 0] body(1) by simp
  also have "\<dots> = account_lookup ! (?N div 32 ^ 59 mod 32)" by (simp add: rev_nth digits32_nth)
  finally have first: "?s ! 5 = account_lookup ! (?N div 32 ^ 59 mod 32)" .
  have "?N div 32 ^ 59 < 2" using N by (intro less_mult_imp_div_less) simp
  then have "?s ! 5 = CHR ''1'' \<or> ?s ! 5 = CHR ''3''"
    using first by (cases "?N div 32 ^ 59 = 0") (auto simp: account_lookup_def less_Suc_eq numeral_2_eq_2)
  moreover have dig: "list_all digit_char ?body"
    using lookup_digit(1) digits32_bound by (fastforce simp: list_all_iff)
  have "unat (account_decode (account_lookup ! d)) = d" if "d < 32" for d
    using lookup_digit(2) [OF that] that by (simp add: unat_of_nat)
  then have "map (\<lambda>c. unat (account_decode c)) ?body = rev (digits32 60 ?N)"
    by (subst map_map) (rule map_idI, auto dest: digits32_bound)
  then obtain n where "decode_digits ?body 0 = (False, n)" "unat n = value32 (digits32 60 ?N)"
    using decode_digits_value [OF dig, of 0] by auto
  moreover have "value32 (digits32 60 ?N) = ?N" using N by (intro value32_digits32) simp
  ultimately show ?thesis
    using decode_account_iff_digits [of ?s C this] assms body account_number_inverse [of n C a] by simp
qed

lemma decode_account_unique:
  assumes "decode_account C this source = (False, a)"
  shows "source = account_text C (source ! 4) a" "source ! 4 = CHR ''_'' \<or> source ! 4 = CHR ''-''"
proof -
  have len: "length source = 65" and pre: "source ! 0 = CHR ''f''" "source ! 1 = CHR ''p''" "source ! 2 = CHR ''s''"
      "source ! 3 = CHR ''c''" and sep: "source ! 4 = CHR ''_'' \<or> source ! 4 = CHR ''-''"
      and first: "source ! 5 = CHR ''1'' \<or> source ! 5 = CHR ''3''"
    using assms by (auto simp: decode_account_def Let_def split: if_splits)
  have t4: "take 4 source = ''fpsc''"
    using len pre by (intro nth_equalityI) (auto simp: less_Suc_eq numeral_eq_Suc)
  let ?cs = "drop 5 source" let ?ds = "rev (map (\<lambda>c. unat (account_decode c)) ?cs)"
  obtain n where n: "decode_digits ?cs 0 = (False, n)" "ucast (n AND 0xffffffffff) = account_check C (ucast (drop_bit 40 n))"
      "a = ucast (drop_bit 40 n)"
  proof (cases "decode_digits ?cs 0")
    case (Pair e n)
    have "(case decode_digits ?cs 0 of (True, _) \<Rightarrow> (True, this)
         | (False, n) \<Rightarrow> (ucast (n AND 0xffffffffff) \<noteq> account_check C (ucast (drop_bit 40 n)), ucast (drop_bit 40 n))) = (False, a)"
      using assms first unfolding decode_account_iff_digits [OF len t4 sep] by simp
    with Pair show ?thesis by (cases e) (auto intro: that)
  qed
  have dig: "list_all digit_char ?cs" by (rule decode_digits_sound [OF n(1)])
  have val: "unat n = value32 ?ds" using decode_digits_value [OF dig, of 0] n(1) len by auto
  have lt: "\<forall>d \<in> set ?ds. d < 32" using dig digit_char_decode(1) by (auto simp: list_all_iff)
  have "length ?cs = 60" using len by simp
  then obtain c cs where cs: "?cs = c # cs" "length cs = 59" by (cases ?cs) auto
  have "unat (account_decode c) < 2"
    using first cs nth_drop [of 5 source 0] len lookup_digit(2) [of 0] lookup_digit(2) [of 1] by (auto simp: account_lookup_def)
  moreover have "value32 (rev (map (\<lambda>c. unat (account_decode c)) cs)) < 32 ^ 59"
    using value32_bound [of "rev (map (\<lambda>c. unat (account_decode c)) cs)"] lt cs by simp
  ultimately have "value32 ?ds < 2 ^ 296" using cs by (simp add: value32_append)
  then have "unat n = account_number C a" using account_number_of_word [OF _ n(2)] val n(3) by simp
  then have "digits32 60 (account_number C a) = ?ds" using digits32_value32 [OF lt] val len by simp
  then have body: "map (\<lambda>d. account_lookup ! d) (rev (digits32 60 (account_number C a))) = ?cs"
    using dig digit_char_decode(2) by (auto simp: list_all_iff intro!: map_idI)
  have "source = take 4 source @ source ! 4 # ?cs" using len id_take_nth_drop [of 4 source] by simp
  then show "source = account_text C (source ! 4) a" unfolding account_text_def body t4 .
  show "source ! 4 = CHR ''_'' \<or> source ! 4 = CHR ''-''" by (rule sep)
qed

lemma node_id_not_decoded: "fst (decode_node_id C this (to_node_id C a))"
  by (simp add: decode_node_id_def decode_account_def to_node_id_def to_account_digits Let_def)

end
