(* ===== verification/Votes.thy ===== *)
theory Votes
  imports Block_Codec
begin

text \<open>
  Votes (\<open>futurehead/secure/common.cpp\<close>, class \<open>vote\<close>): a representative's signed statement about blocks,
  given as whole blocks or as hashes. The two wire formats (with a type byte before every item, and with
  one type for all items, taken from the message header), equality, the digest that is signed, and
  validation.
\<close>

section \<open>The code\<close>

datatype vote_item = Vote_block block | Vote_hash block_hash

record vote =
  vote_sequence :: u64
  vote_blocks :: "vote_item list"
  vote_account :: account
  vote_signature :: signature

text \<open>\<open>iterate_vote_blocks_as_hash\<close>\<close>

fun vote_item_hash :: "crypto \<Rightarrow> vote_item \<Rightarrow> block_hash" where
  "vote_item_hash C (Vote_block b) = generate_hash C b"
| "vote_item_hash C (Vote_hash h) = h"

definition vote_hashes :: "crypto \<Rightarrow> vote \<Rightarrow> block_hash list" where
  "vote_hashes C v = map (vote_item_hash C) (vote_blocks v)"

fun vote_item_eq :: "vote_item \<Rightarrow> vote_item \<Rightarrow> bool" where
  "vote_item_eq (Vote_hash h) (Vote_hash h') = (h = h')"
| "vote_item_eq (Vote_block b) (Vote_block b') = blocks_equal b b'"
| "vote_item_eq _ _ = False"

definition vote_eq :: "vote \<Rightarrow> vote \<Rightarrow> bool" where
  "vote_eq v w =
     (let blocks_equal = length (vote_blocks v) = length (vote_blocks w)
            \<and> list_all (\<lambda>(x, y). vote_item_eq x y) (zip (vote_blocks v) (vote_blocks w))
      in vote_sequence v = vote_sequence w \<and> blocks_equal \<and> vote_account v = vote_account w
         \<and> vote_signature v = vote_signature w)"

text \<open>The ASCII codes of \<open>"vote "\<close>.\<close>

definition hash_prefix :: "u8 list" where
  "hash_prefix = [0x76, 0x6f, 0x74, 0x65, 0x20]"

definition vote_hash_input :: "crypto \<Rightarrow> vote \<Rightarrow> u8 list" where
  "vote_hash_input C v =
     (let items = vote_blocks v;
          prefixed = length items > 1 \<or> (case items of Vote_hash _ # _ \<Rightarrow> True | _ \<Rightarrow> False)
      in (if prefixed then hash_prefix else []) @ concat (map (bytes_be 32) (vote_hashes C v))
         @ bytes_native 8 (vote_sequence v))"

definition vote_hash :: "crypto \<Rightarrow> vote \<Rightarrow> block_hash" where
  "vote_hash C v = word_be (blake2b C 32 (vote_hash_input C v))"

text \<open>\<open>sizeof (account.bytes.data ())\<close> and \<open>sizeof (signature.bytes.data ())\<close> are the size of a pointer.\<close>

definition vote_full_hash :: "crypto \<Rightarrow> vote \<Rightarrow> block_hash" where
  "vote_full_hash C v = word_be (blake2b C 32
     (bytes_be 32 (vote_hash C v) @ take 8 (bytes_be 32 (vote_account v)) @ take 8 (bytes_be 64 (vote_signature v))))"

definition vote_head_bytes :: "vote \<Rightarrow> u8 list" where
  "vote_head_bytes v = bytes_be 32 (vote_account v) @ bytes_be 64 (vote_signature v) @ bytes_native 8 (vote_sequence v)"

fun vote_item_serialize :: "vote_item \<Rightarrow> u8 list" where
  "vote_item_serialize (Vote_hash h) = bytes_native 1 (block_type_code Not_a_block) @ bytes_be 32 h"
| "vote_item_serialize (Vote_block b) = serialize_block b"

definition vote_serialize :: "vote \<Rightarrow> u8 list" where
  "vote_serialize v = vote_head_bytes v @ concat (map vote_item_serialize (vote_blocks v))"

fun vote_item_serialize_type :: "crypto \<Rightarrow> block_type \<Rightarrow> vote_item \<Rightarrow> u8 list" where
  "vote_item_serialize_type C t (Vote_hash h) = bytes_be 32 h"
| "vote_item_serialize_type C t (Vote_block b) =
     (if t = Not_a_block then bytes_be 32 (generate_hash C b) else block_serialize b)"

definition vote_serialize_type :: "crypto \<Rightarrow> block_type \<Rightarrow> vote \<Rightarrow> u8 list" where
  "vote_serialize_type C t v = vote_head_bytes v @ concat (map (vote_item_serialize_type C t) (vote_blocks v))"

text \<open>One item of the given type; a null block is an exception.\<close>

definition vote_item_read :: "block_type \<Rightarrow> u8 list \<Rightarrow> (vote_item \<times> u8 list) option" where
  "vote_item_read t s =
     (if t = Not_a_block then do { (h, s) \<leftarrow> read_u256 s; Some (Vote_hash h, s) }
      else do { (b, s) \<leftarrow> deserialize_block_type t s; Some (Vote_block b, s) })"

lemma read_be_shorter: "read_be n s = Some (w, r) \<Longrightarrow> length r = length s - n \<and> n \<le> length s"
  by (auto simp: read_be_def read_bytes_def split: if_splits)

lemma read_native_shorter: "read_native n s = Some (w, r) \<Longrightarrow> length r = length s - n \<and> n \<le> length s"
  by (auto simp: read_native_def read_bytes_def split: if_splits)

lemma vote_item_read_shorter:
  assumes "vote_item_read t s = Some (x, r)"
  shows "length r < length s"
proof (cases "t = Not_a_block")
  case True
  then show ?thesis using assms by (auto simp: vote_item_read_def bind_eq_Some_conv dest!: read_be_shorter)
next
  case False
  then obtain b where "s = block_serialize b @ r"
    using assms deserialize_block_type_sound by (fastforce simp: vote_item_read_def bind_eq_Some_conv)
  moreover have "0 < length (block_serialize b)"
    by (cases "hashables b") (simp_all add: length_block_serialize type_of_def block_size_defs)
  ultimately show ?thesis by simp
qed

text \<open>The loop of \<open>deserialize\<close>: a type byte and an item, until the stream has no further byte.\<close>

function vote_items_read :: "u8 list \<Rightarrow> vote_item list option" where
  "vote_items_read s = (case read_u8 s of
     None \<Rightarrow> Some []
   | Some (t, s') \<Rightarrow> (case vote_item_read (block_type_of_code t) s' of
       None \<Rightarrow> None
     | Some (x, r) \<Rightarrow> do { xs \<leftarrow> vote_items_read r; Some (x # xs) }))"
  by pat_completeness auto
termination
  by (relation "measure length") (auto dest!: read_native_shorter vote_item_read_shorter)

text \<open>The loop of the constructor with a type: items while bytes are available.\<close>

function vote_items_read_type :: "block_type \<Rightarrow> u8 list \<Rightarrow> vote_item list option" where
  "vote_items_read_type t s =
     (if s = [] then Some []
      else (case vote_item_read t s of
        None \<Rightarrow> None
      | Some (x, r) \<Rightarrow> do { xs \<leftarrow> vote_items_read_type t r; Some (x # xs) }))"
  by pat_completeness auto
termination
  by (relation "measure (\<lambda>(t, s). length s)") (auto dest!: vote_item_read_shorter)

declare vote_items_read.simps [simp del] vote_items_read_type.simps [simp del]

definition vote_read_with :: "(u8 list \<Rightarrow> vote_item list option) \<Rightarrow> u8 list \<Rightarrow> vote option" where
  "vote_read_with items s = do {
     (a, s) \<leftarrow> read_u256 s; (sig, s) \<leftarrow> read_u512 s; (q, s) \<leftarrow> read_u64 s;
     xs \<leftarrow> items s;
     if xs = [] then None
     else Some \<lparr>vote_sequence = q, vote_blocks = xs, vote_account = a, vote_signature = sig\<rparr> }"

definition vote_deserialize :: "u8 list \<Rightarrow> vote option" where
  "vote_deserialize s = vote_read_with vote_items_read s"

definition vote_deserialize_type :: "block_type \<Rightarrow> u8 list \<Rightarrow> vote option" where
  "vote_deserialize_type t s = vote_read_with (vote_items_read_type t) s"

text \<open>\<open>validate\<close> is true when the signature does not verify.\<close>

definition vote_validate :: "crypto \<Rightarrow> vote \<Rightarrow> bool" where
  "vote_validate C v = validate_message C (vote_account v) (vote_hash C v) (vote_signature v)"

section \<open>The wire formats\<close>

text \<open>
  A loop that reads items until the stream is at its end, given a codec of single items that consumes
  at least one byte.
\<close>

locale item_loop = stream_codec +
  fixes items :: "u8 list \<Rightarrow> 'a list option"
  assumes dec_shorter: "dec s = Some (x, r) \<Longrightarrow> length r < length s"
    and items_end: "items [] = Some []"
    and items_more: "s \<noteq> [] \<Longrightarrow> items s = do { (x, r) \<leftarrow> dec s; xs \<leftarrow> items r; Some (x # xs) }"
begin

lemma items_enc: "list_all valid xs \<Longrightarrow> items (concat (map enc xs)) = Some xs"
proof (induction xs)
  case (Cons x xs)
  have "dec (enc x @ concat (map enc xs)) = Some (x, concat (map enc xs))" using Cons.prems dec_enc by simp
  moreover from dec_shorter [OF this] have "enc x @ concat (map enc xs) \<noteq> []" by auto
  ultimately show ?case using Cons items_more by simp
qed (simp add: items_end)

lemma items_sound: "items s = Some xs \<Longrightarrow> list_all valid xs \<and> s = concat (map enc xs)"
proof (induction s arbitrary: xs rule: measure_induct_rule [of length])
  case (less s)
  show ?case
  proof (cases "s = []")
    case True
    with less.prems show ?thesis by (simp add: items_end)
  next
    case False
    then obtain x r ys where x: "dec s = Some (x, r)" "items r = Some ys" "xs = x # ys"
      using less.prems items_more by (auto simp: bind_eq_Some_conv)
    from less.IH [OF dec_shorter [OF x(1)] x(2)] dec_sound [OF x(1)] x(3) show ?thesis by simp
  qed
qed

lemma items_iff: "items s = Some xs \<longleftrightarrow> list_all valid xs \<and> s = concat (map enc xs)"
  using items_enc items_sound by blast

end

text \<open>A block read from the wire has no sideband.\<close>

fun wire_item :: "vote_item \<Rightarrow> bool" where
  "wire_item (Vote_hash h) = True"
| "wire_item (Vote_block b) = (sideband_m b = None)"

fun wire_item_type :: "block_type \<Rightarrow> vote_item \<Rightarrow> bool" where
  "wire_item_type t (Vote_hash h) = (t = Not_a_block)"
| "wire_item_type t (Vote_block b) = (t \<noteq> Not_a_block \<and> wire_block t b)"

definition vote_item_deserialize :: "u8 list \<Rightarrow> (vote_item \<times> u8 list) option" where
  "vote_item_deserialize s = do { (t, s) \<leftarrow> read_u8 s; vote_item_read (block_type_of_code t) s }"

lemma vote_item_read_enc:
  assumes "wire_item_type t x"
  shows "vote_item_read t (vote_item_serialize_type C t x @ r) = Some (x, r)"
  using assms by (cases x) (auto simp: vote_item_read_def codec_simps deserialize_block_type_enc)

lemma vote_item_read_sound:
  assumes "vote_item_read t s = Some (x, r)"
  shows "wire_item_type t x \<and> s = vote_item_serialize_type C t x @ r"
  using assms deserialize_block_type_sound
  by (fastforce simp: vote_item_read_def bind_eq_Some_conv codec_read_iff split: if_splits)

text \<open>Without a type in the header, each item brings its own.\<close>

fun wire_type :: "vote_item \<Rightarrow> block_type" where
  "wire_type (Vote_hash h) = Not_a_block"
| "wire_type (Vote_block b) = type_of b"

lemma wire_type_code [simp]: "block_type_of_code (block_type_code (wire_type x)) = wire_type x" "wire_type x \<noteq> Invalid"
  using block_type_cases by (cases x; cases "wire_type x"; auto simp: block_type_of_code_def)+

lemma wire_item_wire_type: "wire_item x \<longleftrightarrow> wire_item_type (wire_type x) x"
  using block_type_cases by (cases x) (auto simp: wire_block_def)

lemma vote_item_serialize_wire:
  "vote_item_serialize x = bytes_native 1 (block_type_code (wire_type x)) @ vote_item_serialize_type C (wire_type x) x"
  using block_type_cases by (cases x) (auto simp: serialize_block_def)

interpretation vote_item_codec: item_loop vote_item_serialize vote_item_deserialize wire_item vote_items_read
proof unfold_locales
  show "vote_item_deserialize (vote_item_serialize x @ r) = Some (x, r)" if "wire_item x" for x r
    using that vote_item_read_enc [of "wire_type x" x undefined r] wire_type_code(1) [of x]
    by (simp add: vote_item_deserialize_def vote_item_serialize_wire [of x undefined] codec_simps wire_item_wire_type)
  show "wire_item x \<and> s = vote_item_serialize x @ r" if d: "vote_item_deserialize s = Some (x, r)" for s x r
  proof -
    obtain c s' where c: "s = bytes_native 1 c @ s'" "vote_item_read (block_type_of_code c) s' = Some (x, r)"
      using d by (auto simp: vote_item_deserialize_def bind_eq_Some_conv codec_read_iff)
    note w = vote_item_read_sound [OF c(2), of undefined]
    then have "wire_type x = block_type_of_code c" by (cases x) (auto simp: wire_block_def)
    moreover from this have "block_type_code (block_type_of_code c) = c"
      using wire_type_code(2) [of x] by (intro type_code_of_code) simp_all
    ultimately show ?thesis using w c(1) by (simp add: vote_item_serialize_wire [of x undefined] wire_item_wire_type)
  qed
  show "length r < length s" if "vote_item_deserialize s = Some (x, r)" for s x r
    using that by (auto simp: vote_item_deserialize_def bind_eq_Some_conv dest!: read_native_shorter vote_item_read_shorter)
  show "vote_items_read [] = Some []"
    by (simp add: vote_items_read.simps read_native_def read_bytes_def)
  show "vote_items_read s = do { (x, r) \<leftarrow> vote_item_deserialize s; xs \<leftarrow> vote_items_read r; Some (x # xs) }"
    if "s \<noteq> []" for s
  proof -
    have "read_u8 s \<noteq> None" using that by (cases s) (simp_all add: read_native_def read_bytes_def)
    then show ?thesis
      by (subst vote_items_read.simps) (auto simp: vote_item_deserialize_def split: option.split bind_split)
  qed
qed

lemma vote_item_type_loop:
  "item_loop (vote_item_serialize_type C t) (vote_item_read t) (wire_item_type t) (vote_items_read_type t)"
proof unfold_locales
  show "vote_items_read_type t [] = Some []" by (simp add: vote_items_read_type.simps)
  show "vote_items_read_type t s = do { (x, r) \<leftarrow> vote_item_read t s; xs \<leftarrow> vote_items_read_type t r; Some (x # xs) }"
    if "s \<noteq> []" for s
    using that by (subst vote_items_read_type.simps) (auto split: option.split)
qed (use vote_item_read_enc vote_item_read_sound vote_item_read_shorter in blast)+

interpretation vote_hashes_codec: item_loop "vote_item_serialize_type C Not_a_block" "vote_item_read Not_a_block"
    "wire_item_type Not_a_block" "vote_items_read_type Not_a_block" for C
  by (rule vote_item_type_loop)

lemma vote_read_with_iff:
  assumes "\<And>s xs. items s = Some xs \<longleftrightarrow> P xs \<and> s = enc xs"
  shows "vote_read_with items s = Some v \<longleftrightarrow> vote_blocks v \<noteq> [] \<and> P (vote_blocks v) \<and> s = vote_head_bytes v @ enc (vote_blocks v)"
  using assms
  by (cases v) (auto simp: vote_read_with_def vote_head_bytes_def bind_eq_Some_conv codec_read_iff, blast)

lemma vote_deserialize_iff:
  "vote_deserialize s = Some v \<longleftrightarrow> vote_blocks v \<noteq> [] \<and> list_all wire_item (vote_blocks v) \<and> s = vote_serialize v"
  unfolding vote_deserialize_def vote_serialize_def by (rule vote_read_with_iff) (rule vote_item_codec.items_iff)

lemma vote_deserialize_type_iff:
  "vote_deserialize_type t s = Some v \<longleftrightarrow>
     vote_blocks v \<noteq> [] \<and> list_all (wire_item_type t) (vote_blocks v) \<and> s = vote_serialize_type C t v"
  unfolding vote_deserialize_type_def vote_serialize_type_def
  by (rule vote_read_with_iff) (rule item_loop.items_iff [OF vote_item_type_loop])

section \<open>Equality and digests\<close>

fun clear_item :: "vote_item \<Rightarrow> vote_item" where
  "clear_item (Vote_hash h) = Vote_hash h"
| "clear_item (Vote_block b) = Vote_block (b\<lparr>sideband_m := None\<rparr>)"

lemma serialize_block_clear: "serialize_block (b\<lparr>sideband_m := None\<rparr>) = serialize_block b"
  by (simp add: serialize_block_def block_serialize_defs type_of_def split: block_hashables.split)

lemma clear_item_simps [simp]:
  "vote_item_serialize (clear_item x) = vote_item_serialize x" "wire_item (clear_item x)"
  by (cases x; simp add: serialize_block_clear)+

lemma vote_item_eq_clear: "vote_item_eq x y \<longleftrightarrow> clear_item x = clear_item y"
proof (cases x; cases y)
  fix b c assume "x = Vote_block b" "y = Vote_block c"
  then show ?thesis
    using block_codec.enc_inject [of "b\<lparr>sideband_m := None\<rparr>" "c\<lparr>sideband_m := None\<rparr>"]
    by (simp add: blocks_equal_serialize serialize_block_clear)
qed simp_all

lemma items_serialize_eq:
  "concat (map vote_item_serialize xs) = concat (map vote_item_serialize ys) \<longleftrightarrow> map clear_item xs = map clear_item ys"
proof -
  have cl: "concat (map vote_item_serialize xs) = concat (map vote_item_serialize (map clear_item xs))" for xs
    by (simp add: comp_def)
  have dec: "vote_items_read (concat (map vote_item_serialize xs)) = Some (map clear_item xs)" for xs
    by (subst cl, rule vote_item_codec.items_enc) (simp add: list_all_iff)
  show ?thesis by (metis cl dec option.inject)
qed

text \<open>Equal votes are those with the same written form.\<close>

lemma vote_eq_serialize: "vote_eq v w \<longleftrightarrow> vote_serialize v = vote_serialize w"
proof -
  have items: "length xs = length ys \<and> list_all (\<lambda>(x, y). vote_item_eq x y) (zip xs ys) \<longleftrightarrow> map clear_item xs = map clear_item ys"
    for xs ys
    by (induction xs ys rule: list_induct2') (auto simp: vote_item_eq_clear)
  have head: "vote_head_bytes v @ r = vote_head_bytes w @ r' \<longleftrightarrow> vote_account v = vote_account w
      \<and> vote_signature v = vote_signature w \<and> vote_sequence v = vote_sequence w \<and> r = r'" for r r'
    using u256_codec.enc_inject u512_codec.enc_inject u64_codec.enc_inject by (simp add: vote_head_bytes_def)
  show ?thesis
    by (auto simp: vote_eq_def Let_def items vote_serialize_def head items_serialize_eq)
qed

text \<open>\<open>full_hash\<close> depends on the first eight bytes of the account and of the signature only.\<close>

lemma vote_full_hash_truncated:
  assumes "vote_hash C v = vote_hash C w"
    "take 8 (bytes_be 32 (vote_account v)) = take 8 (bytes_be 32 (vote_account w))"
    "take 8 (bytes_be 64 (vote_signature v)) = take 8 (bytes_be 64 (vote_signature w))"
  shows "vote_full_hash C v = vote_full_hash C w"
  using assms by (simp add: vote_full_hash_def)

end
