(* ===== verification/Messages.thy ===== *)
theory Messages
  imports Votes Work "HOL-Library.Signed_Division"
begin

text \<open>
  The messages between nodes (\<open>futurehead/node/common.cpp\<close>): the header with its packed extensions, and the
  payload of every class of message. A payload is read under the header that came before it. The type
  byte of the header is kept as a byte, since a peer may send any; an unknown block type in the extensions
  behaves as \<open>invalid\<close> everywhere. The uniquers are applied by the parser, to what is read here.
\<close>

unbundle bit_operations_syntax

section \<open>The header\<close>

type_synonym message_type = u8

definition mt_keepalive :: message_type where "mt_keepalive = 0x2"
definition mt_publish :: message_type where "mt_publish = 0x3"
definition mt_confirm_req :: message_type where "mt_confirm_req = 0x4"
definition mt_confirm_ack :: message_type where "mt_confirm_ack = 0x5"
definition mt_bulk_pull :: message_type where "mt_bulk_pull = 0x6"
definition mt_bulk_push :: message_type where "mt_bulk_push = 0x7"
definition mt_frontier_req :: message_type where "mt_frontier_req = 0x8"
definition mt_node_id_handshake :: message_type where "mt_node_id_handshake = 0xa"
definition mt_bulk_pull_account :: message_type where "mt_bulk_pull_account = 0xb"
definition mt_telemetry_req :: message_type where "mt_telemetry_req = 0xc"
definition mt_telemetry_ack :: message_type where "mt_telemetry_ack = 0xd"

lemmas message_type_defs = mt_keepalive_def mt_publish_def mt_confirm_req_def mt_confirm_ack_def mt_bulk_pull_def
  mt_bulk_push_def mt_frontier_req_def mt_node_id_handshake_def mt_bulk_pull_account_def mt_telemetry_req_def
  mt_telemetry_ack_def

record message_header =
  version_max :: u8
  version_using :: u8
  version_min_m :: u8
  header_type :: message_type
  extensions :: u16

definition protocol_version :: u8 where "protocol_version = 0x12"

definition protocol_version_min :: "bool \<Rightarrow> u8" where
  "protocol_version_min use_epoch_2_min_version = (if use_epoch_2_min_version then 0x12 else 0x11)"

fun header_magic_number :: "futurehead_networks \<Rightarrow> u8 list" where
  "header_magic_number Test_network = [0x52, 0x41]"
| "header_magic_number Beta_network = [0x4e, 0x44]"
| "header_magic_number Live_network = [0x52, 0x43]"

definition make_header :: "message_type \<Rightarrow> message_header" where
  "make_header t = \<lparr>version_max = protocol_version, version_using = protocol_version, version_min_m = 0xff,
     header_type = t, extensions = 0\<rparr>"

definition header_bytes :: "futurehead_networks \<Rightarrow> message_header \<Rightarrow> u8 list" where
  "header_bytes N h = header_magic_number N @ bytes_native 1 (version_max h) @ bytes_native 1 (version_using h)
     @ bytes_native 1 (version_min_m h) @ bytes_native 1 (header_type h) @ bytes_native 2 (extensions h)"

text \<open>The minimal version is not a property of the header that is written but of the node.\<close>

definition header_serialize :: "futurehead_networks \<Rightarrow> bool \<Rightarrow> message_header \<Rightarrow> u8 list" where
  "header_serialize N use_epoch_2_min_version h =
     header_bytes N (h\<lparr>version_min_m := protocol_version_min use_epoch_2_min_version\<rparr>)"

definition header_deserialize :: "futurehead_networks \<Rightarrow> u8 list \<Rightarrow> (message_header \<times> u8 list) option" where
  "header_deserialize N s = do {
     (magic, s) \<leftarrow> read_bytes 2 s;
     if magic \<noteq> header_magic_number N then None
     else do {
       (vmax, s) \<leftarrow> read_u8 s; (vusing, s) \<leftarrow> read_u8 s; (vmin, s) \<leftarrow> read_u8 s; (t, s) \<leftarrow> read_u8 s;
       (e, s) \<leftarrow> read_native 2 s;
       Some (\<lparr>version_max = vmax, version_using = vusing, version_min_m = vmin, header_type = t, extensions = e\<rparr>, s) } }"

definition header_block_type :: "message_header \<Rightarrow> block_type" where
  "header_block_type h = block_type_of_code (ucast (drop_bit 8 (extensions h AND 0x0f00)))"

definition block_type_set :: "block_type \<Rightarrow> message_header \<Rightarrow> message_header" where
  "block_type_set t h = h\<lparr>extensions := (extensions h AND NOT 0x0f00) OR push_bit 8 (ucast (block_type_code t))\<rparr>"

definition count_get :: "message_header \<Rightarrow> u8" where
  "count_get h = ucast (drop_bit 12 (extensions h AND 0xf000))"

definition count_set :: "u8 \<Rightarrow> message_header \<Rightarrow> message_header" where
  "count_set n h = h\<lparr>extensions := (extensions h AND NOT 0xf000) OR push_bit 12 (ucast n)\<rparr>"

definition flag_set :: "nat \<Rightarrow> message_header \<Rightarrow> message_header" where
  "flag_set i h = h\<lparr>extensions := set_bit i (extensions h)\<rparr>"

definition bulk_pull_is_count_present :: "message_header \<Rightarrow> bool" where
  "bulk_pull_is_count_present h = (header_type h = mt_bulk_pull \<and> bit (extensions h) 0)"

definition node_id_handshake_is_query :: "message_header \<Rightarrow> bool" where
  "node_id_handshake_is_query h = (header_type h = mt_node_id_handshake \<and> bit (extensions h) 0)"

definition node_id_handshake_is_response :: "message_header \<Rightarrow> bool" where
  "node_id_handshake_is_response h = (header_type h = mt_node_id_handshake \<and> bit (extensions h) 1)"

definition telemetry_size :: "message_header \<Rightarrow> u16" where
  "telemetry_size h = extensions h AND 0x07ff"

section \<open>The payloads\<close>

subsection \<open>keepalive\<close>

type_synonym endpoint = "u128 \<times> u16"

definition endpoint_bytes :: "endpoint \<Rightarrow> u8 list" where
  "endpoint_bytes p = bytes_be 16 (fst p) @ bytes_native 2 (snd p)"

definition keepalive_serialize :: "endpoint list \<Rightarrow> u8 list" where
  "keepalive_serialize peers = concat (map endpoint_bytes peers)"

fun endpoints_read :: "nat \<Rightarrow> u8 list \<Rightarrow> (endpoint list \<times> u8 list) option" where
  "endpoints_read 0 s = Some ([], s)"
| "endpoints_read (Suc n) s = do {
     (a, s) \<leftarrow> read_u128 s; (p, s) \<leftarrow> read_native 2 s; (ps, s) \<leftarrow> endpoints_read n s; Some ((a, p) # ps, s) }"

definition keepalive_deserialize :: "u8 list \<Rightarrow> (endpoint list \<times> u8 list) option" where
  "keepalive_deserialize s = endpoints_read 8 s"

subsection \<open>publish\<close>

definition publish_deserialize :: "message_header \<Rightarrow> u8 list \<Rightarrow> (block \<times> u8 list) option" where
  "publish_deserialize h s = deserialize_block_type (header_block_type h) s"

subsection \<open>confirm\_req\<close>

record confirm_req =
  req_block :: "block option"
  roots_hashes :: "(block_hash \<times> root) list"

definition root_hash_bytes :: "block_hash \<times> root \<Rightarrow> u8 list" where
  "root_hash_bytes p = bytes_be 32 (fst p) @ bytes_be 32 (snd p)"

text \<open>A request for a block without one dereferences a null pointer.\<close>

definition confirm_req_serialize :: "message_header \<Rightarrow> confirm_req \<Rightarrow> u8 list option" where
  "confirm_req_serialize h m =
     (if header_block_type h = Not_a_block then Some (concat (map root_hash_bytes (roots_hashes m)))
      else map_option block_serialize (req_block m))"

text \<open>Pairs of zeros are skipped; the request is then refused for its count.\<close>

fun roots_hashes_read :: "nat \<Rightarrow> u8 list \<Rightarrow> ((block_hash \<times> root) list \<times> u8 list) option" where
  "roots_hashes_read 0 s = Some ([], s)"
| "roots_hashes_read (Suc n) s = do {
     (h, s) \<leftarrow> read_u256 s; (r, s) \<leftarrow> read_u256 s; (ps, s) \<leftarrow> roots_hashes_read n s;
     Some (if h \<noteq> 0 \<or> r \<noteq> 0 then (h, r) # ps else ps, s) }"

definition confirm_req_deserialize :: "message_header \<Rightarrow> u8 list \<Rightarrow> (confirm_req \<times> u8 list) option" where
  "confirm_req_deserialize h s =
     (if header_block_type h = Not_a_block then do {
        (ps, s) \<leftarrow> roots_hashes_read (unat (count_get h)) s;
        if ps = [] \<or> length ps \<noteq> unat (count_get h) then None
        else Some (\<lparr>req_block = None, roots_hashes = ps\<rparr>, s) }
      else do {
        (b, s) \<leftarrow> deserialize_block_type (header_block_type h) s;
        Some (\<lparr>req_block = Some b, roots_hashes = []\<rparr>, s) })"

definition confirm_req_size :: "block_type \<Rightarrow> nat \<Rightarrow> nat" where
  "confirm_req_size t count =
     (if t \<noteq> Invalid \<and> t \<noteq> Not_a_block then block_size t
      else if t = Not_a_block then count * (32 + 32) else 0)"

definition confirm_ack_size :: "block_type \<Rightarrow> nat \<Rightarrow> nat" where
  "confirm_ack_size t count = (32 + 64 + 8) +
     (if t \<noteq> Invalid \<and> t \<noteq> Not_a_block then block_size t else if t = Not_a_block then count * 32 else 0)"

subsection \<open>frontier\_req, bulk\_pull, bulk\_pull\_account\<close>

record frontier_req =
  frontier_start :: account
  frontier_age :: u32
  frontier_count :: u32

definition frontier_req_serialize :: "frontier_req \<Rightarrow> u8 list" where
  "frontier_req_serialize m = bytes_be 32 (frontier_start m) @ bytes_native 4 (frontier_age m) @ bytes_native 4 (frontier_count m)"

definition frontier_req_deserialize :: "u8 list \<Rightarrow> (frontier_req \<times> u8 list) option" where
  "frontier_req_deserialize s = do {
     (a, s) \<leftarrow> read_u256 s; (g, s) \<leftarrow> read_native 4 s; (c, s) \<leftarrow> read_native 4 s;
     Some (\<lparr>frontier_start = a, frontier_age = g, frontier_count = c\<rparr>, s) }"

record bulk_pull =
  pull_start :: u256
  pull_end :: block_hash
  pull_count :: u32

definition is_count_present :: "message_header \<Rightarrow> bool" where
  "is_count_present h = bit (extensions h) 0"

definition set_count_present :: "bool \<Rightarrow> message_header \<Rightarrow> message_header" where
  "set_count_present v h = h\<lparr>extensions := (if v then set_bit 0 (extensions h) else unset_bit 0 (extensions h))\<rparr>"

text \<open>The extended parameters are eight bytes: a zero, the count in little-endian order, three zeros.\<close>

definition bulk_pull_serialize :: "message_header \<Rightarrow> bulk_pull \<Rightarrow> u8 list" where
  "bulk_pull_serialize h m = bytes_be 32 (pull_start m) @ bytes_be 32 (pull_end m)
     @ (if is_count_present h then [0] @ bytes_native 4 (pull_count m) @ [0, 0, 0] else [])"

definition bulk_pull_deserialize :: "message_header \<Rightarrow> u8 list \<Rightarrow> (bulk_pull \<times> u8 list) option" where
  "bulk_pull_deserialize h s = do {
     (a, s) \<leftarrow> read_u256 s; (e, s) \<leftarrow> read_u256 s;
     if is_count_present h then do {
       (buffer, s) \<leftarrow> read_bytes 8 s;
       if buffer ! 0 \<noteq> 0 then None
       else Some (\<lparr>pull_start = a, pull_end = e, pull_count = word_native (take 4 (drop 1 buffer))\<rparr>, s) }
     else Some (\<lparr>pull_start = a, pull_end = e, pull_count = 0\<rparr>, s) }"

record bulk_pull_account =
  pull_account :: account
  minimum_amount :: amount
  pull_flags :: u8

definition bulk_pull_account_serialize :: "bulk_pull_account \<Rightarrow> u8 list" where
  "bulk_pull_account_serialize m = bytes_be 32 (pull_account m) @ bytes_be 16 (minimum_amount m) @ bytes_native 1 (pull_flags m)"

definition bulk_pull_account_deserialize :: "u8 list \<Rightarrow> (bulk_pull_account \<times> u8 list) option" where
  "bulk_pull_account_deserialize s = do {
     (a, s) \<leftarrow> read_u256 s; (m, s) \<leftarrow> read_u128 s; (f, s) \<leftarrow> read_u8 s;
     Some (\<lparr>pull_account = a, minimum_amount = m, pull_flags = f\<rparr>, s) }"


subsection \<open>node\_id\_handshake\<close>

record node_id_handshake =
  query :: "u256 option"
  response :: "(account \<times> signature) option"

definition handshake_serialize :: "node_id_handshake \<Rightarrow> u8 list" where
  "handshake_serialize m =
     (case query m of None \<Rightarrow> [] | Some q \<Rightarrow> bytes_be 32 q)
     @ (case response m of None \<Rightarrow> [] | Some (a, sig) \<Rightarrow> bytes_be 32 a @ bytes_be 64 sig)"

definition handshake_deserialize :: "message_header \<Rightarrow> u8 list \<Rightarrow> (node_id_handshake \<times> u8 list) option" where
  "handshake_deserialize h s = do {
     (q, s) \<leftarrow> (if node_id_handshake_is_query h then do { (q, s) \<leftarrow> read_u256 s; Some (Some q, s) } else Some (None, s));
     (p, s) \<leftarrow> (if node_id_handshake_is_response h
        then do { (a, s) \<leftarrow> read_u256 s; (sig, s) \<leftarrow> read_u512 s; Some (Some (a, sig), s) } else Some (None, s));
     Some (\<lparr>query = q, response = p\<rparr>, s) }"

definition handshake_size :: "message_header \<Rightarrow> nat" where
  "handshake_size h = (if node_id_handshake_is_query h then 32 else 0) + (if node_id_handshake_is_response h then 32 + 64 else 0)"

subsection \<open>telemetry\_ack\<close>

text \<open>
  The timestamp is a point of the system clock, a signed 64-bit count of nanoseconds; on the wire it is
  in milliseconds. \<open>duration_cast\<close> divides towards zero, the conversion back multiplies at 64 bits.
\<close>

record telemetry_data =
  tel_signature :: signature
  tel_node_id :: account
  tel_block_count :: u64
  tel_cemented_count :: u64
  tel_unchecked_count :: u64
  tel_account_count :: u64
  tel_bandwidth_cap :: u64
  tel_peer_count :: u32
  tel_protocol_version :: u8
  tel_uptime :: u64
  tel_genesis_block :: block_hash
  tel_major_version :: u8
  tel_minor_version :: u8
  tel_patch_version :: u8
  tel_pre_release_version :: u8
  tel_maker :: u8
  tel_timestamp :: u64
  tel_active_difficulty :: u64

definition to_milliseconds :: "u64 \<Rightarrow> u64" where
  "to_milliseconds t = word_of_int (sint t sdiv 1000000)"

definition of_milliseconds :: "u64 \<Rightarrow> u64" where
  "of_milliseconds ms = ms * 1000000"

text \<open>A number written or read after \<open>native_to_big\<close> is \<open>bytes_be\<close>, \<open>read_be\<close>.\<close>

definition serialize_without_signature :: "telemetry_data \<Rightarrow> u8 list" where
  "serialize_without_signature d =
     bytes_be 32 (tel_node_id d) @ bytes_be 8 (tel_block_count d) @ bytes_be 8 (tel_cemented_count d)
     @ bytes_be 8 (tel_unchecked_count d) @ bytes_be 8 (tel_account_count d) @ bytes_be 8 (tel_bandwidth_cap d)
     @ bytes_be 4 (tel_peer_count d) @ bytes_native 1 (tel_protocol_version d) @ bytes_be 8 (tel_uptime d)
     @ bytes_be 32 (tel_genesis_block d) @ bytes_native 1 (tel_major_version d) @ bytes_native 1 (tel_minor_version d)
     @ bytes_native 1 (tel_patch_version d) @ bytes_native 1 (tel_pre_release_version d) @ bytes_native 1 (tel_maker d)
     @ bytes_be 8 (to_milliseconds (tel_timestamp d)) @ bytes_be 8 (tel_active_difficulty d)"

definition telemetry_serialize :: "telemetry_data \<Rightarrow> u8 list" where
  "telemetry_serialize d = bytes_be 64 (tel_signature d) @ serialize_without_signature d"

definition telemetry_deserialize :: "u8 list \<Rightarrow> (telemetry_data \<times> u8 list) option" where
  "telemetry_deserialize s = do {
     (sig, s) \<leftarrow> read_u512 s; (i, s) \<leftarrow> read_u256 s;
     (bc, s) \<leftarrow> read_be 8 s; (cc, s) \<leftarrow> read_be 8 s; (uc, s) \<leftarrow> read_be 8 s; (ac, s) \<leftarrow> read_be 8 s; (cap, s) \<leftarrow> read_be 8 s;
     (pc, s) \<leftarrow> read_be 4 s; (v, s) \<leftarrow> read_u8 s; (up, s) \<leftarrow> read_be 8 s; (g, s) \<leftarrow> read_u256 s;
     (v1, s) \<leftarrow> read_u8 s; (v2, s) \<leftarrow> read_u8 s; (v3, s) \<leftarrow> read_u8 s; (v4, s) \<leftarrow> read_u8 s; (mk, s) \<leftarrow> read_u8 s;
     (timestamp_l, s) \<leftarrow> read_be 8 s; (ad, s) \<leftarrow> read_be 8 s;
     Some (\<lparr>tel_signature = sig, tel_node_id = i, tel_block_count = bc, tel_cemented_count = cc, tel_unchecked_count = uc,
       tel_account_count = ac, tel_bandwidth_cap = cap, tel_peer_count = pc, tel_protocol_version = v, tel_uptime = up,
       tel_genesis_block = g, tel_major_version = v1, tel_minor_version = v2, tel_patch_version = v3,
       tel_pre_release_version = v4, tel_maker = mk, tel_timestamp = of_milliseconds timestamp_l,
       tel_active_difficulty = ad\<rparr>, s) }"

definition telemetry_data_size :: nat where
  "telemetry_data_size = 64 + 32 + 8 + 8 + 8 + 8 + 8 + 4 + 1 + 8 + 32 + 1 + 1 + 1 + 1 + 1 + 8 + 8"

text \<open>\<open>data\<close> of an acknowledgement whose payload is empty has the defaults of its class.\<close>

definition telemetry_default :: telemetry_data where
  "telemetry_default = \<lparr>tel_signature = 0, tel_node_id = 0, tel_block_count = 0, tel_cemented_count = 0, tel_unchecked_count = 0,
     tel_account_count = 0, tel_bandwidth_cap = 0, tel_peer_count = 0, tel_protocol_version = 0, tel_uptime = 0,
     tel_genesis_block = 0, tel_major_version = 0, tel_minor_version = 0, tel_patch_version = 0,
     tel_pre_release_version = 0, tel_maker = 0, tel_timestamp = 0, tel_active_difficulty = 0\<rparr>"

definition is_empty_payload :: "message_header \<Rightarrow> bool" where
  "is_empty_payload h = (telemetry_size h = 0)"

definition telemetry_ack_serialize :: "message_header \<Rightarrow> telemetry_data \<Rightarrow> u8 list" where
  "telemetry_ack_serialize h d = (if is_empty_payload h then [] else telemetry_serialize d)"

definition telemetry_ack_deserialize :: "message_header \<Rightarrow> u8 list \<Rightarrow> (telemetry_data \<times> u8 list) option" where
  "telemetry_ack_deserialize h s = (if is_empty_payload h then Some (telemetry_default, s) else telemetry_deserialize s)"

section \<open>The length of a payload\<close>

definition payload_length_bytes :: "message_header \<Rightarrow> nat" where
  "payload_length_bytes h =
     (let t = header_type h in
      if t = mt_bulk_pull then (32 + 32) + (if bulk_pull_is_count_present h then 8 else 0)
      else if t = mt_bulk_push \<or> t = mt_telemetry_req then 0
      else if t = mt_frontier_req then 32 + 4 + 4
      else if t = mt_bulk_pull_account then 32 + 16 + 1
      else if t = mt_keepalive then 8 * (16 + 2)
      else if t = mt_publish then block_size (header_block_type h)
      else if t = mt_confirm_ack then confirm_ack_size (header_block_type h) (unat (count_get h))
      else if t = mt_confirm_req then confirm_req_size (header_block_type h) (unat (count_get h))
      else if t = mt_node_id_handshake then handshake_size h
      else if t = mt_telemetry_ack then unat (telemetry_size h)
      else 0)"

section \<open>The constructors of messages to send\<close>

text \<open>
  The header each constructor builds. A bulk pull is built empty and filled in by its caller, which
  calls \<open>set_count_present\<close> when there is a count.
\<close>

datatype message =
    Keepalive "endpoint list"
  | Publish block
  | Confirm_req_block block
  | Confirm_req_hashes "(block_hash \<times> root) list"
  | Confirm_ack vote
  | Frontier_req frontier_req
  | Bulk_pull bulk_pull
  | Bulk_pull_account bulk_pull_account
  | Bulk_push
  | Telemetry_req
  | Telemetry_ack telemetry_data
  | Handshake node_id_handshake

fun message_header_of :: "message \<Rightarrow> message_header" where
  "message_header_of (Keepalive _) = make_header mt_keepalive"
| "message_header_of (Publish b) = block_type_set (type_of b) (make_header mt_publish)"
| "message_header_of (Confirm_req_block b) = block_type_set (type_of b) (make_header mt_confirm_req)"
| "message_header_of (Confirm_req_hashes ps) =
     count_set (word_of_nat (length ps)) (block_type_set Not_a_block (make_header mt_confirm_req))"
| "message_header_of (Confirm_ack v) = (case vote_blocks v of
     Vote_block b # _ \<Rightarrow> block_type_set (type_of b) (make_header mt_confirm_ack)
   | _ \<Rightarrow> count_set (word_of_nat (length (vote_blocks v))) (block_type_set Not_a_block (make_header mt_confirm_ack)))"
| "message_header_of (Frontier_req _) = make_header mt_frontier_req"
| "message_header_of (Bulk_pull m) = set_count_present (pull_count m \<noteq> 0) (make_header mt_bulk_pull)"
| "message_header_of (Bulk_pull_account _) = make_header mt_bulk_pull_account"
| "message_header_of Bulk_push = make_header mt_bulk_push"
| "message_header_of Telemetry_req = make_header mt_telemetry_req"
| "message_header_of (Telemetry_ack _) = (let h = make_header mt_telemetry_ack in
     h\<lparr>extensions := (extensions h AND NOT 0x07ff) OR word_of_nat telemetry_data_size\<rparr>)"
| "message_header_of (Handshake m) =
     (let h = make_header mt_node_id_handshake;
          h = (if query m \<noteq> None then flag_set 0 h else h)
      in if response m \<noteq> None then flag_set 1 h else h)"

fun message_payload :: "crypto \<Rightarrow> message \<Rightarrow> u8 list" where
  "message_payload C (Keepalive peers) = keepalive_serialize peers"
| "message_payload C (Publish b) = block_serialize b"
| "message_payload C (Confirm_req_block b) =
     the (confirm_req_serialize (message_header_of (Confirm_req_block b)) \<lparr>req_block = Some b, roots_hashes = []\<rparr>)"
| "message_payload C (Confirm_req_hashes ps) =
     the (confirm_req_serialize (message_header_of (Confirm_req_hashes ps)) \<lparr>req_block = None, roots_hashes = ps\<rparr>)"
| "message_payload C (Confirm_ack v) = vote_serialize_type C (header_block_type (message_header_of (Confirm_ack v))) v"
| "message_payload C (Frontier_req m) = frontier_req_serialize m"
| "message_payload C (Bulk_pull m) = bulk_pull_serialize (message_header_of (Bulk_pull m)) m"
| "message_payload C (Bulk_pull_account m) = bulk_pull_account_serialize m"
| "message_payload C Bulk_push = []"
| "message_payload C Telemetry_req = []"
| "message_payload C (Telemetry_ack d) = telemetry_ack_serialize (message_header_of (Telemetry_ack d)) d"
| "message_payload C (Handshake m) = handshake_serialize m"

definition to_bytes :: "crypto \<Rightarrow> futurehead_networks \<Rightarrow> bool \<Rightarrow> message \<Rightarrow> u8 list" where
  "to_bytes C N use_epoch_2_min_version m =
     header_serialize N use_epoch_2_min_version (message_header_of m) @ message_payload C m"

end
