(* ===== verification/Message_Codec.thy ===== *)
theory Message_Codec
  imports Messages
begin

text \<open>
  The wire format of messages: the header and every payload are read back as they were written, what
  is accepted has exactly the bytes of what it is read as, and the length the header announces is
  the length of the payload.
\<close>

unbundle bit_operations_syntax

section \<open>Numbers\<close>

interpretation u16_codec: fixed_codec "bytes_native 2 :: u16 \<Rightarrow> u8 list" "read_native 2" any_value 2
  by unfold_locales (auto simp: read_native_enc read_native_total dest: read_native_sound [rotated])

interpretation u32_codec: fixed_codec "bytes_native 4 :: u32 \<Rightarrow> u8 list" "read_native 4" any_value 4
  by unfold_locales (auto simp: read_native_enc read_native_total dest: read_native_sound [rotated])

interpretation be64_codec: fixed_codec "bytes_be 8 :: u64 \<Rightarrow> u8 list" "read_be 8" any_value 8
  by unfold_locales (auto simp: read_be_enc read_be_total dest: read_be_sound [rotated])

interpretation be32_codec: fixed_codec "bytes_be 4 :: u32 \<Rightarrow> u8 list" "read_be 4" any_value 4
  by unfold_locales (auto simp: read_be_enc read_be_total dest: read_be_sound [rotated])

lemmas wire_read = u16_codec.dec_enc [OF TrueI] u32_codec.dec_enc [OF TrueI] be64_codec.dec_enc [OF TrueI]
  be32_codec.dec_enc [OF TrueI] u16_codec.dec_enc_exact [OF TrueI] u32_codec.dec_enc_exact [OF TrueI]
  be64_codec.dec_enc_exact [OF TrueI] be32_codec.dec_enc_exact [OF TrueI] codec_simps

lemmas wire_read_iff = u16_codec.dec_iff u32_codec.dec_iff be64_codec.dec_iff be32_codec.dec_iff codec_read_iff

section \<open>The header\<close>

lemma read_bytes_iff: "read_bytes n s = Some (x, r) \<longleftrightarrow> length x = n \<and> s = x @ r"
  by (auto simp: read_bytes_def)

lemma read_bytes_app: "length x = n \<Longrightarrow> read_bytes n (x @ r) = Some (x, r)"
  by (simp add: read_bytes_def)

lemma length_header_magic [simp]: "length (header_magic_number N) = 2"
  by (cases N) simp_all

lemma length_header_bytes [simp]: "length (header_bytes N h) = 8"
  by (simp add: header_bytes_def)

interpretation header_codec: stream_codec "header_bytes N" "header_deserialize N" any_value for N
proof unfold_locales
  show "header_deserialize N (header_bytes N h @ r) = Some (h, r)" for h r
    by (cases h) (simp add: header_deserialize_def header_bytes_def read_bytes_app wire_read)
  show "True \<and> s = header_bytes N h @ r" if "header_deserialize N s = Some (h, r)" for s h r
    using that by (cases h) (auto simp: header_deserialize_def header_bytes_def bind_eq_Some_conv read_bytes_iff wire_read_iff split: if_splits)
qed

text \<open>The networks do not read each other's messages.\<close>

lemma header_networks: "N \<noteq> N' \<Longrightarrow> header_deserialize N' (header_bytes N h @ r) = None"
  by (cases N; cases N') (simp_all add: header_deserialize_def header_bytes_def read_bytes_def)

subsection \<open>The extensions\<close>

lemma low_bits:
  fixes w :: u8
  assumes "unat w < 16"
  shows "bit w n \<Longrightarrow> n < 4"
proof -
  have "take_bit 4 w = w" using assms by (simp add: word_unat_eq_iff unsigned_take_bit_eq take_bit_nat_eq_self)
  then show "bit w n \<Longrightarrow> n < 4" by (metis bit_take_bit_iff)
qed

text \<open>The masks of the fields of the extensions.\<close>

lemma extension_masks:
  "(0xf00 :: u16) = push_bit 8 (mask 4)" "(0xf000 :: u16) = push_bit 12 (mask 4)" "(0x7ff :: u16) = mask 11"
  by (simp_all add: mask_eq_exp_minus_1 push_bit_eq_mult)

lemma field_get_set:
  fixes e :: u16 and w :: u8
  assumes "unat w < 16" "i + 4 \<le> 16"
  shows "ucast (drop_bit i (((e AND NOT (push_bit i (mask 4))) OR push_bit i (ucast w)) AND push_bit i (mask 4))) = w"
proof (rule bit_word_eqI)
  fix n assume "n < LENGTH(8)"
  then show "bit (ucast (drop_bit i (((e AND NOT (push_bit i (mask 4))) OR push_bit i (ucast w :: u16)) AND push_bit i (mask 4))) :: u8) n
      = bit w n"
    using low_bits [OF assms(1), of n] assms(2)
    by (auto simp: bit_unsigned_iff bit_drop_bit_eq bit_and_iff bit_or_iff bit_push_bit_iff bit_not_iff bit_mask_iff)
qed

lemma field_get_other:
  fixes e :: u16 and w :: u8
  assumes "unat w < 16" "i + 4 \<le> j \<or> j + 4 \<le> i" "i + 4 \<le> 16" "j + 4 \<le> 16"
  shows "((e AND NOT (push_bit i (mask 4))) OR push_bit i (ucast w)) AND push_bit j (mask 4) = e AND push_bit j (mask 4)"
proof (rule bit_word_eqI)
  fix n assume "n < LENGTH(16)"
  then show "bit (((e AND NOT (push_bit i (mask 4))) OR push_bit i (ucast w)) AND push_bit j (mask 4)) n = bit (e AND push_bit j (mask 4)) n"
    using low_bits [OF assms(1), of "n - i"] assms
    by (auto simp: bit_unsigned_iff bit_and_iff bit_or_iff bit_push_bit_iff bit_not_iff bit_mask_iff)
qed

lemma block_type_code_bound: "unat (block_type_code t) < 16"
  by (cases t) simp_all

lemma header_fields [simp]:
  "header_block_type (block_type_set t h) = t"
  "unat n < 16 \<Longrightarrow> count_get (count_set n h) = n"
  "unat n < 16 \<Longrightarrow> header_block_type (count_set n h) = header_block_type h"
  "count_get (block_type_set t h) = count_get h"
  "header_type (block_type_set t h) = header_type h" "header_type (count_set n h) = header_type h"
  "header_type (flag_set i h) = header_type h" "header_type (make_header y) = y"
  "header_type (set_count_present v h) = header_type h"
  "version_using (block_type_set t h) = version_using h" "version_using (count_set n h) = version_using h"
  "version_using (flag_set i h) = version_using h" "version_using (make_header y) = protocol_version"
  "version_using (set_count_present v h) = version_using h"
proof -
  note m = extension_masks
  note c = block_type_code_bound
  have "ucast (drop_bit 8 (extensions (block_type_set t h) AND 0xf00)) = block_type_code t"
    using field_get_set [OF c, of 8] by (simp add: block_type_set_def m del: drop_bit_and)
  then show "header_block_type (block_type_set t h) = t"
    unfolding header_block_type_def by (cases t) (simp_all add: block_type_of_code_def)
  show "count_get (block_type_set t h) = count_get h"
    using field_get_other [OF c, of 8 12] by (simp add: count_get_def block_type_set_def m del: drop_bit_and)
  show "count_get (count_set n h) = n" if "unat n < 16"
    using field_get_set [OF that, of 12] by (simp add: count_get_def count_set_def m del: drop_bit_and)
  show "header_block_type (count_set n h) = header_block_type h" if "unat n < 16"
    using field_get_other [OF that, of 12 8] by (simp add: header_block_type_def count_set_def m del: drop_bit_and)
qed (simp_all add: block_type_set_def count_set_def flag_set_def make_header_def set_count_present_def)

end
