(* ===== verification/Message_Payloads.thy ===== *)
theory Message_Payloads
  imports Message_Codec
begin

text \<open>
  The payloads of messages: what is written is read back under the header of the message, what is
  read has the bytes it would be written as, and the header announces its length.
\<close>

unbundle bit_operations_syntax

section \<open>Codecs\<close>

interpretation endpoint_codec: fixed_codec endpoint_bytes
    "\<lambda>s. do { (a, s) \<leftarrow> read_u128 s; (p, s) \<leftarrow> read_native 2 s; Some ((a, p), s) }" any_value 18
proof unfold_locales
  show "do { (a, s) \<leftarrow> read_u128 (endpoint_bytes p @ r); (q, s) \<leftarrow> read_native 2 s; Some ((a, q), s) } = Some (p, r)" for p r
    by (cases p) (simp add: endpoint_bytes_def wire_read)
  show "True \<and> s = endpoint_bytes p @ r"
    if "do { (a, s) \<leftarrow> read_u128 s; (q, s) \<leftarrow> read_native 2 s; Some ((a, q), s) } = Some (p, r)" for s p r
    using that by (auto simp: endpoint_bytes_def bind_eq_Some_conv wire_read_iff)
  show "length (endpoint_bytes p) = 18" for p by (simp add: endpoint_bytes_def)
  show "do { (a, s) \<leftarrow> read_u128 s; (q, s) \<leftarrow> read_native 2 s; Some ((a, q), s) } \<noteq> None" if "18 \<le> length s" for s
    using that by (simp add: read_be_def read_native_def read_bytes_def)
qed

lemma endpoints_read_enc: "endpoints_read (length ps) (concat (map endpoint_bytes ps) @ r) = Some (ps, r)"
  by (induction ps) (auto simp: endpoint_bytes_def wire_read)

lemma endpoints_read_sound: "endpoints_read n s = Some (ps, r) \<Longrightarrow> length ps = n \<and> s = concat (map endpoint_bytes ps) @ r"
  by (induction n arbitrary: s ps) (fastforce simp: endpoint_bytes_def bind_eq_Some_conv wire_read_iff)+

lemma length_endpoints: "length (concat (map endpoint_bytes ps)) = 18 * length ps"
  by (induction ps) (simp_all add: endpoint_bytes_def)

interpretation keepalive_codec: stream_codec keepalive_serialize keepalive_deserialize "\<lambda>ps. length ps = 8"
proof unfold_locales
  show "keepalive_deserialize (keepalive_serialize ps @ r) = Some (ps, r)" if "length ps = 8" for ps r
    using endpoints_read_enc [of ps r] that by (simp add: keepalive_deserialize_def keepalive_serialize_def)
  show "length ps = 8 \<and> s = keepalive_serialize ps @ r" if "keepalive_deserialize s = Some (ps, r)" for s ps r
    using endpoints_read_sound that by (simp add: keepalive_deserialize_def keepalive_serialize_def)
qed

interpretation publish_codec: stream_codec block_serialize "publish_deserialize h" "wire_block (header_block_type h)" for h
  unfolding publish_deserialize_def
  by unfold_locales (rule deserialize_block_type_enc, assumption, rule deserialize_block_type_sound)

subsection \<open>Requests for confirmation\<close>

abbreviation nonzero_pair :: "block_hash \<times> root \<Rightarrow> bool" where
  "nonzero_pair p \<equiv> p \<noteq> (0, 0)"

lemma roots_hashes_read_enc:
  "list_all nonzero_pair ps \<Longrightarrow> roots_hashes_read (length ps) (concat (map root_hash_bytes ps) @ r) = Some (ps, r)"
  by (induction ps) (auto simp: root_hash_bytes_def wire_read)

lemma roots_hashes_read_sound:
  assumes "roots_hashes_read n s = Some (ps, r)" "length ps = n"
  shows "list_all nonzero_pair ps \<and> s = concat (map root_hash_bytes ps) @ r"
proof -
  have bound: "roots_hashes_read n s = Some (ps, r) \<Longrightarrow> length ps \<le> n" for n s ps r
    by (induction n arbitrary: s ps) (fastforce simp: bind_eq_Some_conv split: if_splits)+
  show ?thesis using assms
  proof (induction n arbitrary: s ps)
    case (Suc n)
    then obtain a b s' qs where q: "s = bytes_be 32 a @ bytes_be 32 b @ s'" "roots_hashes_read n s' = Some (qs, r)"
        "ps = (if a \<noteq> 0 \<or> b \<noteq> 0 then (a, b) # qs else qs)"
      by (auto simp: bind_eq_Some_conv wire_read_iff)
    have nz: "a \<noteq> 0 \<or> b \<noteq> 0" using bound [OF q(2)] q(3) Suc.prems(2) by (auto split: if_splits)
    with q(3) Suc.prems(2) have "length qs = n" by simp
    from Suc.IH [OF q(2) this] q nz show ?case by (auto simp: root_hash_bytes_def)
  qed simp
qed

definition confirm_req_ok :: "message_header \<Rightarrow> confirm_req \<Rightarrow> bool" where
  "confirm_req_ok h m = (if header_block_type h = Not_a_block
     then req_block m = None \<and> roots_hashes m \<noteq> [] \<and> list_all nonzero_pair (roots_hashes m) \<and> length (roots_hashes m) = unat (count_get h)
     else roots_hashes m = [] \<and> (\<exists>b. req_block m = Some b \<and> wire_block (header_block_type h) b))"

abbreviation confirm_req_bytes :: "message_header \<Rightarrow> confirm_req \<Rightarrow> u8 list" where
  "confirm_req_bytes h m \<equiv> the (confirm_req_serialize h m)"

interpretation confirm_req_codec: stream_codec "confirm_req_bytes h" "confirm_req_deserialize h" "confirm_req_ok h" for h
proof unfold_locales
  fix m :: confirm_req and r
  assume ok: "confirm_req_ok h m"
  show "confirm_req_deserialize h (confirm_req_bytes h m @ r) = Some (m, r)"
  proof (cases "header_block_type h = Not_a_block")
    case True
    with ok roots_hashes_read_enc [of "roots_hashes m" r] show ?thesis
      by (cases m) (auto simp: confirm_req_ok_def confirm_req_serialize_def confirm_req_deserialize_def)
  next
    case False
    with ok deserialize_block_type_enc show ?thesis
      by (cases m) (auto simp: confirm_req_ok_def confirm_req_serialize_def confirm_req_deserialize_def)
  qed
next
  fix m :: confirm_req and s r
  assume d: "confirm_req_deserialize h s = Some (m, r)"
  show "confirm_req_ok h m \<and> s = confirm_req_bytes h m @ r"
  proof (cases "header_block_type h = Not_a_block")
    case True
    with d obtain ps where "roots_hashes_read (unat (count_get h)) s = Some (ps, r)" "ps \<noteq> []" "length ps = unat (count_get h)"
        "m = \<lparr>req_block = None, roots_hashes = ps\<rparr>"
      by (auto simp: confirm_req_deserialize_def bind_eq_Some_conv split: if_splits)
    with roots_hashes_read_sound True show ?thesis by (auto simp: confirm_req_ok_def confirm_req_serialize_def)
  next
    case False
    with d deserialize_block_type_sound show ?thesis
      by (fastforce simp: confirm_req_ok_def confirm_req_serialize_def confirm_req_deserialize_def bind_eq_Some_conv)
  qed
qed

subsection \<open>Handshakes, telemetry and requests of the bootstrap\<close>

definition handshake_ok :: "message_header \<Rightarrow> node_id_handshake \<Rightarrow> bool" where
  "handshake_ok h m = ((query m \<noteq> None) = node_id_handshake_is_query h \<and> (response m \<noteq> None) = node_id_handshake_is_response h)"

interpretation handshake_codec: stream_codec handshake_serialize "handshake_deserialize h" "handshake_ok h" for h
proof unfold_locales
  show "handshake_deserialize h (handshake_serialize m @ r) = Some (m, r)" if "handshake_ok h m" for m r
    using that by (cases m) (auto simp: handshake_ok_def handshake_deserialize_def handshake_serialize_def wire_read split: option.splits)
  show "handshake_ok h m \<and> s = handshake_serialize m @ r" if "handshake_deserialize h s = Some (m, r)" for m s r
    using that
    by (auto simp: handshake_ok_def handshake_deserialize_def handshake_serialize_def bind_eq_Some_conv wire_read_iff split: if_splits)
qed

text \<open>A time of whole milliseconds survives the conversion.\<close>

definition timestamp_ok :: "u64 \<Rightarrow> bool" where
  "timestamp_ok t = (1000000 dvd sint t)"

lemma milliseconds_round_trip: "timestamp_ok t \<Longrightarrow> of_milliseconds (to_milliseconds t) = t"
proof -
  assume "timestamp_ok t"
  then obtain k where k: "sint t = 1000000 * k" by (auto simp: timestamp_ok_def)
  have "sint t sdiv 1000000 = k" unfolding k by (simp add: signed_divide_int_def sgn_mult abs_mult sgn_mult_abs)
  then have "of_milliseconds (to_milliseconds t) = word_of_int (1000000 * k)"
    by (simp add: of_milliseconds_def to_milliseconds_def mult.commute)
  then show ?thesis by (simp add: k [symmetric])
qed

lemma telemetry_round_trip:
  "timestamp_ok (tel_timestamp d) \<Longrightarrow> telemetry_deserialize (telemetry_serialize d @ r) = Some (d, r)"
  by (cases d) (simp add: telemetry_deserialize_def telemetry_serialize_def serialize_without_signature_def wire_read milliseconds_round_trip)

lemma length_telemetry: "length (telemetry_serialize d) = telemetry_data_size"
  by (simp add: telemetry_serialize_def serialize_without_signature_def telemetry_data_size_def)

interpretation frontier_req_codec: fixed_codec frontier_req_serialize frontier_req_deserialize any_value 40
proof unfold_locales
  show "frontier_req_deserialize (frontier_req_serialize m @ r) = Some (m, r)" for m r
    by (cases m) (simp add: frontier_req_deserialize_def frontier_req_serialize_def wire_read)
  show "True \<and> s = frontier_req_serialize m @ r" if "frontier_req_deserialize s = Some (m, r)" for s m r
    using that by (auto simp: frontier_req_deserialize_def frontier_req_serialize_def bind_eq_Some_conv wire_read_iff)
  show "length (frontier_req_serialize m) = 40" for m by (simp add: frontier_req_serialize_def)
  show "frontier_req_deserialize s \<noteq> None" if "40 \<le> length s" for s
    using that by (auto simp: frontier_req_deserialize_def read_be_def read_native_def read_bytes_def)
qed

interpretation bulk_pull_account_codec: fixed_codec bulk_pull_account_serialize bulk_pull_account_deserialize any_value 49
proof unfold_locales
  show "bulk_pull_account_deserialize (bulk_pull_account_serialize m @ r) = Some (m, r)" for m r
    by (cases m) (simp add: bulk_pull_account_deserialize_def bulk_pull_account_serialize_def wire_read)
  show "True \<and> s = bulk_pull_account_serialize m @ r" if "bulk_pull_account_deserialize s = Some (m, r)" for s m r
    using that by (auto simp: bulk_pull_account_deserialize_def bulk_pull_account_serialize_def bind_eq_Some_conv wire_read_iff)
  show "length (bulk_pull_account_serialize m) = 49" for m by (simp add: bulk_pull_account_serialize_def)
  show "bulk_pull_account_deserialize s \<noteq> None" if "49 \<le> length s" for s
    using that by (auto simp: bulk_pull_account_deserialize_def read_be_def read_native_def read_bytes_def)
qed

text \<open>The reader of a bulk pull ignores the last three bytes of the extended parameters.\<close>

lemma bulk_pull_round_trip:
  assumes "is_count_present h \<longleftrightarrow> pull_count m \<noteq> 0"
  shows "bulk_pull_deserialize h (bulk_pull_serialize h m @ r) = Some (m, r)"
proof (cases "is_count_present h")
  case True
  have "read_bytes 8 ([0] @ bytes_native 4 (pull_count m) @ [0, 0, 0] @ r) = Some ([0] @ bytes_native 4 (pull_count m) @ [0, 0, 0], r)"
    by (simp add: read_bytes_def)
  with True show ?thesis
    by (cases m) (simp add: bulk_pull_deserialize_def bulk_pull_serialize_def wire_read word_native_bytes_native)
next
  case False
  with assms show ?thesis by (cases m) (simp add: bulk_pull_deserialize_def bulk_pull_serialize_def wire_read)
qed

section \<open>The messages a node sends\<close>

text \<open>
  What the callers of the constructors provide: eight peers, blocks without sideband, fewer than sixteen
  hashes, votes of hashes only or of a single block, times of whole milliseconds.
\<close>

fun vote_sendable :: "vote_item list \<Rightarrow> bool" where
  "vote_sendable [Vote_block b] = (sideband_m b = None)"
| "vote_sendable xs = (xs \<noteq> [] \<and> length xs < 16 \<and> list_all (wire_item_type Not_a_block) xs)"

fun message_ok :: "message \<Rightarrow> bool" where
  "message_ok (Keepalive ps) = (length ps = 8)"
| "message_ok (Publish b) = (sideband_m b = None)"
| "message_ok (Confirm_req_block b) = (sideband_m b = None)"
| "message_ok (Confirm_req_hashes ps) = (ps \<noteq> [] \<and> length ps < 16 \<and> list_all nonzero_pair ps)"
| "message_ok (Confirm_ack v) = vote_sendable (vote_blocks v)"
| "message_ok (Telemetry_ack d) = timestamp_ok (tel_timestamp d)"
| "message_ok _ = True"

lemma unat_count: "n < 16 \<Longrightarrow> unat (word_of_nat n :: u8) = n"
  by (simp add: unat_of_nat)

lemma type_of_block [simp]: "type_of b \<noteq> Not_a_block" "type_of b \<noteq> Invalid"
  using block_type_cases [of b] by auto

lemma flag_bits [simp]:
  "bit (extensions (flag_set i h)) n \<longleftrightarrow> i = n \<and> n < 16 \<or> bit (extensions h) n"
  "\<not> bit (extensions (make_header t)) n" "is_count_present (set_count_present v h) = v"
  by (auto simp: flag_set_def make_header_def set_count_present_def is_count_present_def bit_set_bit_iff bit_unset_bit_iff)

lemma handshake_header:
  "node_id_handshake_is_query (message_header_of (Handshake m)) \<longleftrightarrow> query m \<noteq> None"
  "node_id_handshake_is_response (message_header_of (Handshake m)) \<longleftrightarrow> response m \<noteq> None"
  by (auto simp: node_id_handshake_is_query_def node_id_handshake_is_response_def Let_def)

lemma telemetry_header: "telemetry_size (message_header_of (Telemetry_ack d)) = word_of_nat telemetry_data_size"
  by (simp add: telemetry_size_def make_header_def Let_def telemetry_data_size_def)

lemma vote_sendable_cases:
  assumes "vote_sendable xs"
  obtains b where "xs = [Vote_block b]" "sideband_m b = None"
  | h ys where "xs = Vote_hash h # ys" "length xs < 16" "list_all (wire_item_type Not_a_block) xs"
proof (cases xs)
  case (Cons x ys)
  with assms that show ?thesis by (cases x; cases ys) auto
qed (use assms in simp)

lemma confirm_ack_header:
  "vote_blocks v = [Vote_block b] \<Longrightarrow> header_block_type (message_header_of (Confirm_ack v)) = type_of b"
  "vote_blocks v = Vote_hash h # ys \<Longrightarrow> length (vote_blocks v) < 16 \<Longrightarrow>
     header_block_type (message_header_of (Confirm_ack v)) = Not_a_block
     \<and> unat (count_get (message_header_of (Confirm_ack v))) = length (vote_blocks v)"
  using unat_count [of "Suc (length ys)"] by simp_all

lemma confirm_ack_header_type [simp]: "header_type (message_header_of (Confirm_ack v)) = mt_confirm_ack"
  "header_type (message_header_of (Telemetry_ack d)) = mt_telemetry_ack"
  "header_type (message_header_of (Handshake m)) = mt_node_id_handshake"
  by (auto simp: Let_def make_header_def split: list.split vote_item.split)

lemma length_vote_items:
  "list_all (wire_item_type t) xs \<Longrightarrow> length (concat (map (vote_item_serialize_type C t) xs)) =
     (if t = Not_a_block then 32 else block_size t) * length xs"
proof (induction xs)
  case (Cons x xs)
  then show ?case by (cases x) (auto simp: length_block_serialize wire_block_def)
qed simp

lemma length_vote_head [simp]: "length (vote_head_bytes v) = 104"
  by (simp add: vote_head_bytes_def)

lemma length_root_hashes: "length (concat (map root_hash_bytes ps)) = 64 * length ps"
  by (induction ps) (simp_all add: root_hash_bytes_def)

text \<open>The length that the header announces is the length of the payload.\<close>

lemma confirm_ack_length:
  assumes "vote_sendable (vote_blocks v)"
  shows "length (message_payload C (Confirm_ack v)) = payload_length_bytes (message_header_of (Confirm_ack v))"
  using assms
proof (cases rule: vote_sendable_cases)
  case (1 b)
  note h = confirm_ack_header(1) [OF 1(1)]
  show ?thesis
    using 1 by (simp del: message_header_of.simps add: h vote_serialize_type_def length_block_serialize payload_length_bytes_def
        confirm_ack_size_def message_type_defs)
next
  case (2 x ys)
  note h = confirm_ack_header(2) [OF 2(1,2)]
  from length_vote_items [OF 2(3), of C] show ?thesis
    by (simp del: message_header_of.simps add: h vote_serialize_type_def payload_length_bytes_def confirm_ack_size_def message_type_defs)
qed

lemma message_length:
  assumes "message_ok m"
  shows "length (message_payload C m) = payload_length_bytes (message_header_of m)"
proof (cases m)
  case (Confirm_ack v)
  with assms confirm_ack_length show ?thesis by simp
next
  case (Telemetry_ack d)
  have "\<not> is_empty_payload (message_header_of (Telemetry_ack d))"
    by (simp only: is_empty_payload_def telemetry_header) (simp add: telemetry_data_size_def)
  moreover have "unat (telemetry_size (message_header_of (Telemetry_ack d))) = telemetry_data_size"
    by (simp only: telemetry_header) (simp add: telemetry_data_size_def)
  ultimately show ?thesis
    by (simp add: Telemetry_ack telemetry_ack_serialize_def length_telemetry payload_length_bytes_def message_type_defs Let_def make_header_def
        del: message_header_of.simps)
next
  case (Handshake d)
  then show ?thesis
    by (auto simp: handshake_serialize_def payload_length_bytes_def handshake_size_def handshake_header message_type_defs
        simp del: message_header_of.simps split: option.split)
qed (use assms in \<open>auto simp: keepalive_serialize_def length_endpoints payload_length_bytes_def message_type_defs length_block_serialize
      confirm_req_serialize_def confirm_req_size_def unat_count length_root_hashes frontier_req_serialize_def bulk_pull_serialize_def
      bulk_pull_account_serialize_def bulk_pull_is_count_present_def is_count_present_def [symmetric]\<close>)

end
