(* ===== verification/Network_Filter.thy ===== *)
theory Network_Filter
  imports Byte_Codec
begin

text \<open>
  The duplicate filter of published blocks (\<open>futurehead/secure/network_filter.cpp\<close>): a table of digests
  in which each digest has one slot. The digest function \<open>sip\<close> (SipHash with the filter's key) is
  third-party code. Every operation holds the mutex for its whole body, so each is one step.
\<close>

type_synonym filter_items = "u128 list"

definition filter_index :: "filter_items \<Rightarrow> u128 \<Rightarrow> nat" where
  "filter_index items hash = unat hash mod length items"

text \<open>\<open>apply\<close>: whether the digest was there, the digest, and the filter. An empty filter divides by zero.\<close>

definition filter_apply :: "(u8 list \<Rightarrow> u128) \<Rightarrow> u8 list \<Rightarrow> filter_items \<Rightarrow> (bool \<times> u128 \<times> filter_items) option" where
  "filter_apply sip bytes items =
     (if items = [] then None
      else let digest = sip bytes; i = filter_index items digest; existed = items ! i = digest
           in Some (existed, digest, if existed then items else items[i := digest]))"

definition filter_clear_digest :: "u128 \<Rightarrow> filter_items \<Rightarrow> filter_items option" where
  "filter_clear_digest digest items =
     (if items = [] then None
      else let i = filter_index items digest in Some (if items ! i = digest then items[i := 0] else items))"

fun filter_clear_digests :: "u128 list \<Rightarrow> filter_items \<Rightarrow> filter_items option" where
  "filter_clear_digests [] items = Some items"
| "filter_clear_digests (d # ds) items = do { items \<leftarrow> filter_clear_digest d items; filter_clear_digests ds items }"

definition filter_clear_bytes :: "(u8 list \<Rightarrow> u128) \<Rightarrow> u8 list \<Rightarrow> filter_items \<Rightarrow> filter_items option" where
  "filter_clear_bytes sip bytes items = filter_clear_digest (sip bytes) items"

text \<open>The template for an object, given how it is serialized.\<close>

definition filter_clear_object :: "(u8 list \<Rightarrow> u128) \<Rightarrow> ('a \<Rightarrow> u8 list) \<Rightarrow> 'a \<Rightarrow> filter_items \<Rightarrow> filter_items option" where
  "filter_clear_object sip ser x items = filter_clear_digest (sip (ser x)) items"

definition filter_clear :: "filter_items \<Rightarrow> filter_items" where
  "filter_clear items = replicate (length items) 0"

definition filter_new :: "nat \<Rightarrow> filter_items" where
  "filter_new n = replicate n 0"

section \<open>The contract\<close>

text \<open>What the filter holds. A digest in another slot is neither added nor lost by an operation.\<close>

definition filter_holds :: "filter_items \<Rightarrow> u128 \<Rightarrow> bool" where
  "filter_holds items d = (items ! filter_index items d = d)"

lemma filter_index_update [simp]: "filter_index (items[i := x]) d = filter_index items d"
  by (simp add: filter_index_def)

lemma filter_index_bound [simp]: "items \<noteq> [] \<Longrightarrow> filter_index items d < length items"
  by (simp add: filter_index_def)

lemma filter_apply_holds:
  assumes "filter_apply sip bytes items = Some (existed, digest, items')"
  shows "existed \<longleftrightarrow> filter_holds items digest" "digest = sip bytes" "length items' = length items"
    "filter_holds items' d \<longleftrightarrow> d = digest \<or> filter_holds items d \<and> filter_index items d \<noteq> filter_index items digest"
  using assms
  by (auto simp: filter_apply_def filter_holds_def Let_def nth_list_update split: if_splits)

lemma filter_clear_digest_holds:
  assumes "filter_clear_digest digest items = Some items'"
  shows "length items' = length items" "d \<noteq> 0 \<Longrightarrow> filter_holds items' d \<longleftrightarrow> filter_holds items d \<and> d \<noteq> digest"
  using assms
  by (auto simp: filter_clear_digest_def filter_holds_def Let_def nth_list_update split: if_splits)

lemma filter_clear_digests_holds:
  assumes "filter_clear_digests ds items = Some items'" "d \<noteq> 0"
  shows "filter_holds items' d \<longleftrightarrow> filter_holds items d \<and> d \<notin> set ds"
  using assms
proof (induction ds arbitrary: items)
  case (Cons x ds)
  then obtain items1 where i: "filter_clear_digest x items = Some items1" "filter_clear_digests ds items1 = Some items'"
    by (auto simp: bind_eq_Some_conv)
  from Cons.IH [OF i(2) Cons.prems(2)] filter_clear_digest_holds(2) [OF i(1) Cons.prems(2)] show ?case by auto
qed simp

lemma filter_returns:
  assumes "items \<noteq> []"
  shows "\<exists>r. filter_apply sip bytes items = Some r" "\<exists>r. filter_clear_digest d items = Some r"
  using assms by (simp_all add: filter_apply_def filter_clear_digest_def Let_def)

lemma filter_clear_digests_returns: "items \<noteq> [] \<Longrightarrow> \<exists>r. filter_clear_digests ds items = Some r"
proof (induction ds arbitrary: items)
  case (Cons d ds)
  obtain items1 where i: "filter_clear_digest d items = Some items1" using filter_returns(2) [OF Cons.prems] by blast
  then have "items1 \<noteq> []" using filter_clear_digest_holds(1) [OF i] Cons.prems by auto
  then show ?case using Cons.IH i by simp
qed simp

lemma filter_cleared_holds:
  assumes "0 < length items"
  shows "filter_holds (filter_clear items) d \<longleftrightarrow> d = 0" "filter_holds (filter_new (length items)) d \<longleftrightarrow> d = 0"
proof -
  have "unat d mod length items < length items" using assms by simp
  then show "filter_holds (filter_clear items) d \<longleftrightarrow> d = 0" "filter_holds (filter_new (length items)) d \<longleftrightarrow> d = 0"
    by (auto simp: filter_holds_def filter_clear_def filter_new_def filter_index_def)
qed

end
