(* ===== verification/Uniquers.thy ===== *)
theory Uniquers
  imports Votes
begin

text \<open>
  The uniquers (\<open>block_uniquer\<close> in \<open>futurehead/lib/blocks.cpp\<close>, \<open>vote_uniquer\<close> in \<open>futurehead/secure/common.cpp\<close>): a
  block or vote that was just read is replaced by one in memory that has the same full hash. The tables hold weak
  pointers, so what they yield depends on who still holds a block or vote, and is an argument here: the blocks and
  votes that are alive, by the key they were entered under. (The entry that a call adds for a new value yields this value as
  long as somebody holds it; the cleanup removes entries that yield nothing.)
\<close>

section \<open>The code\<close>

record uniquers =
  live_blocks :: "block_hash \<Rightarrow> block option"
  live_votes :: "block_hash \<Rightarrow> vote option"

definition block_unique :: "crypto \<Rightarrow> uniquers \<Rightarrow> block \<Rightarrow> block" where
  "block_unique C U b = (case live_blocks U (block_full_hash C b) of Some existing \<Rightarrow> existing | None \<Rightarrow> b)"

text \<open>Only the first block of the vote is replaced; the key is computed afterwards.\<close>

fun unique_front :: "crypto \<Rightarrow> uniquers \<Rightarrow> vote_item list \<Rightarrow> vote_item list" where
  "unique_front C U (Vote_block b # xs) = Vote_block (block_unique C U b) # xs"
| "unique_front C U xs = xs"

definition vote_unique :: "crypto \<Rightarrow> uniquers \<Rightarrow> vote \<Rightarrow> vote" where
  "vote_unique C U v =
     (if vote_blocks v \<noteq> [] then
        let v = v\<lparr>vote_blocks := unique_front C U (vote_blocks v)\<rparr>
        in (case live_votes U (vote_full_hash C v) of Some existing \<Rightarrow> existing | None \<Rightarrow> v)
      else v)"

definition no_live :: uniquers where
  "no_live = \<lparr>live_blocks = (\<lambda>_. None), live_votes = (\<lambda>_. None)\<rparr>"

section \<open>Properties\<close>

lemma no_live_unique [simp]: "block_unique C no_live b = b" "vote_unique C no_live v = v"
proof -
  show b: "block_unique C no_live b = b" for b by (simp add: block_unique_def no_live_def)
  have "unique_front C no_live xs = xs" for xs
    by (cases "(C, no_live, xs)" rule: unique_front.cases) (simp_all add: b)
  then show "vote_unique C no_live v = v" by (simp add: vote_unique_def no_live_def Let_def)
qed

text \<open>
  The values under the full hash of a block or vote are equal to it, in the sense of the source's comparisons (which
  ignore the sideband). For blocks this is the absence of collisions of the digest. For votes it is a restriction: the full hash reads
  only eight bytes of the account and of the signature.
\<close>

definition live_block_same :: "crypto \<Rightarrow> uniquers \<Rightarrow> block \<Rightarrow> bool" where
  "live_block_same C U b = (\<forall>b'. live_blocks U (block_full_hash C b) = Some b' \<longrightarrow> blocks_equal b' b)"

definition live_vote_same :: "crypto \<Rightarrow> uniquers \<Rightarrow> vote \<Rightarrow> bool" where
  "live_vote_same C U v = (\<forall>w. live_votes U (vote_full_hash C v) = Some w \<longrightarrow> vote_eq w v)"

lemma blocks_equal_refl [simp]: "blocks_equal b b"
  by (simp add: blocks_equal_iff)

lemma block_unique_same: "live_block_same C U b \<Longrightarrow> blocks_equal (block_unique C U b) b"
  by (cases "live_blocks U (block_full_hash C b)") (simp_all add: live_block_same_def block_unique_def)

lemma vote_item_eq_refl [simp]: "vote_item_eq x x"
  by (cases x) simp_all

lemma vote_eq_refl [simp]: "vote_eq v v"
  by (simp add: vote_eq_serialize)

lemma vote_item_eq_hash: "vote_item_eq x y \<Longrightarrow> vote_item_hash C x = vote_item_hash C y"
  by (cases x; cases y) (auto simp: blocks_equal_iff generate_hash_def)

text \<open>Replacing the first block by an equal one keeps the vote equal, and its full hash.\<close>

lemma unique_front_same:
  assumes "\<forall>b \<in> set [b. Vote_block b \<leftarrow> xs]. live_block_same C U b"
  shows "list_all2 vote_item_eq (unique_front C U xs) xs" "(\<exists>h ys. unique_front C U xs = Vote_hash h # ys) \<longleftrightarrow> (\<exists>h ys. xs = Vote_hash h # ys)"
proof -
  have refl: "list_all2 vote_item_eq ys ys" for ys by (simp add: list_all2_refl)
  show "list_all2 vote_item_eq (unique_front C U xs) xs"
    using assms by (cases "(C, U, xs)" rule: unique_front.cases) (simp_all add: refl block_unique_same)
  show "(\<exists>h ys. unique_front C U xs = Vote_hash h # ys) \<longleftrightarrow> (\<exists>h ys. xs = Vote_hash h # ys)"
    by (cases "(C, U, xs)" rule: unique_front.cases) simp_all
qed

lemma items_eq_hashes: "list_all2 vote_item_eq xs ys \<Longrightarrow> map (vote_item_hash C) xs = map (vote_item_hash C) ys"
  by (induction rule: list_all2_induct) (simp_all add: vote_item_eq_hash)

lemma vote_eqI:
  "list_all2 vote_item_eq xs (vote_blocks v) \<Longrightarrow> vote_eq (v\<lparr>vote_blocks := xs\<rparr>) v"
  by (simp add: vote_eq_def list_all2_iff list_all_iff Let_def)

lemma vote_eq_full_hash:
  assumes "list_all2 vote_item_eq xs (vote_blocks v)"
  shows "vote_full_hash C (v\<lparr>vote_blocks := xs\<rparr>) = vote_full_hash C v"
proof -
  have head: "(case xs of Vote_hash _ # _ \<Rightarrow> True | _ \<Rightarrow> False) = (case vote_blocks v of Vote_hash _ # _ \<Rightarrow> True | _ \<Rightarrow> False)"
    using assms by (cases xs; cases "vote_blocks v")
      (auto split: vote_item.split elim: vote_item_eq.elims)
  show ?thesis
    using items_eq_hashes [OF assms] list_all2_lengthD [OF assms] head
    by (simp add: vote_full_hash_def vote_hash_def vote_hash_input_def vote_hashes_def Let_def)
qed

lemma vote_unique_same:
  assumes "\<forall>b \<in> set [b. Vote_block b \<leftarrow> vote_blocks v]. live_block_same C U b" "live_vote_same C U v"
  shows "vote_eq (vote_unique C U v) v"
proof -
  note items = unique_front_same(1) [OF assms(1)]
  show ?thesis
    using vote_eqI [OF items] assms(2) unfolding vote_unique_def live_vote_same_def
    by (auto simp: vote_eq_full_hash [OF items] Let_def split: option.split)
qed

text \<open>
  A vote of hashes with another account or signature, as long as their first eight bytes agree, takes the place of the one that
  was read while it is alive.
\<close>

lemma forged_vote_delivered:
  assumes "vote_blocks v = map Vote_hash hs" "hs \<noteq> []" "vote_blocks w = vote_blocks v" "vote_sequence w = vote_sequence v"
    and "take 8 (bytes_be 32 (vote_account w)) = take 8 (bytes_be 32 (vote_account v))"
    and "take 8 (bytes_be 64 (vote_signature w)) = take 8 (bytes_be 64 (vote_signature v))"
    and "live_votes U (vote_full_hash C w) = Some w"
  shows "vote_unique C U v = w"
proof -
  have "vote_full_hash C v = vote_full_hash C w"
    using assms(3-6)
    by (intro vote_full_hash_truncated) (simp_all add: vote_hash_def vote_hash_input_def vote_hashes_def)
  moreover have "v\<lparr>vote_blocks := unique_front C U (vote_blocks v)\<rparr> = v"
    using assms(1,2) by (cases v; cases hs) simp_all
  moreover have "vote_blocks v \<noteq> []" using assms(1,2) by simp
  ultimately show ?thesis using assms(7) by (simp only: vote_unique_def Let_def if_True option.case simp_thms)
qed

end
