(* ===== verification/Message_Parser.thy ===== *)
theory Message_Parser
  imports Message_Payloads Network_Filter Uniquers
begin

text \<open>
  The parser of incoming datagrams (\<open>futurehead/node/common.cpp\<close>, \<open>message_parser\<close>): the header, the filter of
  published blocks, the payload, the end of the buffer and the work of the blocks. The call of the visitor,
  if any, is part of the result. The digest function of the filter is the parameter \<open>sip\<close>; \<open>U\<close> are the blocks and votes
  in memory that the uniquers find. The constructors of the messages pass what they have read to the uniquers at once.
\<close>

section \<open>The code\<close>

datatype parse_status = Success | Insufficient_work | Invalid_header | Invalid_message_type | Invalid_keepalive_message
  | Invalid_publish_message | Invalid_confirm_req_message | Invalid_confirm_ack_message | Invalid_node_id_handshake_message
  | Invalid_telemetry_req_message | Invalid_telemetry_ack_message | Outdated_version | Invalid_magic | Invalid_network
  | Duplicate_publish_message

text \<open>The calls of the visitor.\<close>

datatype visit =
    Visit_keepalive message_header "endpoint list"
  | Visit_publish message_header block u128
  | Visit_confirm_req message_header confirm_req
  | Visit_confirm_ack message_header vote
  | Visit_node_id_handshake message_header node_id_handshake
  | Visit_telemetry_req message_header
  | Visit_telemetry_ack message_header telemetry_data

type_synonym parse_result = "parse_status \<times> visit option"

definition max_safe_udp_message_size :: nat where "max_safe_udp_message_size = 508"

text \<open>\<open>at_end\<close>: no further byte can be read.\<close>

definition at_end :: "u8 list \<Rightarrow> bool" where
  "at_end s = (read_u8 s = None)"

definition deserialize_keepalive :: "message_header \<Rightarrow> u8 list \<Rightarrow> parse_result" where
  "deserialize_keepalive h s = (case keepalive_deserialize s of
     Some (ps, s') \<Rightarrow> if at_end s' then (Success, Some (Visit_keepalive h ps)) else (Invalid_keepalive_message, None)
   | None \<Rightarrow> (Invalid_keepalive_message, None))"

definition deserialize_publish ::
    "crypto \<Rightarrow> futurehead_networks \<Rightarrow> uniquers \<Rightarrow> message_header \<Rightarrow> u128 \<Rightarrow> u8 list \<Rightarrow> parse_result" where
  "deserialize_publish C N U h digest s = (case publish_deserialize h s of
     Some (b, s') \<Rightarrow> (let b = block_unique C U b in
       if at_end s' then
         (if \<not> work_validate_entry C N b then (Success, Some (Visit_publish h b digest)) else (Insufficient_work, None))
       else (Invalid_publish_message, None))
   | None \<Rightarrow> (Invalid_publish_message, None))"

definition confirm_req_unique :: "crypto \<Rightarrow> uniquers \<Rightarrow> confirm_req \<Rightarrow> confirm_req" where
  "confirm_req_unique C U m = m\<lparr>req_block := map_option (block_unique C U) (req_block m)\<rparr>"

definition deserialize_confirm_req ::
    "crypto \<Rightarrow> futurehead_networks \<Rightarrow> uniquers \<Rightarrow> message_header \<Rightarrow> u8 list \<Rightarrow> parse_result" where
  "deserialize_confirm_req C N U h s = (case confirm_req_deserialize h s of
     Some (m, s') \<Rightarrow> (let m = confirm_req_unique C U m in
       if at_end s' then
         (if (case req_block m of None \<Rightarrow> True | Some b \<Rightarrow> \<not> work_validate_entry C N b)
          then (Success, Some (Visit_confirm_req h m)) else (Insufficient_work, None))
       else (Invalid_confirm_req_message, None))
   | None \<Rightarrow> (Invalid_confirm_req_message, None))"

fun vote_item_work :: "crypto \<Rightarrow> futurehead_networks \<Rightarrow> vote_item \<Rightarrow> bool" where
  "vote_item_work C N (Vote_block b) = (\<not> work_validate_entry C N b)"
| "vote_item_work C N (Vote_hash h) = True"

text \<open>The constructor of a vote reads to the end of the stream.\<close>

definition deserialize_confirm_ack ::
    "crypto \<Rightarrow> futurehead_networks \<Rightarrow> uniquers \<Rightarrow> message_header \<Rightarrow> u8 list \<Rightarrow> parse_result" where
  "deserialize_confirm_ack C N U h s = (case vote_deserialize_type (header_block_type h) s of
     Some v \<Rightarrow> (let v = vote_unique C U v in
       if list_all (vote_item_work C N) (vote_blocks v) then (Success, Some (Visit_confirm_ack h v)) else (Insufficient_work, None))
   | None \<Rightarrow> (Invalid_confirm_ack_message, None))"

definition deserialize_node_id_handshake :: "message_header \<Rightarrow> u8 list \<Rightarrow> parse_result" where
  "deserialize_node_id_handshake h s = (case handshake_deserialize h s of
     Some (m, s') \<Rightarrow>
       if at_end s' then (Success, Some (Visit_node_id_handshake h m)) else (Invalid_node_id_handshake_message, None)
   | None \<Rightarrow> (Invalid_node_id_handshake_message, None))"

definition deserialize_telemetry_req :: "message_header \<Rightarrow> u8 list \<Rightarrow> parse_result" where
  "deserialize_telemetry_req h s =
     (if at_end s then (Success, Some (Visit_telemetry_req h)) else (Invalid_telemetry_req_message, None))"

text \<open>Further bytes are ignored, for later versions of the record.\<close>

definition deserialize_telemetry_ack :: "message_header \<Rightarrow> u8 list \<Rightarrow> parse_result" where
  "deserialize_telemetry_ack h s = (case telemetry_ack_deserialize h s of
     Some (d, s') \<Rightarrow> (Success, Some (Visit_telemetry_ack h d))
   | None \<Rightarrow> (Invalid_telemetry_ack_message, None))"

text \<open>The switch over the type; \<open>payload\<close> is the buffer after the header.\<close>

definition deserialize_payload ::
    "crypto \<Rightarrow> futurehead_networks \<Rightarrow> uniquers \<Rightarrow> (u8 list \<Rightarrow> u128) \<Rightarrow> filter_items \<Rightarrow> message_header \<Rightarrow> u8 list \<Rightarrow> u8 list
      \<Rightarrow> (parse_result \<times> filter_items) option" where
  "deserialize_payload C N U sip items h payload s =
     (if header_type h = mt_keepalive then Some (deserialize_keepalive h s, items)
      else if header_type h = mt_publish then do {
        (existed, digest, items) \<leftarrow> filter_apply sip payload items;
        Some (if \<not> existed then deserialize_publish C N U h digest s else (Duplicate_publish_message, None), items) }
      else if header_type h = mt_confirm_req then Some (deserialize_confirm_req C N U h s, items)
      else if header_type h = mt_confirm_ack then Some (deserialize_confirm_ack C N U h s, items)
      else if header_type h = mt_node_id_handshake then Some (deserialize_node_id_handshake h s, items)
      else if header_type h = mt_telemetry_req then Some (deserialize_telemetry_req h s, items)
      else if header_type h = mt_telemetry_ack then Some (deserialize_telemetry_ack h s, items)
      else Some ((Invalid_message_type, None), items))"

text \<open>The status, the visit and the filter afterwards. A buffer that is too long is dropped in silence.\<close>

definition deserialize_buffer ::
    "crypto \<Rightarrow> futurehead_networks \<Rightarrow> uniquers \<Rightarrow> bool \<Rightarrow> (u8 list \<Rightarrow> u128) \<Rightarrow> filter_items \<Rightarrow> u8 list \<Rightarrow> (parse_result \<times> filter_items) option" where
  "deserialize_buffer C N U use_epoch_2_min_version sip items buffer =
     (if length buffer > max_safe_udp_message_size then Some ((Success, None), items)
      else (case header_deserialize N buffer of
        None \<Rightarrow> Some ((Invalid_header, None), items)
      | Some (h, s) \<Rightarrow>
          if version_using h < protocol_version_min use_epoch_2_min_version then Some ((Outdated_version, None), items)
          else deserialize_payload C N U sip items h (drop 8 buffer) s))"

section \<open>What is delivered\<close>

text \<open>The bytes a visit stands for, and what the node has checked when it makes it.\<close>

fun visit_header :: "visit \<Rightarrow> message_header" where
  "visit_header (Visit_keepalive h _) = h"
| "visit_header (Visit_publish h _ _) = h"
| "visit_header (Visit_confirm_req h _) = h"
| "visit_header (Visit_confirm_ack h _) = h"
| "visit_header (Visit_node_id_handshake h _) = h"
| "visit_header (Visit_telemetry_req h) = h"
| "visit_header (Visit_telemetry_ack h _) = h"

fun visit_payload :: "crypto \<Rightarrow> visit \<Rightarrow> u8 list" where
  "visit_payload C (Visit_keepalive h ps) = keepalive_serialize ps"
| "visit_payload C (Visit_publish h b d) = block_serialize b"
| "visit_payload C (Visit_confirm_req h m) = confirm_req_bytes h m"
| "visit_payload C (Visit_confirm_ack h v) = vote_serialize_type C (header_block_type h) v"
| "visit_payload C (Visit_node_id_handshake h m) = handshake_serialize m"
| "visit_payload C (Visit_telemetry_req h) = []"
| "visit_payload C (Visit_telemetry_ack h d) = telemetry_ack_serialize h d"

text \<open>What is checked of the message as it was read, and of the message as it is delivered.\<close>

fun visit_wire :: "(u8 list \<Rightarrow> u128) \<Rightarrow> filter_items \<Rightarrow> visit \<Rightarrow> bool" where
  "visit_wire sip items (Visit_keepalive h ps) = (header_type h = mt_keepalive \<and> length ps = 8)"
| "visit_wire sip items (Visit_publish h b d) = (header_type h = mt_publish \<and> wire_block (header_block_type h) b
     \<and> d = sip (block_serialize b) \<and> \<not> filter_holds items d)"
| "visit_wire sip items (Visit_confirm_req h m) = (header_type h = mt_confirm_req \<and> confirm_req_ok h m)"
| "visit_wire sip items (Visit_confirm_ack h v) = (header_type h = mt_confirm_ack \<and> vote_blocks v \<noteq> []
     \<and> list_all (wire_item_type (header_block_type h)) (vote_blocks v))"
| "visit_wire sip items (Visit_node_id_handshake h m) = (header_type h = mt_node_id_handshake \<and> handshake_ok h m)"
| "visit_wire sip items (Visit_telemetry_req h) = (header_type h = mt_telemetry_req)"
| "visit_wire sip items (Visit_telemetry_ack h d) = (header_type h = mt_telemetry_ack
     \<and> (if is_empty_payload h then d = telemetry_default else timestamp_ok (tel_timestamp d)))"

fun visit_work :: "crypto \<Rightarrow> futurehead_networks \<Rightarrow> visit \<Rightarrow> bool" where
  "visit_work C N (Visit_publish h b d) = (\<not> work_validate_entry C N b)"
| "visit_work C N (Visit_confirm_req h m) = (\<forall>b. req_block m = Some b \<longrightarrow> \<not> work_validate_entry C N b)"
| "visit_work C N (Visit_confirm_ack h v) = list_all (vote_item_work C N) (vote_blocks v)"
| "visit_work C N _ = True"

text \<open>The message with its block or vote replaced by the one the uniquers find.\<close>

fun visit_unique :: "crypto \<Rightarrow> uniquers \<Rightarrow> visit \<Rightarrow> visit" where
  "visit_unique C U (Visit_publish h b d) = Visit_publish h (block_unique C U b) d"
| "visit_unique C U (Visit_confirm_req h m) = Visit_confirm_req h (confirm_req_unique C U m)"
| "visit_unique C U (Visit_confirm_ack h v) = Visit_confirm_ack h (vote_unique C U v)"
| "visit_unique C U e = e"

text \<open>\<open>e\<close> is delivered for the message \<open>e0\<close> that was read.\<close>

definition delivers :: "crypto \<Rightarrow> futurehead_networks \<Rightarrow> uniquers \<Rightarrow> (u8 list \<Rightarrow> u128) \<Rightarrow> filter_items \<Rightarrow> visit \<Rightarrow> visit \<Rightarrow> bool" where
  "delivers C N U sip items e0 e = (visit_wire sip items e0 \<and> e = visit_unique C U e0 \<and> visit_work C N e)"

lemma at_end_iff [simp]: "at_end s \<longleftrightarrow> s = []"
  by (cases s) (simp_all add: at_end_def read_native_def read_bytes_def)

text \<open>A payload that must fill the buffer: it is accepted exactly when it is the written form of a value.\<close>

context stream_codec
begin

lemma parsed_iff:
  "(case dec s of Some (m, s') \<Rightarrow> if at_end s' then (if P m then (Success, Some (V m)) else (x, None)) else (y, None)
     | None \<Rightarrow> (y, None)) = (Success, Some e) \<longleftrightarrow> (\<exists>m. e = V m \<and> P m \<and> valid m \<and> s = enc m)"
proof -
  have "(case dec s of Some (m, s') \<Rightarrow> if at_end s' then (if P m then (Success, Some (V m)) else (x, None)) else (y, None)
     | None \<Rightarrow> (y, None)) = (Success, Some e) \<longleftrightarrow> (\<exists>m. e = V m \<and> P m \<and> dec s = Some (m, []))"
    by (auto split: option.split)
  then show ?thesis by (simp add: dec_iff)
qed

end

lemma deserialize_keepalive_iff:
  "deserialize_keepalive h s = (Success, Some e) \<longleftrightarrow> (\<exists>ps. e = Visit_keepalive h ps \<and> length ps = 8 \<and> s = keepalive_serialize ps)"
  unfolding deserialize_keepalive_def
  by (rule keepalive_codec.parsed_iff [where P = "\<lambda>_. True", unfolded if_True simp_thms])

lemma deserialize_publish_iff:
  "deserialize_publish C N U h d s = (Success, Some e) \<longleftrightarrow>
     (\<exists>b. e = visit_unique C U (Visit_publish h b d) \<and> visit_work C N e \<and> wire_block (header_block_type h) b \<and> s = block_serialize b)"
  unfolding deserialize_publish_def Let_def publish_codec.parsed_iff by auto

lemma deserialize_confirm_req_iff:
  "deserialize_confirm_req C N U h s = (Success, Some e) \<longleftrightarrow>
     (\<exists>m. e = visit_unique C U (Visit_confirm_req h m) \<and> visit_work C N e \<and> confirm_req_ok h m \<and> s = confirm_req_bytes h m)"
proof -
  have "(case b of None \<Rightarrow> True | Some b \<Rightarrow> \<not> work_validate_entry C N b) \<longleftrightarrow> (\<forall>b'. b = Some b' \<longrightarrow> \<not> work_validate_entry C N b')" for b
    by (auto split: option.split)
  then show ?thesis unfolding deserialize_confirm_req_def Let_def confirm_req_codec.parsed_iff by auto
qed

lemma deserialize_confirm_ack_iff:
  "deserialize_confirm_ack C N U h s = (Success, Some e) \<longleftrightarrow>
     (\<exists>v. e = visit_unique C U (Visit_confirm_ack h v) \<and> visit_work C N e \<and> vote_blocks v \<noteq> []
        \<and> list_all (wire_item_type (header_block_type h)) (vote_blocks v) \<and> s = vote_serialize_type C (header_block_type h) v)"
proof -
  have "deserialize_confirm_ack C N U h s = (Success, Some e) \<longleftrightarrow> (\<exists>v. e = visit_unique C U (Visit_confirm_ack h v)
      \<and> vote_deserialize_type (header_block_type h) s = Some v \<and> visit_work C N e)"
    by (auto simp: deserialize_confirm_ack_def Let_def split: option.split)
  then show ?thesis using vote_deserialize_type_iff [of "header_block_type h" s _ C] by blast
qed

lemma deserialize_handshake_iff:
  "deserialize_node_id_handshake h s = (Success, Some e) \<longleftrightarrow>
     (\<exists>m. e = Visit_node_id_handshake h m \<and> handshake_ok h m \<and> s = handshake_serialize m)"
  unfolding deserialize_node_id_handshake_def
  by (rule handshake_codec.parsed_iff [where P = "\<lambda>_. True", unfolded if_True simp_thms])

lemma deserialize_telemetry_ack_enc:
  assumes "visit_wire sip items (Visit_telemetry_ack h d)"
  shows "deserialize_telemetry_ack h (telemetry_ack_serialize h d @ r) = (Success, Some (Visit_telemetry_ack h d))"
  using assms telemetry_round_trip
  by (auto simp: deserialize_telemetry_ack_def telemetry_ack_serialize_def telemetry_ack_deserialize_def split: if_splits)


lemma deserialize_telemetry_req_iff:
  "deserialize_telemetry_req h s = (Success, Some e) \<longleftrightarrow> e = Visit_telemetry_req h \<and> s = []"
  by (auto simp: deserialize_telemetry_req_def)

lemmas deserialize_iffs = deserialize_keepalive_iff deserialize_confirm_req_iff deserialize_confirm_ack_iff
  deserialize_handshake_iff deserialize_telemetry_req_iff

lemma deserialize_payload_simps:
  "header_type h = mt_keepalive \<Longrightarrow> deserialize_payload C N U sip items h p s = Some (deserialize_keepalive h s, items)"
  "header_type h = mt_confirm_req \<Longrightarrow> deserialize_payload C N U sip items h p s = Some (deserialize_confirm_req C N U h s, items)"
  "header_type h = mt_confirm_ack \<Longrightarrow> deserialize_payload C N U sip items h p s = Some (deserialize_confirm_ack C N U h s, items)"
  "header_type h = mt_node_id_handshake \<Longrightarrow>
     deserialize_payload C N U sip items h p s = Some (deserialize_node_id_handshake h s, items)"
  "header_type h = mt_telemetry_req \<Longrightarrow> deserialize_payload C N U sip items h p s = Some (deserialize_telemetry_req h s, items)"
  "header_type h = mt_telemetry_ack \<Longrightarrow> deserialize_payload C N U sip items h p s = Some (deserialize_telemetry_ack h s, items)"
  by (simp_all add: deserialize_payload_def message_type_defs)

lemma deserialize_payload_publish:
  assumes "header_type h = mt_publish" "filter_apply sip p items = Some (existed, d, items')"
  shows "deserialize_payload C N U sip items h p s =
    Some (if \<not> existed then deserialize_publish C N U h d s else (Duplicate_publish_message, None), items')"
  using assms by (simp add: deserialize_payload_def message_type_defs)

lemma deserialize_payload_cases:
  assumes "deserialize_payload C N U sip items h p s = Some ((st, Some e), items')"
  obtains "header_type h = mt_keepalive" "deserialize_keepalive h s = (st, Some e)"
  | d where "header_type h = mt_publish" "filter_apply sip p items = Some (False, d, items')" "deserialize_publish C N U h d s = (st, Some e)"
  | "header_type h = mt_confirm_req" "deserialize_confirm_req C N U h s = (st, Some e)"
  | "header_type h = mt_confirm_ack" "deserialize_confirm_ack C N U h s = (st, Some e)"
  | "header_type h = mt_node_id_handshake" "deserialize_node_id_handshake h s = (st, Some e)"
  | "header_type h = mt_telemetry_req" "deserialize_telemetry_req h s = (st, Some e)"
  | "header_type h = mt_telemetry_ack" "deserialize_telemetry_ack h s = (st, Some e)"
  using assms by (auto simp: deserialize_payload_def bind_eq_Some_conv split: if_splits)

lemma deserialize_buffer_header:
  assumes "length (header_bytes N h @ s) \<le> 508" "protocol_version_min epoch2 \<le> version_using h"
  shows "deserialize_buffer C N U epoch2 sip items (header_bytes N h @ s) = deserialize_payload C N U sip items h s s"
  using assms(1) leD [OF assms(2)]
  by (simp add: deserialize_buffer_def header_codec.dec_enc [OF TrueI] max_safe_udp_message_size_def)

text \<open>What is visited comes after a header of this network that is not outdated.\<close>

lemma deserialize_buffer_visits:
  assumes "deserialize_buffer C N U epoch2 sip items buffer = Some ((st, Some e), items')"
  obtains h s where "buffer = header_bytes N h @ s" "length buffer \<le> 508" "protocol_version_min epoch2 \<le> version_using h"
    "deserialize_payload C N U sip items h s s = Some ((st, Some e), items')"
proof -
  have len: "length buffer \<le> 508" using assms by (auto simp: deserialize_buffer_def max_safe_udp_message_size_def split: if_splits)
  obtain h s where h: "header_deserialize N buffer = Some (h, s)" "\<not> version_using h < protocol_version_min epoch2"
    using assms by (auto simp: deserialize_buffer_def split: if_splits option.splits)
  note b = header_codec.dec_sound [OF h(1), THEN conjunct2]
  with len h(2) have "deserialize_payload C N U sip items h s s = Some ((st, Some e), items')"
    using deserialize_buffer_header [of N h s epoch2 C U sip items] assms by (simp add: not_less)
  with b len h(2) that show ?thesis by (auto simp: not_less)
qed

lemma payload_delivers:
  assumes "deserialize_payload C N U sip items h s s = Some ((Success, Some e), items')" "\<forall>h d. e \<noteq> Visit_telemetry_ack h d"
  shows "\<exists>e0. visit_header e0 = h \<and> s = visit_payload C e0 \<and> delivers C N U sip items e0 e"
  using assms(1)
proof (cases rule: deserialize_payload_cases)
  case 1
  then obtain ps where "e = Visit_keepalive h ps" "length ps = 8" "s = keepalive_serialize ps"
    by (auto simp: deserialize_iffs)
  with 1 show ?thesis by (intro exI [of _ "Visit_keepalive h ps"]) (simp add: delivers_def)
next
  case (2 d)
  then obtain b where b: "e = visit_unique C U (Visit_publish h b d)" "visit_work C N e" "wire_block (header_block_type h) b" "s = block_serialize b"
    by (auto simp: deserialize_publish_iff)
  with 2 filter_apply_holds(1,2) [OF 2(2)] show ?thesis
    by (intro exI [of _ "Visit_publish h b d"]) (auto simp: delivers_def)
next
  case 3
  then obtain m where "e = visit_unique C U (Visit_confirm_req h m)" "visit_work C N e" "confirm_req_ok h m" "s = confirm_req_bytes h m"
    by (auto simp: deserialize_confirm_req_iff)
  with 3 show ?thesis by (intro exI [of _ "Visit_confirm_req h m"]) (simp add: delivers_def)
next
  case 4
  then obtain v where "e = visit_unique C U (Visit_confirm_ack h v)" "visit_work C N e" "vote_blocks v \<noteq> []"
      "list_all (wire_item_type (header_block_type h)) (vote_blocks v)" "s = vote_serialize_type C (header_block_type h) v"
    unfolding deserialize_confirm_ack_iff by blast
  with 4 show ?thesis by (intro exI [of _ "Visit_confirm_ack h v"]) (simp add: delivers_def)
next
  case 5
  then obtain m where "e = Visit_node_id_handshake h m" "handshake_ok h m" "s = handshake_serialize m"
    by (auto simp: deserialize_iffs)
  with 5 show ?thesis by (intro exI [of _ "Visit_node_id_handshake h m"]) (simp add: delivers_def)
next
  case 6
  then show ?thesis by (intro exI [of _ "Visit_telemetry_req h"]) (simp add: delivers_def deserialize_iffs)
next
  case 7
  with assms(2) show ?thesis by (auto simp: deserialize_telemetry_ack_def split: option.splits)
qed

lemma delivered_payload:
  assumes "items \<noteq> []" "delivers C N U sip items e0 e"
  shows "\<exists>items'. deserialize_payload C N U sip items (visit_header e0) (visit_payload C e0) (visit_payload C e0) = Some ((Success, Some e), items')"
proof (cases e0)
  case (Visit_publish h b d)
  obtain existed items' where f: "filter_apply sip (block_serialize b) items = Some (existed, d, items')" "\<not> existed"
    using filter_returns(1) [OF assms(1), of sip "block_serialize b"] filter_apply_holds(1,2) assms(2) Visit_publish
    by (fastforce simp: delivers_def)
  with assms(2) Visit_publish show ?thesis
    by (auto simp: deserialize_payload_publish [OF _ f(1)] deserialize_publish_iff delivers_def)
next
  case (Visit_confirm_ack h v)
  then have v: "header_type h = mt_confirm_ack" "deserialize_confirm_ack C N U h (visit_payload C e0) = (Success, Some e)"
    using assms(2) unfolding deserialize_confirm_ack_iff by (auto simp: delivers_def)
  then show ?thesis using Visit_confirm_ack by (simp add: deserialize_payload_simps)
next
  case (Visit_telemetry_ack h d)
  with assms(2) deserialize_telemetry_ack_enc [of sip items h d "[]"] show ?thesis
    by (simp add: deserialize_payload_simps delivers_def)
qed (use assms(2) in \<open>auto simp: deserialize_payload_simps deserialize_iffs delivers_def\<close>)

lemma delivered_buffer:
  assumes "items \<noteq> []" "delivers C N U sip items e0 e" "length (header_bytes N (visit_header e0) @ visit_payload C e0) \<le> 508"
    "protocol_version_min epoch2 \<le> version_using (visit_header e0)"
  shows "\<exists>items'. deserialize_buffer C N U epoch2 sip items (header_bytes N (visit_header e0) @ visit_payload C e0) =
    Some ((Success, Some e), items')"
  unfolding deserialize_buffer_header [OF assms(3,4)] by (rule delivered_payload [OF assms(1,2)])

text \<open>The parser visits a message exactly when the buffer is the written form of one for which it is delivered.\<close>

lemma deserialize_buffer_iff:
  assumes "items \<noteq> []" "\<forall>h d. e \<noteq> Visit_telemetry_ack h d"
  shows "(\<exists>items'. deserialize_buffer C N U epoch2 sip items buffer = Some ((Success, Some e), items')) \<longleftrightarrow>
    length buffer \<le> 508 \<and> (\<exists>e0. buffer = header_bytes N (visit_header e0) @ visit_payload C e0
    \<and> protocol_version_min epoch2 \<le> version_using (visit_header e0) \<and> delivers C N U sip items e0 e)"
    (is "?L \<longleftrightarrow> ?R")
proof
  assume ?L
  then obtain items' where run: "deserialize_buffer C N U epoch2 sip items buffer = Some ((Success, Some e), items')" by blast
  then obtain h s where h: "buffer = header_bytes N h @ s" "length buffer \<le> 508" "protocol_version_min epoch2 \<le> version_using h"
      "deserialize_payload C N U sip items h s s = Some ((Success, Some e), items')"
    by (rule deserialize_buffer_visits)
  from payload_delivers [OF h(4) assms(2)] h(1-3) show ?R by blast
next
  assume ?R
  then show ?L using delivered_buffer [OF assms(1)] by blast
qed

text \<open>Success without a visit is reported for buffers that are too long, and only for those.\<close>

definition result_ok :: "parse_result \<Rightarrow> bool" where
  "result_ok r = (fst r = Success \<longleftrightarrow> snd r \<noteq> None)"

lemma result_ok_simps [simp]: "result_ok (st, Some e) \<longleftrightarrow> st = Success" "result_ok (st, None) \<longleftrightarrow> st \<noteq> Success"
  by (simp_all add: result_ok_def)

lemma deserialize_results_ok:
  "result_ok (deserialize_keepalive h s)" "result_ok (deserialize_publish C N U h d s)" "result_ok (deserialize_confirm_req C N U h s)"
  "result_ok (deserialize_confirm_ack C N U h s)" "result_ok (deserialize_node_id_handshake h s)"
  "result_ok (deserialize_telemetry_req h s)" "result_ok (deserialize_telemetry_ack h s)"
  by (simp_all add: deserialize_keepalive_def deserialize_publish_def deserialize_confirm_req_def deserialize_confirm_ack_def
      deserialize_node_id_handshake_def deserialize_telemetry_req_def deserialize_telemetry_ack_def Let_def split: option.split)

lemma deserialize_payload_returns:
  assumes "items \<noteq> []"
  shows "\<exists>x. deserialize_payload C N U sip items h p s = Some x \<and> result_ok (fst x)"
proof -
  obtain ex d items1 where "filter_apply sip p items = Some (ex, d, items1)"
    using filter_returns(1) [OF assms, of sip p] by auto
  then show ?thesis using deserialize_results_ok by (simp add: deserialize_payload_def del: split_paired_Ex)
qed

lemma deserialize_buffer_success:
  assumes "items \<noteq> []"
  shows "\<exists>st v items'. deserialize_buffer C N U epoch2 sip items buffer = Some ((st, v), items')
    \<and> (st = Success \<longleftrightarrow> v \<noteq> None \<or> 508 < length buffer)"
proof (cases "header_deserialize N buffer")
  case None
  then show ?thesis by (simp add: deserialize_buffer_def max_safe_udp_message_size_def)
next
  case (Some hs)
  obtain h s where "hs = (h, s)" by (cases hs)
  with Some deserialize_payload_returns [OF assms, of C N U sip h "drop 8 buffer" s] show ?thesis
    by (fastforce simp: deserialize_buffer_def max_safe_udp_message_size_def result_ok_def)
qed

section \<open>From one node to another\<close>

text \<open>The visit a message of this node causes at another one. Bootstrap messages are not for this parser.\<close>

fun message_visit :: "(u8 list \<Rightarrow> u128) \<Rightarrow> message_header \<Rightarrow> message \<Rightarrow> visit option" where
  "message_visit sip h (Keepalive ps) = Some (Visit_keepalive h ps)"
| "message_visit sip h (Publish b) = Some (Visit_publish h b (sip (block_serialize b)))"
| "message_visit sip h (Confirm_req_block b) = Some (Visit_confirm_req h \<lparr>req_block = Some b, roots_hashes = []\<rparr>)"
| "message_visit sip h (Confirm_req_hashes ps) = Some (Visit_confirm_req h \<lparr>req_block = None, roots_hashes = ps\<rparr>)"
| "message_visit sip h (Confirm_ack v) = Some (Visit_confirm_ack h v)"
| "message_visit sip h Telemetry_req = Some (Visit_telemetry_req h)"
| "message_visit sip h (Telemetry_ack d) = Some (Visit_telemetry_ack h d)"
| "message_visit sip h (Handshake m) = Some (Visit_node_id_handshake h m)"
| "message_visit sip h _ = None"

text \<open>The blocks a message carries.\<close>

fun message_blocks :: "message \<Rightarrow> block list" where
  "message_blocks (Publish b) = [b]"
| "message_blocks (Confirm_req_block b) = [b]"
| "message_blocks (Confirm_ack v) = [b. Vote_block b \<leftarrow> vote_blocks v]"
| "message_blocks _ = []"

fun publishes_new :: "(u8 list \<Rightarrow> u128) \<Rightarrow> filter_items \<Rightarrow> message \<Rightarrow> bool" where
  "publishes_new sip items (Publish b) = (\<not> filter_holds items (sip (block_serialize b)))"
| "publishes_new sip items _ = True"

lemma version_min_irrelevant [simp]:
  "header_block_type (h\<lparr>version_min_m := x\<rparr>) = header_block_type h" "count_get (h\<lparr>version_min_m := x\<rparr>) = count_get h"
  "node_id_handshake_is_query (h\<lparr>version_min_m := x\<rparr>) = node_id_handshake_is_query h"
  "node_id_handshake_is_response (h\<lparr>version_min_m := x\<rparr>) = node_id_handshake_is_response h"
  "is_empty_payload (h\<lparr>version_min_m := x\<rparr>) = is_empty_payload h"
  by (simp_all add: header_block_type_def count_get_def node_id_handshake_is_query_def node_id_handshake_is_response_def
      is_empty_payload_def telemetry_size_def)

lemma vote_blocks_work:
  "list_all (vote_item_work C N) xs \<longleftrightarrow> list_all (\<lambda>b. \<not> work_validate_entry C N b) [b. Vote_block b \<leftarrow> xs]"
proof (induction xs)
  case (Cons x xs)
  then show ?case by (cases x) simp_all
qed simp

lemma vote_sendable_wire:
  assumes "vote_sendable (vote_blocks v)"
  shows "vote_blocks v \<noteq> [] \<and> list_all (wire_item_type (header_block_type (message_header_of (Confirm_ack v)))) (vote_blocks v)"
  using assms
proof (cases rule: vote_sendable_cases)
  case (1 b)
  then show ?thesis by (simp del: message_header_of.simps add: confirm_ack_header(1) [OF 1(1)] wire_block_def)
next
  case (2 h ys)
  then show ?thesis using confirm_ack_header(2) [OF 2(1,2)] by simp
qed

lemma telemetry_not_empty: "\<not> is_empty_payload (message_header_of (Telemetry_ack d))"
  by (simp only: is_empty_payload_def telemetry_header) (simp add: telemetry_data_size_def)

text \<open>Two visits are the same for the comparisons of the source.\<close>

fun visit_same :: "visit \<Rightarrow> visit \<Rightarrow> bool" where
  "visit_same (Visit_publish h b d) (Visit_publish h' b' d') = (h = h' \<and> blocks_equal b b' \<and> d = d')"
| "visit_same (Visit_confirm_req h m) (Visit_confirm_req h' m') =
     (h = h' \<and> rel_option blocks_equal (req_block m) (req_block m') \<and> roots_hashes m = roots_hashes m')"
| "visit_same (Visit_confirm_ack h v) (Visit_confirm_ack h' v') = (h = h' \<and> vote_eq v v')"
| "visit_same e e' = (e = e')"

text \<open>Nothing else in memory has the full hash of the vote or of a block of the message.\<close>

fun live_same :: "crypto \<Rightarrow> uniquers \<Rightarrow> message \<Rightarrow> bool" where
  "live_same C U (Confirm_ack v) = (list_all (live_block_same C U) (message_blocks (Confirm_ack v)) \<and> live_vote_same C U v)"
| "live_same C U m = list_all (live_block_same C U) (message_blocks m)"

lemma message_visit_wire:
  assumes "message_ok m" "publishes_new sip items m"
    "message_visit sip ((message_header_of m)\<lparr>version_min_m := x\<rparr>) m = Some e"
  shows "visit_wire sip items e \<and> visit_payload C e = message_payload C m \<and> visit_header e = (message_header_of m)\<lparr>version_min_m := x\<rparr>"
proof (cases m)
  case (Confirm_ack v)
  with assms vote_sendable_wire [of v] show ?thesis by (auto simp del: message_header_of.simps)
next
  case (Telemetry_ack d)
  with assms telemetry_not_empty [of d] show ?thesis
    by (auto simp del: message_header_of.simps simp: telemetry_ack_serialize_def)
next
  case (Handshake d)
  with assms handshake_header [of d] show ?thesis by (auto simp del: message_header_of.simps simp: handshake_ok_def)
qed (use assms in \<open>auto simp: wire_block_def confirm_req_ok_def confirm_req_serialize_def unat_count\<close>)

lemma message_visit_same:
  assumes "live_same C U m" "message_visit sip h m = Some e"
  shows "visit_same (visit_unique C U e) e"
proof (cases m)
  case (Confirm_ack v)
  with assms vote_unique_same [of v C U] show ?thesis by (auto simp: list_all_iff)
qed (use assms in \<open>auto simp: block_unique_same confirm_req_unique_def\<close>)

text \<open>Equal blocks have the same work, and so do the blocks of equal votes.\<close>

lemma blocks_equal_work: "blocks_equal b b' \<Longrightarrow> work_validate_entry C N b = work_validate_entry C N b'"
  by (simp add: blocks_equal_iff work_validate_entry_def block_difficulty_def block_root_def block_work_version_def)

lemma vote_item_eq_work: "vote_item_eq x y \<Longrightarrow> vote_item_work C N x = vote_item_work C N y"
  by (cases x; cases y) (simp_all add: blocks_equal_work)

lemma vote_eq_work:
  assumes "vote_eq v w"
  shows "list_all (vote_item_work C N) (vote_blocks v) = list_all (vote_item_work C N) (vote_blocks w)"
proof -
  have "list_all2 vote_item_eq (vote_blocks v) (vote_blocks w)"
    using assms by (simp add: vote_eq_def list_all2_iff list_all_iff Let_def)
  then show ?thesis by (induction rule: list_all2_induct) (simp_all add: vote_item_eq_work)
qed

lemma visit_same_work:
  assumes "visit_same e e'"
  shows "visit_work C N e = visit_work C N e'"
proof (cases "(e, e')" rule: visit_same.cases)
  case (2 h m h' m')
  with assms show ?thesis by (cases "req_block m"; cases "req_block m'") (auto simp: blocks_equal_work)
qed (use assms in \<open>auto simp: blocks_equal_work vote_eq_work\<close>)

lemma message_visit_work:
  assumes "message_visit sip h m = Some e"
  shows "visit_work C N e = list_all (\<lambda>b. \<not> work_validate_entry C N b) (message_blocks m)"
  using assms by (cases m) (auto simp: vote_blocks_work)

lemma message_version [simp]: "version_using (message_header_of m) = protocol_version"
  by (cases m) (auto simp: Let_def make_header_def flag_set_def count_set_def block_type_set_def set_count_present_def
      split: list.split vote_item.split)

lemma message_delivered:
  assumes "message_ok m" "list_all (\<lambda>b. \<not> work_validate_entry C N b) (message_blocks m)" "publishes_new sip items m"
    "items \<noteq> []" "length (to_bytes C N epoch2 m) \<le> 508" "live_same C U m"
    "message_visit sip ((message_header_of m)\<lparr>version_min_m := protocol_version_min epoch2\<rparr>) m = Some e"
  shows "(\<exists>items'. deserialize_buffer C N U epoch2' sip items (to_bytes C N epoch2 m) = Some ((Success, Some (visit_unique C U e)), items'))
    \<and> visit_same (visit_unique C U e) e"
proof -
  note e = message_visit_wire [OF assms(1,3,7), of C] and same = message_visit_same [OF assms(6,7)]
  have b: "to_bytes C N epoch2 m = header_bytes N (visit_header e) @ visit_payload C e"
    using e by (simp add: to_bytes_def header_serialize_def)
  have v: "protocol_version_min epoch2' \<le> version_using (visit_header e)"
    using e by (simp add: protocol_version_min_def protocol_version_def)
  have "delivers C N U sip items e (visit_unique C U e)"
    using e message_visit_work [OF assms(7)] visit_same_work [OF same] assms(2) by (simp add: delivers_def)
  then show ?thesis
    using delivered_buffer [OF assms(4) _ _ v] same assms(5) unfolding b by blast
qed

end
