(* ===== verification/Confirmation.thy ===== *)
theory Confirmation
  imports Cementing
begin

text \<open>
  The traversal of the unbounded confirmation height processor (node/confirmation_height_unbounded.cpp):
  from a block that was confirmed it visits everything the block depends on, with an explicit stack of
  the receives whose sources come first, and queues the heights to be written.

  \<^item> The \<open>conf_height_details\<close> that \<open>receive_source_pairs\<close> share with the weak pointers of
    \<open>implicit_receive_cemented_mapping\<close> live in \<open>details_heap\<close> under an address. The stack owns them:
    popping a pair removes its details, and a weak pointer to a removed address has expired.
  \<^item> The vector \<open>receive_source_pairs\<close> is a list whose head is the back of the vector.
  \<^item> What other threads decide during an iteration (the stop flag, the clock, the write queue, whether
    blocks are waiting) is a \<open>tick\<close>.
  \<^item> A failed \<open>release_assert\<close>, a null or expired pointer that is followed, an iterator out of range and
    \<open>at\<close> on a missing key are \<open>None\<close>.
\<close>

section \<open>The state of the processor\<close>

record confirmed_iterated_pair =
  confirmed_height :: u64
  iterated_height :: u64

type_synonym details_ref = nat
type_synonym receive_source_pair = "details_ref \<times> block_hash"

record confirmation_height_unbounded =
  cu_ledger :: ledger
  confirmed_iterated_pairs :: "account \<rightharpoonup> confirmed_iterated_pair"
  block_cache :: "block_hash \<rightharpoonup> block option"
  pending_writes :: "conf_height_details list"
  implicit_receive_cemented_mapping :: "block_hash \<rightharpoonup> details_ref"
  details_heap :: "details_ref \<rightharpoonup> conf_height_details"
  next_ref :: details_ref
  batch_write_size :: u64
  cemented_notified :: "block list"
  already_cemented_notified :: "block_hash list"

definition unbounded_cutoff :: u64 where
  "unbounded_cutoff = 16384"

definition pending_empty :: "confirmation_height_unbounded \<Rightarrow> bool" where
  "pending_empty U = (pending_writes U = [])"

definition clear_process_vars :: "confirmation_height_unbounded \<Rightarrow> confirmation_height_unbounded" where
  "clear_process_vars U = U\<lparr>confirmed_iterated_pairs := Map.empty, implicit_receive_cemented_mapping := Map.empty,
     block_cache := Map.empty\<rparr>"

text \<open>A block that is not stored is cached as a null pointer.\<close>

definition get_block_and_sideband ::
    "block_hash \<Rightarrow> confirmation_height_unbounded \<Rightarrow> block option \<times> confirmation_height_unbounded" where
  "get_block_and_sideband h U = (case block_cache U h of
     Some b \<Rightarrow> (b, U)
   | None \<Rightarrow> let b = block_get (ledger_store (cu_ledger U)) h in (b, U\<lparr>block_cache := (block_cache U)(h \<mapsto> b)\<rparr>))"

definition make_conf_height_details ::
    "account \<Rightarrow> block_hash \<Rightarrow> u64 \<Rightarrow> u64 \<Rightarrow> block_hash list \<Rightarrow> conf_height_details" where
  "make_conf_height_details a h n k hs = \<lparr>details_account = a, details_hash = h, details_height = n,
     num_blocks_confirmed = k, block_callback_data = hs, source_block_callback_data = []\<rparr>"

definition details_put :: "details_ref \<Rightarrow> conf_height_details \<Rightarrow> confirmation_height_unbounded \<Rightarrow> confirmation_height_unbounded" where
  "details_put r d U = U\<lparr>details_heap := (details_heap U)(r \<mapsto> d)\<rparr>"

section \<open>Collecting the receives of an account\<close>

record collecting =
  col_processor :: confirmation_height_unbounded
  receive_source_pairs :: "receive_source_pair list"
  block_callback_datas_required :: "block_hash list"
  orig_block_callback_data :: "block_hash list"

text \<open>The source a block collects from, as the traversal sees it.\<close>

definition traversal_source :: "env \<Rightarrow> store \<Rightarrow> block \<Rightarrow> block_hash option" where
  "traversal_source E s b =
     (let source = (if block_source b = 0 then block_link b else block_source b) in
      if source \<noteq> 0 \<and> \<not> ledger_is_epoch_link E source \<and> source_exists s source then Some source else None)"

text \<open>The callbacks gathered above the first receive belong to the receive that led to this account.\<close>

definition hand_over_callbacks :: "bool \<Rightarrow> collecting \<Rightarrow> collecting option" where
  "hand_over_callbacks hit_receive C =
     (if \<not> hit_receive \<and> block_callback_datas_required C \<noteq> [] then
        (case receive_source_pairs C of [] \<Rightarrow> None
         | (r, _) # _ \<Rightarrow> do {
             d \<leftarrow> details_heap (col_processor C) r;
             Some (C\<lparr>col_processor := details_put r (d\<lparr>source_block_callback_data := block_callback_datas_required C\<rparr>) (col_processor C),
                     block_callback_datas_required := []\<rparr>) })
      else Some C)"

definition push_receive :: "account \<Rightarrow> block_hash \<Rightarrow> u64 \<Rightarrow> block_hash \<Rightarrow> collecting \<Rightarrow> collecting" where
  "push_receive a h n source C =
     (let U = col_processor C; r = next_ref U in
      C\<lparr>col_processor := (details_put r (make_conf_height_details a h n 1 [h]) U)\<lparr>next_ref := Suc r\<rparr>,
        receive_source_pairs := (r, source) # receive_source_pairs C\<rparr>)"

text \<open>A block below a receive is cemented with it.\<close>

definition add_below_receive :: "block_hash \<Rightarrow> collecting \<Rightarrow> collecting option" where
  "add_below_receive h C = (case receive_source_pairs C of [] \<Rightarrow> None
     | (r, _) # _ \<Rightarrow> do {
         d \<leftarrow> details_heap (col_processor C) r;
         let U = details_put r (d\<lparr>num_blocks_confirmed := num_blocks_confirmed d + 1,
               block_callback_data := block_callback_data d @ [h]\<rparr>) (col_processor C);
         Some (C\<lparr>col_processor := U\<lparr>implicit_receive_cemented_mapping := (implicit_receive_cemented_mapping U)(h \<mapsto> r)\<rparr>\<rparr>) })"

text \<open>One block; the flags are \<open>is_original_block\<close> and \<open>hit_receive\<close>.\<close>

definition collect_block ::
    "env \<Rightarrow> account \<Rightarrow> u64 \<Rightarrow> block_hash \<Rightarrow> block \<Rightarrow> bool \<Rightarrow> bool \<Rightarrow> collecting \<Rightarrow> (bool \<times> bool \<times> collecting) option" where
  "collect_block E a n h b is_original_block hit_receive C =
     (case traversal_source E (ledger_store (cu_ledger (col_processor C))) b of
        Some source \<Rightarrow> do {
          C \<leftarrow> hand_over_callbacks hit_receive C;
          Some (False, True, push_receive a h n source C) }
      | None \<Rightarrow>
        if is_original_block then Some (is_original_block, hit_receive, C\<lparr>orig_block_callback_data := orig_block_callback_data C @ [h]\<rparr>)
        else if \<not> hit_receive then Some (is_original_block, hit_receive, C\<lparr>block_callback_datas_required := block_callback_datas_required C @ [h]\<rparr>)
        else do { C \<leftarrow> add_below_receive h C; Some (is_original_block, hit_receive, C) })"

text \<open>The loop, with \<open>num_to_confirm\<close> blocks left; \<open>stop n\<close> is the stop flag when \<open>n\<close> more are left after this one.\<close>

fun collect_loop ::
    "env \<Rightarrow> (nat \<Rightarrow> bool) \<Rightarrow> account \<Rightarrow> u64 \<Rightarrow> nat \<Rightarrow> block_hash \<Rightarrow> bool \<Rightarrow> bool \<Rightarrow> collecting \<Rightarrow> collecting option" where
  "collect_loop E stop a conf 0 h is_original_block hit_receive C = Some C"
| "collect_loop E stop a conf (Suc n) h is_original_block hit_receive C =
     (if h = 0 \<or> stop n then Some C
      else case get_block_and_sideband h (col_processor C) of
        (None, U) \<Rightarrow> collect_loop E stop a conf n h is_original_block hit_receive (C\<lparr>col_processor := U\<rparr>)
      | (Some b, U) \<Rightarrow> do {
          (is_original_block, hit_receive, C) \<leftarrow>
            collect_block E a (conf + of_nat (Suc n)) h b is_original_block hit_receive (C\<lparr>col_processor := U\<rparr>);
          collect_loop E stop a conf n (block_previous b) is_original_block hit_receive C })"

definition collect_unconfirmed_receive_and_sources_for_account ::
    "env \<Rightarrow> (nat \<Rightarrow> bool) \<Rightarrow> block_hash \<Rightarrow> u64 \<Rightarrow> u64 \<Rightarrow> block_hash \<Rightarrow> account \<Rightarrow> collecting \<Rightarrow> collecting option" where
  "collect_unconfirmed_receive_and_sources_for_account E stop original_hash block_height conf h a C =
     collect_loop E stop a conf (unat (block_height - conf)) h (h = original_hash) False C"

section \<open>Preparing the writes\<close>

record preparation_data =
  prep_block_height :: u64
  prep_confirmation_height :: u64
  prep_iterated_height :: u64
  prep_account_found :: bool
  prep_account :: account
  prep_receive_details :: "details_ref option"
  prep_already_traversed :: bool
  prep_current :: block_hash
  prep_block_callback_data :: "block_hash list"
  prep_orig_block_callback_data :: "block_hash list"

text \<open>\<open>erase (next (rbegin, k).base (), end)\<close>, and \<open>assign\<close> from a range given by its end and length.\<close>

definition erase_last :: "u64 \<Rightarrow> 'a list \<Rightarrow> 'a list option" where
  "erase_last k xs = (if unat k \<le> length xs then Some (take (length xs - unat k) xs) else None)"

definition range_before_end :: "u64 \<Rightarrow> u64 \<Rightarrow> 'a list \<Rightarrow> 'a list option" where
  "range_before_end dropped n xs = do {
     ys \<leftarrow> erase_last dropped xs;
     if unat n \<le> length ys then Some (drop (length ys - unat n) ys) else None }"

definition set_account_heights :: "preparation_data \<Rightarrow> confirmation_height_unbounded \<Rightarrow> confirmation_height_unbounded" where
  "set_account_heights P U =
     U\<lparr>confirmed_iterated_pairs := (confirmed_iterated_pairs U)(prep_account P \<mapsto>
        (if prep_account_found P
         then \<lparr>confirmed_height = prep_block_height P,
               iterated_height = (if prep_block_height P > prep_iterated_height P then prep_block_height P
                 else (case confirmed_iterated_pairs U (prep_account P) of Some q \<Rightarrow> iterated_height q | None \<Rightarrow> 0))\<rparr>
         else \<lparr>confirmed_height = prep_block_height P, iterated_height = prep_block_height P\<rparr>))\<rparr>"

text \<open>The callbacks of a block that was traversed before, and what is left of the receive's own.\<close>

definition traversed_callbacks ::
    "preparation_data \<Rightarrow> details_ref \<Rightarrow> u64 \<Rightarrow> confirmation_height_unbounded \<Rightarrow> (block_hash list \<times> confirmation_height_unbounded) option" where
  "traversed_callbacks P r n U = do {
     d \<leftarrow> details_heap U r;
     hs \<leftarrow> (if prep_already_traversed P \<and> source_block_callback_data d = [] then do {
         above_r \<leftarrow> implicit_receive_cemented_mapping U (prep_current P);
         above \<leftarrow> details_heap U above_r;
         range_before_end (num_blocks_confirmed above - (details_height above - prep_confirmation_height P)) n (block_callback_data above) }
       else Some (source_block_callback_data d));
     hs \<leftarrow> erase_last (of_nat (length hs) - n) hs;
     Some (hs, details_put r (d\<lparr>source_block_callback_data := []\<rparr>) U) }"

definition write_callbacks ::
    "preparation_data \<Rightarrow> u64 \<Rightarrow> confirmation_height_unbounded \<Rightarrow> (block_hash list \<times> confirmation_height_unbounded) option" where
  "write_callbacks P n U =
     (if prep_block_callback_data P \<noteq> [] then Some (prep_block_callback_data P, U)
      else case prep_receive_details P of
        None \<Rightarrow> Some (prep_orig_block_callback_data P, U)
      | Some r \<Rightarrow> traversed_callbacks P r n U)"

definition prepare_block :: "preparation_data \<Rightarrow> confirmation_height_unbounded \<Rightarrow> confirmation_height_unbounded option" where
  "prepare_block P U =
     (if prep_block_height P > prep_confirmation_height P then do {
        let U = set_account_heights P U;
        let n = prep_block_height P - prep_confirmation_height P;
        (hs, U) \<leftarrow> write_callbacks P n U;
        Some (U\<lparr>pending_writes := pending_writes U @ [make_conf_height_details (prep_account P) (prep_current P) (prep_block_height P) n hs]\<rparr>) }
      else Some U)"

definition prepare_receive :: "details_ref \<Rightarrow> confirmation_height_unbounded \<Rightarrow> confirmation_height_unbounded option" where
  "prepare_receive r U = do {
     d \<leftarrow> details_heap U r;
     (d, q) \<leftarrow> (case confirmed_iterated_pairs U (details_account d) of
         Some q \<Rightarrow> do {
           let n = details_height d - confirmed_height q;
           hs \<leftarrow> erase_last (num_blocks_confirmed d - n) (block_callback_data d);
           Some (d\<lparr>num_blocks_confirmed := n, block_callback_data := hs\<rparr>, q\<lparr>confirmed_height := details_height d\<rparr>) }
       | None \<Rightarrow> Some (d, \<lparr>confirmed_height = details_height d, iterated_height = details_height d\<rparr>));
     let U = details_put r d U;
     Some (U\<lparr>confirmed_iterated_pairs := (confirmed_iterated_pairs U)(details_account d \<mapsto> q),
             pending_writes := pending_writes U @ [d]\<rparr>) }"

definition prepare_iterated_blocks_for_cementing ::
    "preparation_data \<Rightarrow> confirmation_height_unbounded \<Rightarrow> confirmation_height_unbounded option" where
  "prepare_iterated_blocks_for_cementing P U = do {
     U \<leftarrow> prepare_block P U;
     (case prep_receive_details P of None \<Rightarrow> Some U | Some r \<Rightarrow> prepare_receive r U) }"

section \<open>The loop\<close>

record tick =
  stopped_collecting :: "nat \<Rightarrow> bool"
  stopped_collected :: bool
  stopped_after :: bool
  no_pending :: bool
  min_time_exceeded :: bool
  queue_turn :: bool

record process_vars =
  vars_processor :: confirmation_height_unbounded
  vars_pairs :: "receive_source_pair list"
  vars_receive_details :: "details_ref option"
  vars_current :: block_hash
  vars_orig_data :: "block_hash list"
  first_iter :: bool

text \<open>Writing the queue; the observers follow the pointers they are handed.\<close>

definition write_pending :: "confirmation_height_unbounded \<Rightarrow> confirmation_height_unbounded option" where
  "write_pending U = do {
     (L, blocks, rest) \<leftarrow> cement_blocks (\<lambda>h. case block_cache U h of Some b \<Rightarrow> b | None \<Rightarrow> None) (pending_writes U) (cu_ledger U);
     Some (U\<lparr>cu_ledger := L, pending_writes := rest, cemented_notified := cemented_notified U @ blocks\<rparr>) }"

definition total_pending_write_block_count :: "confirmation_height_unbounded \<Rightarrow> u64" where
  "total_pending_write_block_count U = foldl (\<lambda>n d. n + num_blocks_confirmed d) 0 (pending_writes U)"

definition write_if_due :: "tick \<Rightarrow> bool \<Rightarrow> confirmation_height_unbounded \<Rightarrow> confirmation_height_unbounded option" where
  "write_if_due t finished_iterating U =
     (let max_write_size_reached = of_nat (length (pending_writes U)) \<ge> unbounded_cutoff;
          should_output = (finished_iterating \<and> (no_pending t \<or> min_time_exceeded t));
          force_write = total_pending_write_block_count U > batch_write_size U in
      if (max_write_size_reached \<or> should_output \<or> force_write) \<and> pending_writes U \<noteq> [] \<and> (queue_turn t \<or> force_write)
      then write_pending U else Some U)"

text \<open>The block to visit: the source of the receive on top, or at the end the original block again.\<close>

definition next_visit :: "block_hash \<Rightarrow> process_vars \<Rightarrow> process_vars" where
  "next_visit original_hash V = (case vars_pairs V of
     (r, source) # _ \<Rightarrow> V\<lparr>vars_receive_details := Some r, vars_current := source\<rparr>
   | [] \<Rightarrow> if vars_receive_details V \<noteq> None then V\<lparr>vars_current := original_hash, vars_receive_details := None\<rparr> else V)"

text \<open>Leaving the stack removes the details a pair owned.\<close>

definition pop_pair :: "process_vars \<Rightarrow> process_vars" where
  "pop_pair V = (case vars_pairs V of [] \<Rightarrow> V
     | (r, _) # ps \<Rightarrow> V\<lparr>vars_pairs := ps, vars_processor := (vars_processor V)\<lparr>details_heap := (details_heap (vars_processor V))(r := None)\<rparr>\<rparr>)"

text \<open>The heights of the account, and the notification that the original block was cemented before.\<close>

definition account_heights ::
    "block_hash \<Rightarrow> bool \<Rightarrow> block_hash \<Rightarrow> account \<Rightarrow> u64 \<Rightarrow> confirmation_height_unbounded
      \<Rightarrow> (u64 \<times> u64 \<times> confirmation_height_unbounded) option" where
  "account_heights original_hash first h a n U = (case confirmed_iterated_pairs U a of
     Some q \<Rightarrow> Some (confirmed_height q, max (confirmed_height q) (iterated_height q), U)
   | None \<Rightarrow> do {
       info \<leftarrow> confirmation_height_get (ledger_store (cu_ledger U)) a;
       Some (conf_height info, conf_height info,
         if first \<and> conf_height info \<ge> n \<and> h = original_hash
         then U\<lparr>already_cemented_notified := already_cemented_notified U @ [original_hash]\<rparr> else U) })"

definition mark_iterated :: "account \<Rightarrow> u64 \<Rightarrow> u64 \<Rightarrow> confirmation_height_unbounded \<Rightarrow> confirmation_height_unbounded" where
  "mark_iterated a conf n U = U\<lparr>confirmed_iterated_pairs := (confirmed_iterated_pairs U)(a \<mapsto>
     (case confirmed_iterated_pairs U a of Some q \<Rightarrow> q\<lparr>iterated_height := n\<rparr>
      | None \<Rightarrow> \<lparr>confirmed_height = conf, iterated_height = n\<rparr>))\<rparr>"

text \<open>
  The end of an iteration: with nothing new on the stack the block and the receive that led to it are
  queued and the receive leaves; otherwise the account is marked as iterated. The flag says whether the
  loop goes on.
\<close>

definition settle_visit ::
    "tick \<Rightarrow> block_hash \<Rightarrow> preparation_data \<Rightarrow> collecting \<Rightarrow> process_vars \<Rightarrow> (process_vars \<times> bool) option" where
  "settle_visit t original_hash P C V = do {
     let V' = V\<lparr>vars_processor := col_processor C, vars_pairs := receive_source_pairs C, vars_orig_data := orig_block_callback_data C\<rparr>;
     V' \<leftarrow> (if length (receive_source_pairs C) = length (vars_pairs V) then do {
           U \<leftarrow> prepare_iterated_blocks_for_cementing P (vars_processor V');
           Some (pop_pair (V'\<lparr>vars_processor := U\<rparr>)) }
         else Some (if prep_block_height P > prep_iterated_height P
           then V'\<lparr>vars_processor := mark_iterated (prep_account P) (prep_confirmation_height P) (prep_block_height P) (vars_processor V')\<rparr>
           else V'));
     U \<leftarrow> write_if_due t (vars_pairs V' = []) (vars_processor V');
     Some (V'\<lparr>vars_processor := U, first_iter := False\<rparr>,
           (vars_pairs V' \<noteq> [] \<or> prep_current P \<noteq> original_hash) \<and> \<not> stopped_after t) }"

text \<open>One iteration.\<close>

definition process_iteration ::
    "env \<Rightarrow> tick \<Rightarrow> block_hash \<Rightarrow> process_vars \<Rightarrow> (process_vars \<times> bool) option" where
  "process_iteration E t original_hash V = do {
     let V = next_visit original_hash V;
     let current = vars_current V;
     let (found, U) = get_block_and_sideband current (vars_processor V);
     b \<leftarrow> found;
     sb \<leftarrow> sideband b;
     let a = (if block_account b = 0 then sideband_account sb else block_account b);
     let account_found = (confirmed_iterated_pairs U a \<noteq> None);
     (conf, iterated, U) \<leftarrow> account_heights original_hash (first_iter V) current a (height sb) U;
     let already_traversed = (iterated \<ge> height sb);
     let C = \<lparr>col_processor = U, receive_source_pairs = vars_pairs V, block_callback_datas_required = [],
              orig_block_callback_data = vars_orig_data V\<rparr>;
     C \<leftarrow> (if already_traversed then Some C
           else collect_unconfirmed_receive_and_sources_for_account E (stopped_collecting t) original_hash (height sb) iterated current a C);
     if stopped_collected t
     then Some (V\<lparr>vars_processor := col_processor C, vars_pairs := receive_source_pairs C, vars_orig_data := orig_block_callback_data C\<rparr>, False)
     else settle_visit t original_hash
       \<lparr>prep_block_height = height sb, prep_confirmation_height = conf, prep_iterated_height = iterated,
        prep_account_found = account_found, prep_account = a, prep_receive_details = vars_receive_details V,
        prep_already_traversed = already_traversed, prep_current = current,
        prep_block_callback_data = block_callback_datas_required C,
        prep_orig_block_callback_data = orig_block_callback_data C\<rparr> C V }"

text \<open>The loop ends with the stack empty or because the processor was stopped; the stack goes with the call.\<close>

partial_function (option) process_loop ::
    "env \<Rightarrow> (nat \<Rightarrow> tick) \<Rightarrow> block_hash \<Rightarrow> nat \<Rightarrow> process_vars \<Rightarrow> process_vars option" where
  "process_loop E ticks original_hash i V = do {
     (V, again) \<leftarrow> process_iteration E (ticks i) original_hash V;
     if again then process_loop E ticks original_hash (Suc i) V else Some V }"

definition unbounded_process ::
    "env \<Rightarrow> (nat \<Rightarrow> tick) \<Rightarrow> block_hash \<Rightarrow> confirmation_height_unbounded \<Rightarrow> confirmation_height_unbounded option" where
  "unbounded_process E ticks original_hash U = do {
     let U = (if pending_empty U then clear_process_vars U else U);
     V \<leftarrow> process_loop E ticks original_hash 0
       \<lparr>vars_processor = U, vars_pairs = [], vars_receive_details = None, vars_current = original_hash,
        vars_orig_data = [], first_iter = True\<rparr>;
     Some ((vars_processor V)\<lparr>details_heap := Map.empty\<rparr>) }"

end
