(* ===== verification/Confirmation_Chains.thy ===== *)
theory Confirmation_Chains
  imports Confirmation
begin

text \<open>
  The chains of a ledger by account and height: every height up to the length of an account has exactly
  one block, ranks grow along a chain, and what a block collects has a lower rank. These are the facts the
  traversal of the confirmation height processor relies on.
\<close>

section \<open>Blocks by height\<close>

definition stored_at :: "store \<Rightarrow> account \<Rightarrow> nat \<Rightarrow> block_hash \<Rightarrow> bool" where
  "stored_at s a n h = (\<exists>b. block_get s h = Some b \<and> own_account b = a \<and> unat (own_height b) = n)"

definition chain_hash :: "store \<Rightarrow> account \<Rightarrow> nat \<Rightarrow> block_hash" where
  "chain_hash s a n = (SOME h. stored_at s a n h)"

definition chain_length :: "store \<Rightarrow> account \<Rightarrow> nat" where
  "chain_length s a = (case account_get s a of None \<Rightarrow> 0 | Some i \<Rightarrow> unat (block_count i))"

definition cemented_to :: "store \<Rightarrow> account \<Rightarrow> nat" where
  "cemented_to s a = (case confirmation_height_get s a of None \<Rightarrow> 0 | Some c \<Rightarrow> unat (conf_height c))"

lemma stored_atE:
  assumes "stored_at s a n h"
  obtains b where "block_get s h = Some b" "own_account b = a" "unat (own_height b) = n"
  using assms by (auto simp: stored_at_def)

lemma stored_height_positive:
  assumes "history_ok E g rk s" "stored_at s a n h"
  shows "0 < n"
proof -
  obtain b where b: "block_get s h = Some b" "unat (own_height b) = n" using assms(2) by (rule stored_atE)
  show ?thesis
    using history_okD(5) [OF assms(1) b(1)] b(2) by (auto simp: link_ok_def split: if_splits)
qed

lemma stored_within:
  assumes "history_ok E g rk s" "stored_at s a n h"
  shows "n \<le> chain_length s a"
proof -
  obtain b where b: "block_get s h = Some b" "own_account b = a" "unat (own_height b) = n" using assms(2) by (rule stored_atE)
  obtain i where i: "account_get s a = Some i" using history_okD(2) [OF assms(1) b(1)] b(2) by auto
  show ?thesis using head_latest [OF assms(1) b(1)] i b by (simp add: chain_length_def)
qed

text \<open>A block that is not the last of its chain has a successor one higher.\<close>

lemma stored_successor:
  assumes hist: "history_ok E g rk s" and b: "block_get s h = Some b" "own_account b = a" "unat (own_height b) = n"
  shows "if own_successor b = 0 then n = chain_length s a \<and> (\<exists>i. account_get s a = Some i \<and> head i = h)
    else stored_at s a (Suc n) (own_successor b) \<and> (\<exists>c. block_get s (own_successor b) = Some c \<and> block_previous c = h)"
proof (cases "own_successor b = 0")
  case True
  then obtain i where i: "account_get s a = Some i" "head i = h"
    using history_okD(6) [OF hist b(1)] b(2) by (auto simp: successor_ok_def)
  then show ?thesis
    using True b history_ok_head [OF hist i(1)] by (auto simp: head_ok_def chain_length_def)
next
  case False
  then obtain c where c: "block_get s (own_successor b) = Some c" "has_predecessor c" "block_previous c = h"
    using history_okD(6) [OF hist b(1)] by (auto simp: successor_ok_def)
  have "own_account c = a" "unat (own_height c) = Suc n"
    using history_predecessor [OF hist c(1,2)] b(2,3) unfolding c(3) b(1) by (metis option.inject)+
  then show ?thesis using False c by (simp add: stored_at_def)
qed

lemma stored_unique:
  assumes hist: "history_ok E g rk s"
  shows "stored_at s a n h \<Longrightarrow> stored_at s a n h' \<Longrightarrow> h = h'"
proof (induction "chain_length s a - n" arbitrary: n h h' rule: less_induct)
  case less
  obtain b where b: "block_get s h = Some b" "own_account b = a" "unat (own_height b) = n" using less.prems(1) by (rule stored_atE)
  obtain b' where b': "block_get s h' = Some b'" "own_account b' = a" "unat (own_height b') = n" using less.prems(2) by (rule stored_atE)
  note next_b = stored_successor [OF hist b] and next_b' = stored_successor [OF hist b']
  show ?case
  proof (cases "n = chain_length s a")
    case True
    then show ?thesis
      using next_b next_b' stored_within [OF hist, of a "Suc n"] by (auto split: if_splits)
  next
    case False
    then have c: "stored_at s a (Suc n) (own_successor b)" "\<exists>c. block_get s (own_successor b) = Some c \<and> block_previous c = h"
        "stored_at s a (Suc n) (own_successor b')" "\<exists>c. block_get s (own_successor b') = Some c \<and> block_previous c = h'"
      using next_b next_b' by (auto split: if_splits)
    have "chain_length s a - Suc n < chain_length s a - n" using stored_within [OF hist c(1)] by linarith
    from less.hyps [OF this c(1,3)] c(2,4) show ?thesis by auto
  qed
qed

lemma stored_previous:
  assumes hist: "history_ok E g rk s" and b: "block_get s h = Some b" "own_account b = a" "unat (own_height b) = Suc (Suc n)"
  shows "stored_at s a (Suc n) (block_previous b)" "rk (block_previous b) < rk h"
proof -
  have "has_predecessor b" using history_okD(5) [OF hist b(1)] b(3) by (auto simp: link_ok_def split: if_splits)
  then obtain p where "block_get s (block_previous b) = Some p" "own_account p = a" "unat (own_height b) = Suc (unat (own_height p))"
      "rk (block_previous b) < rk h"
    using history_predecessor [OF hist b(1)] b(2) by metis
  then show "stored_at s a (Suc n) (block_previous b)" "rk (block_previous b) < rk h"
    using b(3) by (simp_all add: stored_at_def)
qed

lemma stored_exists:
  assumes hist: "history_ok E g rk s" and n: "0 < n" "n \<le> chain_length s a"
  shows "\<exists>h. stored_at s a n h"
  using n
proof (induction "chain_length s a - n" arbitrary: n)
  case 0
  then obtain i where i: "account_get s a = Some i" "n = unat (block_count i)"
    by (auto simp: chain_length_def split: option.splits)
  then show ?case using history_ok_head [OF hist i(1)] unfolding head_ok_def stored_at_def by metis
next
  case (Suc k)
  then obtain h where "stored_at s a (Suc n) h" by (metis Suc_diff_Suc Suc_leI diff_Suc_1 zero_less_Suc zero_less_diff)
  then obtain b where b: "block_get s h = Some b" "own_account b = a" "unat (own_height b) = Suc n" by (rule stored_atE)
  then show ?case using stored_previous(1) [OF hist b(1,2), of "n - 1"] Suc.prems by auto
qed

lemma chain_hash_stored:
  assumes "history_ok E g rk s" "0 < n" "n \<le> chain_length s a"
  shows "stored_at s a n (chain_hash s a n)"
  unfolding chain_hash_def using stored_exists [OF assms] by (rule someI_ex)

lemma chain_hash_eq:
  assumes "history_ok E g rk s" "stored_at s a n h"
  shows "chain_hash s a n = h"
  using chain_hash_stored [OF assms(1) stored_height_positive [OF assms] stored_within [OF assms]] stored_unique [OF assms(1)] assms(2)
  by blast

lemma chain_block:
  assumes "history_ok E g rk s" "0 < n" "n \<le> chain_length s a"
  obtains b where "block_get s (chain_hash s a n) = Some b" "own_account b = a" "unat (own_height b) = n"
  using chain_hash_stored [OF assms] by (rule stored_atE)

lemma chain_previous:
  assumes hist: "history_ok E g rk s" and n: "0 < n" "Suc n \<le> chain_length s a" "block_get s (chain_hash s a (Suc n)) = Some b"
  shows "block_previous b = chain_hash s a n" "rk (chain_hash s a n) < rk (chain_hash s a (Suc n))"
proof -
  have b: "own_account b = a" "unat (own_height b) = Suc (Suc (n - 1))"
    using chain_hash_stored [OF hist _ n(2)] n by (auto simp: stored_at_def)
  note p = stored_previous [OF hist n(3) b]
  show "block_previous b = chain_hash s a n" using chain_hash_eq [OF hist p(1)] n(1) by simp
  then show "rk (chain_hash s a n) < rk (chain_hash s a (Suc n))" using p(2) by simp
qed

lemma chain_rank:
  assumes "history_ok E g rk s" "0 < m" "m < n" "n \<le> chain_length s a"
  shows "rk (chain_hash s a m) < rk (chain_hash s a n)"
  using assms(3,4)
proof (induction n)
  case (Suc n)
  obtain b where "block_get s (chain_hash s a (Suc n)) = Some b" using chain_block [OF assms(1) _ Suc.prems(2)] by blast
  then have "rk (chain_hash s a n) < rk (chain_hash s a (Suc n))"
    using chain_previous(2) [OF assms(1) _ Suc.prems(2)] assms(2) Suc.prems(1) by simp
  then show ?case using Suc by (cases "m = n") auto
qed simp

lemma chain_rank_less_iff:
  assumes "history_ok E g rk s" "0 < m" "0 < n" "m \<le> chain_length s a" "n \<le> chain_length s a"
  shows "rk (chain_hash s a m) < rk (chain_hash s a n) \<longleftrightarrow> m < n"
  using chain_rank [OF assms(1,2) _ assms(5)] chain_rank [OF assms(1,3) _ assms(4)]
  by (cases m n rule: linorder_cases) auto

lemma chain_hash_inj:
  assumes "history_ok E g rk s" "0 < m" "m \<le> chain_length s a" "0 < n" "n \<le> chain_length s c"
    "chain_hash s a m = chain_hash s c n"
  shows "a = c \<and> m = n"
  using chain_hash_stored [OF assms(1-3)] chain_hash_stored [OF assms(1,4,5)] unfolding assms(6) stored_at_def
  by (metis option.inject)

section \<open>Segments of a chain\<close>

text \<open>The blocks above \<open>lo\<close> up to \<open>hi\<close>, from the highest down, as the processor gathers them.\<close>

definition segment :: "store \<Rightarrow> account \<Rightarrow> nat \<Rightarrow> nat \<Rightarrow> block_hash list" where
  "segment s a lo hi = map (chain_hash s a) (rev [Suc lo..<Suc hi])"

lemma segment_length [simp]: "length (segment s a lo hi) = hi - lo"
  by (simp add: segment_def del: upt_Suc)

lemma segment_Nil_iff [simp]: "segment s a lo hi = [] \<longleftrightarrow> hi \<le> lo"
  by (simp add: segment_def del: upt_Suc)

lemma segment_self [simp]: "segment s a n n = []"
  by simp

lemma set_segment: "set (segment s a lo hi) = chain_hash s a ` {lo<..hi}"
  by (simp add: segment_def atLeastSucLessThan_greaterThanLessThan atLeastLessThanSuc_atLeastAtMost
      atLeastSucAtMost_greaterThanAtMost del: upt_Suc)

lemma segment_extend: "lo < hi \<Longrightarrow> segment s a (Suc lo) hi @ [chain_hash s a (Suc lo)] = segment s a lo hi"
  by (simp add: segment_def upt_conv_Cons [of "Suc lo"] del: upt_Suc)

lemma segment_one: "segment s a n (Suc n) = [chain_hash s a (Suc n)]"
  by (simp add: segment_def)

lemma take_segment: "k \<le> hi - lo \<Longrightarrow> take (hi - lo - k) (segment s a lo hi) = segment s a (lo + k) hi"
proof -
  assume "k \<le> hi - lo"
  then have "hi - lo - (hi - lo - k) = k" by linarith
  then show ?thesis by (simp add: segment_def take_map take_rev del: upt_Suc diff_diff_left)
qed

lemma drop_segment: "lo \<le> m \<Longrightarrow> m \<le> hi \<Longrightarrow> drop (hi - m) (segment s a lo hi) = segment s a lo m"
  by (simp add: segment_def drop_map drop_rev del: upt_Suc)

lemma erase_last_segment:
  assumes "unat k \<le> hi - lo"
  shows "erase_last k (segment s a lo hi) = Some (segment s a (lo + unat k) hi)"
  using assms take_segment [of "unat k" hi lo s a] by (simp add: erase_last_def)

lemma range_segment:
  assumes "lo \<le> c" "c \<le> m" "m \<le> hi" "unat k = c - lo" "unat n = m - c"
  shows "range_before_end k n (segment s a lo hi) = Some (segment s a c m)"
proof -
  have "erase_last k (segment s a lo hi) = Some (segment s a c hi)"
    using erase_last_segment [of k hi lo s a] assms by simp
  moreover have "drop (hi - c - (m - c)) (segment s a c hi) = segment s a c m"
    using drop_segment [of c m hi s a] assms by (simp add: Nat.diff_diff_eq)
  ultimately show ?thesis using assms by (simp add: range_before_end_def)
qed

section \<open>Receives\<close>

text \<open>What the block at a height of an account collected.\<close>

definition collects :: "env \<Rightarrow> block_hash \<Rightarrow> store \<Rightarrow> account \<Rightarrow> nat \<Rightarrow> block_hash option" where
  "collects E g s a n = (let h = chain_hash s a n in case block_get s h of
     Some b \<Rightarrow> if h = g then None else (case stored_change E s h b of Pending_del k \<Rightarrow> Some (snd k) | _ \<Rightarrow> None)
   | None \<Rightarrow> None)"

text \<open>
  The traversal reads the link of every state block as a source, and takes it for one whenever it is the hash of a stored
  block. What follows is restricted to ledgers in which the destination of no stored send is such a hash. This is not checked when a
  send is processed: its destination is any 256-bit number.
\<close>

definition links_apart :: "env \<Rightarrow> store \<Rightarrow> bool" where
  "links_apart E s = (\<forall>h b k p. block_get s h = Some b \<longrightarrow> stored_change E s h b = Pending_add k p
     \<longrightarrow> \<not> source_exists s (block_link b))"

lemma stored_change_link:
  "type_of b \<noteq> State_type \<Longrightarrow> block_link b = 0"
  by (auto simp: type_of_def block_link_def split: block_hashables.split)

lemma source_exists_stored:
  assumes "blocks_ok s" "block_get s h = Some b" "type_of b = State_type \<or> type_of b = Send_type"
  shows "source_exists s h"
  using assms(2,3) by (auto simp: source_exists_def block_exists_type_iff [OF assms(1)])

lemma traversal_source_collects:
  assumes inv: "undo_inv E g rk s" and apart: "links_apart E s" and b: "block_get s h = Some b" and ng: "h \<noteq> g"
  shows "traversal_source E s b = (case stored_change E s h b of Pending_del k \<Rightarrow> Some (snd k) | _ \<Rightarrow> None)"
proof (cases "stored_change E s h b")
  case Pending_none
  then have "type_of b = Change_type \<or> type_of b = State_type \<and> (block_link b = 0 \<or> ledger_is_epoch_link E (block_link b))"
    by (auto simp: stored_change_def block_change_def type_of_def block_link_def Let_def split: block_hashables.splits if_splits)
  then show ?thesis
    using Pending_none stored_change_link [of b]
    by (auto simp: traversal_source_def type_of_def block_source_def Let_def split: block_hashables.splits)
next
  case (Pending_add k p)
  then have "block_source b = 0"
    by (auto simp: stored_change_def block_change_def block_source_def Let_def split: block_hashables.splits if_splits)
  then show ?thesis
    using Pending_add apart b by (auto simp: traversal_source_def links_apart_def)
next
  case (Pending_del k)
  note hist = undo_invD(1) [OF inv] and ok = undo_invD(2) [OF inv]
  obtain src p where src: "block_get s (snd k) = Some src" "stored_change E s (snd k) src = Pending_add k p"
    using history_source [OF hist b ng Pending_del] by metis
  have "type_of src = State_type \<or> type_of src = Send_type"
    using src(2) by (auto simp: stored_change_def block_change_def type_of_def Let_def split: block_hashables.splits if_splits)
  then have "source_exists s (snd k)" using source_exists_stored [OF store_okD(1) [OF ok] src(1)] by blast
  moreover have "snd k \<noteq> 0" "\<not> ledger_is_epoch_link E (snd k)"
    using src(1) store_okD(6) [OF ok] history_okD(4) [OF hist src(1)] by auto
  moreover have "(if block_source b = 0 then block_link b else block_source b) = snd k"
    using Pending_del \<open>snd k \<noteq> 0\<close>
    by (auto simp: stored_change_def block_change_def block_source_def block_link_def Let_def split: block_hashables.splits if_splits)
  ultimately show ?thesis using Pending_del by (simp add: traversal_source_def)
qed

text \<open>What a block above the cemented ones collects: a send of lower rank.\<close>

lemma collects_source:
  assumes hist: "history_ok E g rk s" and c: "collects E g s a n = Some src" and n: "0 < n" "n \<le> chain_length s a"
  obtains a' m where "src = chain_hash s a' m" "0 < m" "m \<le> chain_length s a'" "rk src < rk (chain_hash s a n)"
    "collects E g s a' m = None"
proof -
  let ?h = "chain_hash s a n"
  obtain b where b: "block_get s ?h = Some b" using chain_block [OF hist n] by blast
  with c obtain k where k: "?h \<noteq> g" "stored_change E s ?h b = Pending_del k" "src = snd k"
    by (auto simp: collects_def Let_def split: if_splits pending_change.splits)
  obtain sb p where sb: "block_get s (snd k) = Some sb" "stored_change E s (snd k) sb = Pending_add k p" "rk (snd k) < rk ?h"
    using history_source [OF hist b k(1,2)] by metis
  have at: "stored_at s (own_account sb) (unat (own_height sb)) src" using sb(1) k(3) by (auto simp: stored_at_def)
  have "collects E g s (own_account sb) (unat (own_height sb)) = None"
    using chain_hash_eq [OF hist at] sb(1,2) k(3) by (simp add: collects_def Let_def)
  then show ?thesis
    using that chain_hash_eq [OF hist at] stored_height_positive [OF hist at] stored_within [OF hist at] sb(3) k(3) by metis
qed

text \<open>The blocks above the confirmation height are read by the traversal as what they collect.\<close>

lemma genesis_cemented:
  assumes "undo_inv E g rk s" "cemented_to s a < n" "n \<le> chain_length s a"
  shows "chain_hash s a n \<noteq> g"
proof
  assume g: "chain_hash s a n = g"
  have "stored_at s a n g" using chain_hash_stored [OF undo_invD(1) [OF assms(1)] _ assms(3)] assms(2) g by simp
  then show False
    using undo_invD(3) [OF assms(1)] assms(2)
    by (auto simp: cement_ok_def cemented_def cemented_to_def stored_at_def word_le_nat_alt split: option.splits)
qed

lemma traversal_source_chain:
  assumes inv: "undo_inv E g rk s" and apart: "links_apart E s" and n: "cemented_to s a < n" "n \<le> chain_length s a"
    and b: "block_get s (chain_hash s a n) = Some b"
  shows "traversal_source E s b = collects E g s a n"
  using traversal_source_collects [OF inv apart b genesis_cemented [OF inv n]] b genesis_cemented [OF inv n]
  by (simp add: collects_def)

end
