(* ===== verification/Confirmation_Collect.thy ===== *)
theory Confirmation_Collect
  imports Confirmation_Chains
begin

text \<open>
  What collecting the receives of an account leaves on the stack: one entry for every receive above the
  iterated height, the lowest on top, each with the blocks below it down to the next receive; the blocks
  above the highest receive go to the receive that led to the account, or to the original block.
\<close>

section \<open>The block cache\<close>

abbreviation cu_store :: "confirmation_height_unbounded \<Rightarrow> store" where
  "cu_store U \<equiv> ledger_store (cu_ledger U)"

definition block_cache_ok :: "confirmation_height_unbounded \<Rightarrow> bool" where
  "block_cache_ok U = (\<forall>h x. block_cache U h = Some x \<longrightarrow> x = block_get (cu_store U) h)"

lemma get_block_stored:
  assumes "block_cache_ok U" "block_get (cu_store U) h = Some b"
  shows "get_block_and_sideband h U = (Some b, U\<lparr>block_cache := (block_cache U)(h \<mapsto> Some b)\<rparr>)"
proof (cases "block_cache U h")
  case (Some x)
  then have "x = Some b" using assms by (simp add: block_cache_ok_def)
  then have "(block_cache U)(h \<mapsto> Some b) = block_cache U" using Some by auto
  then show ?thesis using Some \<open>x = Some b\<close> by (simp add: get_block_and_sideband_def)
qed (simp add: get_block_and_sideband_def assms(2) Let_def)

lemma block_cache_ok_add:
  assumes "block_cache_ok U" "block_get (cu_store U) h = Some b"
  shows "block_cache_ok (U\<lparr>block_cache := (block_cache U)(h \<mapsto> Some b)\<rparr>)"
  using assms by (simp add: block_cache_ok_def)

section \<open>Entries of the stack\<close>

definition receive_entry ::
    "env \<Rightarrow> block_hash \<Rightarrow> store \<Rightarrow> confirmation_height_unbounded \<Rightarrow> account \<Rightarrow> nat \<Rightarrow> nat \<Rightarrow> block_hash list \<Rightarrow> receive_source_pair \<Rightarrow> bool" where
  "receive_entry E g s U a lo n sd e = (collects E g s a n = Some (snd e) \<and> lo < n
     \<and> (\<exists>d. details_heap U (fst e) = Some d \<and> details_account d = a \<and> details_hash d = chain_hash s a n
          \<and> unat (details_height d) = n \<and> unat (num_blocks_confirmed d) = n - lo
          \<and> block_callback_data d = segment s a lo n \<and> source_block_callback_data d = sd)
     \<and> (\<forall>k. lo < k \<and> k < n \<longrightarrow> collects E g s a k = None
          \<and> implicit_receive_cemented_mapping U (chain_hash s a k) = Some (fst e)))"

fun receives_above ::
    "env \<Rightarrow> block_hash \<Rightarrow> store \<Rightarrow> confirmation_height_unbounded \<Rightarrow> account \<Rightarrow> nat \<Rightarrow> receive_source_pair list \<Rightarrow> nat \<Rightarrow> bool" where
  "receives_above E g s U a lo [] hi = (\<forall>k. lo < k \<and> k \<le> hi \<longrightarrow> collects E g s a k = None)"
| "receives_above E g s U a lo (e # es) hi =
     (\<exists>n. n \<le> hi \<and> receive_entry E g s U a lo n [] e \<and> receives_above E g s U a n es hi)"

lemma receive_entry_frame:
  assumes "receive_entry E g s U a lo n sd e" "details_heap U' (fst e) = details_heap U (fst e)"
    "\<forall>k. lo < k \<and> k < n \<longrightarrow> implicit_receive_cemented_mapping U' (chain_hash s a k) = implicit_receive_cemented_mapping U (chain_hash s a k)"
  shows "receive_entry E g s U' a lo n sd e"
  using assms by (simp add: receive_entry_def)

lemma receives_above_frame:
  assumes "receives_above E g s U a lo es hi" "\<forall>e \<in> set es. details_heap U' (fst e) = details_heap U (fst e)"
    "\<forall>k. lo < k \<and> k \<le> hi \<longrightarrow> implicit_receive_cemented_mapping U' (chain_hash s a k) = implicit_receive_cemented_mapping U (chain_hash s a k)"
  shows "receives_above E g s U' a lo es hi"
  using assms
proof (induction es arbitrary: lo)
  case (Cons e es)
  then obtain n where n: "n \<le> hi" "receive_entry E g s U a lo n [] e" "receives_above E g s U a n es hi" by auto
  have "lo < n" using n(2) by (simp add: receive_entry_def)
  have "receive_entry E g s U' a lo n [] e"
    by (rule receive_entry_frame [OF n(2)]) (use Cons.prems n(1) in auto)
  moreover have "receives_above E g s U' a n es hi"
    by (rule Cons.IH [OF n(3)]) (use Cons.prems \<open>lo < n\<close> in auto)
  ultimately show ?case using n(1) by auto
qed simp

lemma receives_above_extend:
  assumes "receives_above E g s U a lo es m" "m \<le> hi" "\<forall>k. m < k \<and> k \<le> hi \<longrightarrow> collects E g s a k = None"
  shows "receives_above E g s U a lo es hi"
  using assms
proof (induction es arbitrary: lo)
  case Nil
  then show ?case by (simp, meson not_le_imp_less)
next
  case (Cons e es)
  then show ?case by (auto intro: le_trans)
qed

lemma receives_above_append:
  assumes "receives_above E g s U a lo es m" "lo \<le> m" "lo = m \<or> collects E g s a m \<noteq> None"
    "receive_entry E g s U a m n [] e" "n \<le> hi" "\<forall>k. n < k \<and> k \<le> hi \<longrightarrow> collects E g s a k = None"
  shows "receives_above E g s U a lo (es @ [e]) hi"
  using assms
proof (induction es arbitrary: lo)
  case Nil
  then have "lo = m" by (metis antisym_conv2 option.discI receives_above.simps(1) order_refl)
  with Nil show ?case by auto
next
  case (Cons e' es)
  then obtain n' where n': "n' \<le> m" "receive_entry E g s U a lo n' [] e'" "receives_above E g s U a n' es m" by auto
  have "n' = m \<or> collects E g s a m \<noteq> None" using Cons.prems(2,3) n' by (auto simp: receive_entry_def)
  with Cons.IH [OF n'(3,1)] Cons.prems n' show ?case
    by (auto simp: receive_entry_def intro!: exI [of _ n'])
qed

section \<open>The loop below a receive\<close>

text \<open>What collecting leaves alone.\<close>

definition collect_frame :: "store \<Rightarrow> account \<Rightarrow> nat \<Rightarrow> nat \<Rightarrow> details_ref set \<Rightarrow> confirmation_height_unbounded \<Rightarrow> confirmation_height_unbounded \<Rightarrow> bool" where
  "collect_frame s a lo hi R U U' =
     (cu_ledger U' = cu_ledger U \<and> confirmed_iterated_pairs U' = confirmed_iterated_pairs U
      \<and> pending_writes U' = pending_writes U \<and> batch_write_size U' = batch_write_size U
      \<and> cemented_notified U' = cemented_notified U \<and> already_cemented_notified U' = already_cemented_notified U
      \<and> next_ref U \<le> next_ref U' \<and> block_cache_ok U'
      \<and> (\<forall>h. block_cache U h \<noteq> None \<longrightarrow> block_cache U' h \<noteq> None)
      \<and> (\<forall>k. lo < k \<and> k \<le> hi \<longrightarrow> block_cache U' (chain_hash s a k) \<noteq> None)
      \<and> (\<forall>r. r < next_ref U \<longrightarrow> r \<notin> R \<longrightarrow> details_heap U' r = details_heap U r)
      \<and> (\<forall>h. h \<notin> chain_hash s a ` {lo<..hi} \<longrightarrow>
            implicit_receive_cemented_mapping U' h = implicit_receive_cemented_mapping U h))"

lemma collect_frame_trans:
  assumes "collect_frame s a m hi R U U1" "collect_frame s a lo m R1 U1 U2" "lo \<le> m" "m \<le> hi"
    "R1 \<inter> {..<next_ref U} \<subseteq> R"
  shows "collect_frame s a lo hi R U U2"
proof -
  have "chain_hash s a ` {lo<..hi} = chain_hash s a ` {lo<..m} \<union> chain_hash s a ` {m<..hi}"
    using assms(3,4) by (metis image_Un ivl_disj_un_two(6))
  moreover have "block_cache U2 (chain_hash s a k) \<noteq> None" if "lo < k" "k \<le> hi" for k
    using assms(1,2) that by (cases "k \<le> m") (auto simp: collect_frame_def)
  moreover have "details_heap U2 r = details_heap U r" if "r < next_ref U" "r \<notin> R" for r
  proof -
    have "r \<notin> R1" "r < next_ref U1" using assms(1,5) that by (auto simp: collect_frame_def)
    then show ?thesis using assms(1,2) that by (simp add: collect_frame_def)
  qed
  ultimately show ?thesis using assms(1,2) by (simp add: collect_frame_def)
qed

text \<open>The blocks above \<open>lo\<close> up to \<open>hi\<close> as the loop reads them.\<close>

definition readable :: "env \<Rightarrow> block_hash \<Rightarrow> store \<Rightarrow> confirmation_height_unbounded \<Rightarrow> account \<Rightarrow> nat \<Rightarrow> nat \<Rightarrow> bool" where
  "readable E g s U a lo hi = (inj_on (chain_hash s a) {lo<..hi}
     \<and> (\<forall>k. lo < k \<and> k \<le> hi \<longrightarrow> chain_hash s a k \<noteq> 0
          \<and> (\<exists>b. block_get (cu_store U) (chain_hash s a k) = Some b \<and> traversal_source E (cu_store U) b = collects E g s a k
               \<and> (Suc lo < k \<longrightarrow> block_previous b = chain_hash s a (k - 1)))))"

lemma readableE:
  assumes "readable E g s U a lo hi" "lo < k" "k \<le> hi"
  obtains b where "block_get (cu_store U) (chain_hash s a k) = Some b" "traversal_source E (cu_store U) b = collects E g s a k"
    "Suc lo < k \<longrightarrow> block_previous b = chain_hash s a (k - 1)" "chain_hash s a k \<noteq> 0"
  using assms unfolding readable_def by metis

lemma readable_outside:
  assumes "readable E g s U a lo hi" "lo < k" "k \<le> hi" "m < k"
  shows "chain_hash s a k \<notin> chain_hash s a ` {lo<..m}"
  using assms unfolding readable_def inj_on_def by fastforce

text \<open>One step: the block is cached, then treated.\<close>

definition cached_block :: "block_hash \<Rightarrow> block \<Rightarrow> collecting \<Rightarrow> collecting" where
  "cached_block h b C = C\<lparr>col_processor := (col_processor C)\<lparr>block_cache := (block_cache (col_processor C))(h \<mapsto> Some b)\<rparr>\<rparr>"

lemma collect_loop_step:
  assumes "block_cache_ok (col_processor C)" "block_get (cu_store (col_processor C)) h = Some b" "h \<noteq> 0" "\<forall>n. \<not> stop n"
  shows "collect_loop E stop a conf (Suc n) h o1 hit C = do {
     (o1, hit, C) \<leftarrow> collect_block E a (conf + of_nat (Suc n)) h b o1 hit (cached_block h b C);
     collect_loop E stop a conf n (block_previous b) o1 hit C }"
  using get_block_stored [OF assms(1,2)] assms(3,4) by (simp add: cached_block_def)

text \<open>The receives from \<open>n\<close> down, the first of which was on the stack already.\<close>

definition collected_below ::
    "env \<Rightarrow> block_hash \<Rightarrow> store \<Rightarrow> account \<Rightarrow> nat \<Rightarrow> nat \<Rightarrow> nat \<Rightarrow> receive_source_pair \<Rightarrow> receive_source_pair list
      \<Rightarrow> collecting \<Rightarrow> collecting \<Rightarrow> receive_source_pair list \<Rightarrow> bool" where
  "collected_below E g s a c k n e rest C C' es =
     (receive_source_pairs C' = es @ rest \<and> receives_above E g s (col_processor C') a c es n \<and> es \<noteq> []
      \<and> distinct (map fst es) \<and> (\<forall>e' \<in> set es. e' = e \<or> next_ref (col_processor C) \<le> fst e')
      \<and> (\<forall>e' \<in> set es. fst e' < next_ref (col_processor C'))
      \<and> block_callback_datas_required C' = block_callback_datas_required C
      \<and> orig_block_callback_data C' = orig_block_callback_data C
      \<and> collect_frame s a c (c + k) {fst e} (col_processor C) (col_processor C'))"

text \<open>Below a receive, whose entry covers the blocks above \<open>c + k\<close>.\<close>

lemma collect_below_receive:
  assumes "readable E g s (col_processor C) a c hi" "block_cache_ok (col_processor C)" "\<forall>n. \<not> stop n"
    "unat conf = c" "hi < 2 ^ 64" "c + k < n" "n \<le> hi" "k > 0 \<longrightarrow> h = chain_hash s a (c + k)"
    "receive_source_pairs C = e # rest" "fst e < next_ref (col_processor C)"
    "receive_entry E g s (col_processor C) a (c + k) n [] e"
  shows "\<exists>C' es. collect_loop E stop a conf k h False True C = Some C' \<and> collected_below E g s a c k n e rest C C' es"
  using assms
proof (induction k arbitrary: C h n e rest)
  case 0
  then show ?case
    by (intro exI [of _ C] exI [of _ "[e]"]) (auto simp: collected_below_def collect_frame_def)
next
  case (Suc k)
  let ?h = "chain_hash s a (c + Suc k)"
  let ?U = "col_processor C"
  have h: "h = ?h" using Suc.prems(8) by simp
  obtain b where b: "block_get (cu_store ?U) h = Some b" "traversal_source E (cu_store ?U) b = collects E g s a (c + Suc k)"
      "Suc c < c + Suc k \<longrightarrow> block_previous b = chain_hash s a (c + k)" "h \<noteq> 0"
    using readableE [OF Suc.prems(1), of "c + Suc k"] Suc.prems(6,7) h by auto
  define C0 where "C0 = cached_block h b C"
  note step = collect_loop_step [OF Suc.prems(2) b(1,4) Suc.prems(3), of E a conf k False True, folded C0_def]
  have C0: "receive_source_pairs C0 = e # rest" "cu_ledger (col_processor C0) = cu_ledger ?U"
      "next_ref (col_processor C0) = next_ref ?U" "details_heap (col_processor C0) = details_heap ?U"
      "implicit_receive_cemented_mapping (col_processor C0) = implicit_receive_cemented_mapping ?U"
      "block_callback_datas_required C0 = block_callback_datas_required C" "orig_block_callback_data C0 = orig_block_callback_data C"
    using Suc.prems(9) by (simp_all add: C0_def cached_block_def)
  have fr0: "collect_frame s a (c + k) (c + Suc k) R ?U (col_processor C0)" for R
    using block_cache_ok_add [OF Suc.prems(2) b(1)] h
    by (auto simp: collect_frame_def C0_def cached_block_def le_Suc_eq)
  have word: "unat (conf + of_nat (Suc k)) = c + Suc k"
    using Suc.prems(4-7) by (simp add: unat_word_ariths unat_of_nat)
  have k: "c + k \<le> c + Suc k" "c \<le> c + k" by simp_all
  show ?case
  proof (cases "collects E g s a (c + Suc k)")
    case (Some src)
    define C1 where "C1 = push_receive a h (conf + of_nat (Suc k)) src C0"
    let ?e = "(next_ref ?U, src)"
    have C1: "receive_source_pairs C1 = ?e # e # rest" "next_ref (col_processor C1) = Suc (next_ref ?U)"
        "block_callback_datas_required C1 = block_callback_datas_required C" "orig_block_callback_data C1 = orig_block_callback_data C"
        "cu_ledger (col_processor C1) = cu_ledger ?U"
      using C0 by (simp_all add: C1_def push_receive_def Let_def details_put_def)
    have fr1: "collect_frame s a (c + k) (c + Suc k) {} ?U (col_processor C1)"
      using fr0 [of "{}"] C0 by (auto simp: C1_def push_receive_def Let_def details_put_def collect_frame_def block_cache_ok_def)
    have ent: "receive_entry E g s (col_processor C1) a (c + k) (c + Suc k) [] ?e"
      using Some word h C0
      by (auto simp: receive_entry_def C1_def push_receive_def Let_def details_put_def make_conf_height_details_def segment_one)
    have run: "collect_loop E stop a conf (Suc k) h False True C = collect_loop E stop a conf k (block_previous b) False True C1"
      using step b(2) Some C0(2) by (simp add: collect_block_def hand_over_callbacks_def C1_def)
    have "readable E g s (col_processor C1) a c hi" "block_cache_ok (col_processor C1)"
      using Suc.prems(1) C1(5) fr1 by (simp_all add: readable_def collect_frame_def)
    then have "\<exists>C' es. collect_loop E stop a conf k (block_previous b) False True C1 = Some C'
        \<and> collected_below E g s a c k (c + Suc k) ?e (e # rest) C1 C' es"
      by (intro Suc.IH) (use Suc.prems b(3) C1 ent in auto)
    then obtain C' es where C': "collect_loop E stop a conf k (block_previous b) False True C1 = Some C'"
      and res: "collected_below E g s a c k (c + Suc k) ?e (e # rest) C1 C' es" by blast
    note r = res [unfolded collected_below_def]
    have fr: "collect_frame s a c (c + Suc k) {} ?U (col_processor C')"
      by (rule collect_frame_trans [OF fr1, where lo = c and ?R1.0 = "{next_ref ?U}"]) (use r in auto)
    have out: "chain_hash s a j \<notin> chain_hash s a ` {c<..c + Suc k}" if "c + Suc k < j" "j < n" for j
      by (rule readable_outside [OF Suc.prems(1)]) (use that Suc.prems(7) in auto)
    have "receive_entry E g s (col_processor C') a (c + Suc k) n [] e"
      by (rule receive_entry_frame [OF Suc.prems(11)]) (use fr Suc.prems(10) out in \<open>auto simp: collect_frame_def\<close>)
    then have "receives_above E g s (col_processor C') a c (es @ [e]) n"
      using r Some by (intro receives_above_append [of _ _ _ _ _ _ _ "c + Suc k" n]) auto
    moreover have "fst e \<notin> fst ` set es" "fst e < next_ref (col_processor C')"
      using r Suc.prems(10) C1(2) fr by (auto simp: collect_frame_def)
    moreover have "collect_frame s a c (c + Suc k) {fst e} ?U (col_processor C')" using fr by (auto simp: collect_frame_def)
    ultimately show ?thesis
      using run C' C1 r by (intro exI [of _ C'] exI [of _ "es @ [e]"]) (auto simp: collected_below_def)
  next
    case None
    obtain d where d: "details_heap ?U (fst e) = Some d" "details_account d = a" "details_hash d = chain_hash s a n"
        "unat (details_height d) = n" "unat (num_blocks_confirmed d) = n - (c + Suc k)"
        "block_callback_data d = segment s a (c + Suc k) n" "source_block_callback_data d = []"
      using Suc.prems(11) by (auto simp: receive_entry_def)
    define d1 where "d1 = d\<lparr>num_blocks_confirmed := num_blocks_confirmed d + 1, block_callback_data := block_callback_data d @ [h]\<rparr>"
    define C1 where "C1 = C0\<lparr>col_processor := (details_put (fst e) d1 (col_processor C0))
        \<lparr>implicit_receive_cemented_mapping := (implicit_receive_cemented_mapping ?U)(h \<mapsto> fst e)\<rparr>\<rparr>"
    have add: "add_below_receive h C0 = Some C1"
      using C0 d(1) by (cases e) (simp add: add_below_receive_def C1_def d1_def details_put_def)
    have C1: "receive_source_pairs C1 = e # rest" "next_ref (col_processor C1) = next_ref ?U"
        "block_callback_datas_required C1 = block_callback_datas_required C" "orig_block_callback_data C1 = orig_block_callback_data C"
        "cu_ledger (col_processor C1) = cu_ledger ?U"
      using C0 by (simp_all add: C1_def details_put_def)
    have fr1: "collect_frame s a (c + k) (c + Suc k) {fst e} ?U (col_processor C1)"
      using fr0 [of "{fst e}"] C0 h by (auto simp: C1_def details_put_def collect_frame_def block_cache_ok_def)
    have num: "unat (num_blocks_confirmed d + 1) = n - (c + k)"
      using d(5) Suc.prems(5-7) by (simp add: unat_word_ariths)
    have "collects E g s a j = None \<and> implicit_receive_cemented_mapping (col_processor C1) (chain_hash s a j) = Some (fst e)"
      if j: "c + k < j" "j < n" for j
    proof (cases "j = c + Suc k")
      case True
      then show ?thesis using None h by (simp add: C1_def details_put_def)
    next
      case False
      then have "chain_hash s a j \<notin> chain_hash s a ` {c<..c + Suc k}"
        using readable_outside [OF Suc.prems(1)] j Suc.prems(7) by auto
      then have "chain_hash s a j \<noteq> h" using h by auto
      then show ?thesis using Suc.prems(11) False j by (auto simp: receive_entry_def C1_def details_put_def)
    qed
    then have ent: "receive_entry E g s (col_processor C1) a (c + k) n [] e"
      using Suc.prems(6,11) d num segment_extend [of "c + k" n s a] h
      by (simp add: receive_entry_def C1_def details_put_def d1_def)
    have run: "collect_loop E stop a conf (Suc k) h False True C = collect_loop E stop a conf k (block_previous b) False True C1"
      using step b(2) None C0(2) add by (simp add: collect_block_def)
    have "readable E g s (col_processor C1) a c hi" "block_cache_ok (col_processor C1)"
      using Suc.prems(1) C1(5) fr1 by (simp_all add: readable_def collect_frame_def)
    then have "\<exists>C' es. collect_loop E stop a conf k (block_previous b) False True C1 = Some C'
        \<and> collected_below E g s a c k n e rest C1 C' es"
      by (intro Suc.IH) (use Suc.prems b(3) C1 ent in auto)
    then obtain C' es where C': "collect_loop E stop a conf k (block_previous b) False True C1 = Some C'"
      and r: "collected_below E g s a c k n e rest C1 C' es" by blast
    have "collect_frame s a c (c + Suc k) {fst e} ?U (col_processor C')"
      by (rule collect_frame_trans [OF fr1, where lo = c and ?R1.0 = "{fst e}"]) (use r in \<open>auto simp: collected_below_def\<close>)
    with r C1 have "collected_below E g s a c (Suc k) n e rest C C' es" by (simp add: collected_below_def)
    then show ?thesis using run C' by auto
  qed
qed

section \<open>The loop from the top\<close>

text \<open>
  \<open>m\<close> is the highest receive, or \<open>c\<close> when there is none; the blocks above it go to the original block's
  callbacks, or to the receive on top of the stack, or stay where they were gathered.
\<close>

definition collected_above ::
    "env \<Rightarrow> block_hash \<Rightarrow> store \<Rightarrow> account \<Rightarrow> nat \<Rightarrow> nat \<Rightarrow> nat \<Rightarrow> bool \<Rightarrow> collecting \<Rightarrow> collecting
      \<Rightarrow> receive_source_pair list \<Rightarrow> nat \<Rightarrow> bool" where
  "collected_above E g s a c k hi orig C C' es m =
     (c \<le> m \<and> m \<le> hi \<and> (\<forall>j. m < j \<and> j \<le> hi \<longrightarrow> collects E g s a j = None)
      \<and> (if es = [] then m = c else c < m \<and> collects E g s a m \<noteq> None)
      \<and> receive_source_pairs C' = es @ receive_source_pairs C \<and> receives_above E g s (col_processor C') a c es hi
      \<and> distinct (map fst es)
      \<and> (\<forall>e \<in> set es. next_ref (col_processor C) \<le> fst e \<and> fst e < next_ref (col_processor C'))
      \<and> (if orig then block_callback_datas_required C' = [] \<and> orig_block_callback_data C' = segment s a m hi
         else orig_block_callback_data C' = orig_block_callback_data C
           \<and> block_callback_datas_required C' = (if es = [] then segment s a c hi else []))
      \<and> (\<not> orig \<and> es \<noteq> [] \<longrightarrow> (\<forall>d. details_heap (col_processor C) (fst (hd (receive_source_pairs C))) = Some d \<longrightarrow>
            details_heap (col_processor C') (fst (hd (receive_source_pairs C))) = Some (d\<lparr>source_block_callback_data := segment s a m hi\<rparr>)))
      \<and> (es = [] \<longrightarrow> details_heap (col_processor C') = details_heap (col_processor C) \<and> next_ref (col_processor C') = next_ref (col_processor C)
            \<and> implicit_receive_cemented_mapping (col_processor C') = implicit_receive_cemented_mapping (col_processor C))
      \<and> collect_frame s a c (c + k) (if orig \<or> es = [] then {} else {fst (hd (receive_source_pairs C))}) (col_processor C) (col_processor C'))"

lemma collect_from_top:
  assumes "readable E g s (col_processor C) a c hi" "block_cache_ok (col_processor C)" "\<forall>n. \<not> stop n"
    "unat conf = c" "hi < 2 ^ 64" "c + k \<le> hi" "k > 0 \<longrightarrow> h = chain_hash s a (c + k)"
    "\<forall>j. c + k < j \<and> j \<le> hi \<longrightarrow> collects E g s a j = None"
    "if orig then block_callback_datas_required C = [] \<and> orig_block_callback_data C = segment s a (c + k) hi
     else block_callback_datas_required C = segment s a (c + k) hi \<and> collects E g s a hi = None
       \<and> (\<exists>e rest d. receive_source_pairs C = e # rest \<and> fst e < next_ref (col_processor C) \<and> details_heap (col_processor C) (fst e) = Some d)"
  shows "\<exists>C' es m. collect_loop E stop a conf k h orig False C = Some C' \<and> collected_above E g s a c k hi orig C C' es m"
  using assms
proof (induction k arbitrary: C h)
  case 0
  then show ?case
    by (intro exI [of _ C] exI [of _ "[]"] exI [of _ c]) (auto simp: collected_above_def collect_frame_def)
next
  case (Suc k)
  let ?U = "col_processor C" and ?n = "c + Suc k"
  have h: "h = chain_hash s a ?n" using Suc.prems(7) by simp
  obtain b where b: "block_get (cu_store ?U) h = Some b" "traversal_source E (cu_store ?U) b = collects E g s a ?n"
      "Suc c < ?n \<longrightarrow> block_previous b = chain_hash s a (c + k)" "h \<noteq> 0"
    using readableE [OF Suc.prems(1), of ?n] Suc.prems(6) h by auto
  define C0 where "C0 = cached_block h b C"
  note step = collect_loop_step [OF Suc.prems(2) b(1,4) Suc.prems(3), of E a conf k orig False, folded C0_def]
  have C0: "receive_source_pairs C0 = receive_source_pairs C" "cu_ledger (col_processor C0) = cu_ledger ?U"
      "next_ref (col_processor C0) = next_ref ?U" "details_heap (col_processor C0) = details_heap ?U"
      "implicit_receive_cemented_mapping (col_processor C0) = implicit_receive_cemented_mapping ?U"
      "block_callback_datas_required C0 = block_callback_datas_required C" "orig_block_callback_data C0 = orig_block_callback_data C"
    by (simp_all add: C0_def cached_block_def)
  have fr0: "collect_frame s a (c + k) ?n R ?U (col_processor C0)" for R
    using block_cache_ok_add [OF Suc.prems(2) b(1)] h
    by (auto simp: collect_frame_def C0_def cached_block_def le_Suc_eq)
  have word: "unat (conf + of_nat (Suc k)) = ?n"
    using Suc.prems(4-6) by (simp add: unat_word_ariths unat_of_nat)
  show ?case
  proof (cases "collects E g s a ?n")
    case (Some src)
    let ?top = "fst (hd (receive_source_pairs C))" and ?e = "(next_ref ?U, src)"
    let ?R = "if orig then {} else {?top}"
    have lt: "\<not> orig \<longrightarrow> ?n < hi" using Suc.prems(6,9) Some by (cases "?n = hi") (auto split: if_splits)
    obtain C1 where C1: "hand_over_callbacks False C0 = Some C1" "receive_source_pairs C1 = receive_source_pairs C"
        "next_ref (col_processor C1) = next_ref ?U" "block_callback_datas_required C1 = []"
        "orig_block_callback_data C1 = orig_block_callback_data C" "cu_ledger (col_processor C1) = cu_ledger ?U"
        "collect_frame s a (c + k) ?n ?R ?U (col_processor C1)"
      and top: "\<not> orig \<longrightarrow> ?top < next_ref ?U \<and> (\<forall>d. details_heap ?U ?top = Some d \<longrightarrow>
          details_heap (col_processor C1) ?top = Some (d\<lparr>source_block_callback_data := segment s a ?n hi\<rparr>))"
    proof (cases orig)
      case True
      then show thesis using that [of C0] C0 fr0 Suc.prems(9) by (simp add: hand_over_callbacks_def)
    next
      case False
      then obtain e rest d where e: "receive_source_pairs C = e # rest" "fst e < next_ref ?U" "details_heap ?U (fst e) = Some d"
        using Suc.prems(9) by auto
      let ?C1 = "C0\<lparr>col_processor := details_put (fst e) (d\<lparr>source_block_callback_data := segment s a ?n hi\<rparr>) (col_processor C0),
          block_callback_datas_required := []\<rparr>"
      have "hand_over_callbacks False C0 = Some ?C1"
        using C0 e False lt Suc.prems(9) by (cases e) (simp add: hand_over_callbacks_def)
      moreover have "collect_frame s a (c + k) ?n {fst e} ?U (col_processor ?C1)"
        using fr0 [of "{fst e}"] C0 by (auto simp: collect_frame_def details_put_def block_cache_ok_def)
      ultimately show thesis using that [of ?C1] C0 e False by (simp add: details_put_def)
    qed
    define C2 where "C2 = push_receive a h (conf + of_nat (Suc k)) src C1"
    have C2: "receive_source_pairs C2 = ?e # receive_source_pairs C" "next_ref (col_processor C2) = Suc (next_ref ?U)"
        "block_callback_datas_required C2 = []" "orig_block_callback_data C2 = orig_block_callback_data C"
        "cu_ledger (col_processor C2) = cu_ledger ?U"
      using C1 by (simp_all add: C2_def push_receive_def Let_def details_put_def)
    have fr2: "collect_frame s a (c + k) ?n ?R ?U (col_processor C2)"
      using C1(3,7) by (auto simp: C2_def push_receive_def Let_def details_put_def collect_frame_def block_cache_ok_def)
    have ent: "receive_entry E g s (col_processor C2) a (c + k) ?n [] ?e"
      using Some word h C1(3)
      by (auto simp: receive_entry_def C2_def push_receive_def Let_def details_put_def make_conf_height_details_def segment_one)
    have run: "collect_loop E stop a conf (Suc k) h orig False C = collect_loop E stop a conf k (block_previous b) False True C2"
      using step b(2) Some C0(2) C1(1) by (simp add: collect_block_def C2_def)
    have rd: "readable E g s (col_processor C2) a c hi" "block_cache_ok (col_processor C2)"
      using Suc.prems(1) C2(5) fr2 by (simp_all add: readable_def collect_frame_def)
    have "\<exists>C' es. collect_loop E stop a conf k (block_previous b) False True C2 = Some C'
        \<and> collected_below E g s a c k ?n ?e (receive_source_pairs C) C2 C' es"
      by (rule collect_below_receive [OF rd]) (use Suc.prems b(3) C2 ent in auto)
    then obtain C' es where C': "collect_loop E stop a conf k (block_previous b) False True C2 = Some C'"
      and res: "collected_below E g s a c k ?n ?e (receive_source_pairs C) C2 C' es" by blast
    note r = res [unfolded collected_below_def]
    have fr: "collect_frame s a c ?n ?R ?U (col_processor C')"
      by (rule collect_frame_trans [OF fr2, where lo = c and ?R1.0 = "{next_ref ?U}"]) (use r in auto)
    have topC2: "\<not> orig \<longrightarrow> details_heap (col_processor C2) ?top = details_heap (col_processor C1) ?top"
      using top C1(3) by (auto simp: C2_def push_receive_def Let_def details_put_def)
    have topC': "\<not> orig \<longrightarrow> details_heap (col_processor C') ?top = details_heap (col_processor C2) ?top"
      using top r C2(2) by (auto simp: collect_frame_def)
    have "receives_above E g s (col_processor C') a c es hi"
      by (rule receives_above_extend [of _ _ _ _ _ _ _ ?n]) (use r Suc.prems(6,8) in auto)
    then have "collected_above E g s a c (Suc k) hi orig C C' es ?n"
      using r C2 fr top topC2 topC' Some Suc.prems(6,8,9) by (auto simp: collected_above_def)
    then show ?thesis using run C' by auto
  next
    case None
    define C1 where "C1 = (if orig then C0\<lparr>orig_block_callback_data := orig_block_callback_data C0 @ [h]\<rparr>
        else C0\<lparr>block_callback_datas_required := block_callback_datas_required C0 @ [h]\<rparr>)"
    have C1: "receive_source_pairs C1 = receive_source_pairs C" "col_processor C1 = col_processor C0"
        "orig_block_callback_data C1 = (if orig then orig_block_callback_data C @ [h] else orig_block_callback_data C)"
        "block_callback_datas_required C1 = (if orig then block_callback_datas_required C else block_callback_datas_required C @ [h])"
      using C0 by (simp_all add: C1_def)
    have run: "collect_loop E stop a conf (Suc k) h orig False C = collect_loop E stop a conf k (block_previous b) orig False C1"
      using step b(2) None C0(2) by (simp add: collect_block_def C1_def)
    have rd: "readable E g s (col_processor C1) a c hi" "block_cache_ok (col_processor C1)"
      using Suc.prems(1) C1(2) C0(2) fr0 by (simp_all add: readable_def collect_frame_def)
    have none: "\<forall>j. c + k < j \<and> j \<le> hi \<longrightarrow> collects E g s a j = None"
      using Suc.prems(8) None by (metis Suc_leI add_Suc_right order_le_less)
    have "\<exists>C' es m. collect_loop E stop a conf k (block_previous b) orig False C1 = Some C' \<and> collected_above E g s a c k hi orig C1 C' es m"
      by (rule Suc.IH [OF rd])
         (use Suc.prems(3-6,9) b(3) C1 C0 none h segment_extend [of "c + k" hi s a] in \<open>auto split: if_splits\<close>)
    then obtain C' es m where C': "collect_loop E stop a conf k (block_previous b) orig False C1 = Some C'"
      and res: "collected_above E g s a c k hi orig C1 C' es m" by blast
    note r = res [unfolded collected_above_def C1(1,2)]
    have "collect_frame s a c ?n (if orig \<or> es = [] then {} else {fst (hd (receive_source_pairs C))}) ?U (col_processor C')"
      by (rule collect_frame_trans [OF fr0, where lo = c and ?R1.0 = "if orig \<or> es = [] then {} else {fst (hd (receive_source_pairs C))}"])
         (use r in auto)
    then have "collected_above E g s a c (Suc k) hi orig C C' es m"
      using r C0 C1 unfolding collected_above_def by auto
    then show ?thesis using run C' by auto
  qed
qed

text \<open>Stopping early leaves what is queued and written alone.\<close>

lemma collect_loop_stop:
  "collect_loop E (\<lambda>_. False) a conf k h orig hit C \<noteq> None \<Longrightarrow> collect_loop E stop a conf k h orig hit C \<noteq> None"
proof (induction k arbitrary: h orig hit C)
  case (Suc k)
  show ?case
  proof (cases "h = 0 \<or> stop k")
    case False
    then show ?thesis
      using Suc.prems Suc.IH by (auto split: prod.splits option.splits bind_splits simp del: not_None_eq)
  qed simp
qed simp

definition collect_keeps :: "confirmation_height_unbounded \<Rightarrow> confirmation_height_unbounded \<Rightarrow> bool" where
  "collect_keeps U U' = (cu_ledger U' = cu_ledger U \<and> confirmed_iterated_pairs U' = confirmed_iterated_pairs U
     \<and> pending_writes U' = pending_writes U \<and> cemented_notified U' = cemented_notified U
     \<and> (\<forall>h. block_cache U h \<noteq> None \<longrightarrow> block_cache U' h = block_cache U h) \<and> (block_cache_ok U \<longrightarrow> block_cache_ok U'))"

lemma collect_keeps_trans [trans]: "collect_keeps U V \<Longrightarrow> collect_keeps V W \<Longrightarrow> collect_keeps U W"
  by (simp add: collect_keeps_def)

lemma collect_block_keeps:
  assumes "collect_block E a n h b orig hit C = Some (orig', hit', C')"
  shows "collect_keeps (col_processor C) (col_processor C')"
  using assms
  by (auto simp: collect_block_def hand_over_callbacks_def push_receive_def add_below_receive_def collect_keeps_def
      details_put_def Let_def block_cache_ok_def split: option.splits if_splits list.splits bind_splits)

lemma get_block_keeps: "get_block_and_sideband h U = (x, U') \<Longrightarrow> collect_keeps U U'"
  by (auto simp: get_block_and_sideband_def collect_keeps_def block_cache_ok_def Let_def split: option.splits if_splits)

lemma collect_loop_keeps:
  "collect_loop E stop a conf k h orig hit C = Some C' \<Longrightarrow> collect_keeps (col_processor C) (col_processor C')"
proof (induction k arbitrary: h orig hit C)
  case (Suc k)
  obtain x U where g: "get_block_and_sideband h (col_processor C) = (x, U)" by fastforce
  note keep = get_block_keeps [OF g]
  show ?case
  proof (cases "h = 0 \<or> stop k")
    case True
    then show ?thesis using Suc.prems by (auto simp: collect_keeps_def)
  next
    case False
    show ?thesis
    proof (cases x)
      case None
      then show ?thesis using Suc.prems Suc.IH [of h orig hit "C\<lparr>col_processor := U\<rparr>"] False g collect_keeps_trans [OF keep] by simp
    next
      case (Some b)
      then obtain o1 hit1 C1 where "collect_block E a (conf + of_nat (Suc k)) h b orig hit (C\<lparr>col_processor := U\<rparr>) = Some (o1, hit1, C1)"
          "collect_loop E stop a conf k (block_previous b) o1 hit1 C1 = Some C'"
        using Suc.prems False g by (auto split: bind_splits)
      then show ?thesis
        using collect_block_keeps Suc.IH collect_keeps_trans [OF keep] collect_keeps_trans by fastforce
    qed
  qed
qed (simp add: collect_keeps_def)

end
