(* ===== verification/Confirmation_Writes.thy ===== *)
theory Confirmation_Writes
  imports Confirmation_Collect
begin

text \<open>
  The heights the processor has queued: the store as it will be once they are written, and what a queued
  write must be for the queue to stay in order and for the observers to hear of exactly the blocks that
  become cemented.
\<close>

section \<open>Stores that differ in confirmation heights\<close>

definition same_blocks :: "store \<Rightarrow> store \<Rightarrow> bool" where
  "same_blocks s s' = (\<exists>t. s' = s\<lparr>confirmation_heights := t\<rparr>)"

lemma same_blocks_refl [simp]: "same_blocks s s"
  unfolding same_blocks_def by (rule exI [of _ "confirmation_heights s"]) simp

lemma same_blocks_trans: "same_blocks s t \<Longrightarrow> same_blocks t u \<Longrightarrow> same_blocks s u"
  by (auto simp: same_blocks_def)

lemma same_blocks_height_written [simp]: "same_blocks s (height_written t p) = same_blocks s t"
proof -
  have w: "\<exists>x. height_written t p = t\<lparr>confirmation_heights := x\<rparr>"
    by (cases "height_written t p = t")
       (auto simp: height_written_def confirmation_height_put_def split: option.splits if_splits intro: exI [of _ "confirmation_heights t"])
  have "\<exists>y. t = height_written t p\<lparr>confirmation_heights := y\<rparr>"
    using w by (auto intro: exI [of _ "confirmation_heights t"])
  with w show ?thesis using same_blocks_trans unfolding same_blocks_def by metis
qed

lemma same_blocks_foldl [simp]: "same_blocks s (foldl height_written t ps) = same_blocks s t"
  by (induction ps arbitrary: t) simp_all

lemma same_blocks_frame:
  assumes "same_blocks s t"
  shows "block_get t = block_get s" "account_get t = account_get s" "source_exists t = source_exists s"
    "stored_change E t = stored_change E s" "chain_hash t = chain_hash s" "chain_length t = chain_length s"
    "collects E g t = collects E g s" "segment t = segment s" "total_supply t = total_supply s"
proof -
  have tab: "block_table ty t = block_table ty s" for ty using assms by (cases ty) (auto simp: same_blocks_def)
  then show bg: "block_get t = block_get s" and se: "source_exists t = source_exists s"
    by (auto simp: block_get_def source_exists_def block_exists_type_def fun_eq_iff)
  show ag: "account_get t = account_get s" using assms by (auto simp: same_blocks_def account_get_def fun_eq_iff)
  show sc: "stored_change E t = stored_change E s" by (simp add: stored_change_def prior_balance_def bg fun_eq_iff)
  show ch: "chain_hash t = chain_hash s" by (simp add: chain_hash_def stored_at_def bg fun_eq_iff)
  show "chain_length t = chain_length s" by (simp add: chain_length_def ag fun_eq_iff)
  show "collects E g t = collects E g s" by (intro ext) (unfold collects_def bg sc ch, rule refl)
  show "segment t = segment s" by (simp add: segment_def ch fun_eq_iff)
  show "total_supply t = total_supply s" using assms by (auto simp: same_blocks_def total_supply_def)
qed

section \<open>The queue\<close>

lemma writes_ok_append: "writes_ok E g s (ps @ [p]) = (writes_ok E g s ps \<and> write_ok E g (foldl height_written s ps) p)"
  by (induction ps arbitrary: s) auto

text \<open>The height a write starts from, the number of blocks it cements and the blocks themselves.\<close>

definition write_exact :: "store \<Rightarrow> store \<Rightarrow> conf_height_details \<Rightarrow> bool" where
  "write_exact s t p = (let a = details_account p; n = unat (details_height p) in
     confirmation_height_get t a \<noteq> None \<and> cemented_to t a < n \<and> unat (num_blocks_confirmed p) = n - cemented_to t a
     \<and> block_callback_data p = segment s a (cemented_to t a) n)"

fun writes_exact :: "store \<Rightarrow> store \<Rightarrow> conf_height_details list \<Rightarrow> bool" where
  "writes_exact s t [] = True"
| "writes_exact s t (p # ps) = (write_exact s t p \<and> writes_exact s (height_written t p) ps)"

lemma writes_exact_append: "writes_exact s t (ps @ [p]) = (writes_exact s t ps \<and> write_exact s (foldl height_written t ps) p)"
  by (induction ps arbitrary: t) auto

lemma cemented_to_written:
  assumes "write_exact s t p"
  shows "cemented_to (height_written t p) = (cemented_to t)(details_account p := unat (details_height p))"
  using assms
  by (auto simp: write_exact_def cemented_to_def height_written_def Let_def fun_eq_iff word_less_nat_alt split: option.splits)

text \<open>The store, the notifications and the count once the queue is written.\<close>

definition queued_store :: "confirmation_height_unbounded \<Rightarrow> store" where
  "queued_store U = foldl height_written (cu_store U) (pending_writes U)"

abbreviation queued_to :: "confirmation_height_unbounded \<Rightarrow> account \<Rightarrow> nat" where
  "queued_to U \<equiv> cemented_to (queued_store U)"

definition write_blocks :: "store \<Rightarrow> conf_height_details \<Rightarrow> block list" where
  "write_blocks s p = map (\<lambda>h. the (block_get s h)) (rev (block_callback_data p))"

definition queued_notified :: "confirmation_height_unbounded \<Rightarrow> block list" where
  "queued_notified U = cemented_notified U @ concat (map (write_blocks (cu_store U)) (pending_writes U))"

definition queued_count :: "confirmation_height_unbounded \<Rightarrow> u64" where
  "queued_count U = cemented_count (cache (cu_ledger U)) + sum_list (map num_blocks_confirmed (pending_writes U))"

section \<open>Writing the queue\<close>

lemma cement_write_exact:
  assumes H: "ledger_history E g L" and ok: "write_ok E g (ledger_store L) p" and ex: "write_exact s (ledger_store L) p"
    and sb: "same_blocks s (ledger_store L)"
    and cached: "\<forall>h \<in> set (block_callback_data p). bc h = block_get s h \<and> block_get s h \<noteq> None"
  shows "\<exists>L'. cement_write bc p L cem = Some (L', cem @ write_blocks s p, False, False)
    \<and> cemented_count (cache L') = cemented_count (cache L) + num_blocks_confirmed p"
proof -
  let ?s = "ledger_store L"
  obtain c where c: "confirmation_height_get ?s (details_account p) = Some c" "details_height p > conf_height c"
    using ex by (auto simp: write_exact_def Let_def cemented_to_def word_less_nat_alt split: option.splits)
  obtain b where b: "block_get ?s (details_hash p) = Some b" using ok by (auto simp: write_ok_def)
  have "map (\<lambda>h. the (bc h)) (rev (block_callback_data p)) = write_blocks s p"
    using cached by (simp add: write_blocks_def)
  then show ?thesis
    using c b those_all [of "rev (block_callback_data p)" bc] cached
    by (auto simp: cement_write_def Let_def stats_add_def cemented_count_add_def in_store_def)
qed

lemma cement_loop_exact:
  assumes "ledger_history E g L" "writes_ok E g (ledger_store L) ps" "writes_exact s (ledger_store L) ps"
    "same_blocks s (ledger_store L)"
    "\<forall>p \<in> set ps. \<forall>h \<in> set (block_callback_data p). bc h = block_get s h \<and> block_get s h \<noteq> None"
  shows "\<exists>L'. cement_loop bc ps L cem False = Some (L', cem @ concat (map (write_blocks s) ps), False, [])
    \<and> ledger_store L' = foldl height_written (ledger_store L) ps \<and> ledger_history E g L'
    \<and> cemented_count (cache L') = cemented_count (cache L) + sum_list (map num_blocks_confirmed ps)"
  using assms
proof (induction ps arbitrary: L cem)
  case (Cons p ps)
  have p: "write_ok E g (ledger_store L) p" "write_exact s (ledger_store L) p"
      "\<forall>h \<in> set (block_callback_data p). bc h = block_get s h \<and> block_get s h \<noteq> None"
    using Cons.prems(2,3,5) by auto
  then have "\<forall>h \<in> set (block_callback_data p). bc h \<noteq> None" by auto
  then obtain L1 bs where w: "cement_write bc p L cem = Some (L1, cem @ bs, False, False)"
      "ledger_store L1 = height_written (ledger_store L) p" "ledger_history E g L1"
    using cement_write_spec [OF Cons.prems(1) p(1)] by blast
  moreover have "bs = write_blocks s p" "cemented_count (cache L1) = cemented_count (cache L) + num_blocks_confirmed p"
    using cement_write_exact [OF Cons.prems(1) p(1,2) Cons.prems(4) p(3), of cem] w(1) by auto
  ultimately show ?case
    using Cons.IH [OF w(3), of "cem @ bs"] Cons.prems(2-5) by (auto simp: add.assoc)
qed simp

lemma queue_inv:
  assumes "undo_inv E g rk s" "confirmed_within s" "writes_ok E g s ps"
  shows "undo_inv E g rk (foldl height_written s ps) \<and> confirmed_within (foldl height_written s ps)"
  using assms height_written_inv by (induction ps arbitrary: s) auto

section \<open>The state of the processor\<close>

text \<open>
  \<open>s\<close> gives the blocks, \<open>rk\<close> their ranks. The queue is in order, its callbacks are cached, and the heights the
  processor remembers for an account are those the queue leads to; an account it does not remember has
  nothing queued.
\<close>

definition processor_ok :: "env \<Rightarrow> block_hash \<Rightarrow> (block_hash \<Rightarrow> nat) \<Rightarrow> store \<Rightarrow> confirmation_height_unbounded \<Rightarrow> bool" where
  "processor_ok E g rk s U =
     (same_blocks s (cu_store U) \<and> ledger_history E g (cu_ledger U) \<and> undo_inv E g rk s \<and> undo_inv E g rk (cu_store U) \<and> links_apart E s
      \<and> writes_ok E g (cu_store U) (pending_writes U) \<and> writes_exact s (cu_store U) (pending_writes U)
      \<and> block_cache_ok U
      \<and> (\<forall>p \<in> set (pending_writes U). confirmed_iterated_pairs U (details_account p) \<noteq> None
           \<and> (\<forall>h \<in> set (block_callback_data p). block_cache U h \<noteq> None \<and> block_get s h \<noteq> None))
      \<and> (\<forall>a q. confirmed_iterated_pairs U a = Some q \<longrightarrow> unat (confirmed_height q) = queued_to U a
           \<and> queued_to U a \<le> unat (iterated_height q) \<and> unat (iterated_height q) \<le> chain_length s a))"

lemma processor_okD:
  assumes "processor_ok E g rk s U"
  shows "same_blocks s (cu_store U)" "ledger_history E g (cu_ledger U)" "undo_inv E g rk (cu_store U)" "links_apart E s"
    "writes_ok E g (cu_store U) (pending_writes U)" "writes_exact s (cu_store U) (pending_writes U)" "block_cache_ok U"
    "\<forall>p \<in> set (pending_writes U). confirmed_iterated_pairs U (details_account p) \<noteq> None
       \<and> (\<forall>h \<in> set (block_callback_data p). block_cache U h \<noteq> None \<and> block_get s h \<noteq> None)"
    "confirmed_iterated_pairs U a = Some q \<Longrightarrow> unat (confirmed_height q) = queued_to U a
       \<and> queued_to U a \<le> unat (iterated_height q) \<and> unat (iterated_height q) \<le> chain_length s a"
    "history_ok E g rk s" "block_get s 0 = None"
  using assms store_okD(6) by (auto simp: processor_ok_def undo_inv_def)

definition iterated_to :: "confirmation_height_unbounded \<Rightarrow> account \<Rightarrow> nat" where
  "iterated_to U a = (case confirmed_iterated_pairs U a of None \<Rightarrow> queued_to U a | Some q \<Rightarrow> unat (iterated_height q))"

lemma queued_store_ok:
  assumes "processor_ok E g rk s U"
  shows "undo_inv E g rk (queued_store U)" "confirmed_within (queued_store U)" "same_blocks s (queued_store U)"
  using queue_inv [OF processor_okD(3) [OF assms] ledger_historyD(2) [OF processor_okD(2) [OF assms]] processor_okD(5) [OF assms]]
    processor_okD(1) [OF assms]
  by (simp_all add: queued_store_def)

lemma queued_within:
  assumes "processor_ok E g rk s U"
  shows "queued_to U a \<le> chain_length s a"
proof (cases "confirmation_height_get (queued_store U) a")
  case (Some c)
  then obtain i where "account_get s a = Some i" "conf_height c \<le> block_count i"
    using queued_store_ok(2) [OF assms] same_blocks_frame(2) [OF queued_store_ok(3) [OF assms]] by (auto simp: confirmed_within_def)
  then show ?thesis using Some by (simp add: cemented_to_def chain_length_def word_le_nat_alt)
qed (simp add: cemented_to_def)

lemma iterated_bounds:
  assumes "processor_ok E g rk s U"
  shows "queued_to U a \<le> iterated_to U a" "iterated_to U a \<le> chain_length s a"
  using processor_okD(9) [OF assms, of a] queued_within [OF assms, of a] by (auto simp: iterated_to_def split: option.splits)

text \<open>An account with a block has a confirmation height, and the one it is read with is the queued one.\<close>

lemma chain_confirmation:
  assumes ok: "processor_ok E g rk s U" and n: "0 < n" "n \<le> chain_length s a"
  obtains c d where "confirmation_height_get (cu_store U) a = Some c" "confirmation_height_get (queued_store U) a = Some d"
proof -
  obtain i where i: "account_get s a = Some i" using n by (auto simp: chain_length_def split: option.splits)
  have "confirmation_height_get t a \<noteq> None" if "undo_inv E g rk t" "same_blocks s t" for t
    using store_ok_account [OF undo_invD(2) [OF that(1)], of a i] i same_blocks_frame(2) [OF that(2)] by (auto simp: account_ok_def)
  from this [of "cu_store U"] this [of "queued_store U"] show thesis
    using that processor_okD(1,3) [OF ok] queued_store_ok(1,3) [OF ok] by auto
qed

lemma foldl_height_other:
  "\<forall>p \<in> set ps. details_account p \<noteq> a \<Longrightarrow> confirmation_height_get (foldl height_written t ps) a = confirmation_height_get t a"
proof (induction ps arbitrary: t)
  case (Cons p ps)
  have "confirmation_height_get (height_written t p) a = confirmation_height_get t a"
    using Cons.prems by (auto simp: height_written_def split: option.split)
  with Cons show ?case by simp
qed simp

lemma unremembered_height:
  assumes "processor_ok E g rk s U" "confirmed_iterated_pairs U a = None"
  shows "confirmation_height_get (queued_store U) a = confirmation_height_get (cu_store U) a"
  unfolding queued_store_def using processor_okD(8) [OF assms(1)] assms(2) by (intro foldl_height_other) auto

lemma account_heights_read:
  assumes ok: "processor_ok E g rk s U" and n: "0 < n" "n \<le> chain_length s a"
  shows "\<exists>conf iter U'. account_heights orig first h a k U = Some (conf, iter, U')
    \<and> unat conf = queued_to U a \<and> unat iter = iterated_to U a
    \<and> U' = U\<lparr>already_cemented_notified := already_cemented_notified U'\<rparr>"
proof (cases "confirmed_iterated_pairs U a")
  case None
  obtain c where "confirmation_height_get (cu_store U) a = Some c" using chain_confirmation [OF ok n] .
  then show ?thesis
    using unremembered_height [OF ok None] None by (auto simp: account_heights_def cemented_to_def iterated_to_def)
next
  case (Some q)
  then show ?thesis
    using processor_okD(9) [OF ok Some] by (auto simp: account_heights_def iterated_to_def max_def word_le_nat_alt)
qed

section \<open>Queuing a write\<close>

text \<open>A write that starts at the queued height and whose sources are queued keeps the queue in order.\<close>

lemma queue_write:
  assumes ok: "processor_ok E g rk s U"
    and d: "details_account p = a" "unat (details_height p) = n" "details_hash p = chain_hash s a n"
    and n: "queued_to U a < n" "n \<le> chain_length s a"
    and num: "unat (num_blocks_confirmed p) = n - queued_to U a" "block_callback_data p = segment s a (queued_to U a) n"
    and sources: "\<And>k a' m. queued_to U a < k \<Longrightarrow> k \<le> n \<Longrightarrow> collects E g s a k = Some (chain_hash s a' m)
        \<Longrightarrow> 0 < m \<Longrightarrow> m \<le> chain_length s a' \<Longrightarrow> m \<le> queued_to U a'"
    and cached: "\<And>k. queued_to U a < k \<Longrightarrow> k \<le> n \<Longrightarrow> block_cache U (chain_hash s a k) \<noteq> None"
    and U': "cu_ledger U' = cu_ledger U" "pending_writes U' = pending_writes U @ [p]" "block_cache U' = block_cache U"
      "confirmed_iterated_pairs U' = (confirmed_iterated_pairs U)(a \<mapsto> q)"
    and q: "unat (confirmed_height q) = n" "n \<le> unat (iterated_height q)" "unat (iterated_height q) \<le> chain_length s a"
  shows "processor_ok E g rk s U'" "queued_to U' = (queued_to U)(a := n)"
proof -
  note hist = processor_okD(10) [OF ok] and sb = queued_store_ok(3) [OF ok]
  note fr = same_blocks_frame [OF sb]
  let ?v = "queued_store U"
  obtain b where b: "block_get s (chain_hash s a n) = Some b" "own_account b = a" "unat (own_height b) = n"
    using chain_block [OF hist _ n(2)] n(1) by auto
  obtain c where c: "confirmation_height_get ?v a = Some c" using chain_confirmation [OF ok, of n a] n by auto
  have ex: "write_exact s ?v p" using d num n c by (simp add: write_exact_def)
  have "cemented ?v src \<or> own_account src = a \<and> own_height src \<le> details_height p"
    if t: "block_get ?v h = Some b'" "h \<noteq> g" "own_account b' = a" "own_height b' \<le> details_height p"
      "stored_change E ?v h b' = Pending_del k" "block_get ?v (snd k) = Some src" for h b' k src
  proof -
    let ?j = "unat (own_height b')"
    have at: "stored_at s a ?j h" using t(1,3) fr by (auto simp: stored_at_def)
    have at': "stored_at s (own_account src) (unat (own_height src)) (snd k)" using t(6) fr by (auto simp: stored_at_def)
    have col: "collects E g s a ?j = Some (chain_hash s (own_account src) (unat (own_height src)))"
      using chain_hash_eq [OF hist at] chain_hash_eq [OF hist at'] t fr by (simp add: collects_def Let_def)
    have sc: "cemented ?v src \<longleftrightarrow> unat (own_height src) \<le> queued_to U (own_account src)"
      using stored_height_positive [OF hist at'] by (auto simp: cemented_def cemented_to_def word_le_nat_alt split: option.split)
    show ?thesis
    proof (cases "?j \<le> queued_to U a")
      case True
      then have "cemented ?v b'" using c t(3) by (simp add: cemented_def cemented_to_def word_le_nat_alt)
      then show ?thesis using undo_invD(3) [OF queued_store_ok(1) [OF ok]] t unfolding cement_ok_def by blast
    next
      case False
      then show ?thesis
        using sources [of ?j "own_account src" "unat (own_height src)"] col t(4) d(2) sc
          stored_height_positive [OF hist at'] stored_within [OF hist at'] by (simp add: word_le_nat_alt)
    qed
  qed
  then have wok: "write_ok E g ?v p"
    unfolding write_ok_def using b d fr word_unat_eq_iff [of "own_height b" "details_height p"] by auto
  have cs: "cu_store U' = cu_store U" using U'(1) by simp
  have v': "queued_store U' = height_written ?v p" using U' by (simp add: queued_store_def)
  then show to: "queued_to U' = (queued_to U)(a := n)" using cemented_to_written [OF ex] d by simp
  have "block_cache U' h \<noteq> None \<and> block_get s h \<noteq> None" if "h \<in> set (block_callback_data p)" for h
  proof -
    obtain k where k: "h = chain_hash s a k" "queued_to U a < k" "k \<le> n" using \<open>h \<in> _\<close> num(2) by (auto simp: set_segment)
    obtain bk where "block_get s (chain_hash s a k) = Some bk" using chain_block [OF hist, of k a] k n(2) by auto
    then show ?thesis using cached [OF k(2,3)] k(1) U'(3) by simp
  qed
  then show "processor_ok E g rk s U'"
    using ok wok ex U' d q to
    unfolding processor_ok_def cs
    by (auto simp: writes_ok_append writes_exact_append queued_store_def block_cache_ok_def)
qed

section \<open>Progress\<close>

text \<open>
  From one state to a later one: the observers hear, once each, of the blocks whose heights were queued
  in between, the count of cemented blocks grows by their number, and every account that moved stops at
  a block of \<open>D\<close>.
\<close>

definition newly_queued :: "store \<Rightarrow> confirmation_height_unbounded \<Rightarrow> confirmation_height_unbounded \<Rightarrow> block set" where
  "newly_queued s U U' = {b. \<exists>a k. queued_to U a < k \<and> k \<le> queued_to U' a \<and> block_get s (chain_hash s a k) = Some b}"

definition advance :: "store \<Rightarrow> block_hash set \<Rightarrow> confirmation_height_unbounded \<Rightarrow> confirmation_height_unbounded \<Rightarrow> bool" where
  "advance s D U U' = ((\<forall>a. queued_to U a \<le> queued_to U' a) \<and> (\<forall>a. cemented_to (cu_store U) a \<le> cemented_to (cu_store U') a)
     \<and> (\<forall>a. queued_to U' a = queued_to U a \<or> chain_hash s a (queued_to U' a) \<in> D)
     \<and> (\<exists>bs. queued_notified U' = queued_notified U @ bs \<and> distinct bs \<and> set bs = newly_queued s U U'
          \<and> queued_count U' = queued_count U + of_nat (length bs)))"

lemma advance_same:
  assumes "queued_store U' = queued_store U" "queued_notified U' = queued_notified U" "queued_count U' = queued_count U"
    "\<And>a. cemented_to (cu_store U) a \<le> cemented_to (cu_store U') a"
  shows "advance s D U U'"
  using assms by (auto simp: advance_def newly_queued_def)

lemma newly_queued_height:
  assumes ok: "processor_ok E g rk s U'" and b: "b \<in> newly_queued s U U'"
  shows "block_get s (chain_hash s (own_account b) (unat (own_height b))) = Some b"
    "queued_to U (own_account b) < unat (own_height b)" "unat (own_height b) \<le> queued_to U' (own_account b)"
proof -
  obtain a k where k: "queued_to U a < k" "k \<le> queued_to U' a" "block_get s (chain_hash s a k) = Some b"
    using b by (auto simp: newly_queued_def)
  have "stored_at s a k (chain_hash s a k)"
    using chain_hash_stored [OF processor_okD(10) [OF ok], of k a] k queued_within [OF ok, of a] by auto
  then have "own_account b = a" "unat (own_height b) = k" using k(3) by (auto simp: stored_at_def)
  with k show "block_get s (chain_hash s (own_account b) (unat (own_height b))) = Some b"
    "queued_to U (own_account b) < unat (own_height b)" "unat (own_height b) \<le> queued_to U' (own_account b)" by simp_all
qed

lemma newly_queued_trans:
  assumes "\<forall>a. queued_to U a \<le> queued_to U1 a" "\<forall>a. queued_to U1 a \<le> queued_to U2 a"
  shows "newly_queued s U U2 = newly_queued s U U1 \<union> newly_queued s U1 U2"
proof (intro set_eqI iffI)
  fix b assume "b \<in> newly_queued s U U2"
  then obtain a k where k: "queued_to U a < k" "k \<le> queued_to U2 a" "block_get s (chain_hash s a k) = Some b"
    by (auto simp: newly_queued_def)
  then show "b \<in> newly_queued s U U1 \<union> newly_queued s U1 U2"
    by (cases "k \<le> queued_to U1 a") (auto simp: newly_queued_def not_le)
next
  fix b assume "b \<in> newly_queued s U U1 \<union> newly_queued s U1 U2"
  then show "b \<in> newly_queued s U U2"
    using assms unfolding newly_queued_def by (blast intro: le_trans le_less_trans)
qed

lemma advance_trans:
  assumes ok: "processor_ok E g rk s U1" "processor_ok E g rk s U2" and adv: "advance s D U U1" "advance s D U1 U2"
  shows "advance s D U U2"
proof -
  obtain bs cs where n: "queued_notified U1 = queued_notified U @ bs" "distinct bs" "set bs = newly_queued s U U1"
      "queued_count U1 = queued_count U + of_nat (length bs)"
      "queued_notified U2 = queued_notified U1 @ cs" "distinct cs" "set cs = newly_queued s U1 U2"
      "queued_count U2 = queued_count U1 + of_nat (length cs)"
    using adv by (auto simp: advance_def)
  have "b \<notin> newly_queued s U1 U2" if "b \<in> newly_queued s U U1" for b
    using newly_queued_height [OF ok(1) that] newly_queued_height [OF ok(2), of b U1] by fastforce
  then have "distinct (bs @ cs)" using n by auto
  moreover have "set (bs @ cs) = newly_queued s U U2"
    using n newly_queued_trans [of U U1 U2] adv by (simp add: advance_def)
  moreover have "\<forall>a. queued_to U2 a = queued_to U a \<or> chain_hash s a (queued_to U2 a) \<in> D"
    using adv unfolding advance_def by metis
  moreover have "\<forall>a. queued_to U a \<le> queued_to U2 a" "\<forall>a. cemented_to (cu_store U) a \<le> cemented_to (cu_store U2) a"
    using adv le_trans unfolding advance_def by blast+
  moreover have "queued_notified U2 = queued_notified U @ (bs @ cs)"
      "queued_count U2 = queued_count U + of_nat (length (bs @ cs))" using n by simp_all
  ultimately show ?thesis unfolding advance_def by blast
qed

lemma write_blocks_same: "same_blocks s t \<Longrightarrow> write_blocks t = write_blocks s"
  by (simp add: write_blocks_def same_blocks_frame fun_eq_iff)

lemma queue_write_advance:
  assumes ok: "processor_ok E g rk s U" and to: "queued_to U' = (queued_to U)(a := n)" "queued_to U a < n" "n \<le> chain_length s a"
    and num: "unat (num_blocks_confirmed p) = n - queued_to U a" "block_callback_data p = segment s a (queued_to U a) n"
    and U': "cu_ledger U' = cu_ledger U" "pending_writes U' = pending_writes U @ [p]" "cemented_notified U' = cemented_notified U"
    and D: "chain_hash s a n \<in> D"
  shows "advance s D U U'"
proof -
  note hist = processor_okD(10) [OF ok]
  let ?c = "queued_to U a" and ?blk = "\<lambda>k. the (block_get s (chain_hash s a k))"
  let ?bs = "write_blocks s p"
  have bs: "?bs = map ?blk [Suc ?c..<Suc n]" using num(2) by (simp add: write_blocks_def segment_def rev_map del: upt_Suc)
  have blk: "block_get s (chain_hash s a k) = Some (?blk k) \<and> unat (own_height (?blk k)) = k" if "?c < k" "k \<le> n" for k
    using chain_block [OF hist, of k a] that to(3) by (metis le_trans le_less_trans option.sel zero_le)
  have "inj_on ?blk (set [Suc ?c..<Suc n])"
    using blk by (intro inj_onI) (metis Suc_le_eq atLeastLessThan_iff less_Suc_eq_le set_upt)
  then have "distinct ?bs" by (simp add: bs distinct_map del: upt_Suc)
  moreover have "set ?bs = newly_queued s U U'"
  proof -
    have "newly_queued s U U' = {b. \<exists>k. ?c < k \<and> k \<le> n \<and> block_get s (chain_hash s a k) = Some b}"
      using to(1) by (auto simp: newly_queued_def split: if_splits)
    also have "\<dots> = ?blk ` {?c<..n}" using blk by force
    finally show ?thesis unfolding bs by (simp add: atLeastLessThanSuc_atLeastAtMost atLeastSucAtMost_greaterThanAtMost del: upt_Suc)
  qed
  moreover have "queued_notified U' = queued_notified U @ ?bs"
    using U' write_blocks_same [OF processor_okD(1) [OF ok]] by (simp add: queued_notified_def)
  moreover have "of_nat (length ?bs) = num_blocks_confirmed p" using num(1) unfolding bs by (simp del: upt_Suc flip: num(1))
  then have "queued_count U' = queued_count U + of_nat (length ?bs)"
    using U' by (simp add: queued_count_def)
  ultimately show ?thesis using to D U'(1) by (auto simp: advance_def)
qed

section \<open>Writing what is due\<close>

text \<open>Writing the queue changes nothing but where it stands.\<close>

definition queue_unchanged :: "confirmation_height_unbounded \<Rightarrow> confirmation_height_unbounded \<Rightarrow> bool" where
  "queue_unchanged U U' = (queued_store U' = queued_store U \<and> queued_notified U' = queued_notified U \<and> queued_count U' = queued_count U
     \<and> confirmed_iterated_pairs U' = confirmed_iterated_pairs U \<and> block_cache U' = block_cache U
     \<and> implicit_receive_cemented_mapping U' = implicit_receive_cemented_mapping U \<and> details_heap U' = details_heap U
     \<and> next_ref U' = next_ref U \<and> (\<forall>a. cemented_to (cu_store U) a \<le> cemented_to (cu_store U') a))"

lemma cemented_to_queued: "cemented_to t a \<le> cemented_to (foldl height_written t ps) a"
  using heights_grow [of t a _ ps]
  by (cases "confirmation_height_get t a") (auto simp: cemented_to_def word_le_nat_alt split: option.split)

lemma write_pending_ok:
  assumes ok: "processor_ok E g rk s U"
  shows "\<exists>U'. write_pending U = Some U' \<and> processor_ok E g rk s U' \<and> queue_unchanged U U' \<and> pending_writes U' = []"
proof -
  note d = processor_okD [OF ok]
  let ?bc = "\<lambda>h. case block_cache U h of Some b \<Rightarrow> b | None \<Rightarrow> None"
  have bc: "\<forall>p \<in> set (pending_writes U). \<forall>h \<in> set (block_callback_data p). ?bc h = block_get s h \<and> block_get s h \<noteq> None"
  proof (intro ballI)
    fix p h assume "p \<in> set (pending_writes U)" "h \<in> set (block_callback_data p)"
    then have "block_cache U h \<noteq> None" "block_get s h \<noteq> None" using d(8) by auto
    then show "?bc h = block_get s h \<and> block_get s h \<noteq> None"
      using d(7) same_blocks_frame(1) [OF d(1)] by (auto simp: block_cache_ok_def)
  qed
  obtain L where L: "cement_loop ?bc (pending_writes U) (cu_ledger U) [] False
        = Some (L, concat (map (write_blocks s) (pending_writes U)), False, [])"
      "ledger_store L = queued_store U" "ledger_history E g L"
      "cemented_count (cache L) = cemented_count (cache (cu_ledger U)) + sum_list (map num_blocks_confirmed (pending_writes U))"
    using cement_loop_exact [OF d(2,5,6,1) bc, of "[]"] by (auto simp: queued_store_def)
  let ?U' = "U\<lparr>cu_ledger := L, pending_writes := [], cemented_notified := cemented_notified U @ concat (map (write_blocks s) (pending_writes U))\<rparr>"
  have run: "write_pending U = Some ?U'" using L(1) by (simp add: write_pending_def cement_blocks_def)
  have un: "queue_unchanged U ?U'"
    using L write_blocks_same [OF d(1)] cemented_to_queued
    by (simp add: queue_unchanged_def queued_store_def queued_notified_def queued_count_def)
  then have qs: "queued_store ?U' = queued_store U" by (simp add: queue_unchanged_def)
  have "block_cache_ok ?U'"
    using d(7) L(2) same_blocks_frame(1) [OF d(1)] same_blocks_frame(1) [OF queued_store_ok(3) [OF ok]] by (simp add: block_cache_ok_def)
  moreover have "\<forall>a q. confirmed_iterated_pairs U a = Some q \<longrightarrow> unat (confirmed_height q) = queued_to U a
           \<and> queued_to U a \<le> unat (iterated_height q) \<and> unat (iterated_height q) \<le> chain_length s a"
    using d(9) by blast
  ultimately have "processor_ok E g rk s ?U'"
    using ok L(2,3) queued_store_ok [OF ok] unfolding processor_ok_def qs by (simp add: d(4))
  with run un show ?thesis by auto
qed

lemma write_if_due_ok:
  assumes "processor_ok E g rk s U"
  shows "\<exists>U'. write_if_due t fin U = Some U' \<and> processor_ok E g rk s U' \<and> queue_unchanged U U'"
  using write_pending_ok [OF assms] assms by (auto simp: write_if_due_def Let_def queue_unchanged_def)

end
