(* ===== verification/Confirmation_Frames.thy ===== *)
theory Confirmation_Frames
  imports Confirmation_Writes
begin

text \<open>
  The stack of the traversal, cut into frames. A frame is an account whose blocks up to some height were
  iterated but not all queued: the block that was visited, and the receives left below it. The block of
  a frame is the source of the first receive of the frame underneath, and the original block at the
  bottom. What lies above the receives of a frame waits with the receive that led there.
\<close>

type_synonym frame = "account \<times> nat \<times> receive_source_pair list"

definition receives_from ::
    "env \<Rightarrow> block_hash \<Rightarrow> store \<Rightarrow> confirmation_height_unbounded \<Rightarrow> account \<Rightarrow> nat \<Rightarrow> block_hash list \<Rightarrow> receive_source_pair list \<Rightarrow> nat \<Rightarrow> bool" where
  "receives_from E g s U a lo sd es hi = (case es of
     [] \<Rightarrow> receives_above E g s U a lo [] hi
   | e # es' \<Rightarrow> \<exists>n. n \<le> hi \<and> receive_entry E g s U a lo n sd e \<and> receives_above E g s U a n es' hi)"

lemma receives_from_Nil: "receives_from E g s U a lo [] es hi = receives_above E g s U a lo es hi"
  by (cases es) (auto simp: receives_from_def)

definition frame_ok :: "env \<Rightarrow> block_hash \<Rightarrow> store \<Rightarrow> confirmation_height_unbounded \<Rightarrow> block_hash list \<Rightarrow> frame \<Rightarrow> bool" where
  "frame_ok E g s U sd f = (case f of (a, h, es) \<Rightarrow> h \<le> chain_length s a \<and> iterated_to U a = h
     \<and> (\<exists>lo. lo \<le> queued_to U a \<and> (\<forall>k. lo < k \<and> k \<le> queued_to U a \<longrightarrow> collects E g s a k = None)
          \<and> receives_from E g s U a lo sd es h))"

text \<open>The highest receive of a frame was at \<open>m\<close>.\<close>

definition frame_top :: "env \<Rightarrow> block_hash \<Rightarrow> store \<Rightarrow> confirmation_height_unbounded \<Rightarrow> account \<Rightarrow> nat \<Rightarrow> nat \<Rightarrow> bool" where
  "frame_top E g s U a m h = (0 < m \<and> queued_to U a \<le> m \<and> m \<le> h \<and> collects E g s a m \<noteq> None
     \<and> (\<forall>k. m < k \<and> k \<le> h \<longrightarrow> collects E g s a k = None))"

fun frames_ok ::
    "env \<Rightarrow> block_hash \<Rightarrow> store \<Rightarrow> confirmation_height_unbounded \<Rightarrow> block_hash \<Rightarrow> block_hash list \<Rightarrow> block_hash list \<Rightarrow> frame list \<Rightarrow> bool" where
  "frames_ok E g s U orig od sd [] = True"
| "frames_ok E g s U orig od sd [f] = (frame_ok E g s U sd f \<and> chain_hash s (fst f) (fst (snd f)) = orig
     \<and> (\<exists>m. frame_top E g s U (fst f) m (fst (snd f)) \<and> od = segment s (fst f) m (fst (snd f))))"
| "frames_ok E g s U orig od sd (f # f' # fs) = (frame_ok E g s U sd f
     \<and> (\<exists>e es. snd (snd f') = e # es \<and> snd e = chain_hash s (fst f) (fst (snd f)))
     \<and> (\<exists>m. frame_top E g s U (fst f) m (fst (snd f)) \<and> frames_ok E g s U orig od (segment s (fst f) m (fst (snd f))) (f' # fs)))"

abbreviation frames_stack :: "frame list \<Rightarrow> receive_source_pair list" where
  "frames_stack fs \<equiv> concat (map (\<lambda>f. snd (snd f)) fs)"

lemma frames_ok_frame: "frames_ok E g s U orig od sd (f # fs) \<Longrightarrow> frame_ok E g s U sd f"
  by (cases fs) auto

lemma frame_ok_head:
  assumes "frame_ok E g s U sd (a, h, e # es)"
  obtains lo n where "lo \<le> queued_to U a" "queued_to U a < n" "n \<le> h" "h \<le> chain_length s a"
    "receive_entry E g s U a lo n sd e" "receives_above E g s U a n es h"
    "\<forall>k. lo < k \<and> k < n \<longrightarrow> collects E g s a k = None"
proof -
  obtain lo n where n: "lo \<le> queued_to U a" "\<forall>k. lo < k \<and> k \<le> queued_to U a \<longrightarrow> collects E g s a k = None" "n \<le> h"
      "receive_entry E g s U a lo n sd e" "receives_above E g s U a n es h" "h \<le> chain_length s a"
    using assms by (auto simp: frame_ok_def receives_from_def)
  have "queued_to U a < n" using n(2,4) by (metis not_le_imp_less option.discI receive_entry_def)
  then show thesis using that n by (auto simp: receive_entry_def)
qed

section \<open>Ranks\<close>

definition entry_hash :: "confirmation_height_unbounded \<Rightarrow> receive_source_pair \<Rightarrow> block_hash" where
  "entry_hash U e = details_hash (the (details_heap U (fst e)))"

lemma receive_entry_hash: "receive_entry E g s U a lo n sd e \<Longrightarrow> entry_hash U e = chain_hash s a n"
  by (auto simp: receive_entry_def entry_hash_def)

lemma frame_head_rank:
  assumes "history_ok E g rk s" "frame_ok E g s U sd (a, h, e # es)"
  shows "rk (entry_hash U e) \<le> rk (chain_hash s a h)"
proof -
  obtain lo n where n: "queued_to U a < n" "n \<le> h" "h \<le> chain_length s a" "receive_entry E g s U a lo n sd e"
    using frame_ok_head [OF assms(2)] .
  then show ?thesis
    using chain_rank [OF assms(1), of n h a] receive_entry_hash [OF n(4)] by (cases "n = h") auto
qed

lemma entry_source_rank:
  assumes hist: "history_ok E g rk s" and f: "frame_ok E g s U sd (a, h, e # es)"
  obtains a' m where "snd e = chain_hash s a' m" "0 < m" "m \<le> chain_length s a'" "rk (snd e) < rk (entry_hash U e)"
    "collects E g s a' m = None"
proof -
  obtain lo n where n: "queued_to U a < n" "n \<le> h" "h \<le> chain_length s a" "receive_entry E g s U a lo n sd e"
    using frame_ok_head [OF f] .
  have "collects E g s a n = Some (snd e)" using n(4) by (simp add: receive_entry_def)
  moreover have "0 < n" "n \<le> chain_length s a" using n by linarith+
  ultimately show thesis using that collects_source [OF hist] receive_entry_hash [OF n(4)] by metis
qed

text \<open>The block of a frame ranks below the receives of the frames underneath, and not above the original block.\<close>

lemma frames_rank:
  assumes hist: "history_ok E g rk s"
  shows "frames_ok E g s U orig od sd (f # fs) \<Longrightarrow>
    rk (chain_hash s (fst f) (fst (snd f))) \<le> rk orig
    \<and> (\<forall>f' \<in> set fs. \<exists>e es sd'. snd (snd f') = e # es \<and> frame_ok E g s U sd' f'
         \<and> rk (chain_hash s (fst f) (fst (snd f))) < rk (entry_hash U e))"
proof (induction fs arbitrary: f sd)
  case (Cons f1 fs)
  obtain e es m where e: "snd (snd f1) = e # es" "snd e = chain_hash s (fst f) (fst (snd f))"
      "frames_ok E g s U orig od (segment s (fst f) m (fst (snd f))) (f1 # fs)"
    using Cons.prems by auto
  obtain a h where f1: "f1 = (a, h, e # es)" using e(1) by (cases f1) auto
  have fo: "frame_ok E g s U (segment s (fst f) m (fst (snd f))) (a, h, e # es)" using frames_ok_frame [OF e(3)] f1 by simp
  obtain a' k where "rk (snd e) < rk (entry_hash U e)" using entry_source_rank [OF hist fo] by metis
  then have lt: "rk (chain_hash s (fst f) (fst (snd f))) < rk (entry_hash U e)" using e(2) by simp
  moreover have "rk (entry_hash U e) \<le> rk (chain_hash s a h)" by (rule frame_head_rank [OF hist fo])
  ultimately have le: "rk (chain_hash s (fst f) (fst (snd f))) < rk (chain_hash s a h)" by simp
  note ih = Cons.IH [OF e(3)]
  show ?case
  proof (intro conjI ballI)
    show "rk (chain_hash s (fst f) (fst (snd f))) \<le> rk orig" using ih le f1 by auto
  next
    fix f' assume "f' \<in> set (f1 # fs)"
    then have "f' = f1 \<or> f' \<in> set fs" by simp
    then show "\<exists>e es sd'. snd (snd f') = e # es \<and> frame_ok E g s U sd' f' \<and> rk (chain_hash s (fst f) (fst (snd f))) < rk (entry_hash U e)"
    proof
      assume "f' = f1" then show ?thesis using lt fo f1 by auto
    next
      assume "f' \<in> set fs"
      then obtain e' es' sd' where "snd (snd f') = e' # es'" "frame_ok E g s U sd' f'" "rk (chain_hash s a h) < rk (entry_hash U e')"
        using ih f1 by auto
      with le show ?thesis using less_trans by blast
    qed
  qed
qed auto

section \<open>Frames under change\<close>

text \<open>
  The queued height of a framed account may rise below its first receive; the details of the entries
  stay, except that the first may be given the callbacks of a new frame.
\<close>

definition frame_kept ::
    "env \<Rightarrow> block_hash \<Rightarrow> store \<Rightarrow> confirmation_height_unbounded \<Rightarrow> confirmation_height_unbounded \<Rightarrow> frame \<Rightarrow> bool" where
  "frame_kept E g s U U' f = (case f of (a, h, es) \<Rightarrow>
     iterated_to U' a = iterated_to U a \<and> queued_to U a \<le> queued_to U' a
     \<and> (queued_to U' a = queued_to U a
         \<or> (\<exists>n. queued_to U' a < n \<and> n \<le> h \<and> collects E g s a n \<noteq> None \<and> (\<forall>k. queued_to U a < k \<and> k < n \<longrightarrow> collects E g s a k = None)))
     \<and> (\<forall>k \<le> h. 0 < k \<longrightarrow> implicit_receive_cemented_mapping U' (chain_hash s a k) = implicit_receive_cemented_mapping U (chain_hash s a k)))"

lemma frame_ok_kept:
  assumes f: "frame_ok E g s U sd (a, h, es)" and k: "frame_kept E g s U U' (a, h, es)"
    and hd: "es \<noteq> [] \<Longrightarrow> details_heap U' (fst (hd es)) = map_option (\<lambda>d. d\<lparr>source_block_callback_data := sd'\<rparr>) (details_heap U (fst (hd es)))"
    and tl: "\<forall>e \<in> set (tl es). details_heap U' (fst e) = details_heap U (fst e)"
  shows "frame_ok E g s U' sd' (a, h, es)"
proof -
  obtain lo where lo: "lo \<le> queued_to U a" "\<forall>k. lo < k \<and> k \<le> queued_to U a \<longrightarrow> collects E g s a k = None"
      "receives_from E g s U a lo sd es h" and h: "h \<le> chain_length s a" "iterated_to U a = h"
    using f by (auto simp: frame_ok_def)
  have imp: "implicit_receive_cemented_mapping U' (chain_hash s a k) = implicit_receive_cemented_mapping U (chain_hash s a k)"
    if "lo < k" "k \<le> h" for k using k that by (auto simp: frame_kept_def)
  have none: "\<forall>k. lo < k \<and> k \<le> queued_to U' a \<longrightarrow> collects E g s a k = None"
    using lo(2) k by (auto simp: frame_kept_def) (metis le_less_trans not_le)
  have "receives_from E g s U' a lo sd' es h"
  proof (cases es)
    case Nil
    then show ?thesis using lo(3) by (simp add: receives_from_def)
  next
    case (Cons e es')
    then obtain n where n: "n \<le> h" "receive_entry E g s U a lo n sd e" "receives_above E g s U a n es' h"
      using lo(3) by (auto simp: receives_from_def)
    have "lo < n" using n(2) by (simp add: receive_entry_def)
    have "receive_entry E g s U' a lo n sd' e"
      using n(1,2) hd imp Cons by (auto simp: receive_entry_def)
    moreover have "receives_above E g s U' a n es' h"
      by (rule receives_above_frame [OF n(3)]) (use tl Cons imp \<open>lo < n\<close> in auto)
    ultimately show ?thesis using n(1) Cons by (auto simp: receives_from_def)
  qed
  moreover have "lo \<le> queued_to U' a" "iterated_to U' a = h" using h lo(1) k by (auto simp: frame_kept_def)
  ultimately show ?thesis using h none by (auto simp: frame_ok_def)
qed

lemma frame_top_kept:
  assumes "frame_top E g s U a m h" "frame_kept E g s U U' (a, h, es)"
  shows "frame_top E g s U' a m h"
proof -
  have "queued_to U' a \<le> m"
  proof (cases "queued_to U' a = queued_to U a")
    case False
    then obtain n where n: "queued_to U' a < n" "n \<le> h" "collects E g s a n \<noteq> None" using assms(2) by (auto simp: frame_kept_def)
    then have "n \<le> m" using assms(1) unfolding frame_top_def by (metis not_le)
    with n(1) show ?thesis by simp
  qed (use assms(1) in \<open>simp add: frame_top_def\<close>)
  then show ?thesis using assms(1) by (simp add: frame_top_def)
qed

lemma frame_source_data:
  assumes "frame_ok E g s U sd (a, h, e # es)"
  shows "map_option (\<lambda>d. d\<lparr>source_block_callback_data := sd\<rparr>) (details_heap U (fst e)) = details_heap U (fst e)"
proof -
  obtain lo n where "receive_entry E g s U a lo n sd e" using frame_ok_head [OF assms] .
  then show ?thesis by (auto simp: receive_entry_def)
qed

lemma frames_ok_kept:
  assumes "frames_ok E g s U orig od sd (f # fs)" "\<forall>f' \<in> set (f # fs). frame_kept E g s U U' f'"
    "snd (snd f) \<noteq> [] \<longrightarrow> details_heap U' (fst (hd (snd (snd f)))) = map_option (\<lambda>d. d\<lparr>source_block_callback_data := sd'\<rparr>) (details_heap U (fst (hd (snd (snd f)))))"
    "\<forall>e \<in> set (tl (snd (snd f))) \<union> set (frames_stack fs). details_heap U' (fst e) = details_heap U (fst e)"
  shows "frames_ok E g s U' orig od sd' (f # fs)"
  using assms
proof (induction fs arbitrary: f sd sd')
  case Nil
  obtain a h es where f: "f = (a, h, es)" by (cases f)
  show ?case using Nil frame_ok_kept [of E g s U sd a h es U' sd'] frame_top_kept f by fastforce
next
  case (Cons f1 fs)
  obtain a h es where f: "f = (a, h, es)" by (cases f)
  obtain a1 h1 es1 where f1: "f1 = (a1, h1, es1)" by (cases f1)
  obtain e es1' m where e: "es1 = e # es1'" "snd e = chain_hash s a h" "frame_top E g s U a m h"
      "frames_ok E g s U orig od (segment s a m h) (f1 # fs)"
    using Cons.prems(1) f f1 by auto
  have "frame_ok E g s U' sd' f"
    using frame_ok_kept [of E g s U sd a h es U' sd'] Cons.prems f frames_ok_frame [OF Cons.prems(1)] by auto
  moreover have "frames_ok E g s U' orig od (segment s a m h) (f1 # fs)"
  proof (rule Cons.IH [OF e(4)])
    show "snd (snd f1) \<noteq> [] \<longrightarrow> details_heap U' (fst (hd (snd (snd f1)))) =
        map_option (\<lambda>d. d\<lparr>source_block_callback_data := segment s a m h\<rparr>) (details_heap U (fst (hd (snd (snd f1)))))"
      using frame_source_data [of E g s U "segment s a m h" a1 h1 e es1'] frames_ok_frame [OF e(4)] f1 e(1) Cons.prems(4) by simp
  qed (use Cons.prems f1 e(1) in auto)
  ultimately show ?case using e frame_top_kept [OF e(3)] Cons.prems(2) f f1 by auto
qed

lemma frames_ok_same:
  assumes "frames_ok E g s U orig od sd fs" "\<forall>f \<in> set fs. frame_kept E g s U U' f"
    "\<forall>e \<in> set (frames_stack fs). details_heap U' (fst e) = details_heap U (fst e)"
  shows "frames_ok E g s U' orig od sd fs"
proof (cases fs)
  case (Cons f fs')
  obtain a h es where f: "f = (a, h, es)" by (cases f)
  have "details_heap U' (fst (hd es)) = map_option (\<lambda>d. d\<lparr>source_block_callback_data := sd\<rparr>) (details_heap U (fst (hd es)))" if "es \<noteq> []"
    using frame_source_data [of E g s U sd a h "hd es" "tl es"] frames_ok_frame [of E g s U orig od sd f fs'] assms that Cons f by simp
  moreover have "set (tl es) \<subseteq> set es" by (cases es) auto
  ultimately show ?thesis using frames_ok_kept [of E g s U orig od sd f fs' U' sd] assms Cons f by auto
qed simp

lemma frame_kept_refl:
  assumes "queued_to U' a = queued_to U a" "iterated_to U' a = iterated_to U a"
    "implicit_receive_cemented_mapping U' = implicit_receive_cemented_mapping U"
  shows "frame_kept E g s U U' (a, h, es)"
  using assms by (simp add: frame_kept_def)

text \<open>The first receive is queued and leaves.\<close>

lemma frames_pop:
  assumes fs: "frames_ok E g s U orig od sd ((a, h, e # es) # fs)" and e: "receive_entry E g s U a lo n sd e"
    and U': "queued_to U' a = n" "iterated_to U' a = iterated_to U a" "\<forall>f \<in> set fs. frame_kept E g s U U' f"
      "\<forall>k \<le> h. 0 < k \<longrightarrow> implicit_receive_cemented_mapping U' (chain_hash s a k) = implicit_receive_cemented_mapping U (chain_hash s a k)"
      "\<forall>e \<in> set es \<union> set (frames_stack fs). details_heap U' (fst e) = details_heap U (fst e)"
  shows "frames_ok E g s U' orig od [] ((a, h, es) # fs)"
proof -
  note fo = frames_ok_frame [OF fs]
  obtain lo' n' where n': "n' \<le> h" "h \<le> chain_length s a" "receive_entry E g s U a lo' n' sd e" "receives_above E g s U a n' es h"
    using frame_ok_head [OF fo] .
  have "n' = n" using e n'(3) by (auto simp: receive_entry_def)
  have "receives_above E g s U' a n es h"
    by (rule receives_above_frame [OF n'(4) [unfolded \<open>n' = n\<close>]]) (use U' in auto)
  then have "frame_ok E g s U' [] (a, h, es)"
    using n' U'(1,2) fo by (auto simp: frame_ok_def receives_from_Nil)
  moreover have "frame_top E g s U' a m h" if "frame_top E g s U a m h" for m
  proof -
    have "n \<le> m" using that n'(1) e unfolding frame_top_def receive_entry_def \<open>n' = n\<close> by (metis not_le option.discI)
    then show ?thesis using that U'(1) by (simp add: frame_top_def)
  qed
  moreover have "frames_ok E g s U' orig od sd' fs" if "frames_ok E g s U orig od sd' fs" for sd'
    by (rule frames_ok_same [OF that]) (use U' in auto)
  ultimately show ?thesis using fs by (cases fs) auto
qed

text \<open>A new frame: at the bottom for the original block, or above the receive whose source it is.\<close>

lemma frame_new:
  assumes "receives_above E g s U a c es h" "queued_to U a = c" "iterated_to U a = h" "h \<le> chain_length s a"
  shows "frame_ok E g s U [] (a, h, es)"
  using assms by (auto simp: frame_ok_def receives_from_Nil)

lemma frames_push:
  assumes fs: "frames_ok E g s U orig od [] ((a1, h1, e1 # es1) # fs)" and new: "frame_ok E g s U' [] (a, h, es)"
    and top: "frame_top E g s U' a m h" and src: "snd e1 = chain_hash s a h"
    and kept: "\<forall>f \<in> set ((a1, h1, e1 # es1) # fs). frame_kept E g s U U' f"
    and e1: "details_heap U' (fst e1) = map_option (\<lambda>d. d\<lparr>source_block_callback_data := segment s a m h\<rparr>) (details_heap U (fst e1))"
    and rest: "\<forall>e \<in> set es1 \<union> set (frames_stack fs). details_heap U' (fst e) = details_heap U (fst e)"
  shows "frames_ok E g s U' orig od [] ((a, h, es) # (a1, h1, e1 # es1) # fs)"
proof -
  have "frames_ok E g s U' orig od (segment s a m h) ((a1, h1, e1 # es1) # fs)"
    by (rule frames_ok_kept [OF fs kept]) (use e1 rest in auto)
  then show ?thesis using new top src by auto
qed

section \<open>Dependencies\<close>

text \<open>\<open>D\<close> has with a block its predecessor and the source it collects.\<close>

definition dependencies_closed :: "env \<Rightarrow> block_hash \<Rightarrow> store \<Rightarrow> block_hash set \<Rightarrow> bool" where
  "dependencies_closed E g s D = (\<forall>a n. 0 < n \<longrightarrow> n \<le> chain_length s a \<longrightarrow> chain_hash s a n \<in> D
     \<longrightarrow> (\<forall>k. 0 < k \<and> k \<le> n \<longrightarrow> chain_hash s a k \<in> D) \<and> (\<forall>src. collects E g s a n = Some src \<longrightarrow> src \<in> D))"

lemma frames_dependencies:
  assumes D: "dependencies_closed E g s D" "orig \<in> D"
  shows "frames_ok E g s U orig od sd fs \<Longrightarrow> \<forall>f \<in> set fs. chain_hash s (fst f) (fst (snd f)) \<in> D"
proof (induction fs arbitrary: sd)
  case (Cons f fs)
  show ?case
  proof (cases fs)
    case Nil
    then show ?thesis using Cons.prems D(2) by simp
  next
    case (Cons f1 fs1)
    obtain e es m where e: "snd (snd f1) = e # es" "snd e = chain_hash s (fst f) (fst (snd f))"
        "frames_ok E g s U orig od (segment s (fst f) m (fst (snd f))) (f1 # fs1)"
      using Cons.prems Cons by auto
    note ih = Cons.IH [unfolded Cons, OF e(3)]
    obtain a h where f1: "f1 = (a, h, e # es)" using e(1) by (cases f1) auto
    obtain lo n where n: "queued_to U a < n" "n \<le> h" "h \<le> chain_length s a"
        "receive_entry E g s U a lo n (segment s (fst f) m (fst (snd f))) e"
      using frame_ok_head frames_ok_frame [OF e(3)] f1 by metis
    have "chain_hash s a h \<in> D" using ih f1 by simp
    then have "chain_hash s a n \<in> D" using D(1) n unfolding dependencies_closed_def by (metis le_less_trans less_le_trans zero_le)
    then have "snd e \<in> D" using D(1) n unfolding dependencies_closed_def receive_entry_def by (metis le_less_trans le_trans zero_le)
    then show ?thesis using ih e(2) Cons by auto
  qed
qed simp

section \<open>The invariant of the loop\<close>

definition traversal_ok ::
    "env \<Rightarrow> block_hash \<Rightarrow> (block_hash \<Rightarrow> nat) \<Rightarrow> store \<Rightarrow> block_hash \<Rightarrow> block_hash list \<Rightarrow> confirmation_height_unbounded \<Rightarrow> frame list \<Rightarrow> bool" where
  "traversal_ok E g rk s orig od U fs =
     (processor_ok E g rk s U \<and> frames_ok E g s U orig od [] fs \<and> distinct (map fst fs)
      \<and> (\<forall>a. a \<notin> fst ` set fs \<longrightarrow> iterated_to U a = queued_to U a)
      \<and> distinct (map fst (frames_stack fs)) \<and> (\<forall>e \<in> set (frames_stack fs). fst e < next_ref U)
      \<and> (\<forall>a k. queued_to U a < k \<and> k \<le> iterated_to U a \<longrightarrow> block_cache U (chain_hash s a k) \<noteq> None))"

lemma traversal_okD:
  assumes "traversal_ok E g rk s orig od U fs"
  shows "processor_ok E g rk s U" "frames_ok E g s U orig od [] fs" "distinct (map fst fs)"
    "a \<notin> fst ` set fs \<Longrightarrow> iterated_to U a = queued_to U a"
    "distinct (map fst (frames_stack fs))" "e \<in> set (frames_stack fs) \<Longrightarrow> fst e < next_ref U"
    "queued_to U a < k \<Longrightarrow> k \<le> iterated_to U a \<Longrightarrow> block_cache U (chain_hash s a k) \<noteq> None"
  using assms by (auto simp: traversal_ok_def)

end
