(* ===== verification/Confirmation_Prepare.thy ===== *)
theory Confirmation_Prepare
  imports Confirmation_Frames
begin

text \<open>
  Queuing the writes of one visit: the block that was visited with the blocks below it that no receive
  covers, then the receive that led to it.
\<close>

section \<open>The visited block\<close>

definition prepared_for :: "store \<Rightarrow> confirmation_height_unbounded \<Rightarrow> account \<Rightarrow> nat \<Rightarrow> preparation_data \<Rightarrow> bool" where
  "prepared_for s U a m P = (prep_account P = a \<and> unat (prep_block_height P) = m \<and> prep_current P = chain_hash s a m
     \<and> unat (prep_confirmation_height P) = queued_to U a \<and> unat (prep_iterated_height P) = iterated_to U a
     \<and> (prep_account_found P \<longleftrightarrow> confirmed_iterated_pairs U a \<noteq> None)
     \<and> (prep_already_traversed P \<longleftrightarrow> m \<le> iterated_to U a))"

text \<open>The callbacks are the blocks above the queued height.\<close>

definition callbacks_found :: "store \<Rightarrow> confirmation_height_unbounded \<Rightarrow> account \<Rightarrow> nat \<Rightarrow> preparation_data \<Rightarrow> bool" where
  "callbacks_found s U a m P = (\<exists>heap. write_callbacks P (prep_block_height P - prep_confirmation_height P) (set_account_heights P U)
       = Some (segment s a (queued_to U a) m, (set_account_heights P U)\<lparr>details_heap := heap\<rparr>)
     \<and> (\<forall>r. Some r \<noteq> prep_receive_details P \<longrightarrow> heap r = details_heap U r)
     \<and> (\<forall>r. map_option (\<lambda>d. d\<lparr>source_block_callback_data := []\<rparr>) (heap r)
          = map_option (\<lambda>d. d\<lparr>source_block_callback_data := []\<rparr>) (details_heap U r)))"

lemma height_difference:
  assumes "unat x = m" "unat y = q" "q < m"
  shows "unat (x - y) = m - q" "y < x"
  using assms unat_sub [of y x] by (simp_all add: word_le_nat_alt word_less_nat_alt)

lemma callbacks_gathered:
  assumes "prep_block_callback_data P = segment s a (queued_to U a) m" "queued_to U a < m"
  shows "callbacks_found s U a m P"
  unfolding callbacks_found_def using assms
  by (intro exI [of _ "details_heap U"]) (simp add: write_callbacks_def set_account_heights_def)

lemma callbacks_original:
  assumes "prep_block_callback_data P = []" "prep_receive_details P = None"
    "prep_orig_block_callback_data P = segment s a (queued_to U a) m"
  shows "callbacks_found s U a m P"
  unfolding callbacks_found_def using assms
  by (intro exI [of _ "details_heap U"]) (simp add: write_callbacks_def set_account_heights_def)

lemma callbacks_handed_over:
  assumes P: "prepared_for s U a m P" "prep_block_callback_data P = []" "prep_receive_details P = Some r"
    and d: "details_heap U r = Some d" "source_block_callback_data d = segment s a (queued_to U a) m" and m: "queued_to U a < m"
  shows "callbacks_found s U a m P"
proof -
  have n: "unat (prep_block_height P - prep_confirmation_height P) = m - queued_to U a"
    using P(1) m by (intro height_difference) (auto simp: prepared_for_def)
  then have "of_nat (m - queued_to U a) - (prep_block_height P - prep_confirmation_height P) = 0"
    by (simp add: word_unat_eq_iff flip: n)
  then show ?thesis
    unfolding callbacks_found_def using P d m erase_last_segment [of 0 m "queued_to U a" s a]
    by (intro exI [of _ "(details_heap U)(r \<mapsto> d\<lparr>source_block_callback_data := []\<rparr>)"])
       (auto simp: write_callbacks_def traversed_callbacks_def set_account_heights_def details_put_def)
qed

lemma callbacks_below_receive:
  assumes P: "prepared_for s U a m P" "prep_block_callback_data P = []" "prep_receive_details P = Some r"
    and d: "details_heap U r = Some d" "source_block_callback_data d = []"
    and e: "receive_entry E g s U a lo n sd e" and m: "lo \<le> queued_to U a" "queued_to U a < m" "m < n" "m \<le> iterated_to U a"
  shows "callbacks_found s U a m P"
proof -
  let ?q = "queued_to U a" and ?n = "prep_block_height P - prep_confirmation_height P"
  obtain d2 where d2: "details_heap U (fst e) = Some d2" "unat (details_height d2) = n" "unat (num_blocks_confirmed d2) = n - lo"
      "block_callback_data d2 = segment s a lo n"
    using e by (auto simp: receive_entry_def)
  have im: "implicit_receive_cemented_mapping U (prep_current P) = Some (fst e)"
    using e P(1) m by (auto simp: receive_entry_def prepared_for_def)
  have n: "unat ?n = m - ?q" using P(1) m by (intro height_difference) (auto simp: prepared_for_def)
  have "unat (details_height d2 - prep_confirmation_height P) = n - ?q"
    using d2(2) P(1) m by (intro height_difference) (auto simp: prepared_for_def)
  then have "unat (num_blocks_confirmed d2 - (details_height d2 - prep_confirmation_height P)) = ?q - lo"
    using d2(3) m unat_sub [of "details_height d2 - prep_confirmation_height P" "num_blocks_confirmed d2"]
    by (simp add: word_le_nat_alt)
  then have "range_before_end (num_blocks_confirmed d2 - (details_height d2 - prep_confirmation_height P)) ?n (block_callback_data d2)
      = Some (segment s a ?q m)"
    unfolding d2(4) using m n by (intro range_segment) auto
  moreover have "of_nat (m - ?q) - ?n = 0" by (simp add: word_unat_eq_iff flip: n)
  moreover have "prep_already_traversed P" using P(1) m(4) by (simp add: prepared_for_def)
  moreover have "(\<lambda>d. d\<lparr>source_block_callback_data := []\<rparr>) d = d" using d(2) by simp
  ultimately show ?thesis
    unfolding callbacks_found_def using P d d2(1) im erase_last_segment [of 0 m ?q s a]
    by (intro exI [of _ "(details_heap U)(r \<mapsto> d\<lparr>source_block_callback_data := []\<rparr>)"])
       (auto simp: write_callbacks_def traversed_callbacks_def set_account_heights_def details_put_def)
qed

text \<open>What queuing leaves alone.\<close>

definition prepare_frame :: "details_ref option \<Rightarrow> confirmation_height_unbounded \<Rightarrow> confirmation_height_unbounded \<Rightarrow> bool" where
  "prepare_frame r U U' = (cu_ledger U' = cu_ledger U \<and> block_cache U' = block_cache U \<and> next_ref U' = next_ref U
     \<and> cemented_notified U' = cemented_notified U
     \<and> implicit_receive_cemented_mapping U' = implicit_receive_cemented_mapping U
     \<and> (\<forall>r'. Some r' \<noteq> r \<longrightarrow> details_heap U' r' = details_heap U r'))"

lemma prepare_block_ok:
  assumes ok: "processor_ok E g rk s U" and P: "prepared_for s U a m P" and m: "0 < m" "m \<le> chain_length s a" and D: "chain_hash s a m \<in> D"
    and cb: "queued_to U a < m \<Longrightarrow> callbacks_found s U a m P"
    and none: "\<forall>k. queued_to U a < k \<and> k \<le> m \<longrightarrow> collects E g s a k = None"
    and cached: "\<And>k. queued_to U a < k \<Longrightarrow> k \<le> m \<Longrightarrow> block_cache U (chain_hash s a k) \<noteq> None"
  shows "\<exists>U'. prepare_block P U = Some U' \<and> processor_ok E g rk s U' \<and> advance s D U U' \<and> prepare_frame (prep_receive_details P) U U'
    \<and> queued_to U' = (queued_to U)(a := max (queued_to U a) m) \<and> iterated_to U' = (iterated_to U)(a := max (iterated_to U a) m)
    \<and> (\<forall>r. map_option (\<lambda>d. d\<lparr>source_block_callback_data := []\<rparr>) (details_heap U' r)
          = map_option (\<lambda>d. d\<lparr>source_block_callback_data := []\<rparr>) (details_heap U r))"
proof (cases "queued_to U a < m")
  case False
  then have "\<not> prep_block_height P > prep_confirmation_height P" using P by (simp add: prepared_for_def word_less_nat_alt)
  moreover have "max (queued_to U a) m = queued_to U a" "max (iterated_to U a) m = iterated_to U a"
    using False iterated_bounds(1) [OF ok, of a] by auto
  ultimately show ?thesis using ok advance_same [of U U s D] by (simp add: prepare_block_def prepare_frame_def)
next
  case True
  let ?q = "queued_to U a" and ?n = "prep_block_height P - prep_confirmation_height P"
  obtain heap where h: "write_callbacks P ?n (set_account_heights P U) = Some (segment s a ?q m, (set_account_heights P U)\<lparr>details_heap := heap\<rparr>)"
      "\<forall>r. Some r \<noteq> prep_receive_details P \<longrightarrow> heap r = details_heap U r"
      "\<forall>r. map_option (\<lambda>d. d\<lparr>source_block_callback_data := []\<rparr>) (heap r) = map_option (\<lambda>d. d\<lparr>source_block_callback_data := []\<rparr>) (details_heap U r)"
    using cb [OF True] by (auto simp: callbacks_found_def)
  have n: "unat ?n = m - ?q" "prep_block_height P > prep_confirmation_height P"
    using P True by (intro height_difference; auto simp: prepared_for_def)+
  define p where "p = make_conf_height_details a (chain_hash s a m) (prep_block_height P) ?n (segment s a ?q m)"
  define U' where "U' = (set_account_heights P U)\<lparr>details_heap := heap, pending_writes := pending_writes U @ [p]\<rparr>"
  obtain q where q: "confirmed_iterated_pairs U' = (confirmed_iterated_pairs U)(a \<mapsto> q)" "confirmed_height q = prep_block_height P"
      "unat (iterated_height q) = max (iterated_to U a) m"
    using P True
    by (auto simp: U'_def set_account_heights_def prepared_for_def iterated_to_def word_less_nat_alt max_def split: option.splits)
  have run: "prepare_block P U = Some U'"
    using h(1) n(2) P by (simp add: prepare_block_def Let_def U'_def p_def prepared_for_def) (simp add: set_account_heights_def)
  have U': "cu_ledger U' = cu_ledger U" "pending_writes U' = pending_writes U @ [p]" "block_cache U' = block_cache U"
      "cemented_notified U' = cemented_notified U" "details_heap U' = heap" "next_ref U' = next_ref U"
      "implicit_receive_cemented_mapping U' = implicit_receive_cemented_mapping U"
    by (simp_all add: U'_def set_account_heights_def)
  have p: "details_account p = a" "unat (details_height p) = m" "details_hash p = chain_hash s a m"
      "unat (num_blocks_confirmed p) = m - ?q" "block_callback_data p = segment s a ?q m"
    using P n by (simp_all add: p_def make_conf_height_details_def prepared_for_def)
  have qm: "unat (confirmed_height q) = m" "m \<le> unat (iterated_height q)" "unat (iterated_height q) \<le> chain_length s a"
    using q P m(2) iterated_bounds(2) [OF ok, of a] by (auto simp: prepared_for_def)
  have src: "m' \<le> queued_to U a'" if "?q < k" "k \<le> m" "collects E g s a k = Some (chain_hash s a' m')" for k a' m'
    using none that by auto
  note w = queue_write [OF ok p(1-3) True m(2) p(4,5) src cached U'(1-3) q(1) qm]
  have "advance s D U U'" by (rule queue_write_advance [OF ok w(2) True m(2) p(4,5) U'(1,2,4) D])
  moreover have "iterated_to U' = (iterated_to U)(a := max (iterated_to U a) m)"
    using q w(2) by (auto simp: iterated_to_def fun_eq_iff split: option.split)
  moreover have "max ?q m = m" using True by simp
  ultimately show ?thesis using run w U' h(2,3) by (simp add: prepare_frame_def)
qed

section \<open>The receive\<close>

lemma prepare_receive_ok:
  assumes ok: "processor_ok E g rk s U"
    and d: "details_heap U r = Some d" "details_account d = a" "details_hash d = chain_hash s a n" "unat (details_height d) = n"
      "unat (num_blocks_confirmed d) = n - lo" "block_callback_data d = segment s a lo n"
    and n: "lo \<le> queued_to U a" "queued_to U a < n" "n \<le> iterated_to U a" and D: "chain_hash s a n \<in> D"
    and none: "\<forall>k. queued_to U a < k \<and> k < n \<longrightarrow> collects E g s a k = None"
    and src: "collects E g s a n = Some (chain_hash s a' m')" "0 < m'" "m' \<le> chain_length s a'" "m' \<le> queued_to U a'"
    and cached: "\<And>k. queued_to U a < k \<Longrightarrow> k \<le> n \<Longrightarrow> block_cache U (chain_hash s a k) \<noteq> None"
  shows "\<exists>U'. prepare_receive r U = Some U' \<and> processor_ok E g rk s U' \<and> advance s D U U' \<and> prepare_frame (Some r) U U'
    \<and> queued_to U' = (queued_to U)(a := n) \<and> iterated_to U' = iterated_to U"
proof -
  let ?q = "queued_to U a"
  have len: "n \<le> chain_length s a" using n(3) iterated_bounds(2) [OF ok, of a] by simp
  obtain q where q: "confirmed_iterated_pairs U a = Some q"
    using n(2,3) by (cases "confirmed_iterated_pairs U a") (auto simp: iterated_to_def)
  note qo = processor_okD(9) [OF ok q]
  have k: "unat (details_height d - confirmed_height q) = n - ?q"
    using d(4) n qo by (intro height_difference) auto
  have "unat (num_blocks_confirmed d - (details_height d - confirmed_height q)) = ?q - lo"
    using d(5) n k unat_sub [of "details_height d - confirmed_height q" "num_blocks_confirmed d"] by (simp add: word_le_nat_alt)
  then have er: "erase_last (num_blocks_confirmed d - (details_height d - confirmed_height q)) (block_callback_data d) = Some (segment s a ?q n)"
    unfolding d(6) using erase_last_segment [of _ n lo s a] n by simp
  define p where "p = d\<lparr>num_blocks_confirmed := details_height d - confirmed_height q, block_callback_data := segment s a ?q n\<rparr>"
  define U' where "U' = (details_put r p U)\<lparr>confirmed_iterated_pairs := (confirmed_iterated_pairs U)(a \<mapsto> q\<lparr>confirmed_height := details_height d\<rparr>),
      pending_writes := pending_writes U @ [p]\<rparr>"
  have run: "prepare_receive r U = Some U'"
    using d(1,2) q er by (simp add: prepare_receive_def Let_def U'_def p_def details_put_def)
  have U': "cu_ledger U' = cu_ledger U" "pending_writes U' = pending_writes U @ [p]" "block_cache U' = block_cache U"
      "confirmed_iterated_pairs U' = (confirmed_iterated_pairs U)(a \<mapsto> q\<lparr>confirmed_height := details_height d\<rparr>)"
      "cemented_notified U' = cemented_notified U" "prepare_frame (Some r) U U'"
    by (simp_all add: U'_def details_put_def prepare_frame_def)
  have p: "details_account p = a" "unat (details_height p) = n" "details_hash p = chain_hash s a n"
      "unat (num_blocks_confirmed p) = n - ?q" "block_callback_data p = segment s a ?q n"
    using d k by (simp_all add: p_def)
  have it: "iterated_to U a = unat (iterated_height q)" using q by (simp add: iterated_to_def)
  have qm: "unat (confirmed_height (q\<lparr>confirmed_height := details_height d\<rparr>)) = n"
      "n \<le> unat (iterated_height (q\<lparr>confirmed_height := details_height d\<rparr>))"
      "unat (iterated_height (q\<lparr>confirmed_height := details_height d\<rparr>)) \<le> chain_length s a"
    using d(4) n(3) qo it by simp_all
  have sources: "m2 \<le> queued_to U a2"
    if k: "?q < k" "k \<le> n" "collects E g s a k = Some (chain_hash s a2 m2)" "0 < m2" "m2 \<le> chain_length s a2" for k a2 m2
  proof -
    have "k = n" using none k by (metis le_neq_implies_less option.discI)
    then have "a2 = a' \<and> m2 = m'" using chain_hash_inj [OF processor_okD(10) [OF ok] k(4,5) src(2,3)] k(3) src(1) by simp
    then show ?thesis using src(4) by simp
  qed
  note w = queue_write [OF ok p(1-3) n(2) len p(4,5) sources cached U'(1-4) qm]
  have "advance s D U U'" by (rule queue_write_advance [OF ok w(2) n(2) len p(4,5) U'(1,2,5) D])
  moreover have "iterated_to U' = iterated_to U"
    using w(2) U'(4) it by (auto simp: iterated_to_def fun_eq_iff split: option.split)
  ultimately show ?thesis using run w U'(6) by auto
qed

end
