(* ===== verification/Confirmation_Visit.thy ===== *)
theory Confirmation_Visit
  imports Confirmation_Prepare
begin

text \<open>
  The three ways a visit ends: the receive that led to the block is queued and leaves the stack, a new
  frame is opened, or the original block itself is queued and the traversal is over.
\<close>

section \<open>Changes that do not matter\<close>

lemma queued_cong:
  assumes "cu_ledger U' = cu_ledger U" "pending_writes U' = pending_writes U"
  shows "queued_store U' = queued_store U" "queued_count U' = queued_count U"
    "cemented_notified U' = cemented_notified U \<Longrightarrow> queued_notified U' = queued_notified U"
  using assms by (simp_all add: queued_store_def queued_count_def queued_notified_def)

lemma iterated_to_cong:
  assumes "queued_store U' = queued_store U" "confirmed_iterated_pairs U' = confirmed_iterated_pairs U"
  shows "iterated_to U' = iterated_to U"
  unfolding iterated_to_def fun_eq_iff assms by simp

lemma processor_ok_cong:
  assumes ok: "processor_ok E g rk s U" and U': "cu_ledger U' = cu_ledger U" "pending_writes U' = pending_writes U"
      "confirmed_iterated_pairs U' = confirmed_iterated_pairs U" "block_cache_ok U'"
      "\<And>h. block_cache U h \<noteq> None \<Longrightarrow> block_cache U' h \<noteq> None"
  shows "processor_ok E g rk s U'" "iterated_to U' = iterated_to U"
proof -
  note q = queued_cong(1) [OF U'(1,2)]
  show "iterated_to U' = iterated_to U" by (rule iterated_to_cong [OF q U'(3)])
  show "processor_ok E g rk s U'" using ok U' unfolding processor_ok_def q by simp
qed

text \<open>Caching a block and telling the observers of a cemented one.\<close>

lemma traversal_ok_cong:
  assumes ok: "traversal_ok E g rk s orig od U fs" and U': "processor_ok E g rk s U'" "queued_store U' = queued_store U"
      "confirmed_iterated_pairs U' = confirmed_iterated_pairs U" "details_heap U' = details_heap U" "next_ref U' = next_ref U"
      "implicit_receive_cemented_mapping U' = implicit_receive_cemented_mapping U"
      "\<And>h. block_cache U h \<noteq> None \<Longrightarrow> block_cache U' h \<noteq> None"
  shows "traversal_ok E g rk s orig od U' fs" "iterated_to U' = iterated_to U"
proof -
  show it: "iterated_to U' = iterated_to U" by (rule iterated_to_cong [OF U'(2,3)])
  have "frames_ok E g s U' orig od [] fs"
    by (rule frames_ok_same [OF traversal_okD(2) [OF ok]]) (use U' it in \<open>auto intro: frame_kept_refl\<close>)
  then show "traversal_ok E g rk s orig od U' fs" using ok U' it unfolding traversal_ok_def by simp
qed

lemma queue_unchanged_traversal:
  assumes "traversal_ok E g rk s orig od U fs" "processor_ok E g rk s U'" "queue_unchanged U U'"
  shows "traversal_ok E g rk s orig od U' fs" "iterated_to U' = iterated_to U" "advance s D U U'"
  using traversal_ok_cong [OF assms(1,2)] advance_same [of U' U] assms(3) by (auto simp: queue_unchanged_def)

section \<open>What a visit reads\<close>

lemma readable_queued:
  assumes ok: "processor_ok E g rk s U" and m: "m \<le> chain_length s a"
  shows "readable E g s U a (queued_to U a) m"
proof -
  note hist = processor_okD(10) [OF ok] and inv = queued_store_ok(1) [OF ok]
  note fr = same_blocks_frame [OF queued_store_ok(3) [OF ok]] and fr' = same_blocks_frame [OF processor_okD(1) [OF ok]]
  have apart: "links_apart E (queued_store U)" using processor_okD(4) [OF ok] by (simp add: links_apart_def fr)
  have ts: "traversal_source E (cu_store U) = traversal_source E (queued_store U)"
    by (simp add: traversal_source_def fun_eq_iff fr fr')
  have "inj_on (chain_hash s a) {queued_to U a<..m}"
    using chain_hash_inj [OF hist, of _ a _ a] m by (intro inj_onI) auto
  moreover have "chain_hash s a k \<noteq> 0 \<and> (\<exists>b. block_get (cu_store U) (chain_hash s a k) = Some b
      \<and> traversal_source E (cu_store U) b = collects E g s a k
      \<and> (Suc (queued_to U a) < k \<longrightarrow> block_previous b = chain_hash s a (k - 1)))" if k: "queued_to U a < k" "k \<le> m" for k
  proof -
    obtain b where b: "block_get s (chain_hash s a k) = Some b" using chain_block [OF hist, of k a] k m by auto
    have "traversal_source E (queued_store U) b = collects E g (queued_store U) a k"
      by (rule traversal_source_chain [OF inv apart]) (use k m b fr in auto)
    moreover have "block_previous b = chain_hash s a (k - 1)" if "Suc (queued_to U a) < k"
      using chain_previous(1) [OF hist, of "k - 1" a b] that k m b by simp
    ultimately show ?thesis using b processor_okD(11) [OF ok] fr fr' ts by auto
  qed
  ultimately show ?thesis by (simp add: readable_def)
qed

section \<open>A receive leaves the stack\<close>

lemma leave_receive:
  assumes ok: "processor_ok E g rk s U" and fs: "frames_ok E g s U orig od sd ((a1, h1, e # es) # fs)"
    and acc: "distinct (map fst ((a1, h1, e # es) # fs))" "distinct (map fst (e # es @ frames_stack fs))"
    and refs: "\<forall>e' \<in> set (e # es @ frames_stack fs). fst e' < next_ref U"
    and P: "prepared_for s U a m P" "prep_receive_details P = Some (fst e)" "queued_to U a < m \<Longrightarrow> callbacks_found s U a m P"
    and m: "0 < m" "m \<le> chain_length s a" "snd e = chain_hash s a m" and D: "chain_hash s a m \<in> D" "entry_hash U e \<in> D"
    and none: "\<forall>k. queued_to U a < k \<and> k \<le> m \<longrightarrow> collects E g s a k = None"
    and within: "\<And>f. f \<in> set ((a1, h1, e # es) # fs) \<Longrightarrow> fst f = a \<Longrightarrow> m \<le> iterated_to U a
        \<and> (\<exists>n. m < n \<and> n \<le> fst (snd f) \<and> collects E g s a n \<noteq> None \<and> (\<forall>k. queued_to U a < k \<and> k < n \<longrightarrow> collects E g s a k = None))"
    and outside: "\<And>a'. a' \<notin> fst ` set ((a1, h1, e # es) # fs) \<Longrightarrow> a' \<noteq> a \<Longrightarrow> iterated_to U a' = queued_to U a'"
      "a \<notin> fst ` set ((a1, h1, e # es) # fs) \<Longrightarrow> max (iterated_to U a) m = max (queued_to U a) m"
    and cached: "\<And>k. queued_to U a < k \<Longrightarrow> k \<le> m \<Longrightarrow> block_cache U (chain_hash s a k) \<noteq> None"
      "\<And>a' k. queued_to U a' < k \<Longrightarrow> k \<le> iterated_to U a' \<Longrightarrow> block_cache U (chain_hash s a' k) \<noteq> None"
  shows "\<exists>U'. prepare_iterated_blocks_for_cementing P U = Some U' \<and> advance s D U U'
    \<and> traversal_ok E g rk s orig od (U'\<lparr>details_heap := (details_heap U')(fst e := None)\<rparr>) ((a1, h1, es) # fs)
    \<and> (\<forall>a'. iterated_to U a' \<le> iterated_to U' a')"
proof -
  let ?fs = "(a1, h1, e # es) # fs" and ?r = "fst e"
  obtain U1 where U1: "prepare_block P U = Some U1" "processor_ok E g rk s U1" "advance s D U U1" "prepare_frame (Some ?r) U U1"
      "queued_to U1 = (queued_to U)(a := max (queued_to U a) m)" "iterated_to U1 = (iterated_to U)(a := max (iterated_to U a) m)"
      "\<forall>r. map_option (\<lambda>d. d\<lparr>source_block_callback_data := []\<rparr>) (details_heap U1 r)
          = map_option (\<lambda>d. d\<lparr>source_block_callback_data := []\<rparr>) (details_heap U r)"
    using prepare_block_ok [OF ok P(1) m(1,2) D(1) P(3) none cached(1)] P(2) by auto
  have kept: "\<forall>f \<in> set ?fs. frame_kept E g s U U1 f"
  proof
    fix f assume f: "f \<in> set ?fs"
    obtain a' h' es' where f': "f = (a', h', es')" by (cases f)
    show "frame_kept E g s U U1 f"
    proof (cases "a' = a")
      case False
      then show ?thesis using U1(4-6) f' by (simp add: frame_kept_def prepare_frame_def)
    next
      case True
      then show ?thesis using within [OF f] f' U1(4-6) by (auto simp: frame_kept_def prepare_frame_def max_def)
    qed
  qed
  obtain lo0 n0 where "receive_entry E g s U a1 lo0 n0 sd e" using frame_ok_head [OF frames_ok_frame [OF fs]] .
  then obtain d where d: "details_heap U ?r = Some d" by (auto simp: receive_entry_def)
  then obtain d1 where d1: "details_heap U1 ?r = Some d1" "d1\<lparr>source_block_callback_data := []\<rparr> = d\<lparr>source_block_callback_data := []\<rparr>"
    using U1(7) [rule_format, of ?r] by (auto simp: map_option_eq_Some)
  define sd1 where "sd1 = source_block_callback_data d1"
  have d1_eq: "d1 = d\<lparr>source_block_callback_data := sd1\<rparr>"
    using d1(2) by (cases d; cases d1) (simp add: sd1_def)
  have other: "details_heap U1 r = details_heap U r" if "r \<noteq> ?r" for r using U1(4) that by (simp add: prepare_frame_def)
  have ne: "\<forall>e' \<in> set es \<union> set (frames_stack fs). fst e' \<noteq> ?r" using acc(2) by (force simp: image_iff)
  have fs1: "frames_ok E g s U1 orig od sd1 ?fs"
    by (rule frames_ok_kept [OF fs kept]) (use d d1(1) d1_eq other ne in simp_all)
  obtain lo n where n: "lo \<le> queued_to U1 a1" "queued_to U1 a1 < n" "n \<le> h1" "h1 \<le> chain_length s a1"
      "receive_entry E g s U1 a1 lo n sd1 e" "\<forall>k. lo < k \<and> k < n \<longrightarrow> collects E g s a1 k = None"
    using frame_ok_head [OF frames_ok_frame [OF fs1]] .
  have it1: "iterated_to U1 a1 = h1" using frames_ok_frame [OF fs1] by (simp add: frame_ok_def)
  have ent: "details_account d1 = a1" "details_hash d1 = chain_hash s a1 n" "unat (details_height d1) = n"
      "unat (num_blocks_confirmed d1) = n - lo" "block_callback_data d1 = segment s a1 lo n" "collects E g s a1 n = Some (chain_hash s a m)"
    using n(5) d1(1) m(3) by (auto simp: receive_entry_def)
  have cached1: "block_cache U1 (chain_hash s a' k) \<noteq> None" if "queued_to U1 a' < k" "k \<le> iterated_to U1 a'" for a' k
  proof (cases "a' = a")
    case True
    then show ?thesis using cached that U1(4-6) by (auto simp: prepare_frame_def max_def simp del: not_None_eq split: if_splits)
  next
    case False
    then show ?thesis using cached(2) that U1(4-6) by (simp add: prepare_frame_def)
  qed
  have D': "chain_hash s a1 n \<in> D"
    using D(2) d d1_eq ent(2) by (simp add: entry_hash_def)
  have q1: "m \<le> queued_to U1 a" using U1(5) by simp
  obtain U2 where U2: "prepare_receive ?r U1 = Some U2" "processor_ok E g rk s U2" "advance s D U1 U2" "prepare_frame (Some ?r) U1 U2"
      "queued_to U2 = (queued_to U1)(a1 := n)" "iterated_to U2 = iterated_to U1"
    using prepare_receive_ok [OF U1(2) d1(1) ent(1-5) n(1,2) _ D' _ ent(6) m(1,2) q1 cached1] n it1 by auto
  let ?U = "U2\<lparr>details_heap := (details_heap U2)(?r := None)\<rparr>"
  have eqs: "queued_store ?U = queued_store U2" "iterated_to ?U = iterated_to U2"
    using queued_cong(1) [of ?U U2] iterated_to_cong [of ?U U2] by simp_all
  have ok2: "processor_ok E g rk s ?U"
    by (rule processor_ok_cong(1) [OF U2(2)]) (use processor_okD(7) [OF U2(2)] in \<open>auto simp: block_cache_ok_def\<close>)
  have a1: "a1 \<notin> fst ` set fs" using acc(1) by auto
  have "frames_ok E g s ?U orig od [] ((a1, h1, es) # fs)"
  proof (rule frames_pop [OF fs1 n(5)])
    show "\<forall>f \<in> set fs. frame_kept E g s U1 ?U f"
    proof
      fix f assume f: "f \<in> set fs"
      obtain a' h' es' where f': "f = (a', h', es')" by (cases f)
      then have "a' \<noteq> a1" using a1 f by force
      then show "frame_kept E g s U1 ?U f" using f' U2(4-6) eqs by (auto intro!: frame_kept_refl simp: prepare_frame_def)
    qed
    show "\<forall>e' \<in> set es \<union> set (frames_stack fs). details_heap ?U (fst e') = details_heap U1 (fst e')"
      using ne U2(4) by (simp add: prepare_frame_def)
  qed (use U2(4-6) eqs in \<open>auto simp: prepare_frame_def\<close>)
  moreover have "iterated_to ?U a' = queued_to ?U a'" if "a' \<notin> fst ` set ((a1, h1, es) # fs)" for a'
    using that outside U1(5,6) U2(5,6) eqs by (cases "a' = a") auto
  moreover have "block_cache ?U (chain_hash s a' k) \<noteq> None" if "queued_to ?U a' < k" "k \<le> iterated_to ?U a'" for a' k
    using cached1 [of a' k] that U2(4-6) eqs n(2) by (auto simp: prepare_frame_def simp del: not_None_eq split: if_splits)
  moreover have "distinct (map fst ((a1, h1, es) # fs))" "distinct (map fst (frames_stack ((a1, h1, es) # fs)))"
      "\<forall>e' \<in> set (frames_stack ((a1, h1, es) # fs)). fst e' < next_ref ?U"
    using acc refs U1(4) U2(4) by (auto simp: prepare_frame_def)
  ultimately have "traversal_ok E g rk s orig od ?U ((a1, h1, es) # fs)"
    unfolding traversal_ok_def using ok2 by blast
  moreover have "prepare_iterated_blocks_for_cementing P U = Some U2"
    using U1(1) U2(1) P(2) by (simp add: prepare_iterated_blocks_for_cementing_def)
  moreover have "advance s D U U2" by (rule advance_trans [OF U1(2) U2(2) U1(3) U2(3)])
  moreover have "\<forall>a'. iterated_to U a' \<le> iterated_to U2 a'" using U1(6) U2(6) by simp
  ultimately show ?thesis by blast
qed

section \<open>The original block is reached again\<close>

lemma leave_original:
  assumes ok: "processor_ok E g rk s U" and P: "prepared_for s U a m P" "prep_receive_details P = None" "queued_to U a < m \<Longrightarrow> callbacks_found s U a m P"
    and m: "0 < m" "m \<le> chain_length s a" and D: "chain_hash s a m \<in> D"
    and none: "\<forall>k. queued_to U a < k \<and> k \<le> m \<longrightarrow> collects E g s a k = None"
    and outside: "\<And>a'. a' \<noteq> a \<Longrightarrow> iterated_to U a' = queued_to U a'" "max (iterated_to U a) m = max (queued_to U a) m"
    and cached: "\<And>k. queued_to U a < k \<Longrightarrow> k \<le> m \<Longrightarrow> block_cache U (chain_hash s a k) \<noteq> None"
  shows "\<exists>U'. prepare_iterated_blocks_for_cementing P U = Some U' \<and> advance s D U U'
    \<and> traversal_ok E g rk s orig od U' [] \<and> m \<le> queued_to U' a"
proof -
  obtain U1 where U1: "prepare_block P U = Some U1" "processor_ok E g rk s U1" "advance s D U U1"
      "queued_to U1 = (queued_to U)(a := max (queued_to U a) m)" "iterated_to U1 = (iterated_to U)(a := max (iterated_to U a) m)"
    using prepare_block_ok [OF ok P(1) m D P(3) none cached] by auto
  have "iterated_to U1 a' = queued_to U1 a'" for a' using outside U1(4,5) by (cases "a' = a") auto
  then have "traversal_ok E g rk s orig od U1 []" using U1(2) by (auto simp: traversal_ok_def)
  then show ?thesis using U1 P(2) by (auto simp: prepare_iterated_blocks_for_cementing_def)
qed

section \<open>A new frame is opened\<close>

lemma frames_all_ok: "frames_ok E g s U orig od sd fs \<Longrightarrow> f \<in> set fs \<Longrightarrow> \<exists>sd'. frame_ok E g s U sd' f"
proof (induction fs arbitrary: sd)
  case (Cons f1 fs)
  then show ?case using frames_ok_frame by (cases fs) auto
qed simp

lemma open_frame:
  assumes ok: "traversal_ok E g rk s orig od U fs" and a: "a \<notin> fst ` set fs" and m: "queued_to U a < m" "m \<le> chain_length s a"
    and C: "col_processor C = U" "receive_source_pairs C = frames_stack fs"
    and col: "collected_above E g s a (queued_to U a) (m - queued_to U a) m (fs = []) C C1 es mm" and es: "es \<noteq> []"
    and lead: "if fs = [] then chain_hash s a m = orig
      else orig_block_callback_data C = od \<and> (\<exists>a1 h1 e es1 fs1. fs = (a1, h1, e # es1) # fs1 \<and> snd e = chain_hash s a m)"
    and w: "unat conf = queued_to U a" "unat hgt = m"
    and U2: "U2 = mark_iterated a conf hgt (col_processor C1)"
  shows "traversal_ok E g rk s orig (orig_block_callback_data C1) U2 ((a, m, es) # fs)" "iterated_to U2 = (iterated_to U)(a := m)"
    "receive_source_pairs C1 = frames_stack ((a, m, es) # fs)" "advance s D U U2"
proof -
  let ?q = "queued_to U a" and ?U1 = "col_processor C1"
  note proc = traversal_okD(1) [OF ok] and hist = processor_okD(10) [OF traversal_okD(1) [OF ok]]
  have mm: "?q < mm" "mm \<le> m" "collects E g s a mm \<noteq> None" "\<forall>j. mm < j \<and> j \<le> m \<longrightarrow> collects E g s a j = None"
    and stack: "receive_source_pairs C1 = es @ frames_stack fs" and above: "receives_above E g s ?U1 a ?q es m"
    and refs: "distinct (map fst es)" "\<forall>e \<in> set es. next_ref U \<le> fst e \<and> fst e < next_ref ?U1"
    and od: "if fs = [] then orig_block_callback_data C1 = segment s a mm m else orig_block_callback_data C1 = orig_block_callback_data C"
    and top: "fs \<noteq> [] \<longrightarrow> (\<forall>d. details_heap U (fst (hd (frames_stack fs))) = Some d \<longrightarrow>
        details_heap ?U1 (fst (hd (frames_stack fs))) = Some (d\<lparr>source_block_callback_data := segment s a mm m\<rparr>))"
    using col es C by (auto simp: collected_above_def split: if_splits)
  have fr: "collect_frame s a ?q m (if fs = [] then {} else {fst (hd (frames_stack fs))}) U ?U1"
    using col es C m(1) by (auto simp: collected_above_def split: if_splits)
  show "receive_source_pairs C1 = frames_stack ((a, m, es) # fs)" using stack by simp
  obtain q where q: "confirmed_iterated_pairs U2 = (confirmed_iterated_pairs U)(a \<mapsto> q)" "unat (confirmed_height q) = ?q" "iterated_height q = hgt"
    using fr w processor_okD(9) [OF proc, of a]
    by (auto simp: U2 mark_iterated_def collect_frame_def split: option.split)
  have same: "cu_ledger U2 = cu_ledger U" "pending_writes U2 = pending_writes U" "cemented_notified U2 = cemented_notified U"
      "details_heap U2 = details_heap ?U1" "implicit_receive_cemented_mapping U2 = implicit_receive_cemented_mapping ?U1"
      "next_ref U2 = next_ref ?U1" "block_cache U2 = block_cache ?U1"
    using fr by (simp_all add: U2 mark_iterated_def collect_frame_def)
  note qs = queued_cong [OF same(1,2)]
  show "advance s D U U2" using qs same(1,3) by (intro advance_same) auto
  show it: "iterated_to U2 = (iterated_to U)(a := m)"
    using q qs(1) w(2) by (auto simp: iterated_to_def fun_eq_iff split: option.split)
  have cache: "block_cache_ok U2" "\<And>h. block_cache U h \<noteq> None \<Longrightarrow> block_cache U2 h \<noteq> None"
      "\<And>k. ?q < k \<Longrightarrow> k \<le> m \<Longrightarrow> block_cache U2 (chain_hash s a k) \<noteq> None"
    using fr same by (auto simp: collect_frame_def block_cache_ok_def simp del: not_None_eq)
  have p2: "processor_ok E g rk s U2"
    using proc cache(1,2) q m w same(1,2) unfolding processor_ok_def qs(1) by (auto simp del: not_None_eq)
  have "receives_above E g s U2 a ?q es m" by (rule receives_above_frame [OF above]) (simp_all add: same)
  then have new: "frame_ok E g s U2 [] (a, m, es)" by (rule frame_new) (use qs(1) it m(2) in simp_all)
  have ft: "frame_top E g s U2 a mm m" using mm qs(1) by (auto simp: frame_top_def)
  have kept: "frame_kept E g s U U2 f" if f: "f \<in> set fs" for f
  proof -
    obtain a' h' es' where f': "f = (a', h', es')" by (cases f)
    have ne: "a' \<noteq> a" using a f f' by force
    have len: "h' \<le> chain_length s a'" using frames_all_ok [OF traversal_okD(2) [OF ok] f] f' by (auto simp: frame_ok_def)
    have "chain_hash s a' k \<notin> chain_hash s a ` {?q<..m}" if "0 < k" "k \<le> h'" for k
    proof
      assume "chain_hash s a' k \<in> chain_hash s a ` {?q<..m}"
      then obtain j where "chain_hash s a' k = chain_hash s a j" "0 < j" "j \<le> chain_length s a" using m(2) by auto
      then show False using chain_hash_inj [OF hist that(1) _ _ _, of a' j a] that(2) len ne by auto
    qed
    then show ?thesis using f' ne qs(1) it fr same(5) by (simp add: frame_kept_def collect_frame_def)
  qed
  have old: "details_heap U2 (fst e) = details_heap U (fst e)" if "e \<in> set (frames_stack fs)" "fs = [] \<or> fst e \<noteq> fst (hd (frames_stack fs))" for e
    using fr same(4) traversal_okD(6) [OF ok that(1)] that(2) by (auto simp: collect_frame_def split: if_splits)
  have "frames_ok E g s U2 orig (orig_block_callback_data C1) [] ((a, m, es) # fs)"
  proof (cases "fs = []")
    case True
    then show ?thesis using new ft lead od by auto
  next
    case False
    then obtain a1 h1 e es1 fs1 where f: "fs = (a1, h1, e # es1) # fs1" "snd e = chain_hash s a m" using lead by auto
    obtain d where d: "details_heap U (fst e) = Some d"
    proof -
      obtain lo0 n0 where "receive_entry E g s U a1 lo0 n0 [] e"
        using frame_ok_head frames_ok_frame traversal_okD(2) [OF ok] f(1) by metis
      then show thesis using that by (auto simp: receive_entry_def)
    qed
    have dis: "distinct (map fst (frames_stack fs))" by (rule traversal_okD(5) [OF ok])
    have "frames_ok E g s U2 orig od [] ((a, m, es) # fs)"
      unfolding f(1)
    proof (rule frames_push [OF _ new ft f(2)])
      show "frames_ok E g s U orig od [] ((a1, h1, e # es1) # fs1)" using traversal_okD(2) [OF ok] f(1) by simp
      show "\<forall>f' \<in> set ((a1, h1, e # es1) # fs1). frame_kept E g s U U2 f'" using kept f(1) by simp
      show "details_heap U2 (fst e) = map_option (\<lambda>d. d\<lparr>source_block_callback_data := segment s a mm m\<rparr>) (details_heap U (fst e))"
        using top d f(1) same(4) by simp
      show "\<forall>e' \<in> set es1 \<union> set (frames_stack fs1). details_heap U2 (fst e') = details_heap U (fst e')"
      proof
        fix e' assume e': "e' \<in> set es1 \<union> set (frames_stack fs1)"
        then have "fst e' \<noteq> fst e" using dis f(1) by (force simp: image_iff)
        then show "details_heap U2 (fst e') = details_heap U (fst e')" using old [of e'] e' f(1) by auto
      qed
    qed
    then show ?thesis using od lead False by simp
  qed
  moreover have "distinct (map fst (frames_stack ((a, m, es) # fs)))"
    using refs traversal_okD(5,6) [OF ok] by (fastforce simp: image_iff)
  moreover have "\<forall>e \<in> set (frames_stack ((a, m, es) # fs)). fst e < next_ref U2"
  proof
    fix e assume "e \<in> set (frames_stack ((a, m, es) # fs))"
    then have "e \<in> set es \<or> e \<in> set (frames_stack fs)" by simp
    moreover have "next_ref U \<le> next_ref U2" using fr same(6) by (simp add: collect_frame_def)
    ultimately show "fst e < next_ref U2" using refs(2) same(6) traversal_okD(6) [OF ok, of e] by fastforce
  qed
  moreover have "block_cache U2 (chain_hash s a' k) \<noteq> None" if "queued_to U2 a' < k" "k \<le> iterated_to U2 a'" for a' k
    using that cache traversal_okD(7) [OF ok, of a' k] it qs(1) by (cases "a' = a") auto
  moreover have "iterated_to U2 a' = queued_to U2 a'" if "a' \<notin> fst ` set ((a, m, es) # fs)" for a'
    using that it qs(1) traversal_okD(4) [OF ok, of a'] by auto
  ultimately show "traversal_ok E g rk s orig (orig_block_callback_data C1) U2 ((a, m, es) # fs)"
    using p2 a traversal_okD(3) [OF ok] unfolding traversal_ok_def by auto
qed

end
