(* ===== verification/Confirmation_Process.thy ===== *)
theory Confirmation_Process
  imports Confirmation_Visit
begin

text \<open>
  The loop of the processor: every iteration keeps the frames, brings the traversal closer to its end
  and, unless the processor is stopped, the loop ends with the original block queued.
\<close>

section \<open>Reading the visited block\<close>

lemma visit_read:
  assumes ok: "traversal_ok E g rk s orig od U fs" and m: "0 < m" "m \<le> chain_length s a"
  shows "\<exists>b U1 conf iter U2. get_block_and_sideband (chain_hash s a m) U = (Some b, U1) \<and> sideband b = Some (sb_of b)
    \<and> (if block_account b = 0 then sideband_account (sb_of b) else block_account b) = a \<and> unat (own_height b) = m
    \<and> confirmed_iterated_pairs U1 = confirmed_iterated_pairs U
    \<and> account_heights orig first (chain_hash s a m) a (own_height b) U1 = Some (conf, iter, U2)
    \<and> unat conf = queued_to U a \<and> unat iter = iterated_to U a
    \<and> traversal_ok E g rk s orig od U2 fs \<and> queued_store U2 = queued_store U \<and> iterated_to U2 = iterated_to U
    \<and> confirmed_iterated_pairs U2 = confirmed_iterated_pairs U \<and> details_heap U2 = details_heap U \<and> next_ref U2 = next_ref U
    \<and> advance s D U U2"
proof -
  note proc = traversal_okD(1) [OF ok] and hist = processor_okD(10) [OF traversal_okD(1) [OF ok]]
  obtain b where b: "block_get s (chain_hash s a m) = Some b" "own_account b = a" "unat (own_height b) = m"
    using chain_block [OF hist m] .
  have b': "block_get (cu_store U) (chain_hash s a m) = Some b"
    using b(1) same_blocks_frame(1) [OF processor_okD(1) [OF proc]] by simp
  have sb: "sideband b = Some (sb_of b)"
    using own_defined(1) [OF block_get_sideband [OF store_okD(1) [OF undo_invD(2) [OF processor_okD(3) [OF proc]]] b']] .
  let ?U1 = "U\<lparr>block_cache := (block_cache U)(chain_hash s a m \<mapsto> Some b)\<rparr>"
  have ok1: "processor_ok E g rk s ?U1" "iterated_to ?U1 = iterated_to U"
    using processor_ok_cong [OF proc, of ?U1] block_cache_ok_add [OF processor_okD(7) [OF proc] b'] by simp_all
  have qs1: "queued_store ?U1 = queued_store U" by (rule queued_cong) simp_all
  obtain conf iter U2 where r: "account_heights orig first (chain_hash s a m) a (own_height b) ?U1 = Some (conf, iter, U2)"
      "unat conf = queued_to U a" "unat iter = iterated_to U a" "U2 = ?U1\<lparr>already_cemented_notified := already_cemented_notified U2\<rparr>"
    using account_heights_read [OF ok1(1) m, of orig first "chain_hash s a m" "own_height b"] ok1(2) qs1 by metis
  have U2: "cu_ledger U2 = cu_ledger U" "pending_writes U2 = pending_writes U" "cemented_notified U2 = cemented_notified U"
      "confirmed_iterated_pairs U2 = confirmed_iterated_pairs U" "details_heap U2 = details_heap U" "next_ref U2 = next_ref U"
      "implicit_receive_cemented_mapping U2 = implicit_receive_cemented_mapping U" "block_cache U2 = block_cache ?U1"
    by (subst r(4), simp)+
  note qs = queued_cong [OF U2(1,2)]
  have "block_cache_ok U2" using processor_okD(7) [OF ok1(1)] U2(1,8) by (simp add: block_cache_ok_def)
  then have ok2: "processor_ok E g rk s U2" by (intro processor_ok_cong(1) [OF proc]) (simp_all add: U2)
  have "traversal_ok E g rk s orig od U2 fs \<and> iterated_to U2 = iterated_to U"
    by (intro conjI traversal_ok_cong [OF ok ok2]) (simp_all add: U2 qs)
  moreover have "advance s D U U2" using qs U2(1,3) by (intro advance_same) simp_all
  ultimately show ?thesis
    using get_block_stored [OF processor_okD(7) [OF proc] b'] sb b r(1-3) U2 qs(1)
    by (intro exI [of _ b] exI [of _ ?U1] exI [of _ conf] exI [of _ iter] exI [of _ U2]) (simp add: own_account_def)
qed

section \<open>One iteration\<close>

definition loop_ok ::
    "env \<Rightarrow> block_hash \<Rightarrow> (block_hash \<Rightarrow> nat) \<Rightarrow> store \<Rightarrow> block_hash \<Rightarrow> process_vars \<Rightarrow> frame list \<Rightarrow> bool" where
  "loop_ok E g rk s orig V fs = (traversal_ok E g rk s orig (vars_orig_data V) (vars_processor V) fs
     \<and> vars_pairs V = frames_stack fs
     \<and> (if fs = [] then vars_receive_details V = None \<and> vars_current V = orig \<and> vars_orig_data V = []
        else vars_pairs V = [] \<longrightarrow> vars_receive_details V \<noteq> None))"

text \<open>What is left to traverse.\<close>

definition untraversed :: "store \<Rightarrow> confirmation_height_unbounded \<Rightarrow> nat" where
  "untraversed s U = (\<Sum>a \<in> {a. account_get s a \<noteq> None}. chain_length s a - iterated_to U a)"

lemma finite_accounts: "finite {a. account_get s a \<noteq> None}"
proof -
  have "{a. account_get s a \<noteq> None} \<subseteq> fst ` set (accounts s)"
    by (auto simp: account_get_def dest!: table_get_SomeD) force
  then show ?thesis by (rule finite_subset) simp
qed

lemma untraversed_mono: "\<forall>a. iterated_to U a \<le> iterated_to U' a \<Longrightarrow> untraversed s U' \<le> untraversed s U"
  unfolding untraversed_def by (intro sum_mono) (simp add: diff_le_mono2)

lemma untraversed_less:
  assumes "iterated_to U' = (iterated_to U)(a := m)" "iterated_to U a < m" "m \<le> chain_length s a"
  shows "untraversed s U' < untraversed s U"
proof -
  have "account_get s a \<noteq> None" using assms(2,3) by (auto simp: chain_length_def split: option.splits)
  then show ?thesis
    unfolding untraversed_def using assms by (intro sum_strict_mono_ex1 finite_accounts) (auto intro!: bexI [of _ a] simp: diff_less_mono2)
qed

text \<open>How an iteration leaves the loop: over, or with frames left.\<close>

definition iterated_ok ::
    "env \<Rightarrow> block_hash \<Rightarrow> (block_hash \<Rightarrow> nat) \<Rightarrow> store \<Rightarrow> block_hash \<Rightarrow> account \<Rightarrow> nat \<Rightarrow> block_hash set \<Rightarrow> bool
      \<Rightarrow> process_vars \<Rightarrow> process_vars \<Rightarrow> bool \<Rightarrow> bool" where
  "iterated_ok E g rk s orig a0 h0 D stop V V' again =
     (advance s D (vars_processor V) (vars_processor V') \<and> first_iter V' = False
      \<and> (\<exists>fs. if fs = [] then \<not> again \<and> traversal_ok E g rk s orig (vars_orig_data V') (vars_processor V') []
                  \<and> h0 \<le> queued_to (vars_processor V') a0
              else again = (\<not> stop) \<and> loop_ok E g rk s orig V' fs
                  \<and> (untraversed s (vars_processor V') < untraversed s (vars_processor V)
                     \<or> untraversed s (vars_processor V') \<le> untraversed s (vars_processor V) \<and> length (vars_pairs V') < length (vars_pairs V))))"

lemma process_iteration_eq:
  assumes V1: "next_visit orig V = V1" and b: "get_block_and_sideband (vars_current V1) (vars_processor V1) = (Some b, U1)"
    "sideband b = Some sb" "(if block_account b = 0 then sideband_account sb else block_account b) = a"
    and heights: "account_heights orig (first_iter V1) (vars_current V1) a (height sb) U1 = Some (conf, iter, U2)"
    and col: "(if iter \<ge> height sb then Some C else collect_unconfirmed_receive_and_sources_for_account E (stopped_collecting t) orig
        (height sb) iter (vars_current V1) a C) = Some C1"
    and C: "C = \<lparr>col_processor = U2, receive_source_pairs = vars_pairs V1, block_callback_datas_required = [], orig_block_callback_data = vars_orig_data V1\<rparr>"
    and P: "P = \<lparr>prep_block_height = height sb, prep_confirmation_height = conf, prep_iterated_height = iter,
        prep_account_found = (confirmed_iterated_pairs U1 a \<noteq> None), prep_account = a, prep_receive_details = vars_receive_details V1,
        prep_already_traversed = (iter \<ge> height sb), prep_current = vars_current V1,
        prep_block_callback_data = block_callback_datas_required C1, prep_orig_block_callback_data = orig_block_callback_data C1\<rparr>"
  shows "process_iteration E t orig V = (if stopped_collected t
      then Some (V1\<lparr>vars_processor := col_processor C1, vars_pairs := receive_source_pairs C1, vars_orig_data := orig_block_callback_data C1\<rparr>, False)
      else settle_visit t orig P C1 V1)"
proof -
  note col' = col [unfolded C]
  show ?thesis
    unfolding process_iteration_def Let_def V1 b(1) prod.case Option.bind.simps b(2) b(3) heights col' P ..
qed

section \<open>Leaving\<close>

lemma settle_leave:
  assumes C1: "receive_source_pairs C1 = e # rest" "vars_pairs V1 = e # rest" "prepare_iterated_blocks_for_cementing P (col_processor C1) = Some U3"
    and ok: "traversal_ok E g rk s orig (orig_block_callback_data C1) (U3\<lparr>details_heap := (details_heap U3)(fst e := None)\<rparr>) fs"
    and fs: "frames_stack fs = rest" "fs \<noteq> []" and V1: "prep_current P \<noteq> orig" "vars_receive_details V1 \<noteq> None"
  shows "\<exists>V'. settle_visit t orig P C1 V1 = Some (V', \<not> stopped_after t) \<and> loop_ok E g rk s orig V' fs \<and> first_iter V' = False
    \<and> vars_pairs V' = rest \<and> advance s D U3 (vars_processor V') \<and> processor_ok E g rk s U3
    \<and> iterated_to (vars_processor V') = iterated_to U3"
proof -
  let ?U = "U3\<lparr>details_heap := (details_heap U3)(fst e := None)\<rparr>"
  note okU = traversal_okD(1) [OF ok]
  obtain U4 where U4: "write_if_due t (rest = []) ?U = Some U4" "processor_ok E g rk s U4" "queue_unchanged ?U U4"
    using write_if_due_ok [OF okU] by blast
  note q = queue_unchanged_traversal [OF ok U4(2,3)]
  have qs: "queued_store ?U = queued_store U3" "queued_count ?U = queued_count U3" "queued_notified ?U = queued_notified U3"
    by (simp_all add: queued_store_def queued_count_def queued_notified_def)
  have "advance s D U3 U4"
    using U4(3) qs by (intro advance_same) (simp_all add: queue_unchanged_def)
  moreover have "iterated_to ?U = iterated_to U3" by (rule iterated_to_cong) (simp_all add: qs)
  moreover have "processor_ok E g rk s U3"
    by (rule processor_ok_cong(1) [OF okU]) (use processor_okD(7) [OF okU] in \<open>auto simp: block_cache_ok_def\<close>)
  moreover have "settle_visit t orig P C1 V1 = Some (V1\<lparr>vars_processor := U4, vars_pairs := rest,
      vars_orig_data := orig_block_callback_data C1, first_iter := False\<rparr>, \<not> stopped_after t)"
    using C1 V1(1) U4(1) by (cases e) (simp add: settle_visit_def Let_def pop_pair_def)
  ultimately show ?thesis using q V1(2) fs by (auto simp: loop_ok_def)
qed

lemma iteration_leaves:
  assumes loop: "loop_ok E g rk s orig V fs" and fs: "fs = pre @ (a1, h1, e # es) # fs1" "pre = [] \<or> pre = [(a, m, [])]"
    and m: "snd e = chain_hash s a m" "0 < m" "m \<le> chain_length s a" "chain_hash s a m \<noteq> orig"
    and D: "dependencies_closed E g s D" "orig \<in> D"
    and iter: "process_iteration E t orig V = settle_visit t orig P C1 V1"
    and V1: "vars_pairs V1 = frames_stack fs" "vars_receive_details V1 = Some (fst e)"
    and C1: "receive_source_pairs C1 = frames_stack fs" "orig_block_callback_data C1 = vars_orig_data V"
      "traversal_ok E g rk s orig (vars_orig_data V) (col_processor C1) fs" "advance s D (vars_processor V) (col_processor C1)"
      "iterated_to (col_processor C1) = iterated_to (vars_processor V)"
    and P: "prepared_for s (col_processor C1) a m P" "prep_receive_details P = Some (fst e)"
      "queued_to (col_processor C1) a < m \<Longrightarrow> callbacks_found s (col_processor C1) a m P"
    and none: "\<forall>k. queued_to (col_processor C1) a < k \<and> k \<le> m \<longrightarrow> collects E g s a k = None"
    and cached: "\<And>k. queued_to (col_processor C1) a < k \<Longrightarrow> k \<le> m \<Longrightarrow> block_cache (col_processor C1) (chain_hash s a k) \<noteq> None"
    and within: "\<And>f. f \<in> set ((a1, h1, e # es) # fs1) \<Longrightarrow> fst f = a \<Longrightarrow> m \<le> iterated_to (col_processor C1) a
        \<and> (\<exists>n. m < n \<and> n \<le> fst (snd f) \<and> collects E g s a n \<noteq> None
             \<and> (\<forall>k. queued_to (col_processor C1) a < k \<and> k < n \<longrightarrow> collects E g s a k = None))"
  shows "\<exists>V' again. process_iteration E t orig V = Some (V', again) \<and> iterated_ok E g rk s orig a0 h0 D (stopped_after t) V V' again"
proof -
  let ?U = "col_processor C1" and ?od = "vars_orig_data V" and ?fs = "(a1, h1, e # es) # fs1"
  note ok = C1(3)
  have frs: "\<exists>sd. frames_ok E g s ?U orig ?od sd ?fs" using traversal_okD(2) [OF ok] fs by auto
  then obtain sd where sd: "frames_ok E g s ?U orig ?od sd ?fs" ..
  have stack: "frames_stack fs = e # es @ frames_stack fs1" using fs by auto
  obtain lo n where n: "queued_to ?U a1 < n" "n \<le> h1" "h1 \<le> chain_length s a1" "receive_entry E g s ?U a1 lo n sd e"
    using frame_ok_head [OF frames_ok_frame [OF sd]] .
  have "chain_hash s a1 h1 \<in> D" using frames_dependencies [OF D sd] by simp
  then have Dn: "chain_hash s a1 n \<in> D" using D(1) n unfolding dependencies_closed_def by (metis le_less_trans less_le_trans zero_le)
  then have Dm: "chain_hash s a m \<in> D"
    using D(1) n m(1) unfolding dependencies_closed_def receive_entry_def by (metis le_less_trans le_trans zero_le)
  have De: "entry_hash ?U e \<in> D" using Dn receive_entry_hash [OF n(4)] by simp
  have outside: "iterated_to ?U a' = queued_to ?U a'" if "a' \<notin> fst ` set ?fs" "a' \<noteq> a" for a'
    using traversal_okD(4) [OF ok, of a'] that fs by auto
  have outside_a: "max (iterated_to ?U a) m = max (queued_to ?U a) m" if "a \<notin> fst ` set ?fs"
  proof (cases "pre = []")
    case True
    then show ?thesis using traversal_okD(4) [OF ok, of a] that fs by simp
  next
    case False
    then have "iterated_to ?U a = m" using frames_ok_frame traversal_okD(2) [OF ok] fs by (auto simp: frame_ok_def)
    then show ?thesis using iterated_bounds(1) [OF traversal_okD(1) [OF ok], of a] by simp
  qed
  have acc: "distinct (map fst ?fs)" "distinct (map fst (e # es @ frames_stack fs1))"
      "\<forall>e' \<in> set (e # es @ frames_stack fs1). fst e' < next_ref ?U"
    using traversal_okD(3,5,6) [OF ok] fs unfolding stack by auto
  obtain U3 where U3: "prepare_iterated_blocks_for_cementing P ?U = Some U3" "advance s D ?U U3"
      "traversal_ok E g rk s orig ?od (U3\<lparr>details_heap := (details_heap U3)(fst e := None)\<rparr>) ((a1, h1, es) # fs1)"
      "\<forall>a'. iterated_to ?U a' \<le> iterated_to U3 a'"
    using leave_receive [OF traversal_okD(1) [OF ok] sd acc P m(2,3,1) Dm De none within outside outside_a cached traversal_okD(7) [OF ok]]
    by blast
  have cur: "prep_current P \<noteq> orig" using P(1) m(4) by (simp add: prepared_for_def)
  obtain V' where V': "settle_visit t orig P C1 V1 = Some (V', \<not> stopped_after t)" "loop_ok E g rk s orig V' ((a1, h1, es) # fs1)"
      "first_iter V' = False" "vars_pairs V' = es @ frames_stack fs1" "advance s D U3 (vars_processor V')" "processor_ok E g rk s U3"
      "iterated_to (vars_processor V') = iterated_to U3"
    using settle_leave [of C1 e "es @ frames_stack fs1" V1 P U3 E g rk s orig "(a1, h1, es) # fs1" t D] C1(1,2) V1 U3(1,3) cur stack
    by auto
  have okV: "processor_ok E g rk s (vars_processor V')" using V'(2) traversal_okD(1) by (auto simp: loop_ok_def)
  have "advance s D (vars_processor V) U3"
    by (rule advance_trans [OF traversal_okD(1) [OF ok] V'(6) C1(4) U3(2)])
  then have "advance s D (vars_processor V) (vars_processor V')"
    by (rule advance_trans [OF V'(6) okV _ V'(5)])
  moreover have "untraversed s (vars_processor V') \<le> untraversed s (vars_processor V)"
    using U3(4) C1(5) V'(7) by (intro untraversed_mono) simp
  moreover have "length (vars_pairs V') < length (vars_pairs V)" using V'(4) loop stack by (simp add: loop_ok_def)
  ultimately show ?thesis
    using iter V' unfolding iterated_ok_def by (intro exI [of _ V'] exI [of _ "\<not> stopped_after t"]) (auto intro: exI [of _ "(a1, h1, es) # fs1"])
qed

section \<open>Opening a frame\<close>

lemma settle_open:
  assumes C1: "receive_source_pairs C1 = frames_stack fs" "length (frames_stack fs) \<noteq> length (vars_pairs V1)" "frames_stack fs \<noteq> []"
    and P: "prep_block_height P > prep_iterated_height P"
      "U3 = mark_iterated (prep_account P) (prep_confirmation_height P) (prep_block_height P) (col_processor C1)"
    and ok: "traversal_ok E g rk s orig (orig_block_callback_data C1) U3 fs"
  shows "\<exists>V'. settle_visit t orig P C1 V1 = Some (V', \<not> stopped_after t) \<and> loop_ok E g rk s orig V' fs \<and> first_iter V' = False
    \<and> advance s D U3 (vars_processor V') \<and> iterated_to (vars_processor V') = iterated_to U3"
proof -
  obtain U4 where U4: "write_if_due t False U3 = Some U4" "processor_ok E g rk s U4" "queue_unchanged U3 U4"
    using write_if_due_ok [OF traversal_okD(1) [OF ok]] by blast
  note q = queue_unchanged_traversal [OF ok U4(2,3)]
  define st where "st = frames_stack fs"
  have "settle_visit t orig P C1 V1 = Some (V1\<lparr>vars_processor := U4, vars_pairs := st,
      vars_orig_data := orig_block_callback_data C1, first_iter := False\<rparr>, \<not> stopped_after t)"
    using C1 [folded st_def] P U4(1) by (simp add: settle_visit_def Let_def)
  then have "settle_visit t orig P C1 V1 = Some (V1\<lparr>vars_processor := U4, vars_pairs := frames_stack fs,
      vars_orig_data := orig_block_callback_data C1, first_iter := False\<rparr>, \<not> stopped_after t)" by (simp add: st_def)
  then show ?thesis using q C1(3) by (auto simp: loop_ok_def)
qed

lemma iteration_opens:
  assumes loop: "loop_ok E g rk s orig V fs" and a: "a \<notin> fst ` set fs" and U2: "traversal_ok E g rk s orig (vars_orig_data V) U2 fs"
      "queued_store U2 = queued_store (vars_processor V)" "iterated_to U2 = iterated_to (vars_processor V)" "advance s D (vars_processor V) U2"
    and m: "queued_to U2 a < m" "m \<le> chain_length s a"
    and C: "col_processor C = U2" "receive_source_pairs C = frames_stack fs" "orig_block_callback_data C = vars_orig_data V"
    and col: "collected_above E g s a (queued_to U2 a) (m - queued_to U2 a) m (fs = []) C C1 es mm" "es \<noteq> []"
    and lead: "if fs = [] then chain_hash s a m = orig
      else \<exists>a1 h1 e es1 fs1. fs = (a1, h1, e # es1) # fs1 \<and> snd e = chain_hash s a m"
    and P: "prep_account P = a" "unat (prep_block_height P) = m" "unat (prep_iterated_height P) = iterated_to U2 a"
      "unat (prep_confirmation_height P) = queued_to U2 a"
    and iter: "process_iteration E t orig V = settle_visit t orig P C1 V1" "vars_pairs V1 = frames_stack fs"
  shows "\<exists>V' again. process_iteration E t orig V = Some (V', again) \<and> iterated_ok E g rk s orig a0 h0 D (stopped_after t) V V' again"
proof -
  let ?fs = "(a, m, es) # fs"
  define U3 where "U3 = mark_iterated a (prep_confirmation_height P) (prep_block_height P) (col_processor C1)"
  have it: "iterated_to U2 a = queued_to U2 a" using traversal_okD(4) [OF U2(1) a] .
  have lead': "if fs = [] then chain_hash s a m = orig
      else orig_block_callback_data C = vars_orig_data V \<and> (\<exists>a1 h1 e es1 fs1. fs = (a1, h1, e # es1) # fs1 \<and> snd e = chain_hash s a m)"
    using lead C(3) by auto
  note o = open_frame [OF U2(1) a m C(1,2) col lead' P(4,2) U3_def]
  obtain V' where V': "settle_visit t orig P C1 V1 = Some (V', \<not> stopped_after t)" "loop_ok E g rk s orig V' ?fs" "first_iter V' = False"
      "advance s D U3 (vars_processor V')" "iterated_to (vars_processor V') = iterated_to U3"
    using settle_open [of C1 ?fs V1 P U3 E g rk s orig t D] o(1,3) iter(2) col(2) P it m(1) U3_def by (auto simp: word_less_nat_alt)
  have p3: "processor_ok E g rk s U3" "processor_ok E g rk s (vars_processor V')"
    using traversal_okD(1) [OF o(1)] V'(2) traversal_okD(1) by (auto simp: loop_ok_def)
  have "advance s D (vars_processor V) U3"
    by (rule advance_trans [OF traversal_okD(1) [OF U2(1)] p3(1) U2(4) o(4)])
  then have "advance s D (vars_processor V) (vars_processor V')" by (rule advance_trans [OF p3 _ V'(4)])
  moreover have "untraversed s (vars_processor V') < untraversed s (vars_processor V)"
    by (rule untraversed_less [of _ _ a m]) (use V'(5) o(2) U2(3) it m in simp_all)
  ultimately show ?thesis
    using iter(1) V' unfolding iterated_ok_def by (intro exI [of _ V'] exI [of _ "\<not> stopped_after t"]) (auto intro: exI [of _ ?fs])
qed

section \<open>Visits from the stack\<close>

lemma stack_top:
  assumes "frames_ok E g s U orig od [] fs" "frames_stack fs = e # rest"
  obtains pre a1 h1 es fs1 where "fs = pre @ (a1, h1, e # es) # fs1" "pre = [] \<or> (\<exists>a m. pre = [(a, m, [])] \<and> snd e = chain_hash s a m)"
proof -
  obtain a h es0 fs0 where fs: "fs = (a, h, es0) # fs0" using assms(2) by (cases fs) auto
  show thesis
  proof (cases es0)
    case (Cons e' es)
    then show thesis using that [of "[]" a h es fs0] fs assms(2) by auto
  next
    case Nil
    then obtain f1 fs1 where f1: "fs0 = f1 # fs1" using fs assms(2) by (cases fs0) auto
    then obtain e1 es1 where e1: "snd (snd f1) = e1 # es1" "snd e1 = chain_hash s a h" using assms(1) fs by auto
    moreover have "e1 = e" using assms(2) fs Nil f1 e1(1) by simp
    ultimately show thesis using that [of "[(a, h, [])]" "fst f1" "fst (snd f1)" es1 fs1] fs Nil f1 by (cases f1) auto
  qed
qed

text \<open>The visited block lies below the first receive of its account's frame.\<close>

lemma visit_below_frame:
  assumes hist: "history_ok E g rk s" and fs: "frames_ok E g s U orig od [] ((a1, h1, e # es) # fs1)"
    and m: "snd e = chain_hash s a m" "0 < m" "m \<le> chain_length s a" and f: "f \<in> set ((a1, h1, e # es) # fs1)" "fst f = a"
  obtains e2 es2 lo n sd where "lo \<le> queued_to U a" "receive_entry E g s U a lo n sd e2" "m < n" "n \<le> fst (snd f)"
    "fst (snd f) = iterated_to U a" "\<forall>k. lo < k \<and> k < n \<longrightarrow> collects E g s a k = None"
proof -
  have top: "rk (chain_hash s a m) < rk (entry_hash U e)" "rk (entry_hash U e) \<le> rk (chain_hash s a1 h1)"
    using entry_source_rank [OF hist frames_ok_frame [OF fs]] frame_head_rank [OF hist frames_ok_frame [OF fs]] m(1) by metis+
  obtain e2 es2 sd where e2: "snd (snd f) = e2 # es2" "frame_ok E g s U sd f" "rk (chain_hash s a m) < rk (entry_hash U e2)"
  proof (cases "f = (a1, h1, e # es)")
    case True
    then show thesis using that top frames_ok_frame [OF fs] by auto
  next
    case False
    then obtain e2 es2 sd where "snd (snd f) = e2 # es2" "frame_ok E g s U sd f" "rk (chain_hash s a1 h1) < rk (entry_hash U e2)"
      using frames_rank [OF hist fs] f(1) by auto
    then show thesis using that top by (meson le_less_trans less_le_trans less_trans)
  qed
  obtain h where h: "f = (a, h, e2 # es2)" using e2(1) f(2) by (cases f) auto
  obtain lo n where n: "lo \<le> queued_to U a" "queued_to U a < n" "n \<le> h" "h \<le> chain_length s a" "receive_entry E g s U a lo n sd e2"
      "\<forall>k. lo < k \<and> k < n \<longrightarrow> collects E g s a k = None"
    using frame_ok_head e2(2) h by metis
  have "m < n" using chain_rank_less_iff [OF hist m(2) _ m(3), of n] e2(3) receive_entry_hash [OF n(5)] n by auto
  moreover have "h = iterated_to U a" using e2(2) h by (simp add: frame_ok_def)
  ultimately show thesis using that n h by simp
qed

end
