(* ===== verification/Confirmation_Loop.thy ===== *)
theory Confirmation_Loop
  imports Confirmation_Process
begin

text \<open>
  The traversal as a whole: every visit keeps the invariant, the loop ends, and what it queued is exactly
  what the original block depends on.
\<close>

section \<open>Visits\<close>

text \<open>Collecting that finds no receive.\<close>

lemma collected_nothing:
  assumes ok: "traversal_ok E g rk s orig od U fs" and C: "col_processor C = U" and m: "queued_to U a \<le> m"
    and col: "collected_above E g s a (queued_to U a) (m - queued_to U a) m flag C C1 [] mm"
  shows "traversal_ok E g rk s orig od (col_processor C1) fs" "iterated_to (col_processor C1) = iterated_to U"
    "queued_store (col_processor C1) = queued_store U" "confirmed_iterated_pairs (col_processor C1) = confirmed_iterated_pairs U"
    "details_heap (col_processor C1) = details_heap U" "advance s D U (col_processor C1)"
    "\<forall>k. queued_to U a < k \<and> k \<le> m \<longrightarrow> collects E g s a k = None \<and> block_cache (col_processor C1) (chain_hash s a k) \<noteq> None"
    "receive_source_pairs C1 = receive_source_pairs C"
proof -
  let ?U = "col_processor C1"
  have fr: "collect_frame s a (queued_to U a) m {} U ?U" "details_heap ?U = details_heap U" "next_ref ?U = next_ref U"
      "implicit_receive_cemented_mapping ?U = implicit_receive_cemented_mapping U"
    using col C m by (auto simp: collected_above_def)
  then have same: "cu_ledger ?U = cu_ledger U" "pending_writes ?U = pending_writes U" "cemented_notified ?U = cemented_notified U"
      "confirmed_iterated_pairs ?U = confirmed_iterated_pairs U" "block_cache_ok ?U"
      "\<And>h. block_cache U h \<noteq> None \<Longrightarrow> block_cache ?U h \<noteq> None"
    by (auto simp: collect_frame_def)
  note qs = queued_cong [OF same(1,2)]
  have p: "processor_ok E g rk s ?U" by (rule processor_ok_cong(1) [OF traversal_okD(1) [OF ok]]) (use same in simp_all)
  show "traversal_ok E g rk s orig od ?U fs" "iterated_to ?U = iterated_to U"
    by (rule traversal_ok_cong [OF ok p qs(1) same(4) fr(2,3,4) same(6)]; assumption)+
  show "queued_store ?U = queued_store U" "confirmed_iterated_pairs ?U = confirmed_iterated_pairs U" "details_heap ?U = details_heap U"
    using qs same fr by simp_all
  show "advance s D U ?U" using qs same(1,3) by (intro advance_same) simp_all
  show "\<forall>k. queued_to U a < k \<and> k \<le> m \<longrightarrow> collects E g s a k = None \<and> block_cache ?U (chain_hash s a k) \<noteq> None"
    using col fr(1) by (auto simp: collected_above_def collect_frame_def)
  show "receive_source_pairs C1 = receive_source_pairs C" using col by (simp add: collected_above_def)
qed

text \<open>The preparation of a visit, as the iteration builds it.\<close>

abbreviation visit_preparation ::
    "block \<Rightarrow> u64 \<Rightarrow> u64 \<Rightarrow> confirmation_height_unbounded \<Rightarrow> account \<Rightarrow> process_vars \<Rightarrow> collecting \<Rightarrow> preparation_data" where
  "visit_preparation b conf iter U a V C \<equiv>
     \<lparr>prep_block_height = own_height b, prep_confirmation_height = conf, prep_iterated_height = iter,
      prep_account_found = (confirmed_iterated_pairs U a \<noteq> None), prep_account = a, prep_receive_details = vars_receive_details V,
      prep_already_traversed = (iter \<ge> own_height b), prep_current = vars_current V,
      prep_block_callback_data = block_callback_datas_required C, prep_orig_block_callback_data = orig_block_callback_data C\<rparr>"

definition unstopped :: "tick \<Rightarrow> bool" where
  "unstopped t = ((\<forall>n. \<not> stopped_collecting t n) \<and> \<not> stopped_collected t)"

text \<open>
  A visit either has been iterated before, or nothing of its account above the queued height has, and
  then its receives are collected.
\<close>

lemma visit_collects:
  assumes ok: "traversal_ok E g rk s orig od U2 fs" and m: "0 < m" "m \<le> chain_length s a" and unst: "unstopped t"
    and next_v: "next_visit orig V = V1" and cur: "vars_current V1 = chain_hash s a m" "vars_pairs V1 = frames_stack fs" "vars_orig_data V1 = od"
    and read: "get_block_and_sideband (chain_hash s a m) (vars_processor V1) = (Some b, U1)" "sideband b = Some (sb_of b)"
      "(if block_account b = 0 then sideband_account (sb_of b) else block_account b) = a" "unat (own_height b) = m"
      "account_heights orig (first_iter V1) (chain_hash s a m) a (own_height b) U1 = Some (conf, iter, U2)"
      "unat conf = queued_to U2 a" "unat iter = iterated_to U2 a"
    and C: "C = \<lparr>col_processor = U2, receive_source_pairs = frames_stack fs, block_callback_datas_required = [], orig_block_callback_data = od\<rparr>"
    and fresh: "m > iterated_to U2 a \<Longrightarrow> iterated_to U2 a = queued_to U2 a \<and> (if fs = [] then chain_hash s a m = orig \<and> od = []
        else chain_hash s a m \<noteq> orig \<and> collects E g s a m = None \<and> frames_stack fs \<noteq> [] \<and> details_heap U2 (fst (hd (frames_stack fs))) \<noteq> None)"
  shows "\<exists>C1. process_iteration E t orig V = settle_visit t orig (visit_preparation b conf iter U1 a V1 C1) C1 V1
    \<and> (if m \<le> iterated_to U2 a then C1 = C
       else \<exists>es mm. collected_above E g s a (queued_to U2 a) (m - queued_to U2 a) m (fs = []) C C1 es mm)"
proof (cases "m \<le> iterated_to U2 a")
  case True
  then have "iter \<ge> own_height b" using read by (simp add: word_le_nat_alt)
  then show ?thesis
    using process_iteration_eq [OF next_v, of b U1 "sb_of b" a conf iter U2 C E t C "visit_preparation b conf iter U1 a V1 C"]
      read cur C True unst by (simp add: unstopped_def)
next
  case False
  let ?q = "queued_to U2 a"
  have inner: "chain_hash s a m \<noteq> orig \<and> collects E g s a m = None \<and> frames_stack fs \<noteq> [] \<and> details_heap U2 (fst (hd (frames_stack fs))) \<noteq> None"
    if "fs \<noteq> []" using fresh [unfolded if_not_P [OF that]] False by (meson not_le_imp_less)
  have outer: "chain_hash s a m = orig \<and> od = []" if "fs = []" using fresh [unfolded if_P [OF that]] False by (meson not_le_imp_less)
  have itq: "iterated_to U2 a = ?q" "?q < m" using fresh False by auto
  have lt: "\<not> iter \<ge> own_height b" using read False by (simp add: word_le_nat_alt)
  have diff: "unat (own_height b - iter) = m - ?q" using read(4,7) itq by (intro height_difference) simp_all
  have "unat (own_height b) < 2 ^ LENGTH(64)" by (rule unsigned_less)
  then have "m < 2 ^ 64" using read(4) by simp
  have rd: "readable E g s U2 a ?q m" using readable_queued [OF traversal_okD(1) [OF ok] m(2)] .
  have "\<exists>e rest d. frames_stack fs = e # rest \<and> fst e < next_ref U2 \<and> details_heap U2 (fst e) = Some d" if ne: "fs \<noteq> []"
  proof -
    obtain e rest where st: "frames_stack fs = e # rest" using inner [OF ne] by (cases "frames_stack fs") blast+
    moreover have "fst e < next_ref U2" using traversal_okD(6) [OF ok, of e] st by simp
    ultimately show ?thesis using inner [OF ne] by auto
  qed
  then have pre: "if fs = [] then block_callback_datas_required C = [] \<and> orig_block_callback_data C = segment s a (?q + (m - ?q)) m
      else block_callback_datas_required C = segment s a (?q + (m - ?q)) m \<and> collects E g s a m = None
        \<and> (\<exists>e rest d. receive_source_pairs C = e # rest \<and> fst e < next_ref (col_processor C) \<and> details_heap (col_processor C) (fst e) = Some d)"
    using inner outer C itq(2) by (cases "fs = []") simp_all
  have "\<exists>C1 es mm. collect_loop E (stopped_collecting t) a iter (m - ?q) (chain_hash s a m) (fs = []) False C = Some C1
      \<and> collected_above E g s a ?q (m - ?q) m (fs = []) C C1 es mm"
    by (rule collect_from_top [OF _ _ _ _ _ _ _ _ pre])
       (use rd processor_okD(7) [OF traversal_okD(1) [OF ok]] unst read(7) itq C \<open>m < 2 ^ 64\<close> in \<open>auto simp: unstopped_def\<close>)
  then obtain C1 es mm where C1: "collect_loop E (stopped_collecting t) a iter (m - ?q) (chain_hash s a m) (fs = []) False C = Some C1"
      "collected_above E g s a ?q (m - ?q) m (fs = []) C C1 es mm" by blast
  have "(chain_hash s a m = orig) = (fs = [])" using inner outer by auto
  then have "collect_unconfirmed_receive_and_sources_for_account E (stopped_collecting t) orig (own_height b) iter (chain_hash s a m) a C = Some C1"
    using C1(1) diff by (simp add: collect_unconfirmed_receive_and_sources_for_account_def)
  then have "process_iteration E t orig V = settle_visit t orig (visit_preparation b conf iter U1 a V1 C1) C1 V1"
    using process_iteration_eq [OF next_v, of b U1 "sb_of b" a conf iter U2 C E t C1 "visit_preparation b conf iter U1 a V1 C1"]
      read cur C lt unst by (simp add: unstopped_def)
  then show ?thesis using C1(2) False by auto
qed

text \<open>The frame of an account that has no receive left: its callbacks wait with the receive that led there.\<close>

lemma finished_frame:
  assumes "frame_ok E g s U sd (a, m, [])" "frame_top E g s U a mm m"
  shows "mm = queued_to U a" "\<forall>k. queued_to U a < k \<and> k \<le> m \<longrightarrow> collects E g s a k = None"
proof -
  obtain lo where lo: "lo \<le> queued_to U a" "\<forall>k. lo < k \<and> k \<le> m \<longrightarrow> collects E g s a k = None"
    using assms(1) by (auto simp: frame_ok_def receives_from_def)
  then show "\<forall>k. queued_to U a < k \<and> k \<le> m \<longrightarrow> collects E g s a k = None" by auto
  show "mm = queued_to U a"
    using assms(2) lo unfolding frame_top_def by (metis le_antisym le_trans not_le)
qed

text \<open>The position of the visited block: in the finished frame on top, below a receive of a frame, or in no frame.\<close>

lemma visit_traversed:
  assumes ok: "traversal_ok E g rk s orig od U fs" and fs: "fs = pre @ (a1, h1, e # es) # fs1" "pre = [] \<or> pre = [(a, m, [])]"
    and m: "snd e = chain_hash s a m" "0 < m" "m \<le> chain_length s a"
    and P: "prepared_for s U a m P" "prep_block_callback_data P = []" "prep_receive_details P = Some (fst e)"
    and q: "queued_to U a < m" "m \<le> iterated_to U a"
  shows "callbacks_found s U a m P" "\<forall>k. queued_to U a < k \<and> k \<le> m \<longrightarrow> collects E g s a k = None"
proof -
  note hist = processor_okD(10) [OF traversal_okD(1) [OF ok]] and frs = traversal_okD(2) [OF ok]
  have "callbacks_found s U a m P \<and> (\<forall>k. queued_to U a < k \<and> k \<le> m \<longrightarrow> collects E g s a k = None)"
  proof (cases "pre = []")
    case False
    then have pre: "fs = (a, m, []) # (a1, h1, e # es) # fs1" using fs by simp
    obtain mm where mm: "frame_ok E g s U [] (a, m, [])" "frame_top E g s U a mm m" "frames_ok E g s U orig od (segment s a mm m) ((a1, h1, e # es) # fs1)"
      using frs pre by auto
    note fin = finished_frame [OF mm(1,2)]
    obtain lo n where "receive_entry E g s U a1 lo n (segment s a mm m) e" using frame_ok_head [OF frames_ok_frame [OF mm(3)]] .
    then obtain d where d: "details_heap U (fst e) = Some d" "source_block_callback_data d = segment s a (queued_to U a) m"
      using fin(1) by (auto simp: receive_entry_def)
    show ?thesis using callbacks_handed_over [OF P d q(1)] fin(2) by blast
  next
    case True
    then have fr: "frames_ok E g s U orig od [] ((a1, h1, e # es) # fs1)" using frs fs by simp
    have "a \<in> fst ` set ((a1, h1, e # es) # fs1)"
    proof (rule ccontr)
      assume "a \<notin> fst ` set ((a1, h1, e # es) # fs1)"
      then have "iterated_to U a = queued_to U a" using traversal_okD(4) [OF ok, of a] fs True by simp
      then show False using q by simp
    qed
    then obtain f where f: "f \<in> set ((a1, h1, e # es) # fs1)" "fst f = a" by (elim imageE) simp
    obtain e2 es2 lo n sd where n: "lo \<le> queued_to U a" "receive_entry E g s U a lo n sd e2" "m < n"
        "\<forall>k. lo < k \<and> k < n \<longrightarrow> collects E g s a k = None"
      by (rule visit_below_frame [OF hist fr m f])
    obtain lo1 n1 where "receive_entry E g s U a1 lo1 n1 [] e" using frame_ok_head [OF frames_ok_frame [OF fr]] .
    then obtain d where d: "details_heap U (fst e) = Some d" "source_block_callback_data d = []" by (auto simp: receive_entry_def)
    show ?thesis using callbacks_below_receive [OF P d n(2,1) q(1) n(3) q(2)] n by auto
  qed
  then show "callbacks_found s U a m P" "\<forall>k. queued_to U a < k \<and> k \<le> m \<longrightarrow> collects E g s a k = None" by auto
qed

lemma visit_within:
  assumes ok: "traversal_ok E g rk s orig od U fs" and fs: "fs = pre @ (a1, h1, e # es) # fs1" "pre = [] \<or> pre = [(a, m, [])]"
    and m: "snd e = chain_hash s a m" "0 < m" "m \<le> chain_length s a"
    and f: "f \<in> set ((a1, h1, e # es) # fs1)" "fst f = a"
  shows "m \<le> iterated_to U a \<and> (\<exists>n. m < n \<and> n \<le> fst (snd f) \<and> collects E g s a n \<noteq> None
    \<and> (\<forall>k. queued_to U a < k \<and> k < n \<longrightarrow> collects E g s a k = None))"
proof -
  have "pre = []" using traversal_okD(3) [OF ok] fs f by force
  then have fr: "frames_ok E g s U orig od [] ((a1, h1, e # es) # fs1)" using traversal_okD(2) [OF ok] fs by simp
  obtain e2 es2 lo n sd where n: "lo \<le> queued_to U a" "receive_entry E g s U a lo n sd e2" "m < n" "n \<le> fst (snd f)" "fst (snd f) = iterated_to U a"
      "\<forall>k. lo < k \<and> k < n \<longrightarrow> collects E g s a k = None"
    by (rule visit_below_frame [OF processor_okD(10) [OF traversal_okD(1) [OF ok]] fr m f])
  moreover have "collects E g s a n \<noteq> None" using n(2) by (simp add: receive_entry_def)
  ultimately show ?thesis by (intro conjI exI [of _ n]) auto
qed

lemma inner_iteration:
  assumes loop: "loop_ok E g rk s orig V fs" and D: "dependencies_closed E g s D" "orig \<in> D" and unst: "unstopped t"
    and stack: "vars_pairs V = e # rest"
  shows "\<exists>V' again. process_iteration E t orig V = Some (V', again) \<and> iterated_ok E g rk s orig a0 h0 D (stopped_after t) V V' again"
proof -
  let ?U = "vars_processor V" and ?od = "vars_orig_data V"
  have ok: "traversal_ok E g rk s orig ?od ?U fs" and st: "frames_stack fs = e # rest" using loop stack by (auto simp: loop_ok_def)
  note hist = processor_okD(10) [OF traversal_okD(1) [OF ok]]
  obtain pre a1 h1 es fs1 where fs: "fs = pre @ (a1, h1, e # es) # fs1"
      and pre: "pre = [] \<or> (\<exists>a m. pre = [(a, m, [])] \<and> snd e = chain_hash s a m)"
    using stack_top [OF traversal_okD(2) [OF ok] st] .
  obtain sd where sd: "frames_ok E g s ?U orig ?od sd ((a1, h1, e # es) # fs1)" using traversal_okD(2) [OF ok] fs pre by auto
  note fo = frames_ok_frame [OF sd]
  obtain a m where m: "snd e = chain_hash s a m" "0 < m" "m \<le> chain_length s a" "rk (snd e) < rk (entry_hash ?U e)" "collects E g s a m = None"
    using entry_source_rank [OF hist fo] .
  have "rk (snd e) < rk orig"
    using m(4) frame_head_rank [OF hist fo] frames_rank [OF hist sd] by simp
  then have ne: "chain_hash s a m \<noteq> orig" using m(1) by auto
  have pre': "pre = [] \<or> pre = [(a, m, [])]"
  proof -
    have "a' = a \<and> m' = m" if p: "pre = [(a', m', [])]" "snd e = chain_hash s a' m'" for a' m'
    proof -
      have "0 < m'" "m' \<le> chain_length s a'"
        using traversal_okD(2) [OF ok] fs p(1) by (auto simp: frame_ok_def frame_top_def)
      then show ?thesis using chain_hash_inj [OF hist _ _ m(2,3)] p(2) m(1) by simp
    qed
    then show ?thesis using pre by auto
  qed
  let ?V1 = "V\<lparr>vars_receive_details := Some (fst e), vars_current := chain_hash s a m\<rparr>"
  have nv: "next_visit orig V = ?V1" using stack m(1) by (cases e) (simp add: next_visit_def)
  obtain b U1 conf iter U2 where read: "get_block_and_sideband (chain_hash s a m) ?U = (Some b, U1)" "sideband b = Some (sb_of b)"
      "(if block_account b = 0 then sideband_account (sb_of b) else block_account b) = a" "unat (own_height b) = m"
      "confirmed_iterated_pairs U1 = confirmed_iterated_pairs ?U"
      "account_heights orig (first_iter V) (chain_hash s a m) a (own_height b) U1 = Some (conf, iter, U2)"
      "unat conf = queued_to ?U a" "unat iter = iterated_to ?U a"
    and U2: "traversal_ok E g rk s orig ?od U2 fs" "queued_store U2 = queued_store ?U" "iterated_to U2 = iterated_to ?U"
      "confirmed_iterated_pairs U2 = confirmed_iterated_pairs ?U" "details_heap U2 = details_heap ?U" "next_ref U2 = next_ref ?U" "advance s D ?U U2"
    using visit_read [OF ok m(2,3), where first = "first_iter V" and D = D] by (elim exE conjE) (rule that)
  define C where "C = \<lparr>col_processor = U2, receive_source_pairs = frames_stack fs, block_callback_datas_required = [], orig_block_callback_data = ?od\<rparr>"
  have fresh: "iterated_to U2 a = queued_to U2 a \<and> pre = [] \<and> a \<notin> fst ` set fs" if lt: "m > iterated_to U2 a"
  proof -
    have "pre = []"
      using pre' fs traversal_okD(2) [OF U2(1)] lt by (auto simp: frame_ok_def dest: frames_ok_frame)
    moreover have "a \<notin> fst ` set fs"
    proof
      assume "a \<in> fst ` set fs"
      then obtain f where "f \<in> set fs" "fst f = a" by (elim imageE) simp
      then have f: "f \<in> set ((a1, h1, e # es) # fs1)" "fst f = a" using fs \<open>pre = []\<close> by simp_all
      show False using visit_within [OF U2(1) fs pre' m(1-3) f] lt by simp
    qed
    ultimately show ?thesis using traversal_okD(4) [OF U2(1)] by blast
  qed
  have heap: "details_heap U2 (fst e) \<noteq> None"
  proof -
    obtain lo n where "receive_entry E g s ?U a1 lo n sd e" using frame_ok_head [OF fo] .
    then show ?thesis using U2(5) by (auto simp: receive_entry_def)
  qed
  have fsne: "fs \<noteq> []" using fs by simp
  have "\<exists>C1. process_iteration E t orig V = settle_visit t orig (visit_preparation b conf iter U1 a ?V1 C1) C1 ?V1
      \<and> (if m \<le> iterated_to U2 a then C1 = C
       else \<exists>es mm. collected_above E g s a (queued_to U2 a) (m - queued_to U2 a) m (fs = []) C C1 es mm)"
    by (rule visit_collects [OF U2(1) m(2,3) unst nv _ _ _ _ read(2,3,4) _ _ _ C_def])
       (use read U2(2,3) st stack fresh ne m(5) heap fsne in simp_all)
  then obtain C1 where iter: "process_iteration E t orig V = settle_visit t orig (visit_preparation b conf iter U1 a ?V1 C1) C1 ?V1"
    and C1: "if m \<le> iterated_to U2 a then C1 = C
       else \<exists>es mm. collected_above E g s a (queued_to U2 a) (m - queued_to U2 a) m (fs = []) C C1 es mm" by blast
  let ?P = "visit_preparation b conf iter U1 a ?V1 C1"
  have qs: "queued_to U2 = queued_to ?U" using U2(2) by simp
  show ?thesis
  proof (cases "m \<le> iterated_to U2 a")
    case True
    then have C1C: "col_processor C1 = U2" "receive_source_pairs C1 = frames_stack fs" "orig_block_callback_data C1 = ?od"
        "block_callback_datas_required C1 = []" using C1 by (simp_all add: C_def)
    have P: "prepared_for s U2 a m ?P" "prep_block_callback_data ?P = []" "prep_receive_details ?P = Some (fst e)"
      using read U2 C1C(4) by (simp_all add: prepared_for_def word_le_nat_alt)
    note vt = visit_traversed [OF U2(1) fs pre' m(1-3) P _ True]
    show ?thesis
    proof (rule iteration_leaves [OF loop fs pre' m(1-3) ne D iter])
      show "\<forall>k. queued_to (col_processor C1) a < k \<and> k \<le> m \<longrightarrow> collects E g s a k = None"
        using vt(2) unfolding C1C(1) by (cases "queued_to U2 a < m") auto
      show "block_cache (col_processor C1) (chain_hash s a k) \<noteq> None" if "queued_to (col_processor C1) a < k" "k \<le> m" for k
        using traversal_okD(7) [OF U2(1)] that True unfolding C1C(1) by simp
      show "m \<le> iterated_to (col_processor C1) a \<and> (\<exists>n. m < n \<and> n \<le> fst (snd f) \<and> collects E g s a n \<noteq> None
          \<and> (\<forall>k. queued_to (col_processor C1) a < k \<and> k < n \<longrightarrow> collects E g s a k = None))"
        if "f \<in> set ((a1, h1, e # es) # fs1)" "fst f = a" for f
        unfolding C1C(1) by (rule visit_within [OF U2(1) fs pre' m(1-3) that])
    qed (use C1C U2 P vt(1) st stack in simp_all)
  next
    case False
    then obtain es' mm where col: "collected_above E g s a (queued_to U2 a) (m - queued_to U2 a) m False C C1 es' mm"
      using C1 fsne by auto
    have fr: "iterated_to U2 a = queued_to U2 a" "pre = []" "a \<notin> fst ` set fs" using fresh False by auto
    have lt: "queued_to U2 a < m" using False fr(1) by simp
    show ?thesis
    proof (cases "es' = []")
      case True
      note cn = collected_nothing [OF U2(1) _ less_imp_le [OF lt] col [unfolded True], unfolded C_def, simplified, folded C_def]
      have cb: "block_callback_datas_required C1 = segment s a (queued_to U2 a) m" "orig_block_callback_data C1 = ?od"
        using col True by (simp_all add: collected_above_def C_def)
      have q: "queued_to (col_processor C1) = queued_to U2" using cn(3) by simp
      have P: "prepared_for s (col_processor C1) a m ?P"
        using read U2 cn q by (simp add: prepared_for_def word_le_nat_alt)
      have adv: "advance s D ?U (col_processor C1)"
        by (rule advance_trans [OF traversal_okD(1) [OF U2(1)] traversal_okD(1) [OF cn(1)] U2(7) cn(6)])
      show ?thesis
      proof (rule iteration_leaves [OF loop fs pre' m(1-3) ne D iter _ _ _ cb(2) cn(1) adv _ P])
        show "callbacks_found s (col_processor C1) a m ?P" using cb(1) lt q by (intro callbacks_gathered) simp_all
        show "m \<le> iterated_to (col_processor C1) a \<and> (\<exists>n. m < n \<and> n \<le> fst (snd f) \<and> collects E g s a n \<noteq> None
            \<and> (\<forall>k. queued_to (col_processor C1) a < k \<and> k < n \<longrightarrow> collects E g s a k = None))"
          if "f \<in> set ((a1, h1, e # es) # fs1)" "fst f = a" for f
          by (rule visit_within [OF cn(1) fs pre' m(1-3) that])
      qed (use cn q U2 st stack in \<open>simp_all add: C_def\<close>)
    next
      case es': False
      show ?thesis
      proof (rule iteration_opens [OF loop fr(3) U2(1-3,7) lt m(3) _ _ _ _ es' _ _ _ _ _ iter])
        show "collected_above E g s a (queued_to U2 a) (m - queued_to U2 a) m (fs = []) C C1 es' mm" using col fsne by simp
        show "if fs = [] then chain_hash s a m = orig else \<exists>a1 h1 e es1 fs1. fs = (a1, h1, e # es1) # fs1 \<and> snd e = chain_hash s a m"
          using fs fr(2) m(1) by auto
      qed (use read U2 qs st stack in \<open>simp_all add: C_def\<close>)
    qed
  qed
qed

section \<open>Visits of the original block\<close>

lemma settle_original:
  assumes C1: "receive_source_pairs C1 = []" "vars_pairs V1 = []" "prepare_iterated_blocks_for_cementing P (col_processor C1) = Some U3"
    and ok: "traversal_ok E g rk s orig (orig_block_callback_data C1) U3 []" and P: "prep_current P = orig"
  shows "\<exists>V'. settle_visit t orig P C1 V1 = Some (V', False) \<and> first_iter V' = False
    \<and> traversal_ok E g rk s orig (vars_orig_data V') (vars_processor V') [] \<and> queued_to (vars_processor V') = queued_to U3
    \<and> advance s D U3 (vars_processor V')"
proof -
  obtain U4 where U4: "write_if_due t True U3 = Some U4" "processor_ok E g rk s U4" "queue_unchanged U3 U4"
    using write_if_due_ok [OF traversal_okD(1) [OF ok]] by blast
  note q = queue_unchanged_traversal [OF ok U4(2,3)]
  have "settle_visit t orig P C1 V1 = Some (V1\<lparr>vars_processor := U4, vars_pairs := [],
      vars_orig_data := orig_block_callback_data C1, first_iter := False\<rparr>, False)"
    using C1 P U4(1) by (simp add: settle_visit_def Let_def pop_pair_def)
  then show ?thesis using q U4(3) by (auto simp: queue_unchanged_def)
qed

lemma iteration_ends:
  assumes loop: "loop_ok E g rk s orig V fs" and m: "chain_hash s a m = orig" "0 < m" "m \<le> chain_length s a" "orig \<in> D"
    and iter: "process_iteration E t orig V = settle_visit t orig P C1 V1" "vars_pairs V1 = []"
    and C1: "receive_source_pairs C1 = []" "processor_ok E g rk s (col_processor C1)" "advance s D (vars_processor V) (col_processor C1)"
    and P: "prepared_for s (col_processor C1) a m P" "prep_receive_details P = None"
      "queued_to (col_processor C1) a < m \<Longrightarrow> callbacks_found s (col_processor C1) a m P"
    and none: "\<forall>k. queued_to (col_processor C1) a < k \<and> k \<le> m \<longrightarrow> collects E g s a k = None"
    and outside: "\<And>a'. a' \<noteq> a \<Longrightarrow> iterated_to (col_processor C1) a' = queued_to (col_processor C1) a'"
      "max (iterated_to (col_processor C1) a) m = max (queued_to (col_processor C1) a) m"
    and cached: "\<And>k. queued_to (col_processor C1) a < k \<Longrightarrow> k \<le> m \<Longrightarrow> block_cache (col_processor C1) (chain_hash s a k) \<noteq> None"
  shows "\<exists>V' again. process_iteration E t orig V = Some (V', again) \<and> iterated_ok E g rk s orig a m D (stopped_after t) V V' again"
proof -
  have D: "chain_hash s a m \<in> D" using m(1,4) by simp
  obtain U3 where U3: "prepare_iterated_blocks_for_cementing P (col_processor C1) = Some U3" "advance s D (col_processor C1) U3"
      "traversal_ok E g rk s orig (orig_block_callback_data C1) U3 []" "m \<le> queued_to U3 a"
    using leave_original [OF C1(2) P m(2,3) D none outside cached] by blast
  have cur: "prep_current P = orig" using P(1) m(1) by (simp add: prepared_for_def)
  obtain V' where V': "settle_visit t orig P C1 V1 = Some (V', False)" "first_iter V' = False"
      "traversal_ok E g rk s orig (vars_orig_data V') (vars_processor V') []" "queued_to (vars_processor V') = queued_to U3"
      "advance s D U3 (vars_processor V')"
    using settle_original [OF C1(1) iter(2) U3(1,3) cur] by blast
  have p: "processor_ok E g rk s U3" "processor_ok E g rk s (vars_processor V')" using U3(3) V'(3) by (simp_all add: traversal_ok_def)
  have "advance s D (vars_processor V) U3" by (rule advance_trans [OF C1(2) p(1) C1(3) U3(2)])
  then have "advance s D (vars_processor V) (vars_processor V')" by (rule advance_trans [OF p _ V'(5)])
  then show ?thesis
    using iter(1) V' U3(4) unfolding iterated_ok_def by (intro exI [of _ V'] exI [of _ False]) (auto intro: exI [of _ "[]"])
qed

text \<open>With an empty stack there is at most the frame of the original block.\<close>

lemma stack_empty:
  assumes ok: "traversal_ok E g rk s orig od U fs" and st: "frames_stack fs = []"
    and m: "chain_hash s a m = orig" "0 < m" "m \<le> chain_length s a"
  shows "fs = [] \<or> fs = [(a, m, [])]"
proof (cases fs)
  case (Cons f fs')
  have "fs' = []"
  proof (rule ccontr)
    assume "fs' \<noteq> []"
    then obtain f1 fs1 where "fs' = f1 # fs1" by (cases fs') auto
    then show False using traversal_okD(2) [OF ok] st Cons by auto
  qed
  moreover obtain a' m' es where f: "f = (a', m', es)" by (cases f)
  ultimately have "frame_ok E g s U [] (a', m', es)" "chain_hash s a' m' = orig" "\<exists>mm. frame_top E g s U a' mm m'" "es = []"
    using traversal_okD(2) [OF ok] st Cons by auto
  then have "a' = a \<and> m' = m"
    using chain_hash_inj [OF processor_okD(10) [OF traversal_okD(1) [OF ok]] _ _ m(2,3), of m' a'] m(1)
    by (auto simp: frame_ok_def frame_top_def)
  then show ?thesis using Cons f \<open>fs' = []\<close> \<open>es = []\<close> by simp
qed simp

lemma original_iteration:
  assumes loop: "loop_ok E g rk s orig V fs" and D: "orig \<in> D" and unst: "unstopped t" and stack: "vars_pairs V = []"
    and m: "chain_hash s a m = orig" "0 < m" "m \<le> chain_length s a"
  shows "\<exists>V' again. process_iteration E t orig V = Some (V', again) \<and> iterated_ok E g rk s orig a m D (stopped_after t) V V' again"
proof -
  let ?U = "vars_processor V" and ?od = "vars_orig_data V" and ?V1 = "V\<lparr>vars_receive_details := None, vars_current := orig\<rparr>"
  have ok: "traversal_ok E g rk s orig ?od ?U fs" and st: "frames_stack fs = []" using loop stack by (auto simp: loop_ok_def)
  note cases_fs = stack_empty [OF ok st m]
  have nv: "next_visit orig V = ?V1"
    using loop stack cases_fs by (cases "fs = []"; cases V) (auto simp: next_visit_def loop_ok_def)
  obtain b U1 conf iter U2 where read: "get_block_and_sideband orig ?U = (Some b, U1)" "sideband b = Some (sb_of b)"
      "(if block_account b = 0 then sideband_account (sb_of b) else block_account b) = a" "unat (own_height b) = m"
      "confirmed_iterated_pairs U1 = confirmed_iterated_pairs ?U"
      "account_heights orig (first_iter V) orig a (own_height b) U1 = Some (conf, iter, U2)"
      "unat conf = queued_to ?U a" "unat iter = iterated_to ?U a"
    and U2: "traversal_ok E g rk s orig ?od U2 fs" "queued_store U2 = queued_store ?U" "iterated_to U2 = iterated_to ?U"
      "confirmed_iterated_pairs U2 = confirmed_iterated_pairs ?U" "details_heap U2 = details_heap ?U" "next_ref U2 = next_ref ?U" "advance s D ?U U2"
    using visit_read [OF ok m(2,3), where first = "first_iter V" and D = D, unfolded m(1)] by (elim exE conjE) (rule that)
  define C where "C = \<lparr>col_processor = U2, receive_source_pairs = frames_stack fs, block_callback_datas_required = [], orig_block_callback_data = ?od\<rparr>"
  have framed: "iterated_to U2 a = m" if "fs \<noteq> []"
    using traversal_okD(2) [OF U2(1)] cases_fs that by (auto simp: frame_ok_def)
  have unframed: "iterated_to U2 a' = queued_to U2 a'" if "fs = [] \<or> a' \<noteq> a" for a'
    using traversal_okD(4) [OF U2(1), of a'] cases_fs that by auto
  have od: "?od = []" if "fs = []" using loop that by (simp add: loop_ok_def)
  have "\<exists>C1. process_iteration E t orig V = settle_visit t orig (visit_preparation b conf iter U1 a ?V1 C1) C1 ?V1
      \<and> (if m \<le> iterated_to U2 a then C1 = C
       else \<exists>es mm. collected_above E g s a (queued_to U2 a) (m - queued_to U2 a) m (fs = []) C C1 es mm)"
    by (rule visit_collects [OF U2(1) m(2,3) unst nv _ _ _ _ read(2,3,4) _ _ _ C_def])
       (use read U2(2,3) st stack m(1) framed unframed od in \<open>cases "fs = []"; simp\<close>)+
  then obtain C1 where iter: "process_iteration E t orig V = settle_visit t orig (visit_preparation b conf iter U1 a ?V1 C1) C1 ?V1"
    and C1: "if m \<le> iterated_to U2 a then C1 = C
       else \<exists>es mm. collected_above E g s a (queued_to U2 a) (m - queued_to U2 a) m (fs = []) C C1 es mm" by blast
  let ?P = "visit_preparation b conf iter U1 a ?V1 C1"
  show ?thesis
  proof (cases "m \<le> iterated_to U2 a")
    case True
    then have C1C: "C1 = C" "col_processor C1 = U2" using C1 by (simp_all add: C_def)
    have P: "prepared_for s U2 a m ?P" using read U2 m(1) by (simp add: prepared_for_def word_le_nat_alt)
    have fin: "?od = segment s a (queued_to U2 a) m \<and> (\<forall>k. queued_to U2 a < k \<and> k \<le> m \<longrightarrow> collects E g s a k = None)" if "queued_to U2 a < m"
    proof -
      have "fs = [(a, m, [])]" using that True unframed [of a] cases_fs by auto
      then obtain mm where "frame_ok E g s U2 [] (a, m, [])" "frame_top E g s U2 a mm m" "?od = segment s a mm m"
        using traversal_okD(2) [OF U2(1)] by auto
      then show ?thesis using finished_frame by blast
    qed
    show ?thesis
    proof (rule iteration_ends [OF loop m D iter _ _ _ _ P [folded C1C(2)]])
      show "callbacks_found s (col_processor C1) a m ?P" if "queued_to (col_processor C1) a < m"
        using fin that C1C by (intro callbacks_original) (simp_all add: C_def)
      show "\<forall>k. queued_to (col_processor C1) a < k \<and> k \<le> m \<longrightarrow> collects E g s a k = None"
        using fin unfolding C1C(2) by (cases "queued_to U2 a < m") auto
      show "block_cache (col_processor C1) (chain_hash s a k) \<noteq> None" if "queued_to (col_processor C1) a < k" "k \<le> m" for k
        using traversal_okD(7) [OF U2(1)] that True unfolding C1C(2) by simp
      show "max (iterated_to (col_processor C1) a) m = max (queued_to (col_processor C1) a) m"
        using framed unframed [of a] iterated_bounds(1) [OF traversal_okD(1) [OF U2(1)], of a] unfolding C1C(2) by (cases "fs = []") auto
      show "iterated_to (col_processor C1) a' = queued_to (col_processor C1) a'" if "a' \<noteq> a" for a'
        using unframed that unfolding C1C(2) by simp
    qed (use C1C U2 traversal_okD(1) [OF U2(1)] st stack in \<open>simp_all add: C_def\<close>)
  next
    case False
    then have fs: "fs = []" using framed by auto
    then obtain es mm where col: "collected_above E g s a (queued_to U2 a) (m - queued_to U2 a) m True C C1 es mm"
      using C1 False by auto
    have lt: "queued_to U2 a < m" using False unframed [of a] fs by simp
    show ?thesis
    proof (cases "es = []")
      case True
      note cn = collected_nothing [OF U2(1) _ less_imp_le [OF lt] col [unfolded True], unfolded C_def, simplified, folded C_def]
      have cb: "block_callback_datas_required C1 = []" "orig_block_callback_data C1 = segment s a (queued_to U2 a) m"
        using col True by (auto simp: collected_above_def)
      have q: "queued_to (col_processor C1) = queued_to U2" using cn(3) by simp
      have P: "prepared_for s (col_processor C1) a m ?P" using read U2 cn q m(1) by (simp add: prepared_for_def word_le_nat_alt)
      have adv: "advance s D ?U (col_processor C1)"
        by (rule advance_trans [OF traversal_okD(1) [OF U2(1)] traversal_okD(1) [OF cn(1)] U2(7) cn(6)])
      show ?thesis
      proof (rule iteration_ends [OF loop m D iter _ _ traversal_okD(1) [OF cn(1)] adv P])
        show "callbacks_found s (col_processor C1) a m ?P" using cb q by (intro callbacks_original) simp_all
        show "max (iterated_to (col_processor C1) a) m = max (queued_to (col_processor C1) a) m"
          using unframed [of a] fs cn(2) q by simp
        show "iterated_to (col_processor C1) a' = queued_to (col_processor C1) a'" if "a' \<noteq> a" for a'
          using unframed [of a'] fs cn(2) q by simp
      qed (use cn q fs st stack in \<open>simp_all add: C_def\<close>)
    next
      case es: False
      show ?thesis
      proof (rule iteration_opens [OF loop _ U2(1-3,7) lt m(3) _ _ _ _ es _ _ _ _ _ iter])
        show "collected_above E g s a (queued_to U2 a) (m - queued_to U2 a) m (fs = []) C C1 es mm" using col fs by simp
        show "if fs = [] then chain_hash s a m = orig else \<exists>a1 h1 e es1 fs1. fs = (a1, h1, e # es1) # fs1 \<and> snd e = chain_hash s a m"
          using fs m(1) by simp
      qed (use read U2 fs st stack in \<open>simp_all add: C_def\<close>)
    qed
  qed
qed

end
