(* ===== verification/Confirmation_Traversal.thy ===== *)
theory Confirmation_Traversal
  imports Confirmation_Loop
begin

text \<open>
  What a call of the processor does: it ends, whatever the other threads do meanwhile; unless it is
  stopped, the blocks cemented by the queue it leaves are those cemented before and those the original
  block depends on, and the observers hear of each new one once.
\<close>

section \<open>Dependencies of a block\<close>

inductive depends_on :: "env \<Rightarrow> block_hash \<Rightarrow> store \<Rightarrow> block_hash \<Rightarrow> block_hash \<Rightarrow> bool" for E g s orig where
  depends_self: "depends_on E g s orig orig"
| depends_previous: "depends_on E g s orig h \<Longrightarrow> block_get s h = Some b \<Longrightarrow> has_predecessor b \<Longrightarrow> depends_on E g s orig (block_previous b)"
| depends_source: "depends_on E g s orig h \<Longrightarrow> block_get s h = Some b \<Longrightarrow> h \<noteq> g \<Longrightarrow> stored_change E s h b = Pending_del k
    \<Longrightarrow> depends_on E g s orig (snd k)"

lemma depends_below:
  assumes hist: "history_ok E g rk s" and n: "n \<le> chain_length s a" "depends_on E g s orig (chain_hash s a n)" and k: "0 < k" "k \<le> n"
  shows "depends_on E g s orig (chain_hash s a k)"
  using n k
proof (induction n)
  case (Suc n)
  show ?case
  proof (cases "k = Suc n")
    case False
    obtain b where b: "block_get s (chain_hash s a (Suc n)) = Some b" "unat (own_height b) = Suc n"
      using chain_block [OF hist _ Suc.prems(1)] by blast
    have "has_predecessor b"
      using history_okD(5) [OF hist b(1)] b(2) False Suc.prems(3,4) by (auto simp: link_ok_def split: if_splits)
    then have "depends_on E g s orig (block_previous b)" using depends_previous [OF Suc.prems(2) b(1)] by simp
    moreover have "block_previous b = chain_hash s a n"
      using chain_previous(1) [OF hist _ Suc.prems(1) b(1)] False Suc.prems(3,4) by simp
    ultimately show ?thesis using Suc.IH Suc.prems False by simp
  qed (use Suc.prems in simp)
qed simp

lemma depends_closed:
  assumes hist: "history_ok E g rk s"
  shows "dependencies_closed E g s {h. depends_on E g s orig h}"
  unfolding dependencies_closed_def
proof (intro allI impI conjI; (elim conjE)?)
  fix a n k assume "n \<le> chain_length s a" "chain_hash s a n \<in> {h. depends_on E g s orig h}" "0 < k" "k \<le> n"
  then show "chain_hash s a k \<in> {h. depends_on E g s orig h}" using depends_below [OF hist] by simp
next
  fix a n src assume "0 < n" "n \<le> chain_length s a" "chain_hash s a n \<in> {h. depends_on E g s orig h}" "collects E g s a n = Some src"
  then show "src \<in> {h. depends_on E g s orig h}"
    using depends_source [of E g s orig "chain_hash s a n"]
    by (auto simp: collects_def Let_def split: option.splits if_splits pending_change.splits)
qed

lemma depends_cemented:
  assumes inv: "undo_inv E g rk v" and orig: "block_get v orig = Some b0" "cemented v b0"
    and same: "block_get s = block_get v" "stored_change E s = stored_change E v"
  shows "depends_on E g s orig h \<Longrightarrow> \<exists>b. block_get v h = Some b \<and> cemented v b"
proof (induction rule: depends_on.induct)
  case depends_self
  then show ?case using orig by blast
next
  case (depends_previous h b)
  note hist = undo_invD(1) [OF inv]
  have b: "block_get v h = Some b" "cemented v b" using depends_previous same by auto
  obtain p where "block_get v (block_previous b) = Some p" "own_account p = own_account b" "unat (own_height b) = Suc (unat (own_height p))"
    by (rule history_predecessor [OF hist b(1) depends_previous(3)])
  then show ?case using b(2) by (auto simp: cemented_def word_le_nat_alt split: option.splits)
next
  case (depends_source h b k)
  then have b: "block_get v h = Some b" "cemented v b" "stored_change E v h b = Pending_del k" using same by auto
  obtain src where "block_get v (snd k) = Some src"
    by (rule history_source [OF undo_invD(1) [OF inv] b(1) depends_source(3) b(3)])
  then show ?case using undo_invD(3) [OF inv] b depends_source(3) unfolding cement_ok_def by blast
qed

section \<open>The loop ends\<close>

text \<open>The stop flag stays set once it is set.\<close>

definition flags_ok :: "tick \<Rightarrow> bool" where
  "flags_ok t = ((\<exists>n. stopped_collecting t n) \<longrightarrow> stopped_collected t)"

definition never_stopped :: "(nat \<Rightarrow> tick) \<Rightarrow> bool" where
  "never_stopped ticks = (\<forall>i. unstopped (ticks i) \<and> \<not> stopped_after (ticks i))"

lemma iteration_ok:
  assumes loop: "loop_ok E g rk s orig V fs" and D: "dependencies_closed E g s D" "orig \<in> D" and unst: "unstopped t"
    and m: "chain_hash s a m = orig" "0 < m" "m \<le> chain_length s a"
  shows "\<exists>V' again. process_iteration E t orig V = Some (V', again) \<and> iterated_ok E g rk s orig a m D (stopped_after t) V V' again"
  using inner_iteration [OF loop D unst] original_iteration [OF loop D(2) unst _ m] by (cases "vars_pairs V") auto

text \<open>An iteration that is stopped while it collects changes neither the queue nor the ledger.\<close>

lemma next_visit_frame [simp]: "vars_processor (next_visit orig V) = vars_processor V"
  by (simp add: next_visit_def split: list.split prod.split)

lemma account_heights_keeps: "account_heights orig first h a n U = Some (conf, iter, U') \<Longrightarrow> collect_keeps U U'"
  by (auto simp: account_heights_def collect_keeps_def block_cache_ok_def split: option.splits bind_splits if_splits)

lemma process_iteration_stopped:
  assumes run: "process_iteration E (t\<lparr>stopped_collecting := \<lambda>_. False, stopped_collected := False\<rparr>) orig V = Some r"
    and stop: "stopped_collected t"
  shows "\<exists>V'. process_iteration E t orig V = Some (V', False) \<and> collect_keeps (vars_processor V) (vars_processor V')"
proof -
  let ?V = "next_visit orig V" and ?t = "t\<lparr>stopped_collecting := \<lambda>_. False, stopped_collected := False\<rparr>"
  obtain x U1 where g: "get_block_and_sideband (vars_current ?V) (vars_processor ?V) = (x, U1)" by fastforce
  obtain b where b: "x = Some b" using run g by (cases x) (simp_all add: process_iteration_def Let_def)
  obtain sb where sb: "sideband b = Some sb" using run g b by (cases "sideband b") (simp_all add: process_iteration_def Let_def)
  let ?a = "if block_account b = 0 then sideband_account sb else block_account b"
  obtain conf iter U2 where h: "account_heights orig (first_iter ?V) (vars_current ?V) ?a (height sb) U1 = Some (conf, iter, U2)"
    using run g b sb
    by (cases "account_heights orig (first_iter ?V) (vars_current ?V) ?a (height sb) U1") (simp_all add: process_iteration_def Let_def, fastforce)
  let ?C = "\<lparr>col_processor = U2, receive_source_pairs = vars_pairs ?V, block_callback_datas_required = [], orig_block_callback_data = vars_orig_data ?V\<rparr>"
  let ?col = "\<lambda>t. if iter \<ge> height sb then Some ?C
      else collect_unconfirmed_receive_and_sources_for_account E (stopped_collecting t) orig (height sb) iter (vars_current ?V) ?a ?C"
  have "?col ?t \<noteq> None"
    using run g b sb h by (auto simp: process_iteration_def Let_def simp del: not_None_eq split: bind_splits)
  then have "?col t \<noteq> None"
  proof (cases "iter \<ge> height sb")
    case False
    then have "collect_loop E (\<lambda>_. False) ?a iter (unat (height sb - iter)) (vars_current ?V) (vars_current ?V = orig) False ?C \<noteq> None"
      using \<open>?col ?t \<noteq> None\<close> by (simp add: collect_unconfirmed_receive_and_sources_for_account_def del: not_None_eq)
    from collect_loop_stop [OF this, of "stopped_collecting t"] False show ?thesis
      by (simp add: collect_unconfirmed_receive_and_sources_for_account_def del: not_None_eq)
  qed simp
  then obtain C1 where C1: "?col t = Some C1" by blast
  have "collect_keeps (vars_processor V) U1" using get_block_keeps [OF g] by simp
  also have "collect_keeps U1 U2" by (rule account_heights_keeps [OF h])
  also have "collect_keeps U2 (col_processor C1)"
    using C1 collect_loop_keeps [of E "stopped_collecting t" ?a iter _ "vars_current ?V" _ False ?C C1]
    by (auto simp: collect_unconfirmed_receive_and_sources_for_account_def collect_keeps_def split: if_splits)
  finally have "collect_keeps (vars_processor V) (col_processor C1)" .
  moreover have "process_iteration E t orig V = Some (?V\<lparr>vars_processor := col_processor C1, vars_pairs := receive_source_pairs C1,
      vars_orig_data := orig_block_callback_data C1\<rparr>, False)"
    using process_iteration_eq [OF refl g [unfolded b] sb refl h C1 refl refl] stop by simp
  ultimately show ?thesis by auto
qed

lemma collect_keeps_ok:
  assumes "processor_ok E g rk s U" "collect_keeps U U'"
  shows "processor_ok E g rk s U'" "advance s D U U'"
proof -
  have k: "cu_ledger U' = cu_ledger U" "confirmed_iterated_pairs U' = confirmed_iterated_pairs U" "pending_writes U' = pending_writes U"
      "cemented_notified U' = cemented_notified U" "\<forall>h. block_cache U h \<noteq> None \<longrightarrow> block_cache U' h = block_cache U h"
      "block_cache_ok U \<longrightarrow> block_cache_ok U'"
    using assms(2) by (simp_all add: collect_keeps_def)
  show "processor_ok E g rk s U'"
    by (rule processor_ok_cong(1) [OF assms(1) k(1,3,2)]) (use k processor_okD(7) [OF assms(1)] in auto)
  show "advance s D U U'" using queued_cong [OF k(1,3)] k(1,4) by (intro advance_same) simp_all
qed

lemma process_loop_ok:
  assumes D: "dependencies_closed E g s D" "orig \<in> D" and m: "chain_hash s a m = orig" "0 < m" "m \<le> chain_length s a"
    and flags: "\<forall>i. flags_ok (ticks i)"
  shows "loop_ok E g rk s orig V fs \<Longrightarrow> \<exists>V'. process_loop E ticks orig i V = Some V' \<and> advance s D (vars_processor V) (vars_processor V')
    \<and> processor_ok E g rk s (vars_processor V')
    \<and> (never_stopped ticks \<longrightarrow> traversal_ok E g rk s orig (vars_orig_data V') (vars_processor V') [] \<and> m \<le> queued_to (vars_processor V') a)"
proof (induction "(untraversed s (vars_processor V), length (vars_pairs V))" arbitrary: V fs i
    rule: wf_induct_rule [OF wf_lex_prod [OF wf_less_than wf_less_than]])
  case (1 V)
  let ?t = "ticks i" and ?U = "vars_processor V"
  have ok: "processor_ok E g rk s ?U" using 1(2) traversal_okD(1) by (auto simp: loop_ok_def)
  show ?case
  proof (cases "stopped_collected ?t")
    case True
    have "unstopped (?t\<lparr>stopped_collecting := \<lambda>_. False, stopped_collected := False\<rparr>)" by (simp add: unstopped_def)
    then obtain V' where V': "process_iteration E ?t orig V = Some (V', False)" "collect_keeps ?U (vars_processor V')"
      using iteration_ok [OF 1(2) D _ m] process_iteration_stopped [OF _ True] by blast
    have "\<not> never_stopped ticks" using True by (auto simp: never_stopped_def unstopped_def)
    then show ?thesis using V'(1) collect_keeps_ok [OF ok V'(2)] by (subst process_loop.simps) simp
  next
    case False
    then have un: "unstopped ?t" using flags by (auto simp: unstopped_def flags_ok_def)
    obtain V1 again where V1: "process_iteration E ?t orig V = Some (V1, again)" "iterated_ok E g rk s orig a m D (stopped_after ?t) V V1 again"
      using iteration_ok [OF 1(2) D un m] by blast
    then obtain fs' where adv: "advance s D ?U (vars_processor V1)" and fs': "if fs' = [] then \<not> again \<and> traversal_ok E g rk s orig (vars_orig_data V1) (vars_processor V1) []
          \<and> m \<le> queued_to (vars_processor V1) a
        else again = (\<not> stopped_after ?t) \<and> loop_ok E g rk s orig V1 fs'
          \<and> (untraversed s (vars_processor V1) < untraversed s ?U
             \<or> untraversed s (vars_processor V1) \<le> untraversed s ?U \<and> length (vars_pairs V1) < length (vars_pairs V))"
      by (auto simp: iterated_ok_def)
    show ?thesis
    proof (cases "fs' = []")
      case True
      then show ?thesis using fs' V1(1) adv traversal_okD(1) by (subst process_loop.simps) auto
    next
      case ne: False
      then have l: "loop_ok E g rk s orig V1 fs'" "again = (\<not> stopped_after ?t)" using fs' by simp_all
      have ok1: "processor_ok E g rk s (vars_processor V1)" using l(1) traversal_okD(1) by (auto simp: loop_ok_def)
      show ?thesis
      proof (cases "stopped_after ?t")
        case True
        then have "\<not> never_stopped ticks" by (auto simp: never_stopped_def)
        then show ?thesis using V1(1) l(2) True adv ok1 by (subst process_loop.simps) simp
      next
        case False
        have lex: "((untraversed s (vars_processor V1), length (vars_pairs V1)), (untraversed s ?U, length (vars_pairs V))) \<in> less_than <*lex*> less_than"
          using fs' ne by auto
        obtain V' where V': "process_loop E ticks orig (Suc i) V1 = Some V'" "advance s D (vars_processor V1) (vars_processor V')"
            "processor_ok E g rk s (vars_processor V')"
            "never_stopped ticks \<longrightarrow> traversal_ok E g rk s orig (vars_orig_data V') (vars_processor V') [] \<and> m \<le> queued_to (vars_processor V') a"
          using 1(1) [OF lex l(1)] by blast
        have "process_loop E ticks orig i V = Some V'" using V1(1) V'(1) l(2) False by (subst process_loop.simps) simp
        then show ?thesis using V'(3,4) advance_trans [OF ok1 V'(3) adv V'(2)] by blast
      qed
    qed
  qed
qed

section \<open>One call\<close>

text \<open>Between calls every account the processor remembers has been queued as far as it was iterated.\<close>

definition unbounded_idle :: "env \<Rightarrow> block_hash \<Rightarrow> (block_hash \<Rightarrow> nat) \<Rightarrow> confirmation_height_unbounded \<Rightarrow> bool" where
  "unbounded_idle E g rk U = (processor_ok E g rk (cu_store U) U \<and> (\<forall>a. iterated_to U a = queued_to U a))"

lemma writes_exact_same: "same_blocks s t \<Longrightarrow> writes_exact t u ps = writes_exact s u ps"
  by (induction ps arbitrary: u) (simp_all add: write_exact_def same_blocks_frame)

lemma processor_ok_rebase:
  assumes "processor_ok E g rk s U"
  shows "processor_ok E g rk (cu_store U) U"
proof -
  note fr = same_blocks_frame [OF processor_okD(1) [OF assms]]
  have "links_apart E (cu_store U)" using processor_okD(4) [OF assms] by (simp add: links_apart_def fr)
  then show ?thesis using assms writes_exact_same [OF processor_okD(1) [OF assms]] unfolding processor_ok_def fr by simp
qed

lemma idle_traversal: "unbounded_idle E g rk U \<Longrightarrow> traversal_ok E g rk (cu_store U) orig [] U []"
  by (auto simp: unbounded_idle_def traversal_ok_def)

lemma idle_cleared:
  assumes "unbounded_idle E g rk U" "pending_empty U"
  shows "unbounded_idle E g rk (clear_process_vars U)" "queued_store (clear_process_vars U) = queued_store U"
    "queued_notified (clear_process_vars U) = queued_notified U" "queued_count (clear_process_vars U) = queued_count U"
    "cu_ledger (clear_process_vars U) = cu_ledger U" "cemented_notified (clear_process_vars U) = cemented_notified U"
  using assms
  by (auto simp: unbounded_idle_def processor_ok_def pending_empty_def clear_process_vars_def queued_store_def
      queued_notified_def queued_count_def iterated_to_def block_cache_ok_def)

text \<open>A processor with nothing queued is idle once its variables are cleared.\<close>

lemma fresh_idle:
  assumes "ledger_history E g (cu_ledger U)" "undo_inv E g rk (cu_store U)" "links_apart E (cu_store U)" "pending_empty U"
  shows "unbounded_idle E g rk (clear_process_vars U)"
  using assms
  by (auto simp: unbounded_idle_def processor_ok_def pending_empty_def clear_process_vars_def iterated_to_def block_cache_ok_def)

lemma cemented_height:
  assumes "history_ok E g rk s" "block_get s h = Some b"
  shows "cemented v b \<longleftrightarrow> unat (own_height b) \<le> cemented_to v (own_account b)"
  using stored_height_positive [OF assms(1), of "own_account b" "unat (own_height b)" h] assms(2)
  by (auto simp: cemented_def cemented_to_def stored_at_def word_le_nat_alt split: option.split)

text \<open>What is queued when the traversals from all of \<open>A\<close> have reached their blocks.\<close>

definition depended_on :: "env \<Rightarrow> block_hash \<Rightarrow> store \<Rightarrow> block_hash set \<Rightarrow> block_hash set" where
  "depended_on E g s A = {h. \<exists>x \<in> A. depends_on E g s x h}"

lemma depended_on_single: "depended_on E g s {x} = {h. depends_on E g s x h}"
  by (simp add: depended_on_def)

lemma queued_depended:
  assumes ok: "processor_ok E g rk s U'" and adv: "advance s (depended_on E g s A) U U'" and b: "block_get s h = Some b"
    and c: "cemented (queued_store U') b" "\<not> cemented (queued_store U) b"
  shows "h \<in> depended_on E g s A"
proof -
  note hist = processor_okD(10) [OF ok]
  let ?a = "own_account b" and ?n = "unat (own_height b)"
  have at: "stored_at s ?a ?n h" using b by (auto simp: stored_at_def)
  have n: "?n \<le> queued_to U' ?a" "\<not> ?n \<le> queued_to U ?a" using c cemented_height [OF hist b] by simp_all
  then have "queued_to U' ?a \<noteq> queued_to U ?a" by auto
  then have "chain_hash s ?a (queued_to U' ?a) \<in> depended_on E g s A" using adv unfolding advance_def by blast
  then obtain x where x: "x \<in> A" "depends_on E g s x (chain_hash s ?a (queued_to U' ?a))" by (auto simp: depended_on_def)
  have "depends_on E g s x (chain_hash s ?a ?n)"
    using depends_below [OF hist queued_within [OF ok] x(2)] n(1) stored_height_positive [OF hist at] by simp
  then show ?thesis using x(1) chain_hash_eq [OF hist at] by (auto simp: depended_on_def)
qed

lemma depended_queued:
  assumes ok: "processor_ok E g rk s U'" and A: "\<forall>x \<in> A. \<exists>c. block_get s x = Some c \<and> cemented (queued_store U') c"
    and b: "block_get s h = Some b" "h \<in> depended_on E g s A"
  shows "cemented (queued_store U') b"
proof -
  note fr = same_blocks_frame [OF queued_store_ok(3) [OF ok]]
  obtain x c where x: "depends_on E g s x h" "block_get s x = Some c" "cemented (queued_store U') c"
    using A b(2) by (auto simp: depended_on_def)
  have "\<exists>d. block_get (queued_store U') h = Some d \<and> cemented (queued_store U') d"
    by (rule depends_cemented [OF queued_store_ok(1) [OF ok] _ x(3) _ _ x(1)]) (simp_all add: fr x(2))
  then show ?thesis using b(1) fr(1) by simp
qed

lemma advance_cemented:
  assumes "history_ok E g rk s" "block_get s h = Some b" "advance s D U U'"
  shows "cemented (queued_store U) b \<Longrightarrow> cemented (queued_store U') b" "cemented (cu_store U) b \<Longrightarrow> cemented (cu_store U') b"
  using assms(3) cemented_height [OF assms(1,2)] unfolding advance_def by (meson order_trans)+

lemma traversal_exact:
  assumes ok: "processor_ok E g rk s U'" and A: "\<forall>x \<in> A. \<exists>c. block_get s x = Some c \<and> cemented (queued_store U') c"
    and adv: "advance s (depended_on E g s A) U U'" and b: "block_get s h = Some b"
  shows "cemented (queued_store U') b \<longleftrightarrow> cemented (queued_store U) b \<or> h \<in> depended_on E g s A"
  using queued_depended [OF ok adv b] depended_queued [OF ok A b] advance_cemented(1) [OF processor_okD(10) [OF ok] b adv] by blast

lemma traversal_news:
  assumes ok: "processor_ok E g rk s U'" and A: "\<forall>x \<in> A. \<exists>c. block_get s x = Some c \<and> cemented (queued_store U') c"
    and adv: "advance s (depended_on E g s A) U U'"
  shows "newly_queued s U U' = {b. \<exists>h. block_get s h = Some b \<and> h \<in> depended_on E g s A \<and> \<not> cemented (queued_store U) b}"
proof (intro set_eqI iffI)
  note hist = processor_okD(10) [OF ok]
  fix b assume b: "b \<in> newly_queued s U U'"
  note n = newly_queued_height [OF ok b]
  note c = cemented_height [OF hist n(1)]
  have "cemented (queued_store U') b" "\<not> cemented (queued_store U) b" using n(2,3) c by simp_all
  with n(1) show "b \<in> {b. \<exists>h. block_get s h = Some b \<and> h \<in> depended_on E g s A \<and> \<not> cemented (queued_store U) b}"
    using queued_depended [OF ok adv n(1)] by blast
next
  note hist = processor_okD(10) [OF ok]
  fix b assume "b \<in> {b. \<exists>h. block_get s h = Some b \<and> h \<in> depended_on E g s A \<and> \<not> cemented (queued_store U) b}"
  then obtain h where h: "block_get s h = Some b" "h \<in> depended_on E g s A" "\<not> cemented (queued_store U) b" by blast
  have "cemented (queued_store U') b" by (rule depended_queued [OF ok A h(1,2)])
  moreover have "stored_at s (own_account b) (unat (own_height b)) h" using h(1) by (auto simp: stored_at_def)
  ultimately show "b \<in> newly_queued s U U'"
    using h cemented_height [OF hist h(1)] chain_hash_eq [OF hist] unfolding newly_queued_def
    by (auto intro!: exI [of _ "own_account b"] exI [of _ "unat (own_height b)"])
qed

text \<open>The state a call starts from.\<close>

definition process_start :: "confirmation_height_unbounded \<Rightarrow> confirmation_height_unbounded" where
  "process_start U = (if pending_empty U then clear_process_vars U else U)"

lemma process_start_frame:
  "cu_ledger (process_start U) = cu_ledger U" "pending_writes (process_start U) = pending_writes U"
  "queued_store (process_start U) = queued_store U" "queued_notified (process_start U) = queued_notified U"
  "queued_count (process_start U) = queued_count U"
  by (simp_all add: process_start_def clear_process_vars_def queued_store_def queued_notified_def queued_count_def)

lemma unbounded_process_ok:
  assumes idle: "unbounded_idle E g rk (process_start U)" and orig: "block_get (cu_store U) orig = Some b0" and flags: "\<forall>i. flags_ok (ticks i)"
  shows "\<exists>U'. unbounded_process E ticks orig U = Some U' \<and> processor_ok E g rk (cu_store U) U'
    \<and> advance (cu_store U) {h. depends_on E g (cu_store U) orig h} U U'
    \<and> (never_stopped ticks \<longrightarrow> unbounded_idle E g rk U' \<and> cemented (queued_store U') b0)"
proof -
  let ?s = "cu_store U" and ?D = "{h. depends_on E g (cu_store U) orig h}" and ?U = "process_start U"
  note fr = process_start_frame [of U]
  have ok: "processor_ok E g rk ?s ?U" using idle fr by (simp add: unbounded_idle_def)
  note hist = processor_okD(10) [OF ok]
  let ?a = "own_account b0" and ?m = "unat (own_height b0)"
  have at: "stored_at ?s ?a ?m orig" using orig by (auto simp: stored_at_def)
  note m = chain_hash_eq [OF hist at] stored_height_positive [OF hist at] stored_within [OF hist at]
  let ?V = "\<lparr>vars_processor = ?U, vars_pairs = [], vars_receive_details = None, vars_current = orig, vars_orig_data = [], first_iter = True\<rparr>"
  have "loop_ok E g rk ?s orig ?V []" using idle_traversal [OF idle] fr by (simp add: loop_ok_def)
  then obtain V' where V': "process_loop E ticks orig 0 ?V = Some V'" "advance ?s ?D ?U (vars_processor V')"
      "processor_ok E g rk ?s (vars_processor V')"
      "never_stopped ticks \<longrightarrow> traversal_ok E g rk ?s orig (vars_orig_data V') (vars_processor V') [] \<and> ?m \<le> queued_to (vars_processor V') ?a"
    using process_loop_ok [OF depends_closed [OF hist] _ m flags, of orig rk ?V "[]" 0] depends_self by fastforce
  let ?U' = "(vars_processor V')\<lparr>details_heap := Map.empty\<rparr>"
  have run: "unbounded_process E ticks orig U = Some ?U'"
    using V'(1) by (simp add: unbounded_process_def process_start_def Let_def)
  have same: "queued_store ?U' = queued_store (vars_processor V')" "queued_count ?U' = queued_count (vars_processor V')"
      "queued_notified ?U' = queued_notified (vars_processor V')"
    by (simp_all add: queued_store_def queued_count_def queued_notified_def)
  have ok': "processor_ok E g rk ?s ?U'"
    by (rule processor_ok_cong(1) [OF V'(3)]) (use processor_okD(7) [OF V'(3)] in \<open>auto simp: block_cache_ok_def\<close>)
  have it: "iterated_to ?U' = iterated_to (vars_processor V')" by (rule iterated_to_cong) (simp_all add: same)
  have "advance ?s ?D U ?U'"
    using V'(2) fr same unfolding advance_def newly_queued_def by simp
  moreover have "unbounded_idle E g rk ?U' \<and> cemented (queued_store ?U') b0" if "never_stopped ticks"
    using V'(4) that processor_ok_rebase [OF ok'] it same(1) cemented_height [OF hist orig]
    by (simp add: unbounded_idle_def traversal_ok_def)
  ultimately show ?thesis using run ok' by blast
qed

lemma process_start_idle: "unbounded_idle E g rk U \<Longrightarrow> unbounded_idle E g rk (process_start U)"
  using idle_cleared(1) by (simp add: process_start_def)

end
