(* ===== verification/Confirmation_Queue.thy ===== *)
theory Confirmation_Queue
  imports Confirmation_Traversal
begin

text \<open>
  The confirmation height processor (node/confirmation_height_processor.cpp) in its unbounded mode: the
  hashes that wait, the one being processed, those processed but not yet written, and the loop of its
  thread. The bounded processor takes no part in this mode and has nothing queued.
\<close>

section \<open>The code\<close>

record confirmation_height_processor =
  awaiting_processing :: "block_hash list"
  original_hashes_pending :: "block_hash set"
  processor_paused :: bool
  original_hash :: block_hash
  unbounded_processor :: confirmation_height_unbounded

definition new_unbounded :: "ledger \<Rightarrow> u64 \<Rightarrow> confirmation_height_unbounded" where
  "new_unbounded L n = \<lparr>cu_ledger = L, confirmed_iterated_pairs = Map.empty, block_cache = Map.empty, pending_writes = [],
     implicit_receive_cemented_mapping = Map.empty, details_heap = Map.empty, next_ref = 0, batch_write_size = n,
     cemented_notified = [], already_cemented_notified = []\<rparr>"

definition new_processor :: "ledger \<Rightarrow> confirmation_height_processor" where
  "new_processor L = \<lparr>awaiting_processing = [], original_hashes_pending = {}, processor_paused = False, original_hash = 0,
     unbounded_processor = new_unbounded L 16384\<rparr>"

definition processor_pause :: "confirmation_height_processor \<Rightarrow> confirmation_height_processor" where
  "processor_pause Q = Q\<lparr>processor_paused := True\<rparr>"

definition processor_unpause :: "confirmation_height_processor \<Rightarrow> confirmation_height_processor" where
  "processor_unpause Q = Q\<lparr>processor_paused := False\<rparr>"

text \<open>The hashes that wait are unique: adding one again changes nothing.\<close>

definition processor_add :: "block_hash \<Rightarrow> confirmation_height_processor \<Rightarrow> confirmation_height_processor" where
  "processor_add h Q = (if h \<in> set (awaiting_processing Q) then Q
     else Q\<lparr>awaiting_processing := awaiting_processing Q @ [h]\<rparr>)"

definition set_next_hash :: "confirmation_height_processor \<Rightarrow> confirmation_height_processor option" where
  "set_next_hash Q = (case awaiting_processing Q of [] \<Rightarrow> None
     | h # hs \<Rightarrow> Some (Q\<lparr>original_hash := h, original_hashes_pending := insert h (original_hashes_pending Q), awaiting_processing := hs\<rparr>))"

definition awaiting_processing_size :: "confirmation_height_processor \<Rightarrow> nat" where
  "awaiting_processing_size Q = length (awaiting_processing Q)"

definition is_processing_block :: "block_hash \<Rightarrow> confirmation_height_processor \<Rightarrow> bool" where
  "is_processing_block h Q = (h \<in> original_hashes_pending Q \<or> h \<in> set (awaiting_processing Q))"

definition processor_current :: "confirmation_height_processor \<Rightarrow> block_hash" where
  "processor_current Q = original_hash Q"

definition lock_and_cleanup :: "confirmation_height_processor \<Rightarrow> confirmation_height_processor" where
  "lock_and_cleanup Q = Q\<lparr>original_hash := 0, original_hashes_pending := {},
     unbounded_processor := clear_process_vars (unbounded_processor Q)\<rparr>"

text \<open>One round of the thread's loop.\<close>

definition run_round :: "env \<Rightarrow> (nat \<Rightarrow> tick) \<Rightarrow> confirmation_height_processor \<Rightarrow> confirmation_height_processor option" where
  "run_round E ticks Q =
     (if \<not> processor_paused Q \<and> awaiting_processing Q \<noteq> [] then do {
        let Q = (if pending_empty (unbounded_processor Q) then Q\<lparr>original_hashes_pending := {}\<rparr> else Q);
        Q \<leftarrow> set_next_hash Q;
        U \<leftarrow> unbounded_process E ticks (original_hash Q) (unbounded_processor Q);
        Some (Q\<lparr>unbounded_processor := U\<rparr>) }
      else if \<not> processor_paused Q then
        (if \<not> pending_empty (unbounded_processor Q) then do {
           U \<leftarrow> write_pending (unbounded_processor Q);
           Some (lock_and_cleanup (Q\<lparr>unbounded_processor := U\<rparr>)) }
         else Some (lock_and_cleanup Q))
      else Some (Q\<lparr>original_hash := 0\<rparr>))"

fun run_rounds :: "env \<Rightarrow> (nat \<Rightarrow> tick) list \<Rightarrow> confirmation_height_processor \<Rightarrow> confirmation_height_processor option" where
  "run_rounds E [] Q = Some Q"
| "run_rounds E (t # ts) Q = do { Q \<leftarrow> run_round E t Q; run_rounds E ts Q }"

text \<open>The states the processor reaches on a ledger; \<open>A\<close> are the hashes that were added.\<close>

inductive processor_run :: "env \<Rightarrow> block_hash \<Rightarrow> ledger \<Rightarrow> block_hash set \<Rightarrow> confirmation_height_processor \<Rightarrow> bool" for E g L where
  conf_start: "ledger_history E g L \<Longrightarrow> links_apart E (ledger_store L) \<Longrightarrow> processor_run E g L {} (new_processor L)"
| conf_add: "processor_run E g L A Q \<Longrightarrow> block_get (ledger_store L) h \<noteq> None \<Longrightarrow> processor_run E g L (insert h A) (processor_add h Q)"
| conf_pause: "processor_run E g L A Q \<Longrightarrow> processor_run E g L A (processor_pause Q)"
| conf_unpause: "processor_run E g L A Q \<Longrightarrow> processor_run E g L A (processor_unpause Q)"
| conf_round: "processor_run E g L A Q \<Longrightarrow> never_stopped ticks \<Longrightarrow> run_round E ticks Q = Some Q' \<Longrightarrow> processor_run E g L A Q'"

section \<open>The invariant\<close>

lemma depends_on_same:
  assumes "same_blocks s t" "depends_on E g t x h"
  shows "depends_on E g s x h"
  using assms(2)
proof (induction rule: depends_on.induct)
  case depends_self
  show ?case by (rule depends_on.depends_self)
next
  case (depends_previous h b)
  then show ?case using same_blocks_frame(1) [OF assms(1)] depends_on.depends_previous by metis
next
  case (depends_source h b k)
  then show ?case using same_blocks_frame(1,4) [OF assms(1)] depends_on.depends_source by metis
qed

lemma advance_mono: "advance s D U U' \<Longrightarrow> D \<subseteq> D' \<Longrightarrow> advance s D' U U'"
  unfolding advance_def by blast

lemma processor_ok_base:
  assumes "processor_ok E g rk t U" "same_blocks s t" "undo_inv E g rk s"
  shows "processor_ok E g rk s U"
proof -
  note fr = same_blocks_frame [OF assms(2)]
  have "links_apart E s" using processor_okD(4) [OF assms(1)] by (simp add: links_apart_def fr)
  then show ?thesis
    using assms(1,3) same_blocks_trans [OF assms(2) processor_okD(1) [OF assms(1)]] writes_exact_same [OF assms(2)]
    unfolding processor_ok_def fr by simp
qed

lemma advance_base:
  assumes "same_blocks s t" "advance t D U U'"
  shows "advance s D U U'"
  using assms(2) unfolding advance_def newly_queued_def same_blocks_frame [OF assms(1)] .

definition processor_inv ::
    "env \<Rightarrow> block_hash \<Rightarrow> (block_hash \<Rightarrow> nat) \<Rightarrow> ledger \<Rightarrow> block_hash set \<Rightarrow> confirmation_height_processor \<Rightarrow> bool" where
  "processor_inv E g rk L A Q = (let s = ledger_store L; U = unbounded_processor Q in
     processor_ok E g rk s U \<and> (\<forall>a. iterated_to U a = queued_to U a) \<and> advance s (depended_on E g s A) (new_unbounded L 16384) U
     \<and> set (awaiting_processing Q) \<subseteq> A
     \<and> (\<forall>h \<in> original_hashes_pending Q. \<exists>b. block_get s h = Some b \<and> cemented (queued_store U) b)
     \<and> (\<forall>h \<in> A. \<exists>b. block_get s h = Some b \<and> (is_processing_block h Q \<or> cemented (cu_store U) b)))"

lemma processor_invD:
  assumes "processor_inv E g rk L A Q"
  shows "processor_ok E g rk (ledger_store L) (unbounded_processor Q)"
    "iterated_to (unbounded_processor Q) a = queued_to (unbounded_processor Q) a"
    "advance (ledger_store L) (depended_on E g (ledger_store L) A) (new_unbounded L 16384) (unbounded_processor Q)"
    "set (awaiting_processing Q) \<subseteq> A"
    "h \<in> original_hashes_pending Q \<Longrightarrow> \<exists>b. block_get (ledger_store L) h = Some b \<and> cemented (queued_store (unbounded_processor Q)) b"
    "h \<in> A \<Longrightarrow> \<exists>b. block_get (ledger_store L) h = Some b \<and> (is_processing_block h Q \<or> cemented (cu_store (unbounded_processor Q)) b)"
  using assms by (simp_all add: processor_inv_def Let_def)

lemma processor_start_inv:
  assumes "ledger_history E g L" "links_apart E (ledger_store L)"
  shows "\<exists>rk. processor_inv E g rk L {} (new_processor L)"
proof -
  obtain rk where "undo_inv E g rk (ledger_store L)" using ledger_historyD(3) [OF assms(1)] ..
  then show ?thesis
    using assms advance_same [of "new_unbounded L 16384" "new_unbounded L 16384"]
    by (auto simp: processor_inv_def Let_def new_processor_def new_unbounded_def processor_ok_def block_cache_ok_def iterated_to_def
        intro!: exI [of _ rk])
qed

lemma inv_block:
  assumes "processor_inv E g rk L A Q"
  shows "block_get (cu_store (unbounded_processor Q)) = block_get (ledger_store L)"
  using same_blocks_frame(1) [OF processor_okD(1) [OF processor_invD(1) [OF assms]]] .

lemma never_stopped_flags: "never_stopped ticks \<Longrightarrow> \<forall>i. flags_ok (ticks i)"
  by (simp add: never_stopped_def unstopped_def flags_ok_def)

lemma round_processes:
  assumes inv: "processor_inv E g rk L A Q" and st: "never_stopped ticks" and q: "\<not> processor_paused Q" "awaiting_processing Q = x # xs"
  shows "\<exists>Q'. run_round E ticks Q = Some Q' \<and> processor_inv E g rk L A Q' \<and> \<not> processor_paused Q' \<and> awaiting_processing Q' = xs"
proof -
  let ?s = "ledger_store L" and ?U = "unbounded_processor Q"
  let ?P = "if pending_empty ?U then {} else original_hashes_pending Q"
  note ok = processor_invD(1) [OF inv] and hist = processor_okD(10) [OF processor_invD(1) [OF inv]]
  have x: "x \<in> A" using processor_invD(4) [OF inv] q(2) by auto
  then obtain b0 where b0: "block_get ?s x = Some b0" using processor_invD(6) [OF inv] by blast
  have "unbounded_idle E g rk (process_start ?U)"
    using process_start_idle processor_ok_rebase [OF ok] processor_invD(2) [OF inv] by (simp add: unbounded_idle_def)
  then obtain U' where U': "unbounded_process E ticks x ?U = Some U'" "processor_ok E g rk (cu_store ?U) U'"
      "advance (cu_store ?U) {h. depends_on E g (cu_store ?U) x h} ?U U'" "unbounded_idle E g rk U'" "cemented (queued_store U') b0"
    using unbounded_process_ok [OF _ _ never_stopped_flags [OF st], of E g rk ?U x b0] b0 inv_block [OF inv] st by auto
  have ok': "processor_ok E g rk ?s U'"
    using processor_ok_base [OF U'(2) processor_okD(1) [OF ok]] ok by (simp add: processor_ok_def)
  have "advance ?s {h. depends_on E g (cu_store ?U) x h} ?U U'" by (rule advance_base [OF processor_okD(1) [OF ok] U'(3)])
  moreover have "{h. depends_on E g (cu_store ?U) x h} \<subseteq> depended_on E g ?s A"
    using depends_on_same [OF processor_okD(1) [OF ok]] x unfolding depended_on_def by blast
  ultimately have adv: "advance ?s (depended_on E g ?s A) ?U U'" by (rule advance_mono)
  let ?Q = "Q\<lparr>original_hash := x, original_hashes_pending := insert x ?P, awaiting_processing := xs, unbounded_processor := U'\<rparr>"
  have run: "run_round E ticks Q = Some ?Q"
    using q U'(1) by (auto simp: run_round_def set_next_hash_def Let_def)
  have "processor_inv E g rk L A ?Q"
    unfolding processor_inv_def Let_def
  proof (intro conjI allI ballI)
    show "processor_ok E g rk ?s (unbounded_processor ?Q)" using ok' by simp
    show "iterated_to (unbounded_processor ?Q) a = queued_to (unbounded_processor ?Q) a" for a using U'(4) by (simp add: unbounded_idle_def)
    show "advance ?s (depended_on E g ?s A) (new_unbounded L 16384) (unbounded_processor ?Q)"
      using advance_trans [OF ok ok' processor_invD(3) [OF inv] adv] by simp
    show "set (awaiting_processing ?Q) \<subseteq> A" using processor_invD(4) [OF inv] q(2) by auto
  next
    fix h assume "h \<in> original_hashes_pending ?Q"
    then show "\<exists>b. block_get ?s h = Some b \<and> cemented (queued_store (unbounded_processor ?Q)) b"
      using b0 U'(5) processor_invD(5) [OF inv, of h] advance_cemented(1) [OF hist _ adv] by (auto split: if_splits)
  next
    fix h assume "h \<in> A"
    then obtain b where b: "block_get ?s h = Some b" "is_processing_block h Q \<or> cemented (cu_store ?U) b"
      using processor_invD(6) [OF inv] by blast
    have "cemented (cu_store ?U) b" if "h \<in> original_hashes_pending Q" "pending_empty ?U"
      using processor_invD(5) [OF inv that(1)] that(2) b(1) by (simp add: pending_empty_def queued_store_def)
    then have "is_processing_block h ?Q \<or> cemented (cu_store ?U) b" using b(2) q(2) by (auto simp: is_processing_block_def)
    then show "\<exists>b. block_get ?s h = Some b \<and> (is_processing_block h ?Q \<or> cemented (cu_store (unbounded_processor ?Q)) b)"
      using b(1) advance_cemented(2) [OF hist b(1) adv] by auto
  qed
  then show ?thesis using run q(1) by auto
qed

text \<open>With nothing waiting the queue is written and everything is forgotten.\<close>

lemma round_flushes:
  assumes inv: "processor_inv E g rk L A Q" and q: "\<not> processor_paused Q" "awaiting_processing Q = []"
  shows "\<exists>Q'. run_round E ticks Q = Some Q' \<and> processor_inv E g rk L A Q' \<and> \<not> processor_paused Q' \<and> awaiting_processing Q' = []
    \<and> original_hashes_pending Q' = {} \<and> pending_writes (unbounded_processor Q') = []"
proof -
  let ?s = "ledger_store L" and ?U = "unbounded_processor Q"
  note ok = processor_invD(1) [OF inv] and hist = processor_okD(10) [OF processor_invD(1) [OF inv]]
  obtain U1 where U1: "(if pending_empty ?U then Some ?U else write_pending ?U) = Some U1" "processor_ok E g rk ?s U1" "queue_unchanged ?U U1"
      "pending_writes U1 = []"
    using write_pending_ok [OF ok] ok by (cases "pending_empty ?U") (auto simp: queue_unchanged_def pending_empty_def)
  let ?U' = "clear_process_vars U1"
  let ?Q = "Q\<lparr>original_hash := 0, original_hashes_pending := {}, unbounded_processor := ?U'\<rparr>"
  have run: "run_round E ticks Q = Some ?Q"
    using q U1(1) by (cases "pending_empty ?U") (auto simp: run_round_def lock_and_cleanup_def)
  have same: "queued_store ?U' = queued_store U1" "queued_count ?U' = queued_count U1" "queued_notified ?U' = queued_notified U1"
      "cu_ledger ?U' = cu_ledger U1" "pending_writes ?U' = []"
    using U1(4) by (simp_all add: clear_process_vars_def queued_store_def queued_count_def queued_notified_def)
  have qs: "queued_store ?U = cu_store U1" using U1(3,4) by (simp add: queue_unchanged_def queued_store_def)
  have ok': "processor_ok E g rk ?s ?U'"
    using U1(2,4) by (auto simp: processor_ok_def clear_process_vars_def block_cache_ok_def)
  have adv: "advance ?s D ?U ?U'" for D
    using U1(3) same by (intro advance_same) (auto simp: queue_unchanged_def)
  have "processor_inv E g rk L A ?Q"
    unfolding processor_inv_def Let_def
  proof (intro conjI allI ballI)
    show "processor_ok E g rk ?s (unbounded_processor ?Q)" using ok' by simp
    show "iterated_to (unbounded_processor ?Q) a = queued_to (unbounded_processor ?Q) a" for a
      by (simp add: iterated_to_def clear_process_vars_def)
    show "advance ?s (depended_on E g ?s A) (new_unbounded L 16384) (unbounded_processor ?Q)"
      using advance_trans [OF ok ok' processor_invD(3) [OF inv] adv] by simp
    show "set (awaiting_processing ?Q) \<subseteq> A" using q(2) by simp
  next
    fix h assume "h \<in> A"
    then obtain b where b: "block_get ?s h = Some b" "h \<in> original_hashes_pending Q \<or> cemented (cu_store ?U) b"
      using processor_invD(6) [OF inv] q(2) by (auto simp: is_processing_block_def)
    have "cemented (cu_store ?U') b"
      using b(2)
    proof
      assume "h \<in> original_hashes_pending Q"
      then have "cemented (queued_store ?U) b" using processor_invD(5) [OF inv] b(1) by fastforce
      then show ?thesis using qs same(4) by simp
    next
      assume "cemented (cu_store ?U) b"
      then show ?thesis using advance_cemented(2) [OF hist b(1) adv] by blast
    qed
    then show "\<exists>b. block_get ?s h = Some b \<and> (is_processing_block h ?Q \<or> cemented (cu_store (unbounded_processor ?Q)) b)"
      using b(1) by simp
  qed simp
  then show ?thesis using run q same(5) by auto
qed

lemma round_ok:
  assumes inv: "processor_inv E g rk L A Q" and st: "never_stopped ticks"
  shows "\<exists>Q'. run_round E ticks Q = Some Q' \<and> processor_inv E g rk L A Q'"
proof (cases "processor_paused Q")
  case True
  then show ?thesis using inv by (simp add: run_round_def processor_inv_def is_processing_block_def)
next
  case False
  then show ?thesis using round_processes [OF inv st False] round_flushes [OF inv False] by (cases "awaiting_processing Q") blast+
qed

lemma processor_run_inv: "processor_run E g L A Q \<Longrightarrow> \<exists>rk. processor_inv E g rk L A Q"
proof (induction rule: processor_run.induct)
  case conf_start
  then show ?case by (rule processor_start_inv)
next
  case (conf_add A Q h)
  then obtain rk where inv: "processor_inv E g rk L A Q" by blast
  have "advance (ledger_store L) (depended_on E g (ledger_store L) (insert h A)) (new_unbounded L 16384) (unbounded_processor Q)"
    by (rule advance_mono [OF processor_invD(3) [OF inv]]) (auto simp: depended_on_def)
  then have "processor_inv E g rk L (insert h A) (processor_add h Q)"
    using inv conf_add(2) by (auto simp: processor_inv_def Let_def processor_add_def is_processing_block_def)
  then show ?case by blast
next
  case (conf_pause A Q)
  then show ?case by (auto simp: processor_inv_def Let_def processor_pause_def is_processing_block_def)
next
  case (conf_unpause A Q)
  then show ?case by (auto simp: processor_inv_def Let_def processor_unpause_def is_processing_block_def)
next
  case (conf_round A Q ticks Q')
  then show ?case using round_ok by (metis option.inject)
qed

text \<open>As many rounds as there are hashes waiting, and one more to write.\<close>

lemma rounds_flush:
  assumes "processor_inv E g rk L A Q" "\<not> processor_paused Q" "\<forall>t \<in> set ts. never_stopped t" "length (awaiting_processing Q) < length ts"
  shows "\<exists>Q'. run_rounds E ts Q = Some Q' \<and> processor_inv E g rk L A Q' \<and> awaiting_processing Q' = []
    \<and> original_hashes_pending Q' = {} \<and> pending_writes (unbounded_processor Q') = []"
  using assms
proof (induction ts arbitrary: Q)
  case (Cons t ts)
  show ?case
  proof (cases "awaiting_processing Q")
    case (Cons x xs)
    obtain Q1 where "run_round E t Q = Some Q1" "processor_inv E g rk L A Q1" "\<not> processor_paused Q1" "awaiting_processing Q1 = xs"
      using round_processes [OF Cons.prems(1) _ Cons.prems(2) Cons] Cons.prems(3) by auto
    then show ?thesis using Cons.IH [of Q1] Cons.prems(3,4) Cons by auto
  next
    case Nil
    obtain Q1 where Q1: "run_round E t Q = Some Q1" "processor_inv E g rk L A Q1" "\<not> processor_paused Q1" "awaiting_processing Q1 = []"
        "original_hashes_pending Q1 = {}" "pending_writes (unbounded_processor Q1) = []"
      using round_flushes [OF Cons.prems(1,2) Nil] by blast
    then show ?thesis using Cons.IH [of Q1] Cons.prems(3) by (cases ts) auto
  qed
qed simp

section \<open>What the processor does\<close>

lemma start_queued: "queued_store (new_unbounded L n) = ledger_store L" "queued_notified (new_unbounded L n) = []"
  "queued_count (new_unbounded L n) = cemented_count (cache L)"
  by (simp_all add: queued_store_def queued_notified_def queued_count_def new_unbounded_def)

text \<open>At any time only dependencies of what was added are cemented.\<close>

lemma cemented_closure:
  assumes inv: "processor_inv E g rk L A Q" and b: "block_get (ledger_store L) h = Some b" "cemented (cu_store (unbounded_processor Q)) b"
  shows "cemented (ledger_store L) b \<or> h \<in> depended_on E g (ledger_store L) A"
proof -
  note ok = processor_invD(1) [OF inv]
  have "cemented (queued_store (unbounded_processor Q)) b"
    using b(2) cemented_height [OF processor_okD(10) [OF ok] b(1)] cemented_to_queued unfolding queued_store_def by (meson order_trans)
  then show ?thesis using queued_depended [OF ok processor_invD(3) [OF inv] b(1)] start_queued(1) by auto
qed

text \<open>When nothing is left, all of them are, and each was announced once.\<close>

lemma flushed_closure:
  assumes inv: "processor_inv E g rk L A Q" and empty: "pending_writes (unbounded_processor Q) = []" "\<forall>h. \<not> is_processing_block h Q"
  shows "block_get (ledger_store L) h = Some b \<Longrightarrow>
      cemented (cu_store (unbounded_processor Q)) b \<longleftrightarrow> cemented (ledger_store L) b \<or> h \<in> depended_on E g (ledger_store L) A" (is "_ \<Longrightarrow> ?exact")
    "distinct (cemented_notified (unbounded_processor Q))"
    "set (cemented_notified (unbounded_processor Q)) =
      {b. \<exists>h. block_get (ledger_store L) h = Some b \<and> h \<in> depended_on E g (ledger_store L) A \<and> \<not> cemented (ledger_store L) b}"
proof -
  note ok = processor_invD(1) [OF inv] and adv = processor_invD(3) [OF inv]
  have qs: "queued_store (unbounded_processor Q) = cu_store (unbounded_processor Q)"
      "queued_notified (unbounded_processor Q) = cemented_notified (unbounded_processor Q)"
    using empty(1) by (simp_all add: queued_store_def queued_notified_def)
  have A: "\<forall>x \<in> A. \<exists>c. block_get (ledger_store L) x = Some c \<and> cemented (queued_store (unbounded_processor Q)) c"
    using processor_invD(6) [OF inv] empty(2) qs(1) by auto
  show ?exact if "block_get (ledger_store L) h = Some b"
    using traversal_exact [OF ok A adv that] unfolding qs start_queued .
  obtain bs where bs: "cemented_notified (unbounded_processor Q) = bs" "distinct bs"
      "set bs = newly_queued (ledger_store L) (new_unbounded L 16384) (unbounded_processor Q)"
    using adv unfolding advance_def qs start_queued by auto
  show "distinct (cemented_notified (unbounded_processor Q))" using bs by simp
  show "set (cemented_notified (unbounded_processor Q)) =
      {b. \<exists>h. block_get (ledger_store L) h = Some b \<and> h \<in> depended_on E g (ledger_store L) A \<and> \<not> cemented (ledger_store L) b}"
    using bs(1,3) traversal_news [OF ok A adv] unfolding start_queued by simp
qed

end
