(* ===== verification/Confirmation_Examples.thy ===== *)
theory Confirmation_Examples
  imports Examples Confirmation_Queue
begin

text \<open>
  A ledger for the confirmation height processor: the genesis account sends to account 2, and account 2
  opens its chain with a state block that collects the send. Only genesis is cemented.
\<close>

definition example_claim :: block where
  "example_claim = \<lparr>hashables = State \<lparr>state_account = 2, state_previous = 0, state_representative = 2, state_balance = 1000, state_link = 80\<rparr>,
     block_signature = 0, block_work = 0, sideband_m = None\<rparr>"

definition example_ledger_3 :: ledger where
  "example_ledger_3 = fst (the (process example_env example_ledger_2 example_claim Sig_unknown))"

lemma example_claim_hash: "generate_hash example_crypto example_claim = 176"
  by (simp add: example_hash example_claim_def state_block_hash_def)

lemma example_ledger_2_value: "example_ledger_2 = \<lparr>
   ledger_store = \<lparr>send_blocks = [(80, \<lparr>hashables = Send \<lparr>send_previous = 96, send_destination = 2, send_balance = - 1001\<rparr>,
       block_signature = 0, block_work = 0, sideband_m = Some \<lparr>successor = 0, sideband_account = 1,
         sideband_balance = 0, height = 2, timestamp = 100, details = default_details\<rparr>\<rparr>)],
     receive_blocks = [],
     open_blocks = [(96, \<lparr>hashables = Open \<lparr>open_source = 1, open_representative = 1, open_account = 1\<rparr>,
       block_signature = 0, block_work = 0, sideband_m = Some \<lparr>successor = 80, sideband_account = 0,
         sideband_balance = u128_max, height = 1, timestamp = 100, details = default_details\<rparr>\<rparr>)],
     change_blocks = [], state_blocks = [],
     accounts = [(1, \<lparr>head = 80, representative = 1, open_block = 96, info_balance = - 1001, modified = 101,
       block_count = 2, epoch_m = epoch_0\<rparr>)],
     pending = [((2, 80), \<lparr>pending_source = 1, pending_amount = 1000, pending_epoch = epoch_0\<rparr>)],
     frontiers = [(80, 1)], confirmation_heights = [(1, \<lparr>conf_height = 1, conf_frontier = 96\<rparr>)],
     unchecked_table = [], online_weight = [], peers = []\<rparr>,
   cache = \<lparr>rep_weights = [(1, - 1001)], cemented_count = 1, cache_block_count = 2, cache_unchecked_count = 0,
     cache_account_count = 1, epoch_2_started = False\<rparr>,
   stats = [(Stat_ledger, Detail_send, 1)], bootstrap_weights = [], bootstrap_weight_max_blocks = 1, check_bootstrap_weights = True,
   epoch_2_started_cb = False, epoch_2_callbacks = 0\<rparr>"
  using example_hashes example_work
  by (simp add: example_ledger_2_def example_ledger_value example_env_def example_params_def example_send_def
      process_eval eval_defs example_hash)

lemma example_claim_hash_ok: "hash_ok example_env example_ledger_2 example_claim"
  using example_claim_hash
  by (simp add: hash_ok_def block_types_def block_exists_type_def table_get_def example_ledger_2_value
      example_env_def type_of_def example_claim_def)

lemma example_claim_progress:
  "\<exists>b' r. process example_env example_ledger_2 example_claim Sig_unknown = Some (example_ledger_3, b', r) \<and> code r = progress"
  using example_claim_hash example_work
  by (simp add: example_ledger_3_def example_ledger_2_value example_env_def example_params_def example_claim_def
      ledger_is_epoch_link_def is_epoch_link_def info_or_default_def default_account_info_def process_eval eval_defs)

lemma example_claim_extends: "extends_ok example_env (ledger_store example_ledger_2) example_claim"
  using example_claim_hash
  by (simp add: extends_ok_def example_epoch_link chain_start_ok_def example_ledger_2_value epoch_defs)
     (simp add: example_env_def example_params_def example_claim_def type_of_def epoch_defs has_predecessor_def)

lemma example_run_3: "ledger_run (crypto_fns example_env) (params example_env) 96 example_ledger_3"
  using example_claim_progress run_process [OF example_run_2 refl refl example_claim_hash_ok example_claim_extends] by blast

lemma example_store_3: "ledger_store example_ledger_3 = (ledger_store example_ledger_2)\<lparr>
     state_blocks := [(176, sideband_set \<lparr>successor = 0, sideband_account = 0, sideband_balance = 0, height = 1, timestamp = 100,
       details = \<lparr>details_epoch = epoch_0, is_send = False, is_receive = True, is_epoch = False\<rparr>\<rparr> example_claim)],
     accounts := [(1, \<lparr>head = 80, representative = 1, open_block = 96, info_balance = - 1001, modified = 101,
       block_count = 2, epoch_m = epoch_0\<rparr>), (2, \<lparr>head = 176, representative = 2, open_block = 176, info_balance = 1000, modified = 101,
       block_count = 1, epoch_m = epoch_0\<rparr>)],
     pending := [],
     confirmation_heights := [(1, \<lparr>conf_height = 1, conf_frontier = 96\<rparr>), (2, \<lparr>conf_height = 0, conf_frontier = 0\<rparr>)]\<rparr>"
  using example_claim_hash example_work
  by (simp add: example_ledger_3_def example_ledger_2_value example_env_def example_params_def example_claim_def
      ledger_is_epoch_link_def is_epoch_link_def info_or_default_def default_account_info_def process_eval eval_defs
      unpack_packed details_ok_def)

lemmas example_history_3 = run_history_ok(1) [OF example_run_3 example_params_ok]

definition example_tick :: tick where
  "example_tick = \<lparr>stopped_collecting = (\<lambda>_. False), stopped_collected = False, stopped_after = False, no_pending = False,
     min_time_exceeded = False, queue_turn = True\<rparr>"

lemma example_never_stopped: "never_stopped (\<lambda>_. example_tick)"
  by (simp add: never_stopped_def unstopped_def example_tick_def)

lemma example_stored_3:
  "map_option hashables (block_get (ledger_store example_ledger_3) h) =
     (if h = 176 then Some (hashables example_claim) else if h = 80 then Some (hashables example_send)
      else if h = 96 then Some (hashables example_genesis) else None)"
  by (simp add: example_store_3 example_ledger_2_value block_get_def table_get_def block_types_def sideband_set_def example_send_def
      example_genesis_def split: if_split)

lemma example_claim_change:
  "hashables b = hashables example_claim \<Longrightarrow> stored_change example_env s h b = Pending_del (own_account b, 80)"
  by (simp add: stored_change_def block_change_def example_claim_def prior_balance_def has_predecessor_def example_epoch_link)

lemma example_links_apart: "links_apart example_env (ledger_store example_ledger_3)"
  unfolding links_apart_def
proof (intro allI impI)
  let ?s = "ledger_store example_ledger_3"
  fix h b k p assume b: "block_get ?s h = Some b" "stored_change example_env ?s h b = Pending_add k p"
  then have "hashables b \<in> {hashables example_claim, hashables example_send, hashables example_genesis}"
    using example_stored_3 [of h] by (auto split: if_splits)
  moreover have "hashables b \<noteq> hashables example_claim" using b(2) example_claim_change by force
  ultimately have "block_link b = 0" by (auto simp: block_link_def example_send_def example_genesis_def)
  then show "\<not> source_exists ?s (block_link b)"
    by (simp add: example_store_3 example_ledger_2_value source_exists_def block_exists_type_def table_get_def)
qed

lemma example_claim_depends:
  "depends_on example_env 96 (ledger_store example_ledger_3) 176 80" "depends_on example_env 96 (ledger_store example_ledger_3) 176 176"
proof -
  let ?s = "ledger_store example_ledger_3"
  show self: "depends_on example_env 96 ?s 176 176" by (rule depends_self)
  obtain b where b: "block_get ?s 176 = Some b" "hashables b = hashables example_claim"
    using example_stored_3 [of 176] by auto
  then show "depends_on example_env 96 ?s 176 80"
    using depends_source [OF self b(1)] example_claim_change by simp
qed

lemma example_processor_run:
  "processor_run example_env 96 example_ledger_3 {176} (processor_add 176 (new_processor example_ledger_3))"
  by (rule conf_add [OF conf_start [OF example_history_3 example_links_apart]]) (use example_stored_3 [of 176] in auto)

end
