(* ===== verification/Online_Reps.thy ===== *)
theory Online_Reps
  imports Ledger
begin

text \<open>
  The online representatives (node/online_reps.cpp): who voted since the last sample, the samples of their
  weight in the store, and the trended online stake that elections and the gap cache compare with.
  The unordered set of representatives is a list without repetitions; \<open>nth_element\<close> leaves at its position
  the element that sorting would put there.
\<close>

section \<open>The code\<close>

record online_reps =
  online_accounts :: "account list"
  online_trended :: amount
  online_minimum :: amount

definition max_weight_samples :: "futurehead_networks \<Rightarrow> nat" where
  "max_weight_samples N = (if N = Live_network then 4032 else 864)"

definition online_trend :: "amount \<Rightarrow> store \<Rightarrow> amount" where
  "online_trend m s = (let items = m # map snd (online_weight s) in sort items ! (length items div 2))"

definition make_online_reps :: "ledger \<Rightarrow> bool \<Rightarrow> amount \<Rightarrow> online_reps" where
  "make_online_reps L init_error m =
     \<lparr>online_accounts = [], online_trended = (if init_error then 0 else online_trend m (ledger_store L)), online_minimum = m\<rparr>"

definition observe :: "account \<Rightarrow> ledger \<times> online_reps \<Rightarrow> ledger \<times> online_reps" where
  "observe a LR = (let (L, R) = LR; (w, L) = ledger_weight L a in
     (L, if w > 0 \<and> a \<notin> set (online_accounts R) then R\<lparr>online_accounts := online_accounts R @ [a]\<rparr> else R))"

text \<open>The oldest samples go until there is room for one more.\<close>

function discard_oldest :: "nat \<Rightarrow> store \<Rightarrow> store option" where
  "discard_oldest n s =
     (if online_weight_count s \<ge> n then
        (case online_weight s of [] \<Rightarrow> None
         | (t, _) # _ \<Rightarrow> do { s \<leftarrow> online_weight_del s t; discard_oldest n s })
      else Some s)"
  by auto
termination
  by (relation "measure (\<lambda>(n, s). length (online_weight s))")
     (auto simp: online_weight_del_def table_drop_key_def bind_eq_Some_conv le_imp_less_Suc)

fun sum_weights :: "account list \<Rightarrow> ledger \<Rightarrow> u128 \<times> ledger" where
  "sum_weights [] L = (0, L)"
| "sum_weights (a # as) L = (let (w, L) = ledger_weight L a; (t, L) = sum_weights as L in (w + t, L))"

text \<open>\<open>now\<close> is the system clock.\<close>

definition sample :: "nat \<Rightarrow> u64 \<Rightarrow> ledger \<times> online_reps \<Rightarrow> (ledger \<times> online_reps) option" where
  "sample max_samples now LR = (let (L, R) = LR in do {
     L \<leftarrow> on_store (discard_oldest max_samples) L;
     let (current, L) = sum_weights (online_accounts R) L;
     let L = in_store (\<lambda>s. online_weight_put s now current) L;
     Some (L, R\<lparr>online_accounts := [], online_trended := online_trend (online_minimum R) (ledger_store L)\<rparr>) })"

definition stake_online :: "online_reps \<Rightarrow> amount" where
  "stake_online R = max (online_trended R) (online_minimum R)"

definition online_list :: "online_reps \<Rightarrow> account list" where
  "online_list R = online_accounts R"

section \<open>The median\<close>

text \<open>More than half of the elements lie in an interval only if the middle one does.\<close>

lemma sorted_middle_below:
  fixes xs :: "'a::linorder list"
  assumes "sorted xs" "i < length xs" "xs ! i < lo"
  shows "length (filter (\<lambda>x. lo \<le> x) xs) \<le> length xs - Suc i"
proof -
  have "filter (\<lambda>x. lo \<le> x) (take (Suc i) xs) = []"
  proof -
    have "x \<le> xs ! i" if "x \<in> set (take (Suc i) xs)" for x
      using that assms(1,2) by (auto simp: in_set_conv_nth sorted_iff_nth_mono)
    then show ?thesis using assms(3) by (fastforce simp: filter_empty_conv)
  qed
  then have "filter (\<lambda>x. lo \<le> x) xs = filter (\<lambda>x. lo \<le> x) (drop (Suc i) xs)"
    by (metis append_Nil append_take_drop_id filter_append)
  then show ?thesis using length_filter_le [of "\<lambda>x. lo \<le> x" "drop (Suc i) xs"] by simp
qed

lemma sorted_middle_above:
  fixes xs :: "'a::linorder list"
  assumes "sorted xs" "i < length xs" "hi < xs ! i"
  shows "length (filter (\<lambda>x. x \<le> hi) xs) \<le> i"
proof -
  have "filter (\<lambda>x. x \<le> hi) (drop i xs) = []"
  proof -
    have "xs ! i \<le> x" if "x \<in> set (drop i xs)" for x
      using that assms(1,2) by (auto simp: in_set_conv_nth sorted_iff_nth_mono)
    then show ?thesis using assms(3) by (fastforce simp: filter_empty_conv)
  qed
  then have "filter (\<lambda>x. x \<le> hi) xs = filter (\<lambda>x. x \<le> hi) (take i xs)"
    by (metis append_Nil2 append_take_drop_id filter_append)
  then show ?thesis using length_filter_le [of "\<lambda>x. x \<le> hi" "take i xs"] by simp
qed

lemma length_filter_mono: "(\<And>x. P x \<Longrightarrow> Q x) \<Longrightarrow> length (filter P xs) \<le> length (filter Q xs)"
  by (induction xs) (auto simp: le_Suc_eq)

lemma length_filter_sort: "length (filter P (sort xs)) = length (filter P xs)"
  by (metis filter_sort length_sort)

lemma middle_in_interval:
  fixes xs :: "'a::linorder list"
  assumes "xs \<noteq> []" "2 * length (filter (\<lambda>x. lo \<le> x \<and> x \<le> hi) xs) > length xs"
  shows "lo \<le> sort xs ! (length xs div 2)" "sort xs ! (length xs div 2) \<le> hi"
proof -
  let ?i = "length xs div 2" and ?n = "length (filter (\<lambda>x. lo \<le> x \<and> x \<le> hi) (sort xs))"
  have n: "length xs < 2 * ?n" using assms(2) by (simp add: length_filter_sort)
  have i: "?i < length (sort xs)" using assms(1) by simp
  have le: "?n \<le> length (filter (\<lambda>x. lo \<le> x) (sort xs))" "?n \<le> length (filter (\<lambda>x. x \<le> hi) (sort xs))"
    by (rule length_filter_mono, simp)+
  show "lo \<le> sort xs ! ?i"
  proof (rule ccontr)
    assume "\<not> lo \<le> sort xs ! ?i"
    then have "length (filter (\<lambda>x. lo \<le> x) (sort xs)) \<le> length xs - Suc ?i"
      using sorted_middle_below [OF sorted_sort i, of lo] by simp
    then show False using le(1) n by linarith
  qed
  show "sort xs ! ?i \<le> hi"
  proof (rule ccontr)
    assume "\<not> sort xs ! ?i \<le> hi"
    then have "length (filter (\<lambda>x. x \<le> hi) (sort xs)) \<le> ?i" using sorted_middle_above [OF sorted_sort i, of hi] by simp
    then show False using le(2) n by linarith
  qed
qed

section \<open>Samples\<close>

lemma del_first:
  assumes "table_ok (online_weight s)" "online_weight s = (t, w) # rest"
  shows "online_weight_del s t = Some (s\<lparr>online_weight := rest\<rparr>)"
proof -
  have "filter (\<lambda>e. fst e \<noteq> t) rest = rest" using assms by (intro filter_True) (auto simp: table_ok_Cons)
  then show ?thesis using assms(2) by (simp add: online_weight_del_def table_del_def table_drop_key_def table_get_def)
qed

text \<open>The newest samples are kept, all but one of the maximum.\<close>

lemma discard_oldest_keeps:
  assumes "0 < n" "table_ok (online_weight s)"
  shows "discard_oldest n s = Some (s\<lparr>online_weight := drop (Suc (length (online_weight s)) - n) (online_weight s)\<rparr>)"
  using assms
proof (induction n s rule: discard_oldest.induct)
  case (1 n s)
  show ?case
  proof (cases "online_weight_count s \<ge> n")
    case True
    with 1 obtain t w rest where t: "online_weight s = (t, w) # rest"
      by (cases "online_weight s") (auto simp: online_weight_count_def)
    let ?s = "s\<lparr>online_weight := rest\<rparr>"
    have del: "online_weight_del s t = Some ?s" by (rule del_first [OF 1(3) t])
    have "table_ok rest" using 1(3) t by (simp add: table_ok_Cons)
    then have "discard_oldest n ?s = Some (?s\<lparr>online_weight := drop (Suc (length rest) - n) rest\<rparr>)"
      using 1(1) [OF True t refl del 1(2)] by simp
    moreover have "discard_oldest n s = discard_oldest n ?s"
      using True t del by (subst discard_oldest.simps) simp
    ultimately show ?thesis using True t by (simp add: Suc_diff_le online_weight_count_def)
  next
    case False
    then show ?thesis by (subst discard_oldest.simps) (simp add: online_weight_count_def)
  qed
qed

lemma ledger_weight_frame: "ledger_weight L a = (w, L') \<Longrightarrow> ledger_store L' = ledger_store L \<and> cache L' = cache L"
  by (auto simp: ledger_weight_def split: if_splits option.splits)

lemma sum_weights_frame: "sum_weights as L = (t, L') \<Longrightarrow> ledger_store L' = ledger_store L \<and> cache L' = cache L"
  by (induction as arbitrary: t L L') (fastforce simp: Let_def split: prod.splits dest: ledger_weight_frame)+

lemma sample_ok:
  assumes "0 < n" "table_ok (online_weight (ledger_store L))"
  shows "\<exists>L' R' w. sample n now (L, R) = Some (L', R') \<and> cache L' = cache L
    \<and> ledger_store L' = online_weight_put ((ledger_store L)\<lparr>online_weight := drop (Suc (length (online_weight (ledger_store L))) - n) (online_weight (ledger_store L))\<rparr>) now w
    \<and> online_accounts R' = [] \<and> online_minimum R' = online_minimum R
    \<and> online_trended R' = online_trend (online_minimum R) (ledger_store L')"
proof -
  let ?s = "(ledger_store L)\<lparr>online_weight := drop (Suc (length (online_weight (ledger_store L))) - n) (online_weight (ledger_store L))\<rparr>"
  obtain w L1 where w: "sum_weights (online_accounts R) (L\<lparr>ledger_store := ?s\<rparr>) = (w, L1)" by fastforce
  from sum_weights_frame [OF this] show ?thesis
    using discard_oldest_keeps [OF assms] w by (auto simp: sample_def on_store_def in_store_def)
qed

lemma drop_table_ok: "table_ok t \<Longrightarrow> table_ok (drop k t)"
  by (simp add: table_ok_def drop_map [symmetric] sorted_wrt_drop)

lemma sample_bounds:
  assumes "0 < n" "table_ok (online_weight (ledger_store L))"
  shows "\<exists>L' R'. sample n now (L, R) = Some (L', R') \<and> online_list R' = []
    \<and> length (online_weight (ledger_store L')) \<le> n \<and> table_ok (online_weight (ledger_store L'))
    \<and> online_minimum R \<le> stake_online R'
    \<and> (\<forall>lo hi. let items = online_minimum R # map snd (online_weight (ledger_store L')) in
         length items < 2 * length (filter (\<lambda>x. lo \<le> x \<and> x \<le> hi) items) \<longrightarrow> lo \<le> online_trended R' \<and> online_trended R' \<le> hi)"
proof -
  let ?t = "drop (Suc (length (online_weight (ledger_store L))) - n) (online_weight (ledger_store L))"
  obtain L' R' w where s: "sample n now (L, R) = Some (L', R')" "online_weight (ledger_store L') = table_put ?t now w"
      "online_accounts R' = []" "online_minimum R' = online_minimum R"
      "online_trended R' = online_trend (online_minimum R) (ledger_store L')"
    using sample_ok [OF assms, of now R] by (auto simp: online_weight_put_def)
  have ok: "table_ok ?t" by (rule drop_table_ok [OF assms(2)])
  have "length ?t < n" using assms(1) by auto
  then have len: "length (table_put ?t now w) \<le> n" using length_table_put [OF ok, of now w] by simp
  have middle: "lo \<le> online_trended R' \<and> online_trended R' \<le> hi"
    if "length (online_minimum R # map snd (online_weight (ledger_store L')))
      < 2 * length (filter (\<lambda>x. lo \<le> x \<and> x \<le> hi) (online_minimum R # map snd (online_weight (ledger_store L'))))" for lo hi
    using middle_in_interval [OF _ that] s(5) unfolding online_trend_def Let_def by simp
  show ?thesis
  proof (intro exI conjI allI)
    show "sample n now (L, R) = Some (L', R')" by (rule s(1))
    show "let items = online_minimum R # map snd (online_weight (ledger_store L')) in
      length items < 2 * length (filter (\<lambda>x. lo \<le> x \<and> x \<le> hi) items) \<longrightarrow> lo \<le> online_trended R' \<and> online_trended R' \<le> hi" for lo hi
      unfolding Let_def using middle by blast
  qed (use s(2-4) ok len in \<open>simp_all add: stake_online_def online_list_def\<close>)
qed

end
