(* ===== verification/Gap_Cache.thy ===== *)
theory Gap_Cache
  imports Votes Online_Reps
begin

text \<open>
  The cache of gaps (node/gap_cache.cpp): blocks that wait for a missing block, with the representatives that
  voted for them. The container is ordered by arrival with unique hashes; it is a list in the order of
  the arrival index. \<open>None\<close> does not occur: every operation is total.
\<close>

section \<open>The code\<close>

record gap_information =
  gap_arrival :: int
  gap_hash :: block_hash
  gap_voters :: "account list"
  bootstrap_started :: bool

type_synonym gap_cache = "gap_information list"

record gap_config =
  disable_lazy_bootstrap :: bool
  disable_legacy_bootstrap :: bool
  gap_weight_minimum :: u128
  gap_online_stake :: u128
  bootstrap_fraction_numerator :: u32

definition max_gaps :: nat where
  "max_gaps = 256"

definition gap_find :: "block_hash \<Rightarrow> gap_cache \<Rightarrow> gap_information option" where
  "gap_find h c = find (\<lambda>g. gap_hash g = h) c"

text \<open>\<open>emplace\<close> into the index: after the entries that arrived no later.\<close>

definition gap_insert :: "gap_information \<Rightarrow> gap_cache \<Rightarrow> gap_cache" where
  "gap_insert g c = takeWhile (\<lambda>x. gap_arrival x \<le> gap_arrival g) c @ [g] @ dropWhile (\<lambda>x. gap_arrival x \<le> gap_arrival g) c"

text \<open>\<open>modify\<close>: an entry that is still in order keeps its place, otherwise it is linked anew.\<close>

definition gap_modify :: "(gap_information \<Rightarrow> gap_information) \<Rightarrow> gap_information \<Rightarrow> gap_cache \<Rightarrow> gap_cache" where
  "gap_modify f g c =
     (let c' = map (\<lambda>x. if gap_hash x = gap_hash g then f x else x) c in
      if sorted (map gap_arrival c') then c' else gap_insert (f g) (filter (\<lambda>x. gap_hash x \<noteq> gap_hash g) c))"

definition gap_add :: "block_hash \<Rightarrow> int \<Rightarrow> gap_cache \<Rightarrow> gap_cache" where
  "gap_add h t c = (case gap_find h c of
     Some g \<Rightarrow> gap_modify (\<lambda>g. g\<lparr>gap_arrival := t\<rparr>) g c
   | None \<Rightarrow> let c = gap_insert \<lparr>gap_arrival = t, gap_hash = h, gap_voters = [], bootstrap_started = False\<rparr> c in
       if length c > max_gaps then tl c else c)"

definition gap_erase :: "block_hash \<Rightarrow> gap_cache \<Rightarrow> gap_cache" where
  "gap_erase h c = filter (\<lambda>g. gap_hash g \<noteq> h) c"

definition bootstrap_threshold :: "gap_config \<Rightarrow> u128" where
  "bootstrap_threshold G = (gap_online_stake G div 256) * ucast (bootstrap_fraction_numerator G)"

text \<open>Whether the voters suffice, and whether the alarm is set that looks at the block again later.\<close>

definition bootstrap_check :: "gap_config \<Rightarrow> account list \<Rightarrow> block_hash \<Rightarrow> ledger \<Rightarrow> bool \<times> bool \<times> ledger" where
  "bootstrap_check G voters h L =
     (let (tally, L) = sum_weights voters L;
          start = (if \<not> disable_lazy_bootstrap G then tally \<ge> gap_weight_minimum G
                   else \<not> disable_legacy_bootstrap G \<and> tally > bootstrap_threshold G) in
      (start, start \<and> \<not> block_exists (ledger_store L) h, L))"

datatype bootstrap_call = Bootstrap_lazy block_hash | Bootstrap_legacy

definition bootstrap_alarm :: "gap_config \<Rightarrow> block_hash \<Rightarrow> ledger \<Rightarrow> bootstrap_call list" where
  "bootstrap_alarm G h L =
     (if block_exists (ledger_store L) h then []
      else if \<not> disable_lazy_bootstrap G then [Bootstrap_lazy h]
      else if \<not> disable_legacy_bootstrap G then [Bootstrap_legacy] else [])"

text \<open>One hash of a vote; the result lists the alarms that were set.\<close>

definition gap_vote_hash :: "gap_config \<Rightarrow> account \<Rightarrow> block_hash \<Rightarrow> gap_cache \<times> ledger \<Rightarrow> (gap_cache \<times> ledger) \<times> block_hash list" where
  "gap_vote_hash G a h cL = (let (c, L) = cL in
     case gap_find h c of None \<Rightarrow> (cL, [])
     | Some g \<Rightarrow>
         if bootstrap_started g \<or> a \<in> set (gap_voters g) then (cL, [])
         else let g' = g\<lparr>gap_voters := gap_voters g @ [a]\<rparr>;
                  c = gap_modify (\<lambda>_. g') g c;
                  (start, alarm, L) = bootstrap_check G (gap_voters g') h L in
              ((if start then gap_modify (\<lambda>_. g'\<lparr>bootstrap_started := True\<rparr>) g' c else c, L), if alarm then [h] else []))"

fun gap_vote_hashes :: "gap_config \<Rightarrow> account \<Rightarrow> block_hash list \<Rightarrow> gap_cache \<times> ledger \<Rightarrow> (gap_cache \<times> ledger) \<times> block_hash list" where
  "gap_vote_hashes G a [] cL = (cL, [])"
| "gap_vote_hashes G a (h # hs) cL =
     (let (cL, as) = gap_vote_hash G a h cL; (cL, as') = gap_vote_hashes G a hs cL in (cL, as @ as'))"

definition gap_vote :: "crypto \<Rightarrow> gap_config \<Rightarrow> vote \<Rightarrow> gap_cache \<times> ledger \<Rightarrow> (gap_cache \<times> ledger) \<times> block_hash list" where
  "gap_vote C G v cL = gap_vote_hashes G (vote_account v) (vote_hashes C v) cL"

definition gap_size :: "gap_cache \<Rightarrow> nat" where
  "gap_size c = length c"

section \<open>The invariant\<close>

definition gaps_ok :: "gap_cache \<Rightarrow> bool" where
  "gaps_ok c = (sorted (map gap_arrival c) \<and> distinct (map gap_hash c) \<and> length c \<le> max_gaps
     \<and> (\<forall>g \<in> set c. distinct (gap_voters g)))"

lemma gap_insert_split: "\<exists>xs ys. c = xs @ ys \<and> gap_insert g c = xs @ g # ys"
  unfolding gap_insert_def by (metis append_Cons append_Nil takeWhile_dropWhile_id)

lemma set_gap_insert [simp]: "set (gap_insert g c) = insert g (set c)"
  and length_gap_insert [simp]: "length (gap_insert g c) = Suc (length c)"
  and distinct_gap_insert: "distinct (map gap_hash (gap_insert g c)) \<longleftrightarrow> gap_hash g \<notin> gap_hash ` set c \<and> distinct (map gap_hash c)"
  using gap_insert_split [of c g] by auto

lemma sorted_gap_insert:
  assumes "sorted (map gap_arrival c)"
  shows "sorted (map gap_arrival (gap_insert g c))"
  using assms by (induction c) (auto simp: gap_insert_def dest: set_takeWhileD set_dropWhileD)

lemma gap_find_iff:
  assumes "distinct (map gap_hash c)"
  shows "gap_find h c = Some g \<longleftrightarrow> g \<in> set c \<and> gap_hash g = h"
  using assms unfolding gap_find_def by (induction c) (auto split: if_splits simp: rev_image_eqI)

lemma gap_find_None: "gap_find h c = None \<longleftrightarrow> h \<notin> gap_hash ` set c"
  by (auto simp: gap_find_def find_None_iff)

text \<open>Changing one entry, with its hash kept.\<close>

lemma gap_modify_set:
  assumes "distinct (map gap_hash c)" "g \<in> set c"
  shows "set (gap_modify f g c) = insert (f g) {x \<in> set c. gap_hash x \<noteq> gap_hash g}"
proof -
  have "x = g" if "x \<in> set c" "gap_hash x = gap_hash g" for x
    using that assms by (auto simp: distinct_map inj_on_def)
  then show ?thesis using assms(2) by (auto simp: gap_modify_def Let_def image_iff)
qed

lemma gap_modify_ok:
  assumes ok: "gaps_ok c" and g: "g \<in> set c" and f: "\<And>x. gap_hash x = gap_hash g \<Longrightarrow> gap_hash (f x) = gap_hash g" "distinct (gap_voters (f g))"
  shows "gaps_ok (gap_modify f g c)"
proof -
  note d = ok [unfolded gaps_ok_def]
  let ?c = "map (\<lambda>x. if gap_hash x = gap_hash g then f x else x) c" and ?r = "filter (\<lambda>x. gap_hash x \<noteq> gap_hash g) c"
  have hashes: "map gap_hash ?c = map gap_hash c" using f(1) by auto
  have voters: "\<forall>x \<in> set (gap_modify f g c). distinct (gap_voters x)"
    using gap_modify_set [of c g f] d g f(2) by auto
  have "length ?r < length c" using g by (intro length_filter_less [of g]) auto
  then have "gaps_ok (gap_insert (f g) ?r)" if "\<not> sorted (map gap_arrival ?c)"
    using d f(1) voters that by (auto simp: gaps_ok_def gap_modify_def Let_def distinct_gap_insert distinct_map_filter sorted_filter intro!: sorted_gap_insert)
  moreover have "gaps_ok ?c" if "sorted (map gap_arrival ?c)"
    unfolding gaps_ok_def hashes using d voters that by (simp add: gap_modify_def)
  ultimately show ?thesis unfolding gap_modify_def Let_def by simp
qed

text \<open>Adding keeps every gap but, when the cache is full, the one that arrived first.\<close>

lemma gap_add_ok:
  assumes ok: "gaps_ok c"
  shows "gaps_ok (gap_add h t c)"
proof (cases "gap_find h c")
  case (Some g)
  then have "g \<in> set c" "gap_hash g = h" using gap_find_iff ok by (auto simp: gaps_ok_def)
  moreover from this have "distinct (gap_voters g)" using ok by (simp add: gaps_ok_def)
  ultimately show ?thesis using gap_modify_ok [OF ok, of g "gap_arrival_update (\<lambda>_. t)"] Some by (simp add: gap_add_def)
next
  case None
  let ?c = "gap_insert \<lparr>gap_arrival = t, gap_hash = h, gap_voters = [], bootstrap_started = False\<rparr> c"
  have "sorted (map gap_arrival ?c)" "distinct (map gap_hash ?c)" "\<forall>g \<in> set ?c. distinct (gap_voters g)"
    using ok None by (auto simp: gaps_ok_def gap_find_None distinct_gap_insert intro: sorted_gap_insert)
  moreover have "gaps_ok (tl ?c)" if "sorted (map gap_arrival ?c)" "distinct (map gap_hash ?c)" "\<forall>g \<in> set ?c. distinct (gap_voters g)"
  proof -
    obtain y ys where "?c = y # ys" by (metis length_Suc_conv length_gap_insert)
    moreover from this have "length ys = length c" by (metis Suc_inject length_Cons length_gap_insert)
    ultimately show ?thesis using that ok by (simp add: gaps_ok_def)
  qed
  ultimately show ?thesis using None by (simp add: gap_add_def gaps_ok_def Let_def)
qed

lemma gap_add_keeps:
  assumes ok: "gaps_ok c" and x: "x \<in> set c" "gap_hash x \<noteq> h"
  shows "x \<in> set (gap_add h t c) \<or> (length c = max_gaps \<and> gap_arrival x \<le> t \<and> (\<forall>y \<in> set (gap_add h t c). gap_arrival x \<le> gap_arrival y))"
proof (cases "gap_find h c")
  case (Some g)
  then have "g \<in> set c" "gap_hash g = h" using gap_find_iff ok by (auto simp: gaps_ok_def)
  then show ?thesis using gap_modify_set [of c g] ok Some x by (auto simp: gap_add_def gaps_ok_def)
next
  case None
  let ?g = "\<lparr>gap_arrival = t, gap_hash = h, gap_voters = [], bootstrap_started = False\<rparr>"
  let ?c = "gap_insert ?g c"
  have sorted: "sorted (map gap_arrival ?c)" using ok by (simp add: gaps_ok_def sorted_gap_insert)
  have set: "set ?c = insert ?g (set c)" by simp
  show ?thesis
  proof (cases "length ?c > max_gaps")
    case True
    obtain y ys where y: "?c = y # ys" by (metis length_Suc_conv length_gap_insert)
    have "x = y \<or> x \<in> set ys" using x set unfolding y by auto
    moreover have "gap_arrival y \<le> gap_arrival z" if "z \<in> set ys" for z using sorted that unfolding y by simp
    moreover have "length c = max_gaps" using True ok by (simp add: gaps_ok_def)
    moreover have "gap_arrival y \<le> t" using sorted set unfolding y by fastforce
    ultimately show ?thesis using True y None by (auto simp: gap_add_def)
  qed (use x None in \<open>auto simp: gap_add_def\<close>)
qed

lemma gap_erase_ok: "gaps_ok c \<Longrightarrow> gaps_ok (gap_erase h c)"
  by (auto simp: gaps_ok_def gap_erase_def sorted_filter distinct_map_filter intro: le_trans [OF length_filter_le])

lemma gap_vote_hash_ok:
  assumes ok: "gaps_ok c"
  shows "gaps_ok (fst (fst (gap_vote_hash G a h (c, L))))"
proof (cases "gap_find h c")
  case (Some g)
  then have g: "g \<in> set c" "gap_hash g = h" using gap_find_iff ok by (auto simp: gaps_ok_def)
  show ?thesis
  proof (cases "bootstrap_started g \<or> a \<in> set (gap_voters g)")
    case False
    let ?g = "g\<lparr>gap_voters := gap_voters g @ [a]\<rparr>"
    have voters: "distinct (gap_voters ?g)" using ok g False by (simp add: gaps_ok_def)
    have ok1: "gaps_ok (gap_modify (\<lambda>_. ?g) g c)" by (rule gap_modify_ok [OF ok g(1)]) (use voters in simp_all)
    have g1: "?g \<in> set (gap_modify (\<lambda>_. ?g) g c)" using gap_modify_set [OF _ g(1)] ok by (simp add: gaps_ok_def)
    have "gaps_ok (gap_modify (\<lambda>_. ?g\<lparr>bootstrap_started := True\<rparr>) ?g (gap_modify (\<lambda>_. ?g) g c))"
      by (rule gap_modify_ok [OF ok1 g1]) (use voters in simp_all)
    then show ?thesis using Some False ok1 by (simp add: gap_vote_hash_def Let_def split: prod.split)
  qed (use Some ok in \<open>simp add: gap_vote_hash_def\<close>)
qed (use ok in \<open>simp add: gap_vote_hash_def\<close>)

lemma gap_vote_ok:
  assumes "gaps_ok c"
  shows "gaps_ok (fst (fst (gap_vote C G v (c, L))))"
proof -
  have "gaps_ok (fst (fst (gap_vote_hashes G a hs (c, L))))" for a hs
    using assms
  proof (induction hs arbitrary: c L)
    case (Cons h hs)
    obtain c' L' as where "gap_vote_hash G a h (c, L) = ((c', L'), as)" by (metis surj_pair)
    then show ?case using Cons.IH [of c' L'] gap_vote_hash_ok [OF Cons.prems, of G a h L]
      by (cases "gap_vote_hashes G a hs (c', L')") auto
  qed simp
  then show ?thesis by (simp add: gap_vote_def)
qed

end
