(* ===== verification/Block_Processor.thy ===== *)
theory Block_Processor
  imports Ledger_Life Gap_Cache
begin

text \<open>
  The block processor (node/blockprocessor.cpp) and the verification of signatures in front of it
  (node/state_block_signature_verification.cpp): the queues of blocks that arrived, the loop that hands them to
  the ledger, blocks that wait for a missing one in the unchecked table, and forced blocks, which replace a
  block of the ledger.

  \<^item> What it reads of the rest of the node is the record \<open>processor_view\<close>, what it makes the node do (elections,
    network, wallet work, bootstrap) is a list of \<open>processor_effect\<close>.
  \<^item> The signature checker returns for every block whether its signature is valid.
  \<^item> Logging and the websocket are left out.
  \<^item> \<open>None\<close> is a failed \<open>release_assert\<close> or an abort of the ledger.
\<close>

section \<open>The code\<close>

fun verification_code :: "signature_verification \<Rightarrow> u8" where
  "verification_code Sig_unknown = 0"
| "verification_code Sig_invalid = 1"
| "verification_code Sig_valid = 2"
| "verification_code Sig_valid_epoch = 3"

definition verification_of :: "u8 \<Rightarrow> signature_verification" where
  "verification_of n = (if n = 0 then Sig_unknown else if n = 2 then Sig_valid else if n = 3 then Sig_valid_epoch else Sig_invalid)"

datatype block_origin = Origin_local | Origin_remote

datatype processor_effect =
    Watcher_add block
  | Watcher_remove block
  | Active_insert block "amount option"
  | Transition_passive block
  | Transition_active block
  | Try_generate_votes block_hash
  | Flood_block_initial block
  | Flood_block_dropped block
  | Votes_cache_remove block_hash
  | Active_erase block
  | Active_publish block
  | Update_difficulty block
  | Restart_election block
  | Lazy_requeue block_hash block_hash bool
  | Arrival_add block_hash

record processor_view =
  view_env :: env
  seconds_now :: u64
  steady_clock_now :: int
  arrival_recent :: "block_hash \<Rightarrow> bool"
  insert_inserted :: "block \<Rightarrow> bool"
  insert_election :: "block \<Rightarrow> bool"
  difficulty_updated :: "block \<Rightarrow> bool"
  election_restarted :: "block \<Rightarrow> bool"
  being_confirmed :: "block_hash \<Rightarrow> bool"

record processor_flags =
  block_processor_full_size :: nat
  block_processor_batch_size :: nat
  disable_block_processor_unchecked_deletion :: bool
  disable_block_processor_republishing :: bool

record live_event =
  live_hash :: block_hash
  live_block :: block
  live_result :: process_return
  live_watch_work :: bool
  live_origin :: block_origin

record block_processor =
  bp_ledger :: ledger
  bp_blocks :: "unchecked_info list"
  bp_forced :: "block list"
  bp_state_blocks :: "unchecked_info list"
  bp_awaiting_write :: bool
  bp_gap_cache :: gap_cache
  bp_events :: "live_event list"
  bp_effects :: "processor_effect list"

abbreviation block_hash_of :: "env \<Rightarrow> block \<Rightarrow> block_hash" where
  "block_hash_of E b \<equiv> generate_hash (crypto_fns E) b"

definition new_block_processor :: "ledger \<Rightarrow> block_processor" where
  "new_block_processor L = \<lparr>bp_ledger = L, bp_blocks = [], bp_forced = [], bp_state_blocks = [], bp_awaiting_write = False,
     bp_gap_cache = [], bp_events = [], bp_effects = []\<rparr>"

definition effects :: "processor_effect list \<Rightarrow> block_processor \<Rightarrow> block_processor" where
  "effects es P = P\<lparr>bp_effects := bp_effects P @ es\<rparr>"

definition bp_size :: "block_processor \<Rightarrow> nat" where
  "bp_size P = length (bp_blocks P) + length (bp_state_blocks P) + length (bp_forced P)"

definition bp_full :: "processor_flags \<Rightarrow> block_processor \<Rightarrow> bool" where
  "bp_full F P = (bp_size P \<ge> block_processor_full_size F)"

definition bp_half_full :: "processor_flags \<Rightarrow> block_processor \<Rightarrow> bool" where
  "bp_half_full F P = (bp_size P \<ge> block_processor_full_size F div 2)"

definition bp_have_blocks :: "block_processor \<Rightarrow> bool" where
  "bp_have_blocks P = (bp_blocks P \<noteq> [] \<or> bp_forced P \<noteq> [] \<or> bp_state_blocks P \<noteq> [])"

definition make_unchecked_info :: "block \<Rightarrow> account \<Rightarrow> u64 \<Rightarrow> signature_verification \<Rightarrow> unchecked_info" where
  "make_unchecked_info b a t v = \<lparr>unchecked_block = b, unchecked_account = a, unchecked_modified = t,
     unchecked_verified = verification_code v, unchecked_confirmed = False\<rparr>"

definition needs_verification :: "unchecked_info \<Rightarrow> bool" where
  "needs_verification u = (verification_of (unchecked_verified u) = Sig_unknown
     \<and> (type_of (unchecked_block u) = State_type \<or> type_of (unchecked_block u) = Open_type \<or> unchecked_account u \<noteq> 0))"

definition bp_add_info :: "processor_flags \<Rightarrow> unchecked_info \<Rightarrow> bool \<Rightarrow> block_processor \<Rightarrow> block_processor" where
  "bp_add_info F u push_front_preference P =
     (let quarter_full = bp_size P > block_processor_full_size F div 4 in
      if needs_verification u then P\<lparr>bp_state_blocks := bp_state_blocks P @ [u]\<rparr>
      else if push_front_preference \<and> \<not> quarter_full then P\<lparr>bp_blocks := u # bp_blocks P\<rparr>
      else P\<lparr>bp_blocks := bp_blocks P @ [u]\<rparr>)"

definition bp_add :: "processor_flags \<Rightarrow> block \<Rightarrow> u64 \<Rightarrow> block_processor \<Rightarrow> block_processor" where
  "bp_add F b origination P = bp_add_info F (make_unchecked_info b 0 origination Sig_unknown) False P"

definition bp_force :: "block \<Rightarrow> block_processor \<Rightarrow> block_processor" where
  "bp_force b P = P\<lparr>bp_forced := bp_forced P @ [b]\<rparr>"

definition bp_wait_write :: "block_processor \<Rightarrow> block_processor" where
  "bp_wait_write P = P\<lparr>bp_awaiting_write := True\<rparr>"

definition requeue_invalid :: "block_hash \<Rightarrow> unchecked_info \<Rightarrow> block_processor \<Rightarrow> block_processor" where
  "requeue_invalid h u P = effects [Lazy_requeue h (block_previous (unchecked_block u)) (unchecked_confirmed u)] P"

subsection \<open>Verification of signatures\<close>

definition setup_items :: "nat \<Rightarrow> block_processor \<Rightarrow> unchecked_info list \<times> block_processor" where
  "setup_items max_count P = (take max_count (bp_state_blocks P), P\<lparr>bp_state_blocks := drop max_count (bp_state_blocks P)\<rparr>)"

definition has_epoch_link :: "env \<Rightarrow> block \<Rightarrow> bool" where
  "has_epoch_link E b = (block_link b \<noteq> 0 \<and> ledger_is_epoch_link E (block_link b))"

definition verification_account :: "env \<Rightarrow> unchecked_info \<Rightarrow> account option" where
  "verification_account E u =
     (let b = unchecked_block u in
      if has_epoch_link E b then ledger_epoch_signer E (block_link b)
      else if unchecked_account u \<noteq> 0 then Some (unchecked_account u) else Some (block_account b))"

definition verify_item :: "env \<Rightarrow> unchecked_info \<Rightarrow> bool option" where
  "verify_item E u = do {
     a \<leftarrow> verification_account E u;
     Some (\<not> validate_message (crypto_fns E) a (block_hash_of E (unchecked_block u)) (block_signature (unchecked_block u))) }"

definition process_verified :: "env \<Rightarrow> unchecked_info \<Rightarrow> bool \<Rightarrow> block_processor \<Rightarrow> block_processor" where
  "process_verified E u ok P =
     (let push = (\<lambda>v. P\<lparr>bp_blocks := bp_blocks P @ [u\<lparr>unchecked_verified := verification_code v\<rparr>]\<rparr>) in
      if has_epoch_link E (unchecked_block u) then push (if ok then Sig_valid_epoch else Sig_unknown)
      else if ok then push Sig_valid
      else requeue_invalid (block_hash_of E (unchecked_block u)) u P)"

fun process_verified_state_blocks :: "env \<Rightarrow> unchecked_info list \<Rightarrow> bool list \<Rightarrow> block_processor \<Rightarrow> block_processor" where
  "process_verified_state_blocks E (u # us) (v # vs) P = process_verified_state_blocks E us vs (process_verified E u v P)"
| "process_verified_state_blocks E us vs P = P"

definition verify_state_blocks :: "env \<Rightarrow> nat \<Rightarrow> block_processor \<Rightarrow> block_processor option" where
  "verify_state_blocks E max_count P = (let (items, P) = setup_items max_count P in do {
     vs \<leftarrow> those (map (verify_item E) items);
     Some (process_verified_state_blocks E items vs P) })"

subsection \<open>Unchecked blocks\<close>

definition unchecked_count_add :: "u64 \<Rightarrow> ledger \<Rightarrow> ledger" where
  "unchecked_count_add n L = L\<lparr>cache := (cache L)\<lparr>cache_unchecked_count := cache_unchecked_count (cache L) + n\<rparr>\<rparr>"

definition on_ledger :: "(ledger \<Rightarrow> ledger) \<Rightarrow> block_processor \<Rightarrow> block_processor" where
  "on_ledger f P = P\<lparr>bp_ledger := f (bp_ledger P)\<rparr>"

text \<open>A block with a gap waits under the hash that is missing.\<close>

definition put_unchecked ::
    "processor_view \<Rightarrow> block_hash \<Rightarrow> block_hash \<Rightarrow> unchecked_info \<Rightarrow> process_return \<Rightarrow> stat_detail \<Rightarrow> block_processor \<Rightarrow> block_processor" where
  "put_unchecked V missing hash u r d P =
     (let u = u\<lparr>unchecked_verified := verification_code (verified r),
                unchecked_modified := (if unchecked_modified u = 0 then seconds_now V else unchecked_modified u)\<rparr>;
          exists = unchecked_exists (ledger_store (bp_ledger P)) (missing, hash);
          P = on_ledger (in_store (\<lambda>s. unchecked_put s (missing, hash) u)) P;
          P = (if exists then P else on_ledger (unchecked_count_add 1) P);
          P = P\<lparr>bp_gap_cache := gap_add hash (steady_clock_now V) (bp_gap_cache P)\<rparr> in
      on_ledger (stats_inc Stat_ledger d) P)"

fun requeue_unchecked :: "processor_flags \<Rightarrow> env \<Rightarrow> block_hash \<Rightarrow> unchecked_info list \<Rightarrow> block_processor \<Rightarrow> block_processor option" where
  "requeue_unchecked F E h [] P = Some P"
| "requeue_unchecked F E h (u # us) P = do {
     P \<leftarrow> (if disable_block_processor_unchecked_deletion F then Some P
          else do {
            L \<leftarrow> on_store (\<lambda>s. unchecked_del s (h, block_hash_of E (unchecked_block u))) (bp_ledger P);
            Some (P\<lparr>bp_ledger := unchecked_count_add (- 1) L\<rparr>) });
     requeue_unchecked F E h us (bp_add_info F u True P) }"

definition queue_unchecked :: "processor_flags \<Rightarrow> env \<Rightarrow> block_hash \<Rightarrow> block_processor \<Rightarrow> block_processor option" where
  "queue_unchecked F E h P = do {
     P \<leftarrow> requeue_unchecked F E h (unchecked_get (ledger_store (bp_ledger P)) h) P;
     Some (P\<lparr>bp_gap_cache := gap_erase h (bp_gap_cache P)\<rparr>) }"

subsection \<open>Processing one block\<close>

definition process_live :: "processor_flags \<Rightarrow> processor_view \<Rightarrow> live_event \<Rightarrow> ledger \<Rightarrow> processor_effect list option" where
  "process_live F V e L = (let b = live_block e in do {
     election \<leftarrow> (if live_watch_work e then Some True else can_vote (view_env V) L b);
     Some ((if live_watch_work e then [Watcher_add b] else [])
       @ (if election then Active_insert b (ret_previous_balance (live_result e)) #
            (if insert_inserted V b then [Transition_passive b]
             else if insert_election V b then [Try_generate_votes (live_hash e)] else []) else [])
       @ (if live_origin e = Origin_local then [Flood_block_initial b]
          else if \<not> disable_block_processor_republishing F then [Flood_block_dropped b] else [])) })"

definition process_old :: "processor_view \<Rightarrow> block \<Rightarrow> block_origin \<Rightarrow> processor_effect list" where
  "process_old V b origin =
     Update_difficulty b #
     (if difficulty_updated V b then [Restart_election b] else [])
     @ (if (\<not> difficulty_updated V b \<or> \<not> election_restarted V b) \<and> origin = Origin_local then [Flood_block_initial b] else [])"

text \<open>\<open>node::process_fork\<close>\<close>

definition process_fork :: "processor_view \<Rightarrow> block \<Rightarrow> u64 \<Rightarrow> ledger \<Rightarrow> processor_effect list option" where
  "process_fork V b mdf L =
     (let E = view_env V; s = ledger_store L in
      if \<not> block_exists_type s (type_of b) (block_hash_of E b) \<and> root_exists s (block_root b) then do {
        es \<leftarrow> (case forked_block L b of
            None \<Rightarrow> Some []
          | Some lb \<Rightarrow> do {
              confirmed \<leftarrow> (if being_confirmed V (block_hash_of E lb) then Some True else block_confirmed L (block_hash_of E lb));
              if confirmed then Some []
              else do {
                votes \<leftarrow> can_vote E L lb;
                Some (if votes \<or> mdf < seconds_now V - 300 \<or> \<not> arrival_recent V (block_hash_of E b)
                  then Active_insert lb None # (if insert_inserted V lb then [Transition_active lb] else []) else []) } });
        Some (es @ [Active_publish b]) }
      else Some [])"

definition bp_process_one ::
    "processor_flags \<Rightarrow> processor_view \<Rightarrow> unchecked_info \<Rightarrow> bool \<Rightarrow> block_origin \<Rightarrow> block_processor
      \<Rightarrow> (block_processor \<times> process_return) option" where
  "bp_process_one F V u watch_work origin P = (let E = view_env V; hash = block_hash_of E (unchecked_block u) in do {
     (L, b, r) \<leftarrow> process E (bp_ledger P) (unchecked_block u) (verification_of (unchecked_verified u));
     let P = P\<lparr>bp_ledger := L\<rparr>;
     P \<leftarrow> (case code r of
         progress \<Rightarrow>
           if unchecked_account u \<noteq> 0 \<and> ret_account r \<noteq> Some (unchecked_account u) then None
           else queue_unchecked F E hash
             (if unchecked_modified u > seconds_now V - 300 \<and> arrival_recent V hash
              then P\<lparr>bp_events := bp_events P @ [\<lparr>live_hash = hash, live_block = b, live_result = r, live_watch_work = watch_work, live_origin = origin\<rparr>]\<rparr>
              else P)
       | gap_previous \<Rightarrow> Some (put_unchecked V (block_previous (unchecked_block u)) hash u r Detail_gap_previous P)
       | gap_source \<Rightarrow> do {
           source \<leftarrow> ledger_block_source L (unchecked_block u);
           Some (put_unchecked V source hash u r Detail_gap_source P) }
       | old \<Rightarrow> Some (on_ledger (stats_inc Stat_ledger Detail_old) (effects (process_old V b origin) P))
       | bad_signature \<Rightarrow> Some (requeue_invalid hash u P)
       | fork \<Rightarrow> do {
           es \<leftarrow> process_fork V b (unchecked_modified u) L;
           Some (on_ledger (stats_inc Stat_ledger Detail_fork) (effects es P)) }
       | _ \<Rightarrow> Some P);
     Some (P, r) })"

definition bp_process_block ::
    "processor_flags \<Rightarrow> processor_view \<Rightarrow> block \<Rightarrow> bool \<Rightarrow> block_processor \<Rightarrow> (block_processor \<times> process_return) option" where
  "bp_process_block F V b watch_work P =
     bp_process_one F V (make_unchecked_info b (block_account b) 0 Sig_unknown) watch_work Origin_remote P"

subsection \<open>Batches\<close>

text \<open>A forced block replaces the block of the ledger with its root; \<open>n\<close> rounds for \<open>rollback\<close>.\<close>

definition replace_forced :: "nat \<Rightarrow> env \<Rightarrow> block \<Rightarrow> block_processor \<Rightarrow> block_processor option" where
  "replace_forced n E b P =
     (case ledger_successor (bp_ledger P) (qualified_root b) of
        None \<Rightarrow> Some P
      | Some old_block \<Rightarrow>
          let old_hash = block_hash_of E old_block in
          if old_hash = block_hash_of E b then Some P
          else do {
            (L, rollback_list, err) \<leftarrow> rollback n E (bp_ledger P) old_hash [];
            Some (effects (concat (map (\<lambda>i. [Votes_cache_remove (block_hash_of E i), Watcher_remove i]
                @ (if block_hash_of E i \<noteq> old_hash then [Active_erase i] else [])) rollback_list)) (P\<lparr>bp_ledger := L\<rparr>)) })"

definition next_item :: "nat \<Rightarrow> processor_view \<Rightarrow> block_processor \<Rightarrow> (unchecked_info \<times> block_processor) option" where
  "next_item n V P = (case bp_forced P of
     [] \<Rightarrow> (case bp_blocks P of [] \<Rightarrow> None | u # us \<Rightarrow> Some (u, P\<lparr>bp_blocks := us\<rparr>))
   | b # bs \<Rightarrow> do {
       P \<leftarrow> replace_forced n (view_env V) b (P\<lparr>bp_forced := bs\<rparr>);
       Some (make_unchecked_info b 0 (seconds_now V) Sig_unknown, P) })"

definition batch_iteration :: "nat \<Rightarrow> processor_flags \<Rightarrow> processor_view \<Rightarrow> block_processor \<Rightarrow> block_processor option" where
  "batch_iteration n F V P = do {
     (u, P) \<leftarrow> next_item n V P;
     (P, r) \<leftarrow> bp_process_one F V u False Origin_remote P;
     Some P }"

text \<open>The loop; \<open>before_deadline i\<close> is the timer at the check before iteration \<open>i\<close>.\<close>

partial_function (option) batch_loop ::
    "nat \<Rightarrow> processor_flags \<Rightarrow> (nat \<Rightarrow> processor_view) \<Rightarrow> (nat \<Rightarrow> bool) \<Rightarrow> nat \<Rightarrow> block_processor \<Rightarrow> block_processor option" where
  "batch_loop n F V before_deadline i P =
     (if (bp_blocks P \<noteq> [] \<or> bp_forced P \<noteq> []) \<and> (before_deadline i \<or> i < block_processor_batch_size F) \<and> \<not> bp_awaiting_write P
      then do { P \<leftarrow> batch_iteration n F (V i) P; batch_loop n F V before_deadline (Suc i) P }
      else Some P)"

text \<open>The events run after the transaction is committed.\<close>

fun run_events :: "processor_flags \<Rightarrow> processor_view \<Rightarrow> live_event list \<Rightarrow> block_processor \<Rightarrow> block_processor option" where
  "run_events F V [] P = Some P"
| "run_events F V (e # es) P = do {
     fx \<leftarrow> process_live F V e (bp_ledger P);
     run_events F V es (effects fx P) }"

definition process_batch ::
    "nat \<Rightarrow> processor_flags \<Rightarrow> (nat \<Rightarrow> processor_view) \<Rightarrow> (nat \<Rightarrow> bool) \<Rightarrow> processor_view \<Rightarrow> block_processor \<Rightarrow> block_processor option" where
  "process_batch n F V before_deadline W P = do {
     P \<leftarrow> batch_loop n F V before_deadline 0 (P\<lparr>bp_events := []\<rparr>);
     run_events F W (bp_events P) (P\<lparr>bp_awaiting_write := False, bp_events := []\<rparr>) }"

subsection \<open>Blocks of the node itself\<close>

text \<open>\<open>node::process_active\<close> and \<open>node::process_local\<close>, which has events of its own.\<close>

definition process_active :: "processor_flags \<Rightarrow> processor_view \<Rightarrow> block \<Rightarrow> block_processor \<Rightarrow> block_processor" where
  "process_active F V b P = bp_add F b (seconds_now V) (effects [Arrival_add (block_hash_of (view_env V) b)] P)"

definition process_local ::
    "processor_flags \<Rightarrow> processor_view \<Rightarrow> block \<Rightarrow> bool \<Rightarrow> block_processor \<Rightarrow> (block_processor \<times> process_return) option" where
  "process_local F V b work_watcher P = (let events = bp_events P in do {
     (P, r) \<leftarrow> bp_process_one F V (make_unchecked_info b (block_account b) (seconds_now V) Sig_unknown) work_watcher Origin_local
       ((bp_wait_write (effects [Arrival_add (block_hash_of (view_env V) b)] P))\<lparr>bp_events := []\<rparr>);
     P \<leftarrow> run_events F V (bp_events P) (P\<lparr>bp_events := events\<rparr>);
     Some (P, r) })"

end
