(* ===== verification/Block_Gaps.thy ===== *)
theory Block_Gaps
  imports Block_Processor Ledger_Checks
begin

text \<open>
  What the ledger says of a block it cannot place yet: which hash is missing, and what is known of its
  signature. A block that was found to be signed once is not checked again when it is processed later, so the
  mark on it has to mean the same then.
\<close>

section \<open>The missing block\<close>

definition gap_previous_post :: "store \<Rightarrow> block \<Rightarrow> ledger \<Rightarrow> block \<Rightarrow> process_return \<Rightarrow> bool" where
  "gap_previous_post s b L' b' r = (code r = gap_previous \<longrightarrow>
     block_get s (block_previous b) = None \<or> (\<exists>h. hashables b = State h \<and> account_get s (state_account h) = None))"

lemma state_position_gap:
  "state_position s h r = (r', amt, sending, rcv) \<Longrightarrow> code r' = gap_previous \<Longrightarrow>
     account_get s (state_account h) = None \<or> \<not> block_exists s (state_previous h)"
  by (auto simp: state_position_def Let_def split: option.splits if_splits)

lemma state_link_check_code: "state_link_check s h amt sending e = (c, e') \<Longrightarrow> c \<noteq> gap_previous"
  by (auto simp: state_link_check_def split: if_splits option.splits)

lemma validate_epoch_gap:
  "validate_epoch_block E L b h r = Some (eb, r') \<Longrightarrow> code r' \<noteq> code r \<Longrightarrow> code r = progress \<Longrightarrow>
     \<not> block_exists (ledger_store L) (state_previous h) \<and> code r' \<noteq> gap_source"
  by (auto simp: validate_epoch_block_def Let_def bind_eq_Some_conv split: if_splits)

lemma epoch_position_code: "epoch_position s h \<noteq> gap_previous" "epoch_position s h \<noteq> gap_source"
  by (auto simp: epoch_position_def split: option.splits)

lemma frontier_head:
  assumes "store_ok s" "frontier_get s h \<noteq> 0"
  shows "head (info_or_default (account_get s (frontier_get s h))) = h"
  using store_ok_frontier(1) [OF assms] by (auto simp: info_or_default_def)

lemma process_gap_previous:
  assumes ok: "store_ok (ledger_store L)"
  shows "outcome_post (gap_previous_post (ledger_store L) b) (process_visit E L b r)"
proof -
  let ?s = "ledger_store L"
  note ex = block_exists_iff
  have state: "outcome_post (gap_previous_post ?s b) (process_state_impl E L b h r)" if "hashables b = State h" for h r
    unfolding process_state_impl_def Let_def
    by (intro post_intros) (use that in \<open>auto simp: gap_previous_post_def block_previous_def ex dest: state_position_gap state_link_check_code\<close>)
  have epoch: "outcome_post (gap_previous_post ?s b) (process_epoch_impl E L b h r)" for h r
    unfolding process_epoch_impl_def Let_def
    by (intro post_intros) (auto simp: gap_previous_post_def epoch_position_code)
  have "outcome_post (gap_previous_post ?s b) (process_state E L b h r)" if "hashables b = State h" for h
    unfolding process_state_def Let_def
    by (intro post_intros state epoch that)
       (use that in \<open>auto simp: gap_previous_post_def block_previous_def ex dest!: validate_epoch_gap split: if_splits\<close>)
  moreover have "outcome_post (gap_previous_post ?s b) (process_send E L b h r)" if "hashables b = Send h" for h
    unfolding process_send_def Let_def
    by (intro post_intros) (use that in \<open>auto simp: gap_previous_post_def block_previous_def\<close>)
  moreover have "outcome_post (gap_previous_post ?s b) (process_receive E L b h r)" if "hashables b = Receive h" for h
    unfolding process_receive_def Let_def
    by (intro post_intros) (use that in \<open>auto simp: gap_previous_post_def block_previous_def ex frontier_head [OF ok]\<close>)
  moreover have "outcome_post (gap_previous_post ?s b) (process_open E L b h r)" for h
    unfolding process_open_def Let_def by (intro post_intros) (auto simp: gap_previous_post_def)
  moreover have "outcome_post (gap_previous_post ?s b) (process_change E L b h r)" if "hashables b = Change h" for h
    unfolding process_change_def Let_def
    by (intro post_intros) (use that in \<open>auto simp: gap_previous_post_def block_previous_def\<close>)
  ultimately show ?thesis by (simp add: process_visit_def split: block_hashables.split)
qed

definition gap_source_post :: "ledger \<Rightarrow> block \<Rightarrow> ledger \<Rightarrow> block \<Rightarrow> process_return \<Rightarrow> bool" where
  "gap_source_post L b L' b' r = (code r = gap_source \<longrightarrow>
     (\<exists>k. ledger_block_source L b = Some k \<and> \<not> source_exists (ledger_store L) k))"

lemma no_source_zero: "store_ok s \<Longrightarrow> \<not> source_exists s 0"
  using store_okD(1,6) [of s] block_exists_type_iff [of s] by (auto simp: source_exists_def)

text \<open>A state block that gets as far as its link: its predecessor is the head of the account.\<close>

lemma state_position_source:
  assumes ok: "store_ok (ledger_store L)" and h: "hashables b = State h"
    and pos: "state_position (ledger_store L) h r = (r', amt, sending, rcv)" "code r' = progress \<or> code r' = gap_source"
    and link: "\<not> source_exists (ledger_store L) (state_link h)"
  shows "\<exists>k. ledger_block_source L b = Some k \<and> \<not> source_exists (ledger_store L) k"
proof -
  have "\<exists>x. ledger_is_send L b h = Some x"
  proof (cases "account_get (ledger_store L) (state_account h)")
    case None
    then show ?thesis using pos by (auto simp: state_position_def Let_def ledger_is_send_def split: if_splits option.splits)
  next
    case (Some i)
    then have "state_previous h = head i" using pos by (auto simp: state_position_def Let_def split: if_splits)
    moreover have "block_balance (ledger_store L) (head i) = Some (info_balance i)"
      using store_ok_account [OF ok Some] by (simp add: account_ok_def)
    ultimately show ?thesis by (auto simp: ledger_is_send_def ledger_balance_def split: option.split)
  qed
  then show ?thesis
    using link no_source_zero [OF ok] h by (auto simp: ledger_block_source_def block_source_def)
qed

lemma state_position_code: "state_position s h r = (r', amt, sending, rcv) \<Longrightarrow> code r' = gap_source \<Longrightarrow> state_link h = 0"
  by (auto simp: state_position_def Let_def split: option.splits if_splits)

lemma state_link_check_gap: "state_link_check s h amt sending e = (gap_source, e') \<Longrightarrow> \<not> source_exists s (state_link h)"
  by (auto simp: state_link_check_def split: if_splits option.splits)

lemma state_gap_source:
  assumes "store_ok (ledger_store L)" "hashables b = State h" "state_position (ledger_store L) h r = (r', amt, sending, rcv)"
  shows "code r' = gap_source \<Longrightarrow> \<exists>k. ledger_block_source L b = Some k \<and> \<not> source_exists (ledger_store L) k"
    "code r' = progress \<Longrightarrow> state_link_check (ledger_store L) h amt sending e = (gap_source, e') \<Longrightarrow>
      \<exists>k. ledger_block_source L b = Some k \<and> \<not> source_exists (ledger_store L) k"
  using state_position_source [OF assms] state_position_code [OF assms(3)] no_source_zero [OF assms(1)] state_link_check_gap by auto

lemma process_gap_source:
  assumes ok: "store_ok (ledger_store L)"
  shows "outcome_post (gap_source_post L b) (process_visit E L b r)"
proof -
  let ?s = "ledger_store L"
  have state: "outcome_post (gap_source_post L b) (process_state_impl E L b h r)" if h: "hashables b = State h" for h r
    unfolding process_state_impl_def Let_def
    by (intro post_intros)
       (use state_gap_source [OF ok h] in \<open>auto simp: gap_source_post_def\<close>)
  have epoch: "outcome_post (gap_source_post L b) (process_epoch_impl E L b h r)" for h r
    unfolding process_epoch_impl_def Let_def
    by (intro post_intros) (auto simp: gap_source_post_def epoch_position_code)
  have "outcome_post (gap_source_post L b) (process_state E L b h r)" if "hashables b = State h" for h
    unfolding process_state_def Let_def
    by (intro post_intros state epoch that) (auto simp: gap_source_post_def dest!: validate_epoch_gap split: if_splits)
  moreover have "outcome_post (gap_source_post L b) (process_send E L b h r)" for h
    unfolding process_send_def Let_def by (intro post_intros) (auto simp: gap_source_post_def)
  moreover have "outcome_post (gap_source_post L b) (process_receive E L b h r)" if "hashables b = Receive h" for h
    unfolding process_receive_def Let_def
    by (intro post_intros) (use that in \<open>auto simp: gap_source_post_def ledger_block_source_def block_source_def\<close>)
  moreover have "outcome_post (gap_source_post L b) (process_open E L b h r)" if "hashables b = Open h" for h
    unfolding process_open_def Let_def
    by (intro post_intros) (use that in \<open>auto simp: gap_source_post_def ledger_block_source_def block_source_def\<close>)
  moreover have "outcome_post (gap_source_post L b) (process_change E L b h r)" for h
    unfolding process_change_def Let_def by (intro post_intros) (auto simp: gap_source_post_def)
  ultimately show ?thesis by (simp add: process_visit_def split: block_hashables.split)
qed

section \<open>Signatures\<close>

definition signed_by :: "env \<Rightarrow> block \<Rightarrow> account \<Rightarrow> bool" where
  "signed_by E b a = (\<not> validate_message (crypto_fns E) a (block_hash_of E b) (block_signature b))"

text \<open>The account a block belongs to, when \<open>own\<close> gives the account of a block by its hash.\<close>

definition block_owner :: "(block_hash \<Rightarrow> account) \<Rightarrow> block \<Rightarrow> account" where
  "block_owner own b = (case hashables b of Open h \<Rightarrow> open_account h | State h \<Rightarrow> state_account h | _ \<Rightarrow> own (block_previous b))"

text \<open>What a mark on a block stands for; \<open>a0\<close> is the account it was announced for, if any.\<close>

definition vouched :: "env \<Rightarrow> (block_hash \<Rightarrow> account) \<Rightarrow> account \<Rightarrow> block \<Rightarrow> signature_verification \<Rightarrow> bool" where
  "vouched E own a0 b v =
     ((v = Sig_valid \<longrightarrow> signed_by E b (block_owner own b) \<or> (a0 \<noteq> 0 \<and> signed_by E b a0))
      \<and> (v = Sig_valid_epoch \<longrightarrow> ledger_is_epoch_link E (block_link b)
           \<and> (\<exists>sg. ledger_epoch_signer E (block_link b) = Some sg \<and> signed_by E b sg)))"

definition frontiers_owned :: "(block_hash \<Rightarrow> account) \<Rightarrow> store \<Rightarrow> bool" where
  "frontiers_owned own s = (\<forall>h. frontier_get s h \<noteq> 0 \<longrightarrow> frontier_get s h = own h)"

definition vouched_post ::
    "env \<Rightarrow> (block_hash \<Rightarrow> account) \<Rightarrow> account \<Rightarrow> block \<Rightarrow> ledger \<Rightarrow> block \<Rightarrow> process_return \<Rightarrow> bool" where
  "vouched_post E own a0 b L' b' r =
     ((code r = gap_previous \<or> code r = gap_source \<longrightarrow> vouched E own a0 b (verified r))
      \<and> (code r = progress \<longrightarrow> ret_account r = Some (block_owner own b)))"

lemmas vouched_defs = vouched_post_def vouched_def bad_signature_for_def signed_by_def block_owner_def frontiers_owned_def
  block_previous_def block_link_def

lemma state_position_frame:
  "state_position s h r = (r', amt, sending, rcv) \<Longrightarrow> verified r' = verified r"
  by (auto simp: state_position_def Let_def split: option.splits if_splits)

lemma state_impl_vouched:
  assumes "hashables b = State h" "vouched E own a0 b (verified r)"
  shows "outcome_post (vouched_post E own a0 b) (process_state_impl E L b h r)"
  unfolding process_state_impl_def Let_def
  by (intro post_intros) (use assms in \<open>auto simp: vouched_defs dest!: state_position_frame\<close>)

lemma epoch_impl_vouched:
  assumes "hashables b = State h"
  shows "outcome_post (vouched_post E own a0 b) (process_epoch_impl E L b h r)"
  unfolding process_epoch_impl_def Let_def
  by (intro post_intros) (use assms in \<open>auto simp: vouched_post_def block_owner_def epoch_position_code\<close>)

lemma validate_epoch_vouched:
  assumes "hashables b = State h" "vouched E own a0 b (verified r)" "ledger_is_epoch_link E (state_link h)"
    "validate_epoch_block E L b h r = Some (eb, r')" "code r = progress"
  shows "code r' = progress \<Longrightarrow> vouched E own a0 b (verified r')" "code r' = gap_previous \<Longrightarrow> vouched E own a0 b (verified r')"
  using assms by (auto simp: validate_epoch_block_def Let_def vouched_defs bind_eq_Some_conv split: if_splits)
    (drule arg_cong [where f = code], simp)+

lemma state_vouched:
  assumes h: "hashables b = State h" and v: "vouched E own a0 b (verified r)"
  shows "outcome_post (vouched_post E own a0 b) (process_state E L b h r)"
  unfolding process_state_def Let_def
proof (intro post_bind post_prod post_if)
  fix x eb r'
  assume x: "(if ledger_is_epoch_link E (state_link h) then validate_epoch_block E L b h (r\<lparr>code := progress\<rparr>)
      else Some (False, r\<lparr>code := progress\<rparr>)) = Some x" "x = (eb, r')"
  have v': "vouched E own a0 b (verified r')" if "code r' = progress \<or> code r' = gap_previous"
    using validate_epoch_vouched [OF h, of E own a0 "r\<lparr>code := progress\<rparr>" L eb r'] x v that by (auto split: if_splits)
  show "outcome_post (vouched_post E own a0 b) (process_epoch_impl E L b h r')" by (rule epoch_impl_vouched [OF h])
  show "outcome_post (vouched_post E own a0 b) (process_state_impl E L b h r')" if "code r' = progress"
    using state_impl_vouched [OF h v'] that by simp
  show "outcome_post (vouched_post E own a0 b) (Some (L, b, r'))" if "code r' \<noteq> progress"
    using v' that validate_epoch_gap [of E L b h "r\<lparr>code := progress\<rparr>" eb r'] x
    by (auto simp: outcome_post_def vouched_post_def split: if_splits)
qed

lemma process_vouched:
  assumes v: "vouched E own a0 b (verified r)" and own: "frontiers_owned own (ledger_store L)"
  shows "outcome_post (vouched_post E own a0 b) (process_visit E L b r)"
proof -
  have "outcome_post (vouched_post E own a0 b) (process_send E L b h r)" if "hashables b = Send h" for h
    unfolding process_send_def Let_def by (intro post_intros) (use v own that in \<open>auto simp: vouched_defs\<close>)
  moreover have "outcome_post (vouched_post E own a0 b) (process_receive E L b h r)" if "hashables b = Receive h" for h
    unfolding process_receive_def Let_def by (intro post_intros) (use v own that in \<open>auto simp: vouched_defs\<close>)
  moreover have "outcome_post (vouched_post E own a0 b) (process_open E L b h r)" if "hashables b = Open h" for h
    unfolding process_open_def Let_def by (intro post_intros) (use v own that in \<open>auto simp: vouched_defs\<close>)
  moreover have "outcome_post (vouched_post E own a0 b) (process_change E L b h r)" if "hashables b = Change h" for h
    unfolding process_change_def Let_def by (intro post_intros) (use v own that in \<open>auto simp: vouched_defs\<close>)
  ultimately show ?thesis using state_vouched [OF _ v] by (simp add: process_visit_def split: block_hashables.split)
qed

text \<open>
  An accepted block is signed by the account it changes, or is an epoch block signed for its epoch, provided that
  an account it was announced for is the one it changes.
\<close>

lemma vouched_authorised:
  assumes run: "process E L b v = Some (L', b', r)" "code r = progress"
    and v: "vouched E own a0 b v" and own: "frontiers_owned own (ledger_store L)"
    and announced: "a0 \<noteq> 0 \<Longrightarrow> ret_account r = Some a0"
  shows "ret_account r = Some (block_owner own b)" "authorised E b (block_owner own b)"
proof -
  show a: "ret_account r = Some (block_owner own b)"
    using process_post [OF process_vouched [of E own a0 b "initial_result v" L] run(1)] v own run(2)
    by (auto simp: vouched_post_def initial_result_def)
  have "v = Sig_valid \<or> v = Sig_valid_epoch \<or> authorised E b (block_owner own b)"
    using process_post [OF process_visit_checks run(1)] run(2) a by (auto simp: accepted_checks_def initial_result_def)
  then show "authorised E b (block_owner own b)"
    using v announced a by (auto simp: vouched_def authorised_def signed_by_def Let_def)
qed

lemma gap_vouched:
  assumes "process E L b v = Some (L', b', r)" "code r = gap_previous \<or> code r = gap_source"
    and "vouched E own a0 b v" "frontiers_owned own (ledger_store L)"
  shows "vouched E own a0 b (verified r)"
  using process_post [OF process_vouched [of E own a0 b "initial_result v" L] assms(1)] assms(2-4)
  by (auto simp: vouched_post_def initial_result_def)

end
