(* ===== verification/Block_Waiting.thy ===== *)
theory Block_Waiting
  imports Block_Gaps
begin

text \<open>
  The invariant of the block processor: the ledger is well-formed, every mark on a queued or waiting block is
  backed by a signature, and a waiting block waits for something that is not in the ledger.
\<close>

section \<open>Unchecked blocks and the history\<close>

text \<open>The unchecked table is no part of the history of a ledger.\<close>

definition same_chains :: "ledger \<Rightarrow> ledger \<Rightarrow> bool" where
  "same_chains L L' = (\<exists>t n. ledger_store L' = (ledger_store L)\<lparr>unchecked_table := t\<rparr> \<and> cache L' = (cache L)\<lparr>cache_unchecked_count := n\<rparr>)"

lemma block_table_unchecked [simp]: "block_table ty (s\<lparr>unchecked_table := t\<rparr>) = block_table ty s"
  by (cases ty) simp_all

lemma unchecked_frame [simp]:
  "block_get (s\<lparr>unchecked_table := t\<rparr>) h = block_get s h"
  "account_get (s\<lparr>unchecked_table := t\<rparr>) a = account_get s a"
  "pending_get (s\<lparr>unchecked_table := t\<rparr>) k = pending_get s k"
  "frontier_get (s\<lparr>unchecked_table := t\<rparr>) h = frontier_get s h"
  "confirmation_height_get (s\<lparr>unchecked_table := t\<rparr>) a = confirmation_height_get s a"
  "prior_balance (s\<lparr>unchecked_table := t\<rparr>) b = prior_balance s b"
  "stored_change E (s\<lparr>unchecked_table := t\<rparr>) h b = stored_change E s h b"
  "collected E g (s\<lparr>unchecked_table := t\<rparr>) k = collected E g s k"
  "blocks_ok (s\<lparr>unchecked_table := t\<rparr>) = blocks_ok s"
  "total_supply (s\<lparr>unchecked_table := t\<rparr>) = total_supply s"
  "total_blocks (s\<lparr>unchecked_table := t\<rparr>) = total_blocks s"
  "delegated (s\<lparr>unchecked_table := t\<rparr>) r = delegated s r"
  "account_count (s\<lparr>unchecked_table := t\<rparr>) = account_count s"
  "cemented (s\<lparr>unchecked_table := t\<rparr>) b = cemented s b"
  "source_exists (s\<lparr>unchecked_table := t\<rparr>) h = source_exists s h"
  by (simp_all add: block_get_def account_get_def pending_get_def frontier_get_def confirmation_height_get_def prior_balance_def
      stored_change_def collected_def blocks_ok_def block_exists_type_def total_supply_def store_block_count_def block_counts_sum_def delegated_def
      account_count_def cemented_def source_exists_def)

lemma unchecked_store_ok [simp]: "store_ok (s\<lparr>unchecked_table := t\<rparr>) = store_ok s"
  by (simp add: store_ok_def tables_ok_def chains_ok_def account_ok_def block_balance_def)

lemma unchecked_history:
  assumes hist: "history_ok E g rk s" and z: "block_get s 0 = None"
  shows "history_ok E g rk (s\<lparr>unchecked_table := t\<rparr>)"
proof -
  let ?s = "s\<lparr>unchecked_table := t\<rparr>"
  have "block_ok E g rk ?s h b = block_ok E g rk s h b" for h b
    unfolding block_ok_def link_ok_def successor_ok_def amount_ok_def rank_ok_def unchecked_frame ..
  moreover have "head_ok (crypto_fns E) ?s a' i" if i: "account_get s a' = Some i" for a' i
  proof -
    obtain b where b: "block_get s (head i) = Some b" using history_ok_head [OF hist i] by (auto simp: head_ok_def)
    have "representative_calculated (crypto_fns E) ?s (head i) = representative_calculated (crypto_fns E) s (head i)"
      using representative_transfer [OF hist z b, of ?s] by auto
    then show ?thesis using history_ok_head [OF hist i] by (simp add: head_ok_def)
  qed
  moreover have "pending_ok E g ?s = pending_ok E g s" unfolding pending_ok_def unchecked_frame ..
  ultimately show ?thesis using hist by (simp add: history_ok_def)
qed

lemma same_chains_history:
  assumes "same_chains L L'" "ledger_history E g L"
  shows "ledger_history E g L'"
proof -
  obtain t n where L': "ledger_store L' = (ledger_store L)\<lparr>unchecked_table := t\<rparr>" "cache L' = (cache L)\<lparr>cache_unchecked_count := n\<rparr>"
    using assms(1) by (auto simp: same_chains_def)
  have "undo_inv E g rk (ledger_store L')" if "undo_inv E g rk (ledger_store L)" for rk
    using that unchecked_history [OF undo_invD(1) [OF that] store_okD(6) [OF undo_invD(2) [OF that]]]
    by (simp add: L' undo_inv_def cement_ok_def)
  moreover have "ledger_ok L' = ledger_ok L" by (simp add: ledger_ok_def cache_agrees_def L')
  moreover have "confirmed_within (ledger_store L') = confirmed_within (ledger_store L)" by (simp add: confirmed_within_def L')
  ultimately show ?thesis using assms(2) by (auto simp: ledger_history_def)
qed

section \<open>The invariant\<close>

definition owned :: "(block_hash \<Rightarrow> account) \<Rightarrow> store \<Rightarrow> bool" where
  "owned own s = (\<forall>h b. block_get s h = Some b \<longrightarrow> own_account b = own h)"

text \<open>
  What a block waits for: a hash that is not stored, or a stored block that cannot be what the waiting block
  takes it for, a predecessor of another account or a source that is neither a send nor a state block.
\<close>

definition waits_for :: "store \<Rightarrow> block_hash \<Rightarrow> block \<Rightarrow> bool" where
  "waits_for s k b = (case block_get s k of None \<Rightarrow> True
     | Some c \<Rightarrow> (type_of b = State_type \<and> k = block_previous b \<and> own_account c \<noteq> block_account b)
         \<or> ((k = block_source b \<or> k = block_link b) \<and> type_of c \<noteq> State_type \<and> type_of c \<noteq> Send_type))"

definition item_ok :: "env \<Rightarrow> (block_hash \<Rightarrow> account) \<Rightarrow> unchecked_info \<Rightarrow> bool" where
  "item_ok E own u = vouched E own (unchecked_account u) (unchecked_block u) (verification_of (unchecked_verified u))"

definition entry_ok :: "env \<Rightarrow> (block_hash \<Rightarrow> account) \<Rightarrow> store \<Rightarrow> unchecked_key \<times> unchecked_info \<Rightarrow> bool" where
  "entry_ok E own s e = (snd (fst e) = block_hash_of E (unchecked_block (snd e)) \<and> item_ok E own (snd e)
     \<and> waits_for s (fst (fst e)) (unchecked_block (snd e)))"

definition unchecked_ok :: "env \<Rightarrow> (block_hash \<Rightarrow> account) \<Rightarrow> ledger \<Rightarrow> bool" where
  "unchecked_ok E own L = (table_ok (unchecked_table (ledger_store L)) \<and> (\<forall>e \<in> set (unchecked_table (ledger_store L)). entry_ok E own (ledger_store L) e)
     \<and> cache_unchecked_count (cache L) = of_nat (unchecked_count (ledger_store L)))"

definition queues_ok :: "env \<Rightarrow> (block_hash \<Rightarrow> account) \<Rightarrow> block_processor \<Rightarrow> bool" where
  "queues_ok E own P = ((\<forall>u \<in> set (bp_blocks P). item_ok E own u) \<and> (\<forall>u \<in> set (bp_state_blocks P). needs_verification u))"

lemma frontiers_ownedI:
  assumes H: "ledger_history E g L" and own: "owned own (ledger_store L)"
  shows "frontiers_owned own (ledger_store L)"
  unfolding frontiers_owned_def
proof (intro allI impI)
  let ?s = "ledger_store L"
  fix h assume f: "frontier_get ?s h \<noteq> 0"
  obtain rk where inv: "undo_inv E g rk ?s" using ledger_historyD(3) [OF H] ..
  obtain i where i: "account_get ?s (frontier_get ?s h) = Some i" "head i = h"
    using store_ok_frontier(1) [OF undo_invD(2) [OF inv] f] by blast
  then show "frontier_get ?s h = own h"
    using history_ok_head [OF undo_invD(1) [OF inv] i(1)] own by (auto simp: head_ok_def owned_def)
qed

section \<open>Blocks that return to the queue\<close>

lemma length_drop_key:
  assumes "table_ok t" "table_get t k \<noteq> None"
  shows "length t = Suc (length (table_drop_key t k))"
proof -
  have "table_sum (\<lambda>_. 1::nat) x = length x" for x :: "('a, 'b) table"
    by (induction x) auto
  then show ?thesis using table_sum_drop_key [OF assms(1), of "\<lambda>_. 1::nat" k] assms(2) by (auto simp: entry_value_def)
qed

lemma filter_drop_first:
  assumes "table_ok t" "filter Q t = e # es"
  shows "filter Q (table_drop_key t (fst e)) = es"
proof -
  have "distinct (map fst t)" using assms(1) by (simp add: table_ok_def strict_sorted_iff)
  then have "distinct (map fst (e # es))" by (metis assms(2) distinct_map_filter)
  then have "filter (\<lambda>x. fst x \<noteq> fst e) es = es" by (intro filter_True) (auto simp: rev_image_eqI)
  moreover have "filter Q (table_drop_key t (fst e)) = filter (\<lambda>x. fst x \<noteq> fst e) (filter Q t)"
    unfolding table_drop_key_def by (simp add: conj_commute)
  ultimately show ?thesis using assms(2) by simp
qed

text \<open>Everything but the ledger and the two queues stays; the blocks join the queue their mark calls for.\<close>

definition requeued :: "unchecked_info list \<Rightarrow> block_processor \<Rightarrow> block_processor \<Rightarrow> bool" where
  "requeued us P P' =
     (P' = P\<lparr>bp_ledger := bp_ledger P', bp_blocks := bp_blocks P', bp_state_blocks := bp_state_blocks P'\<rparr>
      \<and> set (bp_blocks P') = set (bp_blocks P) \<union> {u \<in> set us. \<not> needs_verification u}
      \<and> set (bp_state_blocks P') = set (bp_state_blocks P) \<union> {u \<in> set us. needs_verification u})"

lemma bp_ledger_add_info [simp]: "bp_ledger (bp_add_info F u f P) = bp_ledger P"
  by (simp add: bp_add_info_def Let_def)

lemma add_info_requeued: "requeued [u] P (bp_add_info F u f P)"
  by (auto simp: requeued_def bp_add_info_def Let_def)

lemma requeued_ledger: "requeued us (P\<lparr>bp_ledger := L\<rparr>) P' \<Longrightarrow> requeued us P P'"
  by (cases P; cases P') (auto simp: requeued_def)

lemma requeued_trans: "requeued [u] P P1 \<Longrightarrow> requeued us P1 P2 \<Longrightarrow> requeued (u # us) P P2"
  by (cases P; cases P1; cases P2) (auto simp: requeued_def)

lemma same_chains_refl [simp]: "same_chains L L"
  unfolding same_chains_def by (rule exI [of _ "unchecked_table (ledger_store L)"], rule exI [of _ "cache_unchecked_count (cache L)"]) simp

lemma same_chains_trans: "same_chains L L1 \<Longrightarrow> same_chains L1 L2 \<Longrightarrow> same_chains L L2"
  by (auto simp: same_chains_def)

lemma requeue_unchecked_ok:
  assumes "\<not> disable_block_processor_unchecked_deletion F" "table_ok (unchecked_table (ledger_store (bp_ledger P)))"
    and "us = map snd (filter (\<lambda>e. fst (fst e) = h) (unchecked_table (ledger_store (bp_ledger P))))"
    and "\<forall>e \<in> set (unchecked_table (ledger_store (bp_ledger P))). snd (fst e) = block_hash_of E (unchecked_block (snd e))"
    and "cache_unchecked_count (cache (bp_ledger P)) = of_nat (unchecked_count (ledger_store (bp_ledger P)))"
  shows "\<exists>P'. requeue_unchecked F E h us P = Some P' \<and> requeued us P P' \<and> same_chains (bp_ledger P) (bp_ledger P')
    \<and> unchecked_table (ledger_store (bp_ledger P')) = filter (\<lambda>e. fst (fst e) \<noteq> h) (unchecked_table (ledger_store (bp_ledger P)))
    \<and> cache_unchecked_count (cache (bp_ledger P')) = of_nat (unchecked_count (ledger_store (bp_ledger P')))"
  using assms
proof (induction us arbitrary: P)
  case Nil
  let ?t = "unchecked_table (ledger_store (bp_ledger P))"
  have "filter (\<lambda>e. fst (fst e) \<noteq> h) ?t = ?t"
    using Nil(3) by (intro filter_True) (auto simp: filter_empty_conv)
  then show ?case using Nil by (simp add: requeued_def)
next
  case (Cons u us)
  let ?L = "bp_ledger P" and ?t = "unchecked_table (ledger_store (bp_ledger P))" and ?Q = "\<lambda>e. fst (fst e) = h"
  obtain e es where e: "filter ?Q ?t = e # es" "u = snd e" "us = map snd es" using Cons.prems(3) by (auto simp: Cons_eq_map_conv)
  have "e \<in> set (filter ?Q ?t)" using e(1) by simp
  then have in_t: "e \<in> set ?t" "fst (fst e) = h" by simp_all
  let ?k = "(h, block_hash_of E (unchecked_block u))"
  have k: "fst e = ?k" using in_t Cons.prems(4) e(2) by (metis prod.collapse)
  have get: "table_get ?t ?k \<noteq> None" using table_get_eq_Some_iff [OF Cons.prems(2)] in_t(1) k by (metis option.distinct(1) prod.collapse)
  let ?L1 = "unchecked_count_add (- 1) (?L\<lparr>ledger_store := (ledger_store ?L)\<lparr>unchecked_table := table_drop_key ?t ?k\<rparr>\<rparr>)"
  let ?P1 = "bp_add_info F u True (P\<lparr>bp_ledger := ?L1\<rparr>)"
  have t1: "unchecked_table (ledger_store (bp_ledger ?P1)) = table_drop_key ?t ?k" by (simp add: unchecked_count_add_def)
  have run: "requeue_unchecked F E h (u # us) P = requeue_unchecked F E h us ?P1"
    using Cons.prems(1) get by (auto simp: on_store_def unchecked_del_def table_del_def)
  have same: "same_chains ?L (bp_ledger ?P1)" by (auto simp: same_chains_def unchecked_count_add_def)
  have len: "length ?t = Suc (length (table_drop_key ?t ?k))" by (rule length_drop_key [OF Cons.prems(2) get])
  have "\<exists>P'. requeue_unchecked F E h us ?P1 = Some P' \<and> requeued us ?P1 P' \<and> same_chains (bp_ledger ?P1) (bp_ledger P')
    \<and> unchecked_table (ledger_store (bp_ledger P')) = filter (\<lambda>e. fst (fst e) \<noteq> h) (unchecked_table (ledger_store (bp_ledger ?P1)))
    \<and> cache_unchecked_count (cache (bp_ledger P')) = of_nat (unchecked_count (ledger_store (bp_ledger P')))"
  proof (rule Cons.IH [OF Cons.prems(1)])
    show "table_ok (unchecked_table (ledger_store (bp_ledger ?P1)))" using Cons.prems(2) unfolding t1 by simp
    show "us = map snd (filter ?Q (unchecked_table (ledger_store (bp_ledger ?P1))))"
      unfolding t1 using filter_drop_first [OF Cons.prems(2) e(1)] k e(3) by simp
    show "\<forall>e \<in> set (unchecked_table (ledger_store (bp_ledger ?P1))). snd (fst e) = block_hash_of E (unchecked_block (snd e))"
      using Cons.prems(4) unfolding t1 by (auto simp: table_drop_key_def)
    show "cache_unchecked_count (cache (bp_ledger ?P1)) = of_nat (unchecked_count (ledger_store (bp_ledger ?P1)))"
      using Cons.prems(5) len by (simp add: unchecked_count_add_def unchecked_count_def)
  qed
  moreover have "filter (\<lambda>e. fst (fst e) \<noteq> h) (table_drop_key ?t ?k) = filter (\<lambda>e. fst (fst e) \<noteq> h) ?t"
    unfolding table_drop_key_def by (auto intro: filter_cong)
  ultimately show ?case
    unfolding run t1 using same_chains_trans [OF same] requeued_trans [OF requeued_ledger [OF add_info_requeued]] by metis
qed

end
