(* ===== verification/Block_Steps.thy ===== *)
theory Block_Steps
  imports Block_Waiting
begin

text \<open>
  Every operation of the block processor keeps its invariant.
\<close>

definition events_ok :: "live_event list \<Rightarrow> bool" where
  "events_ok es = list_all (\<lambda>e. has_sideband (live_block e)) es"

definition block_processor_ok :: "env \<Rightarrow> (block_hash \<Rightarrow> account) \<Rightarrow> block_hash \<Rightarrow> block_processor \<Rightarrow> bool" where
  "block_processor_ok E own g P = (ledger_history E g (bp_ledger P) \<and> total_supply (ledger_store (bp_ledger P)) = 2 ^ 128 - 1 \<and> owned own (ledger_store (bp_ledger P))
     \<and> unchecked_ok E own (bp_ledger P) \<and> queues_ok E own P \<and> events_ok (bp_events P) \<and> gaps_ok (bp_gap_cache P))"

text \<open>What is assumed of a block that is processed: \<open>hash_ok\<close>, the hash determines the account, and \<open>extends_ok\<close> when it is accepted.\<close>

definition admissible :: "env \<Rightarrow> (block_hash \<Rightarrow> account) \<Rightarrow> ledger \<Rightarrow> block \<Rightarrow> bool" where
  "admissible E own L b = (hash_ok E L b \<and> own (block_hash_of E b) = block_owner own b
     \<and> (\<forall>v L' b' r. process E L b v = Some (L', b', r) \<longrightarrow> code r = progress \<longrightarrow> extends_ok E (ledger_store L) b))"

section \<open>Waiting\<close>

lemma verification_of_code [simp]: "verification_of (verification_code v) = v"
  by (cases v) (simp_all add: verification_of_def)

lemma bare_block [simp]:
  "type_of (b\<lparr>sideband_m := x\<rparr>) = type_of b" "block_previous (b\<lparr>sideband_m := x\<rparr>) = block_previous b"
  "block_account (b\<lparr>sideband_m := x\<rparr>) = block_account b" "block_source (b\<lparr>sideband_m := x\<rparr>) = block_source b"
  "block_link (b\<lparr>sideband_m := x\<rparr>) = block_link b" "block_owner own (b\<lparr>sideband_m := x\<rparr>) = block_owner own b"
  "generate_hash C (b\<lparr>sideband_m := x\<rparr>) = generate_hash C b"
  by (simp_all add: type_of_def block_previous_def block_account_def block_source_def block_link_def block_owner_def generate_hash_def
      split: block_hashables.split)

lemma vouched_bare [simp]: "vouched E own a0 (b\<lparr>sideband_m := x\<rparr>) v = vouched E own a0 b v"
  by (simp add: vouched_def signed_by_def)

lemma waits_for_bare [simp]: "waits_for s k (b\<lparr>sideband_m := x\<rparr>) = waits_for s k b"
  by (simp add: waits_for_def split: option.split)

lemma waits_for_unchecked [simp]: "waits_for (s\<lparr>unchecked_table := t\<rparr>) k b = waits_for s k b"
  by (simp add: waits_for_def)

lemma waits_for_kept:
  assumes "waits_for s k b" "\<And>c'. block_get s' k = Some c' \<Longrightarrow> \<exists>c. block_get s k = Some c \<and> same_block c c'"
  shows "waits_for s' k b"
  using assms same_blockD(2,5) by (fastforce simp: waits_for_def split: option.splits)

lemma owned_kept:
  assumes "owned own s" "\<And>h c'. block_get s' h = Some c' \<Longrightarrow> \<exists>c. block_get s h = Some c \<and> same_block c c'"
  shows "owned own s'"
  using assms same_blockD(5) unfolding owned_def by metis

lemma entries_kept:
  assumes "unchecked_ok E own L" "unchecked_table (ledger_store L') = unchecked_table (ledger_store L)"
    "cache_unchecked_count (cache L') = cache_unchecked_count (cache L)"
    "\<And>h c'. block_get (ledger_store L') h = Some c' \<Longrightarrow> \<exists>c. block_get (ledger_store L) h = Some c \<and> same_block c c'"
  shows "unchecked_ok E own L'"
  using assms(1-3) waits_for_kept [OF _ assms(4)] by (simp add: unchecked_ok_def entry_ok_def unchecked_count_def)

lemma set_table_put: "set (table_put t k v) \<subseteq> insert (k, v) (set t)"
  by (induction t k v rule: table_put.induct) auto

lemma put_unchecked_ok:
  assumes ok: "block_processor_ok E own g P" and w: "waits_for (ledger_store (bp_ledger P)) k (unchecked_block u)"
    and v: "vouched E own (unchecked_account u) (unchecked_block u) (verified r)" and h: "h = block_hash_of E (unchecked_block u)"
  shows "block_processor_ok E own g (put_unchecked V k h u r d P)"
proof -
  let ?L = "bp_ledger P" and ?P = "put_unchecked V k h u r d P"
  let ?t = "unchecked_table (ledger_store ?L)"
  let ?u = "u\<lparr>unchecked_verified := verification_code (verified r),
      unchecked_modified := (if unchecked_modified u = 0 then seconds_now V else unchecked_modified u)\<rparr>"
  let ?v = "?u\<lparr>unchecked_block := (unchecked_block u)\<lparr>sideband_m := None\<rparr>, unchecked_confirmed := False\<rparr>"
  have P: "ledger_store (bp_ledger ?P) = (ledger_store ?L)\<lparr>unchecked_table := table_put ?t (k, h) ?v\<rparr>"
      "cache (bp_ledger ?P) = (cache ?L)\<lparr>cache_unchecked_count := cache_unchecked_count (cache ?L) + (if table_get ?t (k, h) = None then 1 else 0)\<rparr>"
      "bp_blocks ?P = bp_blocks P" "bp_state_blocks ?P = bp_state_blocks P" "bp_events ?P = bp_events P"
      "bp_gap_cache ?P = gap_add h (steady_clock_now V) (bp_gap_cache P)"
    by (simp_all add: put_unchecked_def Let_def on_ledger_def in_store_def unchecked_put_def unchecked_count_add_def stats_inc_def stats_add_def unchecked_exists_def)
  have tab: "table_ok ?t" "cache_unchecked_count (cache ?L) = of_nat (length ?t)"
    using ok by (simp_all add: block_processor_ok_def unchecked_ok_def unchecked_count_def)
  have "same_chains ?L (bp_ledger ?P)" unfolding same_chains_def P(1,2) by (intro exI conjI) (rule refl)+
  then have "ledger_history E g (bp_ledger ?P)" using same_chains_history ok by (auto simp: block_processor_ok_def)
  moreover have "owned own (ledger_store (bp_ledger ?P))" "total_supply (ledger_store (bp_ledger ?P)) = 2 ^ 128 - 1"
    using ok by (simp_all add: P(1) block_processor_ok_def owned_def)
  moreover have "unchecked_ok E own (bp_ledger ?P)"
  proof -
    have "entry_ok E own (ledger_store (bp_ledger ?P)) ((k, h), ?v)"
      unfolding P(1) entry_ok_def item_ok_def using w v h by simp
    moreover have "entry_ok E own (ledger_store (bp_ledger ?P)) e" if "e \<in> set ?t" for e
      unfolding P(1) using ok that by (simp add: block_processor_ok_def unchecked_ok_def entry_ok_def)
    ultimately have "\<forall>e \<in> set (table_put ?t (k, h) ?v). entry_ok E own (ledger_store (bp_ledger ?P)) e"
      using set_table_put [of ?t "(k, h)" ?v] by blast
    then show ?thesis using tab length_table_put [OF tab(1), of "(k, h)" ?v] by (simp add: unchecked_ok_def P(1,2) unchecked_count_def)
  qed
  moreover have "queues_ok E own ?P" "events_ok (bp_events ?P)" "gaps_ok (bp_gap_cache ?P)"
    using ok gap_add_ok by (simp_all add: block_processor_ok_def queues_ok_def P(3-6))
  ultimately show ?thesis by (simp add: block_processor_ok_def)
qed

section \<open>Accepted blocks\<close>

text \<open>The ledger after an accepted block: what waits for another block still waits.\<close>

lemma accepted_ledger:
  assumes ok: "block_processor_ok E own g P" and p: "params_ok E" and adm: "admissible E own (bp_ledger P) b"
    and run: "process E (bp_ledger P) b v = Some (L, b', r)" "code r = progress"
    and owner: "ret_account r = Some (block_owner own b)"
  shows "ledger_history E g L" "owned own (ledger_store L)"
    "unchecked_table (ledger_store L) = unchecked_table (ledger_store (bp_ledger P))"
    "cache_unchecked_count (cache L) = cache_unchecked_count (cache (bp_ledger P))"
    "waits_for (ledger_store (bp_ledger P)) k c \<Longrightarrow> k \<noteq> block_hash_of E b \<Longrightarrow> waits_for (ledger_store L) k c"
    "block_get (ledger_store L) (block_hash_of E b) \<noteq> None" "total_supply (ledger_store L) = 2 ^ 128 - 1"
proof -
  have H: "ledger_history E g (bp_ledger P)" and own: "owned own (ledger_store (bp_ledger P))"
    using ok by (simp_all add: block_processor_ok_def)
  have h: "hash_ok E (bp_ledger P) b" and ext: "extends_ok E (ledger_store (bp_ledger P)) b"
    and b: "own (block_hash_of E b) = block_owner own b"
    using adm run unfolding admissible_def by blast+
  obtain rk where inv: "undo_inv E g rk (ledger_store (bp_ledger P))" using ledger_historyD(3) [OF H] ..
  obtain sb a i ch where ac: "accepted E g rk (ledger_store (bp_ledger P)) b sb a i ch (ledger_store L)" "ret_account r = Some a"
    using process_accepted [OF inv ledger_historyD(1) [OF H] p h ext run] by metis
  obtain L1 sb' a' i' ch' where ap: "L = block_count_add 1 L1" "block_applied (crypto_fns E) (bp_ledger P) b sb' a' i' ch' L1"
    using process_progressE [OF ledger_historyD(1) [OF H] p h run] by metis
  show "total_supply (ledger_store L) = 2 ^ 128 - 1"
    using process_meets_spec [OF ledger_historyD(1) [OF H] p h, of v] run(1) ok by (simp add: process_spec_def block_processor_ok_def)
  show "ledger_history E g L" by (rule process_history [OF H p h ext run(1)])
  show "block_get (ledger_store L) (block_hash_of E b) \<noteq> None" using accepted_get(1) [OF ac(1)] by simp
  show "owned own (ledger_store L)"
    unfolding owned_def
  proof (intro allI impI)
    fix x c assume c: "block_get (ledger_store L) x = Some c"
    show "own_account c = own x"
      using accepted_cases [OF ac(1) c] own accepted_block(1) [OF ac(1)] ac(2) owner b same_blockD(5)
      unfolding owned_def by (metis option.inject)
  qed
  show "unchecked_table (ledger_store L) = unchecked_table (ledger_store (bp_ledger P))"
    using acceptedD(4) [OF ac(1)] by (simp add: store_applied_def)
  show "cache_unchecked_count (cache L) = cache_unchecked_count (cache (bp_ledger P))"
    using ap by (simp add: block_applied_def cache_applied_def block_count_add_def)
  show "waits_for (ledger_store L) k c" if "waits_for (ledger_store (bp_ledger P)) k c" "k \<noteq> block_hash_of E b"
    using waits_for_kept [OF that(1)] accepted_cases [OF ac(1), of k] that(2) by blast
qed

lemma same_chains_waits: "same_chains L L' \<Longrightarrow> waits_for (ledger_store L') k c = waits_for (ledger_store L) k c"
  by (auto simp: same_chains_def)

lemma same_chains_owned: "same_chains L L' \<Longrightarrow> owned own (ledger_store L') = owned own (ledger_store L)"
  by (auto simp: same_chains_def owned_def)

lemma same_chains_supply: "same_chains L L' \<Longrightarrow> total_supply (ledger_store L') = total_supply (ledger_store L)"
  by (auto simp: same_chains_def)

lemma table_ok_filter [simp]: "table_ok t \<Longrightarrow> table_ok (filter Q t)"
  by (induction t) (auto simp: table_ok_Cons)

text \<open>Nothing waits for the new block any more: its waiters are back in the queues.\<close>

lemma queue_unchecked_ok:
  assumes ok: "block_processor_ok E own g P" and del: "\<not> disable_block_processor_unchecked_deletion F"
    and H: "ledger_history E g L" "owned own (ledger_store L)" "total_supply (ledger_store L) = 2 ^ 128 - 1"
    and same: "unchecked_table (ledger_store L) = unchecked_table (ledger_store (bp_ledger P))"
      "cache_unchecked_count (cache L) = cache_unchecked_count (cache (bp_ledger P))"
    and waits: "\<And>k c. waits_for (ledger_store (bp_ledger P)) k c \<Longrightarrow> k \<noteq> h \<Longrightarrow> waits_for (ledger_store L) k c"
    and ev: "events_ok ev"
  shows "\<exists>P'. queue_unchecked F E h (P\<lparr>bp_ledger := L, bp_events := ev\<rparr>) = Some P' \<and> block_processor_ok E own g P'
    \<and> unchecked_table (ledger_store (bp_ledger P')) = filter (\<lambda>e. fst (fst e) \<noteq> h) (unchecked_table (ledger_store (bp_ledger P)))
    \<and> set (bp_blocks P') = set (bp_blocks P) \<union> {u \<in> set (unchecked_get (ledger_store (bp_ledger P)) h). \<not> needs_verification u}
    \<and> set (bp_state_blocks P') = set (bp_state_blocks P) \<union> {u \<in> set (unchecked_get (ledger_store (bp_ledger P)) h). needs_verification u}
    \<and> same_chains L (bp_ledger P') \<and> bp_forced P' = bp_forced P"
proof -
  let ?t = "unchecked_table (ledger_store (bp_ledger P))" and ?P = "P\<lparr>bp_ledger := L, bp_events := ev\<rparr>"
  let ?us = "unchecked_get (ledger_store (bp_ledger P)) h"
  have t: "table_ok ?t" "\<forall>e \<in> set ?t. entry_ok E own (ledger_store (bp_ledger P)) e"
      "cache_unchecked_count (cache (bp_ledger P)) = of_nat (length ?t)"
    and q: "queues_ok E own P"
    using ok by (simp_all add: block_processor_ok_def unchecked_ok_def unchecked_count_def)
  have get: "unchecked_get (ledger_store L) h = ?us" "?us = map snd (filter (\<lambda>e. fst (fst e) = h) ?t)"
    using t(1) same(1) by (simp_all add: unchecked_get_filter)
  have "\<exists>P'. requeue_unchecked F E h ?us ?P = Some P' \<and> requeued ?us ?P P' \<and> same_chains (bp_ledger ?P) (bp_ledger P')
    \<and> unchecked_table (ledger_store (bp_ledger P')) = filter (\<lambda>e. fst (fst e) \<noteq> h) (unchecked_table (ledger_store (bp_ledger ?P)))
    \<and> cache_unchecked_count (cache (bp_ledger P')) = of_nat (unchecked_count (ledger_store (bp_ledger P')))"
    by (rule requeue_unchecked_ok [OF del]) (use t same get(2) in \<open>auto simp: unchecked_count_def entry_ok_def\<close>)
  then obtain P1 where P1: "requeue_unchecked F E h ?us ?P = Some P1" "requeued ?us ?P P1" "same_chains L (bp_ledger P1)"
      "unchecked_table (ledger_store (bp_ledger P1)) = filter (\<lambda>e. fst (fst e) \<noteq> h) ?t"
      "cache_unchecked_count (cache (bp_ledger P1)) = of_nat (unchecked_count (ledger_store (bp_ledger P1)))"
    using same(1) by auto
  let ?P' = "P1\<lparr>bp_gap_cache := gap_erase h (bp_gap_cache P1)\<rparr>"
  have run: "queue_unchecked F E h ?P = Some ?P'" using P1(1) get(1) by (simp add: queue_unchecked_def)
  have sets: "set (bp_blocks ?P') = set (bp_blocks P) \<union> {u \<in> set ?us. \<not> needs_verification u}"
      "set (bp_state_blocks ?P') = set (bp_state_blocks P) \<union> {u \<in> set ?us. needs_verification u}"
    using P1(2) by (simp_all add: requeued_def)
  have "item_ok E own u" if "u \<in> set ?us" for u using that t(2) get(2) by (auto simp: entry_ok_def)
  then have "queues_ok E own ?P'" using q sets by (auto simp: queues_ok_def)
  moreover have "unchecked_ok E own (bp_ledger ?P')"
    unfolding unchecked_ok_def using P1(3-5) t waits same_chains_waits [OF P1(3)] by (auto simp: entry_ok_def)
  moreover have "bp_events ?P' = ev" "bp_gap_cache P1 = bp_gap_cache P" "bp_forced P1 = bp_forced P"
    using arg_cong [OF conjunct1 [OF P1(2) [unfolded requeued_def]], of bp_events]
      arg_cong [OF conjunct1 [OF P1(2) [unfolded requeued_def]], of bp_gap_cache]
      arg_cong [OF conjunct1 [OF P1(2) [unfolded requeued_def]], of bp_forced] by simp_all
  ultimately have "block_processor_ok E own g ?P'"
    using ok gap_erase_ok ev same_chains_history [OF P1(3) H(1)] same_chains_owned [OF P1(3)] same_chains_supply [OF P1(3)] H(2,3) by (simp add: block_processor_ok_def)
  with run sets P1(3,4) \<open>bp_forced P1 = bp_forced P\<close> show ?thesis by auto
qed

section \<open>Gaps\<close>

lemma gap_waits:
  assumes H: "ledger_history E g L" and run: "process E L b v = Some (L', b', r)"
  shows "code r = gap_previous \<Longrightarrow> waits_for (ledger_store L) (block_previous b) b"
    and "code r = gap_source \<Longrightarrow> \<exists>k. ledger_block_source L b = Some k \<and> waits_for (ledger_store L) k b"
proof -
  obtain rk where inv: "undo_inv E g rk (ledger_store L)" using ledger_historyD(3) [OF H] ..
  note hist = undo_invD(1) [OF inv] and ok = undo_invD(2) [OF inv]
  show "waits_for (ledger_store L) (block_previous b) b" if "code r = gap_previous"
    using process_post [OF process_gap_previous [OF ok] run] that history_okD(2) [OF hist, of "block_previous b"]
    by (auto simp: gap_previous_post_def waits_for_def type_of_def block_account_def split: option.split)
  show "\<exists>k. ledger_block_source L b = Some k \<and> waits_for (ledger_store L) k b" if c: "code r = gap_source"
  proof -
    obtain k where k: "ledger_block_source L b = Some k" "\<not> source_exists (ledger_store L) k"
      using process_post [OF process_gap_source [OF ok] run] c by (auto simp: gap_source_post_def)
    moreover have "k = block_source b \<or> k = block_link b"
      using k(1) by (auto simp: ledger_block_source_def block_link_def bind_eq_Some_conv split: block_hashables.splits if_splits)
    moreover have "type_of c \<noteq> State_type" "type_of c \<noteq> Send_type" if "block_get (ledger_store L) k = Some c" for c
      using that k(2) by (auto simp: source_exists_def block_exists_type_iff [OF store_okD(1) [OF ok]])
    ultimately show ?thesis by (auto simp: waits_for_def split: option.split)
  qed
qed

section \<open>Forks\<close>

text \<open>The questions the node asks about a stored block have answers.\<close>

lemma stored_height:
  assumes H: "ledger_history E g L" and b: "block_get (ledger_store L) h = Some b"
  obtains c where "confirmation_height_get (ledger_store L) (own_account b) = Some c" "has_sideband b" "generate_hash (crypto_fns E) b = h"
proof -
  obtain rk where inv: "undo_inv E g rk (ledger_store L)" using ledger_historyD(3) [OF H] ..
  note hist = undo_invD(1) [OF inv] and ok = undo_invD(2) [OF inv]
  obtain i where "account_get (ledger_store L) (own_account b) = Some i" using history_okD(2) [OF hist b] by blast
  then have "confirmation_height_get (ledger_store L) (own_account b) \<noteq> None"
    using store_ok_account [OF ok] by (auto simp: account_ok_def)
  moreover have "has_sideband b" by (rule block_get_sideband [OF store_okD(1) [OF ok] b])
  ultimately show ?thesis using that history_okD(1) [OF hist b] by blast
qed

lemma block_confirmed_defined:
  assumes H: "ledger_history E g L" and b: "block_get (ledger_store L) h = Some b"
  shows "block_confirmed L h \<noteq> None"
proof -
  obtain c where c: "confirmation_height_get (ledger_store L) (own_account b) = Some c" using stored_height [OF H b] .
  have "blocks_ok (ledger_store L)" using ledger_historyD(1) [OF H] store_okD(1) by (auto simp: ledger_ok_def)
  then show ?thesis using stored_queries [OF _ b] c by (auto simp: block_confirmed_def ledger_account_def)
qed

lemma dependency_confirmed_defined:
  assumes "ledger_history E g L"
  shows "dependency_confirmed L h \<noteq> None"
proof (cases "block_get (ledger_store L) h")
  case (Some b)
  obtain c where "confirmation_height_get (ledger_store L) (own_account b) = Some c" "has_sideband b"
    using stored_height [OF assms Some] .
  then show ?thesis using Some by (auto simp: dependency_confirmed_def own_account_def own_defined(1))
qed (auto simp: dependency_confirmed_def)

lemma can_vote_defined:
  assumes H: "ledger_history E g L" and b: "has_sideband b"
  shows "can_vote E' L b \<noteq> None"
proof -
  have "ledger_is_send L b x = Some (is_send (details (sb_of b)))" for x using b by (simp add: ledger_is_send_def own_defined(1))
  then have "dependent_blocks E' L b \<noteq> None" by (auto simp: dependent_blocks_def split: block_hashables.split)
  then obtain d0 d1 where d: "dependent_blocks E' L b = Some (d0, d1)" by auto
  obtain x y where "dependency_confirmed L d0 = Some x" "dependency_confirmed L d1 = Some y"
    using dependency_confirmed_defined [OF H] by (meson not_None_eq)
  with d show ?thesis by (auto simp: can_vote_def)
qed

lemma process_fork_defined:
  assumes H: "ledger_history E g L" and net: "crypto_fns (view_env V) = crypto_fns E"
  shows "\<exists>es. process_fork V b t L = Some es"
proof (cases "forked_block L b")
  case (Some lb)
  then obtain h where lb: "block_get (ledger_store L) h = Some lb"
    by (auto simp: forked_block_def Let_def split: option.splits)
  have "generate_hash (crypto_fns (view_env V)) lb = h" "has_sideband lb" using stored_height [OF H lb] net by metis+
  then obtain x y where "block_confirmed L (generate_hash (crypto_fns (view_env V)) lb) = Some x" "can_vote (view_env V) L lb = Some y"
    using block_confirmed_defined [OF H lb] can_vote_defined [OF H] by (metis not_None_eq)
  then show ?thesis using Some by (simp add: process_fork_def Let_def)
qed (simp add: process_fork_def Let_def)

section \<open>One block\<close>

lemma stats_kept:
  "same_chains L (stats_inc t d L)"
  unfolding same_chains_def stats_inc_def stats_add_def
  by (rule exI [of _ "unchecked_table (ledger_store L)"], rule exI [of _ "cache_unchecked_count (cache L)"]) simp

lemma processor_kept:
  assumes "block_processor_ok E own g P" "bp_blocks P' = bp_blocks P" "bp_state_blocks P' = bp_state_blocks P"
    "ledger_store (bp_ledger P') = ledger_store (bp_ledger P)" "cache (bp_ledger P') = cache (bp_ledger P)"
    "events_ok (bp_events P')" "gaps_ok (bp_gap_cache P')"
  shows "block_processor_ok E own g P'"
proof -
  have "same_chains (bp_ledger P) (bp_ledger P')"
    unfolding same_chains_def assms(4,5)
    by (rule exI [of _ "unchecked_table (ledger_store (bp_ledger P))"], rule exI [of _ "cache_unchecked_count (cache (bp_ledger P))"]) simp
  from same_chains_history [OF this] show ?thesis
    using assms unfolding block_processor_ok_def unchecked_ok_def queues_ok_def by simp
qed

text \<open>The announced account is the one that changes.\<close>

definition announced_ok :: "unchecked_info \<Rightarrow> process_return \<Rightarrow> bool" where
  "announced_ok u r = (code r = progress \<longrightarrow> unchecked_account u = 0 \<or> ret_account r = Some (unchecked_account u))"

text \<open>The one entry that is new: under the hash \<open>k\<close> and that of the block, with what is known of its signature.\<close>

definition now_waiting :: "env \<Rightarrow> unchecked_info \<Rightarrow> process_return \<Rightarrow> block_hash \<Rightarrow> block_processor \<Rightarrow> block_processor \<Rightarrow> bool" where
  "now_waiting E u r k P P' = (\<exists>w. unchecked_table (ledger_store (bp_ledger P')) =
       table_put (unchecked_table (ledger_store (bp_ledger P))) (k, block_hash_of E (unchecked_block u)) w
     \<and> unchecked_block w = (unchecked_block u)\<lparr>sideband_m := None\<rparr> \<and> unchecked_account w = unchecked_account u
     \<and> unchecked_verified w = verification_code (verified r))"

text \<open>What processing one block does to the queues and the unchecked table.\<close>

definition one_processed :: "env \<Rightarrow> unchecked_info \<Rightarrow> process_return \<Rightarrow> block_processor \<Rightarrow> block_processor \<Rightarrow> bool" where
  "one_processed E u r P P' =
     (let h = block_hash_of E (unchecked_block u); s = ledger_store (bp_ledger P); s' = ledger_store (bp_ledger P');
          freed = set (unchecked_get s h) in
      bp_forced P' = bp_forced P \<and> (if code r = progress then
        block_get s' h \<noteq> None
        \<and> unchecked_table s' = filter (\<lambda>e. fst (fst e) \<noteq> h) (unchecked_table s)
        \<and> set (bp_blocks P') = set (bp_blocks P) \<union> {w \<in> freed. \<not> needs_verification w}
        \<and> set (bp_state_blocks P') = set (bp_state_blocks P) \<union> {w \<in> freed. needs_verification w}
      else
        bp_blocks P' = bp_blocks P \<and> bp_state_blocks P' = bp_state_blocks P
        \<and> s'\<lparr>unchecked_table := unchecked_table s\<rparr> = s
        \<and> (code r = gap_previous \<longrightarrow> now_waiting E u r (block_previous (unchecked_block u)) P P')
        \<and> (code r = gap_source \<longrightarrow> (\<exists>k. ledger_block_source (bp_ledger P) (unchecked_block u) = Some k \<and> now_waiting E u r k P P'))
        \<and> (code r \<noteq> gap_previous \<longrightarrow> code r \<noteq> gap_source \<longrightarrow> unchecked_table s' = unchecked_table s)))"

lemma put_unchecked_processed:
  assumes "code r = gap_previous \<and> k = block_previous (unchecked_block u)
      \<or> code r = gap_source \<and> ledger_block_source (bp_ledger P) (unchecked_block u) = Some k"
    and "h = block_hash_of E (unchecked_block u)"
  shows "one_processed E u r P (put_unchecked V k h u r d P)"
proof -
  let ?P = "put_unchecked V k h u r d P"
  have P: "bp_blocks ?P = bp_blocks P" "bp_state_blocks ?P = bp_state_blocks P" "bp_forced ?P = bp_forced P"
    "\<exists>w. ledger_store (bp_ledger ?P) = (ledger_store (bp_ledger P))\<lparr>unchecked_table := table_put (unchecked_table (ledger_store (bp_ledger P))) (k, h) w\<rparr>
      \<and> unchecked_block w = (unchecked_block u)\<lparr>sideband_m := None\<rparr> \<and> unchecked_account w = unchecked_account u
      \<and> unchecked_verified w = verification_code (verified r)"
    by (auto simp: put_unchecked_def Let_def on_ledger_def in_store_def unchecked_put_def unchecked_count_add_def stats_inc_def stats_add_def)
  then have "now_waiting E u r k P ?P" using assms(2) by (auto simp: now_waiting_def)
  then show ?thesis using P assms(1) by (auto simp: one_processed_def Let_def)
qed

lemma process_one_cases:
  assumes ok: "block_processor_ok (view_env V) own g P" and p: "params_ok (view_env V)"
    and adm: "admissible (view_env V) own (bp_ledger P) (unchecked_block u)" and u: "item_ok (view_env V) own u"
    and del: "\<not> disable_block_processor_unchecked_deletion F"
    and run: "process (view_env V) (bp_ledger P) (unchecked_block u) (verification_of (unchecked_verified u)) = Some (L, b, r)"
  shows "\<not> announced_ok u r \<Longrightarrow> bp_process_one F V u w og P = None"
    and "announced_ok u r \<Longrightarrow> \<exists>P'. bp_process_one F V u w og P = Some (P', r) \<and> block_processor_ok (view_env V) own g P'
      \<and> one_processed (view_env V) u r P P'"
proof -
  let ?E = "view_env V" and ?h = "block_hash_of (view_env V) (unchecked_block u)"
  have H: "ledger_history ?E g (bp_ledger P)" and own: "owned own (ledger_store (bp_ledger P))"
    using ok by (simp_all add: block_processor_ok_def)
  note fr = frontiers_ownedI [OF H own]
  have v: "vouched ?E own (unchecked_account u) (unchecked_block u) (verification_of (unchecked_verified u))"
    using u by (simp add: item_ok_def)
  have ev0: "events_ok (bp_events P)" "gaps_ok (bp_gap_cache P)" using ok by (simp_all add: block_processor_ok_def)
  have h: "hash_ok ?E (bp_ledger P) (unchecked_block u)" using adm by (simp add: admissible_def)
  have L: "L = bp_ledger P" "b = unchecked_block u" if "code r \<noteq> progress"
    using process_meets_spec [OF ledger_historyD(1) [OF H] p h, of "verification_of (unchecked_verified u)"] run that by (auto simp: process_spec_def)
  show "bp_process_one F V u w og P = None" if "\<not> announced_ok u r"
    using run that by (simp add: bp_process_one_def announced_ok_def)
  show "\<exists>P'. bp_process_one F V u w og P = Some (P', r) \<and> block_processor_ok ?E own g P' \<and> one_processed ?E u r P P'"
    if an: "announced_ok u r"
  proof (cases "code r")
    case progress
    have "ret_account r = Some (block_owner own (unchecked_block u))"
      by (rule vouched_authorised(1) [OF run progress v fr]) (use an progress in \<open>auto simp: announced_ok_def\<close>)
    note ac = accepted_ledger [OF ok p adm run progress this]
    have "has_sideband b"
      by (rule process_progressE [OF ledger_historyD(1) [OF H] p h run progress]) (simp add: has_sideband_def sideband_set_def)
    let ?ev = "if unchecked_modified u > seconds_now V - 300 \<and> arrival_recent V ?h
      then bp_events P @ [\<lparr>live_hash = ?h, live_block = b, live_result = r, live_watch_work = w, live_origin = og\<rparr>] else bp_events P"
    have ev: "events_ok ?ev" using ok \<open>has_sideband b\<close> by (simp add: block_processor_ok_def events_ok_def)
    obtain P' where P': "queue_unchecked F ?E ?h (P\<lparr>bp_ledger := L, bp_events := ?ev\<rparr>) = Some P'" "block_processor_ok ?E own g P'"
        "unchecked_table (ledger_store (bp_ledger P')) = filter (\<lambda>e. fst (fst e) \<noteq> ?h) (unchecked_table (ledger_store (bp_ledger P)))"
        "set (bp_blocks P') = set (bp_blocks P) \<union> {u \<in> set (unchecked_get (ledger_store (bp_ledger P)) ?h). \<not> needs_verification u}"
        "set (bp_state_blocks P') = set (bp_state_blocks P) \<union> {u \<in> set (unchecked_get (ledger_store (bp_ledger P)) ?h). needs_verification u}"
        "same_chains L (bp_ledger P')" "bp_forced P' = bp_forced P"
      using queue_unchecked_ok [OF ok del ac(1,2,7,3,4) ac(5) ev, of ?h] by blast
    have "block_get (ledger_store (bp_ledger P')) ?h \<noteq> None" using ac(6) P'(6) by (auto simp: same_chains_def)
    moreover have "bp_process_one F V u w og P = Some (P', r)"
      using an progress P'(1) by (cases "unchecked_modified u > seconds_now V - 300 \<and> arrival_recent V ?h")
        (auto simp: bp_process_one_def run announced_ok_def)
    ultimately show ?thesis using P' progress by (auto simp: one_processed_def Let_def)
  next
    case gap_previous
    have "vouched ?E own (unchecked_account u) (unchecked_block u) (verified r)" using gap_vouched [OF run _ v fr] gap_previous by simp
    then show ?thesis
      using put_unchecked_ok [OF ok gap_waits(1) [OF H run gap_previous] _ refl] put_unchecked_processed [of r _ u _ _ ?E] L gap_previous
      by (simp add: bp_process_one_def run)
  next
    case gap_source
    have "vouched ?E own (unchecked_account u) (unchecked_block u) (verified r)" using gap_vouched [OF run _ v fr] gap_source by simp
    moreover obtain k where "ledger_block_source (bp_ledger P) (unchecked_block u) = Some k" "waits_for (ledger_store (bp_ledger P)) k (unchecked_block u)"
      using gap_waits(2) [OF H run gap_source] by blast
    ultimately show ?thesis
      using put_unchecked_ok [OF ok _ _ refl] put_unchecked_processed [of r _ u _ _ ?E] L gap_source
      by (simp add: bp_process_one_def run)
  next
    case fork
    obtain es where "process_fork V b (unchecked_modified u) L = Some es"
      using process_fork_defined [OF H refl] L fork by auto
    then show ?thesis
      using L fork ev0 processor_kept [OF ok]
      by (simp add: bp_process_one_def run one_processed_def Let_def on_ledger_def effects_def stats_inc_def stats_add_def)
  next
    case old
    then show ?thesis
      using L ev0 processor_kept [OF ok]
      by (simp add: bp_process_one_def run one_processed_def Let_def on_ledger_def effects_def stats_inc_def stats_add_def)
  next
    case bad_signature
    then show ?thesis
      using L ev0 processor_kept [OF ok]
      by (simp add: bp_process_one_def run one_processed_def Let_def requeue_invalid_def effects_def)
  qed (use L ok ev0 processor_kept in \<open>auto simp: bp_process_one_def run one_processed_def Let_def\<close>)
qed

end
