(* ===== verification/Block_Runs.thy ===== *)
theory Block_Runs
  imports Block_Steps
begin

text \<open>
  The block processor over time: blocks arrive, are verified, processed in batches and forced, and heights are
  cemented in between. A batch returns, and leaves the invariant in place.
\<close>

lemma new_block_processor_ok:
  assumes "ledger_run (crypto_fns E) (params E) g L" "params_ok E" "owned own (ledger_store L)" "unchecked_ok E own L"
  shows "block_processor_ok E own g (new_block_processor L)"
  using assms run_history_ok [OF assms(1,2)]
  by (simp add: block_processor_ok_def new_block_processor_def queues_ok_def events_ok_def gaps_ok_def)

section \<open>Arrivals\<close>

lemma item_unknown [simp]: "unchecked_verified u = 0 \<Longrightarrow> item_ok E own u"
  by (simp add: item_ok_def verification_of_def vouched_def)

lemma add_info_ok:
  assumes "block_processor_ok E own g P" "item_ok E own u"
  shows "block_processor_ok E own g (bp_add_info F u f P)"
  using assms by (auto simp: block_processor_ok_def bp_add_info_def queues_ok_def Let_def)

lemma make_unchecked_info_ok [simp]: "item_ok E own (make_unchecked_info b a t Sig_unknown)"
  by (simp add: make_unchecked_info_def)

lemma add_ok: "block_processor_ok E own g P \<Longrightarrow> block_processor_ok E own g (bp_add F b t P)"
  by (simp add: bp_add_def add_info_ok)

lemma queue_frame [simp]:
  "block_processor_ok E own g (P\<lparr>bp_forced := x\<rparr>) = block_processor_ok E own g P"
  "block_processor_ok E own g (P\<lparr>bp_awaiting_write := y\<rparr>) = block_processor_ok E own g P"
  "block_processor_ok E own g (effects es P) = block_processor_ok E own g P" "bp_ledger (effects es P) = bp_ledger P"
  by (simp_all add: block_processor_ok_def queues_ok_def effects_def)

section \<open>Verification\<close>

lemma process_verified_ok:
  assumes ok: "block_processor_ok E own g P" and u: "needs_verification u" "verify_item E u = Some v"
  shows "block_processor_ok E own g (process_verified E u v P)"
proof -
  let ?b = "unchecked_block u"
  obtain a where a: "verification_account E u = Some a" "v = signed_by E ?b a"
    using u(2) by (auto simp: verify_item_def signed_by_def bind_eq_Some_conv)
  have push: "block_processor_ok E own g (P\<lparr>bp_blocks := bp_blocks P @ [u\<lparr>unchecked_verified := verification_code x\<rparr>]\<rparr>)"
    if "vouched E own (unchecked_account u) ?b x" for x
    using ok that by (auto simp: block_processor_ok_def queues_ok_def item_ok_def)
  have "block_account ?b = block_owner own ?b" if "unchecked_account u = 0"
    using u(1) that by (auto simp: needs_verification_def type_of_def block_account_def block_owner_def split: block_hashables.splits)
  then have "vouched E own (unchecked_account u) ?b (if v then Sig_valid_epoch else Sig_unknown)" if "has_epoch_link E ?b"
    using a that by (simp add: vouched_def verification_account_def has_epoch_link_def Let_def)
  moreover have "vouched E own (unchecked_account u) ?b Sig_valid" if "\<not> has_epoch_link E ?b" "v"
    using a that \<open>unchecked_account u = 0 \<Longrightarrow> _\<close> by (auto simp: vouched_def verification_account_def Let_def split: if_splits)
  ultimately show ?thesis using push ok by (auto simp: process_verified_def requeue_invalid_def Let_def simp del: verification_code.simps)
qed

lemma process_verified_blocks_ok:
  assumes "block_processor_ok E own g P" "\<forall>u \<in> set us. needs_verification u" "map (verify_item E) us = map Some vs"
  shows "block_processor_ok E own g (process_verified_state_blocks E us vs P)"
  using assms by (induction E us vs P rule: process_verified_state_blocks.induct) (auto intro: process_verified_ok)

lemma those_Some_iff: "those xs = Some ys \<longleftrightarrow> xs = map Some ys"
  by (induction xs arbitrary: ys) (auto split: option.splits simp: Cons_eq_map_conv)

lemma those_map_Some [simp]: "those (map Some ys) = Some ys"
  by (simp add: those_Some_iff)

lemma verify_item_defined: "params_ok E \<Longrightarrow> verify_item E u \<noteq> None"
  by (auto simp: verify_item_def verification_account_def has_epoch_link_def Let_def elim: epoch_link_defined)

text \<open>Verifying never fails, and every mark it makes stands for a checked signature.\<close>

lemma verify_state_blocks_ok:
  assumes "block_processor_ok E own g P" "params_ok E"
  shows "\<exists>P'. verify_state_blocks E n P = Some P' \<and> block_processor_ok E own g P'"
proof -
  let ?us = "take n (bp_state_blocks P)" and ?P = "P\<lparr>bp_state_blocks := drop n (bp_state_blocks P)\<rparr>"
  have "verify_item E = Some \<circ> (the \<circ> verify_item E)" using verify_item_defined [OF assms(2)] by auto
  then obtain vs where vs: "map (verify_item E) ?us = map Some vs" by (metis list.map_comp)
  have "block_processor_ok E own g ?P" "\<forall>u \<in> set ?us. needs_verification u"
    using assms(1) set_drop_subset [of n "bp_state_blocks P"] set_take_subset [of n "bp_state_blocks P"]
    by (auto simp: block_processor_ok_def queues_ok_def)
  from process_verified_blocks_ok [OF this vs] show ?thesis
    using vs by (simp add: verify_state_blocks_def setup_items_def)
qed

section \<open>Forced blocks\<close>

lemma undo_steps_unchecked: "undo_steps E rk \<rho> s s' \<Longrightarrow> unchecked_table s' = unchecked_table s"
  by (induction rule: undo_steps.induct) (simp_all add: undone_def)

lemma rollback_ok:
  assumes ok: "block_processor_ok E own g P" and run: "rollback n E (bp_ledger P) t lst = Some (L, lst', err)"
  shows "block_processor_ok E own g (P\<lparr>bp_ledger := L\<rparr>)"
proof -
  have H: "ledger_history E g (bp_ledger P)" using ok by (simp add: block_processor_ok_def)
  obtain rk where inv: "undo_inv E g rk (ledger_store (bp_ledger P))" using ledger_historyD(3) [OF H] ..
  obtain bt where u: "undo_steps E rk (rk t) (ledger_store (bp_ledger P)) (ledger_store L)" "same_drift (bp_ledger P) L"
    using rollback_returned [OF inv run] by metis
  have kept: "\<exists>c. block_get (ledger_store (bp_ledger P)) h = Some c \<and> same_block c c'" if "block_get (ledger_store L) h = Some c'" for h c'
    using undo_steps_shrink [OF u(1) inv that] by blast
  have "owned own (ledger_store L)"
    using owned_kept [OF _ kept] ok by (simp add: block_processor_ok_def)
  moreover have "unchecked_ok E own L"
    using entries_kept [OF _ undo_steps_unchecked [OF u(1)] _ kept] ok u(2) by (simp add: block_processor_ok_def same_drift_def)
  ultimately show ?thesis using ok rollback_history [OF H run] by (simp add: block_processor_ok_def queues_ok_def)
qed

lemma replace_forced_ok:
  assumes "block_processor_ok E own g P" "replace_forced n E b P = Some P'"
  shows "block_processor_ok E own g P'"
  using assms rollback_ok [OF assms(1)]
  by (auto simp: replace_forced_def bind_eq_Some_conv Let_def split: option.splits if_splits)

lemma next_item_ok:
  assumes "block_processor_ok (view_env V) own g P" "next_item n V P = Some (u, P')"
  shows "block_processor_ok (view_env V) own g P'" "item_ok (view_env V) own u"
proof -
  have "block_processor_ok (view_env V) own g P' \<and> item_ok (view_env V) own u"
  proof (cases "bp_forced P")
    case Nil
    then show ?thesis using assms by (auto simp: next_item_def block_processor_ok_def queues_ok_def split: list.splits)
  next
    case (Cons b bs)
    then show ?thesis
      using assms replace_forced_ok [of "view_env V" own g "P\<lparr>bp_forced := bs\<rparr>"]
      by (auto simp: next_item_def bind_eq_Some_conv)
  qed
  then show "block_processor_ok (view_env V) own g P'" "item_ok (view_env V) own u" by simp_all
qed

text \<open>A rollback settles on a result: a refusal exactly when the block is cemented, and otherwise the block is gone.\<close>

lemma rollback_settled:
  assumes H: "ledger_history E g L" and t: "block_get (ledger_store L) t = Some b"
  obtains L' lst' where "settles (\<lambda>n. rollback n E L t lst) (L', lst', cemented (ledger_store L) b)"
    "cemented (ledger_store L) b \<Longrightarrow> L' = L" "\<not> cemented (ledger_store L) b \<Longrightarrow> block_get (ledger_store L') t = None"
proof -
  obtain rk where inv: "undo_inv E g rk (ledger_store L)" using ledger_historyD(3) [OF H] ..
  show ?thesis
  proof (cases "cemented (ledger_store L) b")
    case True
    have "rollback n E L t lst = Some (L, lst, True)" if "3 \<le> n" for n
      using rollback_cemented [OF store_okD(1) [OF undo_invD(2) [OF inv]] t True, of "n - 3" E lst] that
      by (simp add: numeral_3_eq_3 Suc_diff_Suc del: rollback.simps)
    then show ?thesis using True by (intro that [of L lst]) (auto simp: settles_def simp del: rollback.simps)
  next
    case False
    then show ?thesis using rollback_settles [OF inv t False, of lst] that unfolding call_ok_def by auto
  qed
qed

text \<open>A forced block finds no other block in its place afterwards, unless that one is cemented.\<close>

definition replaced :: "env \<Rightarrow> block \<Rightarrow> block_processor \<Rightarrow> block_processor \<Rightarrow> bool" where
  "replaced E b P P' = (case ledger_successor (bp_ledger P) (qualified_root b) of
      None \<Rightarrow> bp_ledger P' = bp_ledger P
    | Some c \<Rightarrow> if block_hash_of E c = block_hash_of E b \<or> cemented (ledger_store (bp_ledger P)) c then bp_ledger P' = bp_ledger P
        else block_get (ledger_store (bp_ledger P')) (block_hash_of E c) = None)"

lemma ledger_successor_stored:
  assumes "ledger_history E g L" "ledger_successor L q = Some c"
  shows "block_get (ledger_store L) (block_hash_of E c) = Some c"
proof -
  obtain h where h: "block_get (ledger_store L) h = Some c" using assms(2) by (auto simp: ledger_successor_def Let_def split: if_splits option.splits)
  then show ?thesis using stored_height [OF assms(1) h] by metis
qed

lemma replace_forced_settles:
  assumes ok: "block_processor_ok E own g P"
  obtains P' where "settles (\<lambda>n. replace_forced n E b P) P'" "replaced E b P P'"
proof -
  have H: "ledger_history E g (bp_ledger P)" using ok by (simp add: block_processor_ok_def)
  show ?thesis
  proof (cases "ledger_successor (bp_ledger P) (qualified_root b)")
    case None
    then show ?thesis by (intro that [of P]) (simp_all add: replace_forced_def replaced_def settles_const)
  next
    case (Some c)
    note c = ledger_successor_stored [OF H Some]
    show ?thesis
    proof (cases "block_hash_of E c = block_hash_of E b")
      case True
      then show ?thesis using Some by (intro that [of P]) (simp_all add: replace_forced_def replaced_def settles_const)
    next
      case False
      obtain L lst where L: "settles (\<lambda>n. rollback n E (bp_ledger P) (block_hash_of E c) []) (L, lst, cemented (ledger_store (bp_ledger P)) c)"
          "cemented (ledger_store (bp_ledger P)) c \<Longrightarrow> L = bp_ledger P"
          "\<not> cemented (ledger_store (bp_ledger P)) c \<Longrightarrow> block_get (ledger_store L) (block_hash_of E c) = None"
        using rollback_settled [OF H c, where lst = "[]"] by metis
      obtain k where k: "\<forall>n \<ge> k. rollback n E (bp_ledger P) (block_hash_of E c) [] = Some (L, lst, cemented (ledger_store (bp_ledger P)) c)"
        using L(1) by (auto simp: settles_def)
      then have "\<exists>es. \<forall>n \<ge> k. replace_forced n E b P = Some (effects es (P\<lparr>bp_ledger := L\<rparr>))"
        using Some False by (auto simp: replace_forced_def)
      then obtain es where "settles (\<lambda>n. replace_forced n E b P) (effects es (P\<lparr>bp_ledger := L\<rparr>))" unfolding settles_def by blast
      then show ?thesis using Some False L(2,3) by (intro that) (auto simp: replaced_def effects_def)
    qed
  qed
qed

section \<open>Batches\<close>

lemma same_network_processor:
  assumes "same_network E E'"
  shows "block_processor_ok E' own g P = block_processor_ok E own g P" "params_ok E' = params_ok E" "item_ok E' own u = item_ok E own u"
proof -
  have net: "crypto_fns E' = crypto_fns E" "params E' = params E" using assms by (simp_all add: same_network_def)
  have i: "item_ok E' own u = item_ok E own u" for u
    by (simp add: item_ok_def vouched_def signed_by_def ledger_is_epoch_link_def ledger_epoch_signer_def net)
  then show "block_processor_ok E' own g P = block_processor_ok E own g P" "item_ok E' own u = item_ok E own u"
    using same_network_history [OF assms] by (simp_all add: block_processor_ok_def unchecked_ok_def entry_ok_def queues_ok_def net)
  show "params_ok E' = params_ok E" by (simp add: params_ok_def net)
qed

text \<open>A block announced for an account belongs to it.\<close>

definition announced :: "(block_hash \<Rightarrow> account) \<Rightarrow> unchecked_info \<Rightarrow> bool" where
  "announced own u = (unchecked_account u = 0 \<or> unchecked_account u = block_owner own (unchecked_block u))"

lemma process_one_returns:
  assumes ok: "block_processor_ok (view_env V) own g P" "params_ok (view_env V)" "admissible (view_env V) own (bp_ledger P) (unchecked_block u)"
      "item_ok (view_env V) own u" "\<not> disable_block_processor_unchecked_deletion F"
    and an: "announced own u"
  shows "\<exists>P' r. bp_process_one F V u w og P = Some (P', r) \<and> block_processor_ok (view_env V) own g P' \<and> one_processed (view_env V) u r P P'"
proof -
  have H: "ledger_history (view_env V) g (bp_ledger P)" "owned own (ledger_store (bp_ledger P))"
    using ok(1) by (simp_all add: block_processor_ok_def)
  obtain L b r where run: "process (view_env V) (bp_ledger P) (unchecked_block u) (verification_of (unchecked_verified u)) = Some (L, b, r)"
    using process_meets_spec [OF ledger_historyD(1) [OF H(1)] ok(2), of "unchecked_block u" "verification_of (unchecked_verified u)"] ok(3)
    by (auto simp: admissible_def)
  have "ret_account r = Some (block_owner own (unchecked_block u))" if "code r = progress"
    using process_post [OF process_vouched [OF _ frontiers_ownedI [OF H]] run, of "unchecked_account u"] that ok(4)
    by (auto simp: vouched_post_def item_ok_def initial_result_def)
  then have "announced_ok u r" using an by (auto simp: announced_ok_def announced_def)
  from process_one_cases(2) [OF ok run this] show ?thesis by blast
qed

lemma next_item_settles:
  assumes "block_processor_ok (view_env V) own g P" "bp_blocks P \<noteq> [] \<or> bp_forced P \<noteq> []"
  obtains u P' where "settles (\<lambda>n. next_item n V P) (u, P')" "block_processor_ok (view_env V) own g P'" "item_ok (view_env V) own u"
proof -
  obtain u P' where st: "settles (\<lambda>n. next_item n V P) (u, P')"
  proof (cases "bp_forced P")
    case Nil
    then obtain y ys where "bp_blocks P = y # ys" using assms(2) by (auto simp: neq_Nil_conv)
    then show ?thesis using Nil by (intro that [of y "P\<lparr>bp_blocks := ys\<rparr>"]) (simp add: next_item_def settles_const)
  next
    case (Cons b bs)
    have "block_processor_ok (view_env V) own g (P\<lparr>bp_forced := bs\<rparr>)" using assms(1) by simp
    from replace_forced_settles [OF this, of b]
    obtain P' where P': "settles (\<lambda>n. replace_forced n (view_env V) b (P\<lparr>bp_forced := bs\<rparr>)) P'" by blast
    have "settles (\<lambda>n. next_item n V P) (make_unchecked_info b 0 (seconds_now V) Sig_unknown, P')"
      unfolding next_item_def Cons list.case by (rule settles_bind [OF P' settles_const])
    then show ?thesis by (rule that)
  qed
  then obtain n where "next_item n V P = Some (u, P')" by (auto simp: settles_def)
  from that [OF st next_item_ok [OF assms(1) this]] show ?thesis .
qed

lemma iteration_settles:
  assumes ok: "block_processor_ok (view_env V) own g P" "params_ok (view_env V)" "\<not> disable_block_processor_unchecked_deletion F"
    and ne: "bp_blocks P \<noteq> [] \<or> bp_forced P \<noteq> []"
    and guard: "\<And>u P1. settles (\<lambda>n. next_item n V P) (u, P1) \<Longrightarrow>
      admissible (view_env V) own (bp_ledger P1) (unchecked_block u) \<and> announced own u"
  obtains P' where "settles (\<lambda>n. batch_iteration n F V P) P'" "block_processor_ok (view_env V) own g P'"
proof -
  obtain u P1 where u: "settles (\<lambda>n. next_item n V P) (u, P1)" "block_processor_ok (view_env V) own g P1" "item_ok (view_env V) own u"
    using next_item_settles [OF ok(1) ne] .
  obtain P' r where r: "bp_process_one F V u False Origin_remote P1 = Some (P', r)" "block_processor_ok (view_env V) own g P'"
    using process_one_returns [OF u(2) ok(2) _ u(3) ok(3)] guard [OF u(1)] by blast
  have "settles (\<lambda>n. batch_iteration n F V P) P'"
    unfolding batch_iteration_def by (rule settles_bind [OF u(1)]) (simp add: r(1) settles_const)
  with r(2) that show ?thesis by blast
qed

text \<open>The states a batch goes through from iteration \<open>i\<close> on, and what is asked of the blocks it takes.\<close>

inductive batch_reach :: "processor_flags \<Rightarrow> (nat \<Rightarrow> processor_view) \<Rightarrow> nat \<Rightarrow> block_processor \<Rightarrow> nat \<Rightarrow> block_processor \<Rightarrow> bool"
  for F V i P where
  batch_start: "batch_reach F V i P i P"
| batch_iterate: "batch_reach F V i P j Q \<Longrightarrow> settles (\<lambda>n. batch_iteration n F (V j) Q) Q' \<Longrightarrow> batch_reach F V i P (Suc j) Q'"

definition batch_admissible :: "(block_hash \<Rightarrow> account) \<Rightarrow> processor_flags \<Rightarrow> (nat \<Rightarrow> processor_view) \<Rightarrow> nat \<Rightarrow> block_processor \<Rightarrow> bool" where
  "batch_admissible own F V i P = (\<forall>j Q u Q'. batch_reach F V i P j Q \<longrightarrow> settles (\<lambda>n. next_item n (V j) Q) (u, Q') \<longrightarrow>
     admissible (view_env (V j)) own (bp_ledger Q') (unchecked_block u) \<and> announced own u)"

lemma batch_reach_first:
  assumes "batch_reach F V (Suc i) P1 j Q" "settles (\<lambda>n. batch_iteration n F (V i) P) P1"
  shows "batch_reach F V i P j Q"
  using assms by (induction rule: batch_reach.induct) (auto intro: batch_reach.intros)

lemma batch_admissible_next:
  "batch_admissible own F V i P \<Longrightarrow> settles (\<lambda>n. batch_iteration n F (V i) P) P1 \<Longrightarrow> batch_admissible own F V (Suc i) P1"
  unfolding batch_admissible_def using batch_reach_first by blast

lemma batch_loop_settles:
  assumes net: "\<And>j. same_network E (view_env (V j))" and p: "params_ok E" "\<not> disable_block_processor_unchecked_deletion F"
    and late: "\<And>j. N \<le> j \<Longrightarrow> \<not> before_deadline j"
    and ok: "block_processor_ok E own g P" "batch_admissible own F V i P"
  shows "\<exists>P'. settles (\<lambda>n. batch_loop n F V before_deadline i P) P' \<and> block_processor_ok E own g P'"
  using ok
proof (induction "max N (block_processor_batch_size F) - i" arbitrary: i P rule: less_induct)
  case less
  let ?more = "(bp_blocks P \<noteq> [] \<or> bp_forced P \<noteq> []) \<and> (before_deadline i \<or> i < block_processor_batch_size F) \<and> \<not> bp_awaiting_write P"
  show ?case
  proof (cases ?more)
    case False
    then have "batch_loop n F V before_deadline i P = Some P" for n by (subst batch_loop.simps) auto
    then show ?thesis using less.prems(1) settles_const [of P] by auto
  next
    case True
    have vok: "block_processor_ok (view_env (V i)) own g P" "params_ok (view_env (V i))"
      using less.prems(1) p(1) same_network_processor [OF net] by simp_all
    have guard: "admissible (view_env (V i)) own (bp_ledger Q) (unchecked_block u) \<and> announced own u"
      if "settles (\<lambda>n. next_item n (V i) P) (u, Q)" for u Q
      using less.prems(2) batch_start [of F V i P] that unfolding batch_admissible_def by blast
    obtain P1 where P1: "settles (\<lambda>n. batch_iteration n F (V i) P) P1" "block_processor_ok (view_env (V i)) own g P1"
      by (rule iteration_settles [OF vok p(2) _ guard]) (use True in auto)
    have "max N (block_processor_batch_size F) - Suc i < max N (block_processor_batch_size F) - i"
      using True late [of i] by (cases "N \<le> i") auto
    then obtain P' where P': "settles (\<lambda>n. batch_loop n F V before_deadline (Suc i) P1) P'" "block_processor_ok E own g P'"
      using less.hyps [of "Suc i" P1] P1 same_network_processor(1) [OF net] batch_admissible_next [OF less.prems(2)] by blast
    have step: "batch_loop n F V before_deadline i P = batch_iteration n F (V i) P \<bind> batch_loop n F V before_deadline (Suc i)" for n
      using True by (subst batch_loop.simps) simp
    have "settles (\<lambda>n. batch_loop n F V before_deadline i P) P'" unfolding step by (rule settles_bind [OF P1(1)]) (rule P'(1))
    with P'(2) show ?thesis by blast
  qed
qed

section \<open>After a batch\<close>

lemma run_events_ok:
  assumes "block_processor_ok E own g P" "events_ok es"
  shows "\<exists>P'. run_events F W es P = Some P' \<and> block_processor_ok E own g P' \<and> bp_ledger P' = bp_ledger P"
  using assms
proof (induction es arbitrary: P)
  case (Cons e es)
  have H: "ledger_history E g (bp_ledger P)" using Cons.prems(1) by (simp add: block_processor_ok_def)
  obtain x where "can_vote (view_env W) (bp_ledger P) (live_block e) = Some x"
    using can_vote_defined [OF H] Cons.prems(2) by (force simp: events_ok_def)
  then obtain fx where "process_live F W e (bp_ledger P) = Some fx" by (cases "live_watch_work e") (simp_all add: process_live_def Let_def)
  then show ?case using Cons.IH [of "effects fx P"] Cons.prems by (auto simp: events_ok_def)
qed simp

lemma events_frame: "block_processor_ok E own g P \<Longrightarrow> events_ok es \<Longrightarrow> block_processor_ok E own g (P\<lparr>bp_events := es\<rparr>)"
  by (simp add: block_processor_ok_def queues_ok_def)

lemma finish_ok:
  assumes "block_processor_ok E own g P"
  shows "\<exists>P'. run_events F W (bp_events P) (P\<lparr>bp_awaiting_write := False, bp_events := []\<rparr>) = Some P' \<and> block_processor_ok E own g P'
    \<and> bp_ledger P' = bp_ledger P"
proof -
  have "events_ok []" "events_ok (bp_events P)" using assms by (simp_all add: events_ok_def block_processor_ok_def)
  with run_events_ok [OF events_frame, of E own g "P\<lparr>bp_awaiting_write := False\<rparr>"] assms show ?thesis by fastforce
qed

lemma process_batch_settles:
  assumes net: "\<And>j. same_network E (view_env (V j))" and p: "params_ok E" "\<not> disable_block_processor_unchecked_deletion F"
    and late: "\<And>j. N \<le> j \<Longrightarrow> \<not> before_deadline j"
    and ok: "block_processor_ok E own g P" "batch_admissible own F V 0 (P\<lparr>bp_events := []\<rparr>)"
  shows "\<exists>P'. settles (\<lambda>n. process_batch n F V before_deadline W P) P' \<and> block_processor_ok E own g P'"
proof -
  have "block_processor_ok E own g (P\<lparr>bp_events := []\<rparr>)" using events_frame [OF ok(1)] by (simp add: events_ok_def)
  from batch_loop_settles [where N = N and before_deadline = before_deadline, OF net p late this ok(2)]
  obtain P1 where P1: "settles (\<lambda>n. batch_loop n F V before_deadline 0 (P\<lparr>bp_events := []\<rparr>)) P1" "block_processor_ok E own g P1" by blast
  obtain P' where P': "run_events F W (bp_events P1) (P1\<lparr>bp_awaiting_write := False, bp_events := []\<rparr>) = Some P'" "block_processor_ok E own g P'"
    using finish_ok [OF P1(2)] by blast
  have "settles (\<lambda>n. process_batch n F V before_deadline W P) P'"
    unfolding process_batch_def by (rule settles_bind [OF P1(1)]) (simp add: P'(1) settles_const)
  with P'(2) show ?thesis by blast
qed

section \<open>Runs\<close>

lemma cement_write_unchecked:
  "cement_write bc p L cem = Some (L', x) \<Longrightarrow> cache_unchecked_count (cache L') = cache_unchecked_count (cache L)"
  by (auto simp: cement_write_def Let_def stats_add_def cemented_count_add_def in_store_def bind_eq_Some_conv split: option.splits if_splits)

lemma cement_loop_unchecked:
  "cement_loop bc ps L cem err = Some (L', x) \<Longrightarrow> cache_unchecked_count (cache L') = cache_unchecked_count (cache L)"
  by (induction bc ps L cem err rule: cement_loop.induct) (auto simp: bind_eq_Some_conv cement_write_unchecked split: if_splits)

lemma heights_frame [simp]:
  "block_get (foldl height_written s ps) h = block_get s h" "unchecked_table (foldl height_written s ps) = unchecked_table s"
proof -
  have "block_get (height_written s p) h = block_get s h" "unchecked_table (height_written s p) = unchecked_table s" for s p
    by (simp add: height_written_def split: option.split) (simp add: height_written_def confirmation_height_put_def split: option.split)
  then show "block_get (foldl height_written s ps) h = block_get s h" "unchecked_table (foldl height_written s ps) = unchecked_table s"
    by (induction ps arbitrary: s) simp_all
qed

text \<open>Cementing leaves the processor as it is.\<close>

lemma cement_processor_ok:
  assumes ok: "block_processor_ok E own g P" and w: "writes_ok E g (ledger_store (bp_ledger P)) ps"
      "\<forall>p \<in> set ps. \<forall>h \<in> set (block_callback_data p). bc h \<noteq> None"
    and run: "cement_blocks bc ps (bp_ledger P) = Some (L, bs, rest)"
  shows "block_processor_ok E own g (P\<lparr>bp_ledger := L\<rparr>)"
proof -
  have H: "ledger_history E g (bp_ledger P)" using ok by (simp add: block_processor_ok_def)
  have L: "ledger_history E g L" "ledger_store L = foldl height_written (ledger_store (bp_ledger P)) ps"
      "total_supply (ledger_store L) = total_supply (ledger_store (bp_ledger P))"
    using cement_blocks_spec [OF H w] run by auto
  have "cache_unchecked_count (cache L) = cache_unchecked_count (cache (bp_ledger P))"
    using run cement_loop_unchecked by (fastforce simp: cement_blocks_def bind_eq_Some_conv split: if_splits)
  then have "unchecked_ok E own L" using entries_kept [of E own "bp_ledger P" L] ok L(2) by (simp add: block_processor_ok_def)
  then show ?thesis using ok L(1,3) by (simp add: block_processor_ok_def owned_def queues_ok_def L(2))
qed

text \<open>A vote for a waiting block reads weights and marks the gap.\<close>

lemma gap_vote_frame:
  assumes "gap_vote C G v (c, L) = ((c', L'), alarms)"
  shows "ledger_store L' = ledger_store L \<and> cache L' = cache L"
proof -
  have one: "ledger_store (snd (fst (gap_vote_hash G a h (c, L)))) = ledger_store L \<and> cache (snd (fst (gap_vote_hash G a h (c, L)))) = cache L"
    for a h c L
    using sum_weights_frame [of _ L] by (auto simp: gap_vote_hash_def bootstrap_check_def Let_def split: option.split prod.split)
  have "ledger_store (snd (fst (gap_vote_hashes G a hs (c, L)))) = ledger_store L \<and> cache (snd (fst (gap_vote_hashes G a hs (c, L)))) = cache L"
    for a hs
  proof (induction hs arbitrary: c L)
    case (Cons h hs)
    then show ?case using one [of a h c L] by (simp add: Let_def split: prod.split) (metis fst_conv snd_conv surj_pair)
  qed simp
  from this [of "vote_account v" "vote_hashes C v"] show ?thesis using assms by (simp add: gap_vote_def)
qed

lemma gap_vote_processor_ok:
  assumes "block_processor_ok E own g P" "gap_vote C G v (bp_gap_cache P, bp_ledger P) = ((c, L), alarms)"
  shows "block_processor_ok E own g (P\<lparr>bp_gap_cache := c, bp_ledger := L\<rparr>)"
proof (rule processor_kept [OF assms(1)])
  show "ledger_store (bp_ledger (P\<lparr>bp_gap_cache := c, bp_ledger := L\<rparr>)) = ledger_store (bp_ledger P)"
      "cache (bp_ledger (P\<lparr>bp_gap_cache := c, bp_ledger := L\<rparr>)) = cache (bp_ledger P)"
    using gap_vote_frame [OF assms(2)] by simp_all
  show "gaps_ok (bp_gap_cache (P\<lparr>bp_gap_cache := c, bp_ledger := L\<rparr>))"
    using gap_vote_ok [of "bp_gap_cache P" C G v "bp_ledger P"] assms by (simp add: block_processor_ok_def)
qed (use assms(1) in \<open>simp_all add: block_processor_ok_def\<close>)

lemma process_one_ok:
  assumes net: "same_network E (view_env V)" and ok: "block_processor_ok E own g P" "params_ok E"
      "\<not> disable_block_processor_unchecked_deletion F" "item_ok E own u"
    and adm: "admissible (view_env V) own (bp_ledger P) (unchecked_block u)"
    and run: "bp_process_one F V u w og P = Some (P', r)"
  shows "block_processor_ok E own g P'" "one_processed (view_env V) u r P P'"
proof -
  note vok = ok [folded same_network_processor [OF net]]
  obtain L b r' where p: "process (view_env V) (bp_ledger P) (unchecked_block u) (verification_of (unchecked_verified u)) = Some (L, b, r')"
    using run by (auto simp: bp_process_one_def Let_def bind_eq_Some_conv)
  note c = process_one_cases [OF vok(1,2) adm vok(4,3) p, of w og]
  have "announced_ok u r'" using c(1) run by fastforce
  from c(2) [OF this] have "block_processor_ok (view_env V) own g P'" "one_processed (view_env V) u r P P'" using run by auto
  then show "block_processor_ok E own g P'" "one_processed (view_env V) u r P P'" using same_network_processor(1) [OF net] by simp_all
qed

lemma process_local_ok:
  assumes net: "same_network E (view_env V)" and ok: "block_processor_ok E own g P" "params_ok E"
      "\<not> disable_block_processor_unchecked_deletion F"
    and adm: "admissible (view_env V) own (bp_ledger P) b"
  shows "\<exists>P' r. process_local F V b w P = Some (P', r) \<and> block_processor_ok E own g P'"
proof -
  let ?u = "make_unchecked_info b (block_account b) (seconds_now V) Sig_unknown"
  let ?P = "(bp_wait_write (effects [Arrival_add (block_hash_of (view_env V) b)] P))\<lparr>bp_events := []\<rparr>"
  note vok = ok [folded same_network_processor [OF net]]
  have P: "block_processor_ok (view_env V) own g ?P" using events_frame vok(1) by (simp add: bp_wait_write_def events_ok_def)
  have L: "bp_ledger ?P = bp_ledger P" and b: "unchecked_block ?u = b" by (simp_all add: bp_wait_write_def make_unchecked_info_def)
  have "announced own ?u"
    by (auto simp: announced_def make_unchecked_info_def block_account_def block_owner_def split: block_hashables.split)
  then obtain P1 r where P1: "bp_process_one F V ?u w Origin_local ?P = Some (P1, r)" "block_processor_ok (view_env V) own g P1"
    using process_one_returns [OF P vok(2) _ _ vok(3), of ?u w Origin_local] adm L b by auto
  have "events_ok (bp_events P)" "events_ok (bp_events P1)" using vok(1) P1(2) by (simp_all add: block_processor_ok_def)
  then obtain P2 where "run_events F V (bp_events P1) (P1\<lparr>bp_events := bp_events P\<rparr>) = Some P2" "block_processor_ok (view_env V) own g P2"
    using run_events_ok [OF events_frame [OF P1(2)]] by blast
  then show ?thesis using P1(1) same_network_processor(1) [OF net] by (simp add: process_local_def Let_def)
qed

inductive bp_run :: "env \<Rightarrow> (block_hash \<Rightarrow> account) \<Rightarrow> block_hash \<Rightarrow> processor_flags \<Rightarrow> block_processor \<Rightarrow> block_processor \<Rightarrow> bool"
  for E own g F P0 where
  bp_run_start: "bp_run E own g F P0 P0"
| bp_run_active: "bp_run E own g F P0 P \<Longrightarrow> bp_run E own g F P0 (process_active F V b P)"
| bp_run_add: "bp_run E own g F P0 P \<Longrightarrow> unchecked_verified u = 0 \<Longrightarrow> bp_run E own g F P0 (bp_add_info F u False P)"
| bp_run_force: "bp_run E own g F P0 P \<Longrightarrow> bp_run E own g F P0 (bp_force b P)"
| bp_run_verify: "bp_run E own g F P0 P \<Longrightarrow> verify_state_blocks E n P = Some P' \<Longrightarrow> bp_run E own g F P0 P'"
| bp_run_one: "bp_run E own g F P0 P \<Longrightarrow> same_network E (view_env V) \<Longrightarrow> next_item n V P = Some (u, P1) \<Longrightarrow>
    admissible (view_env V) own (bp_ledger P1) (unchecked_block u) \<Longrightarrow>
    bp_process_one F V u False Origin_remote P1 = Some (P', r) \<Longrightarrow> bp_run E own g F P0 P'"
| bp_run_finish: "bp_run E own g F P0 P \<Longrightarrow>
    run_events F V (bp_events P) (P\<lparr>bp_awaiting_write := False, bp_events := []\<rparr>) = Some P' \<Longrightarrow> bp_run E own g F P0 P'"
| bp_run_local: "bp_run E own g F P0 P \<Longrightarrow> same_network E (view_env V) \<Longrightarrow> admissible (view_env V) own (bp_ledger P) b \<Longrightarrow>
    process_local F V b w P = Some (P', r) \<Longrightarrow> bp_run E own g F P0 P'"
| bp_run_gap_vote: "bp_run E own g F P0 P \<Longrightarrow> gap_vote C G v (bp_gap_cache P, bp_ledger P) = ((c, L), alarms) \<Longrightarrow>
    bp_run E own g F P0 (P\<lparr>bp_gap_cache := c, bp_ledger := L\<rparr>)"
| bp_run_heights: "bp_run E own g F P0 P \<Longrightarrow> writes_ok E g (ledger_store (bp_ledger P)) ps \<Longrightarrow>
    \<forall>p \<in> set ps. \<forall>h \<in> set (block_callback_data p). bc h \<noteq> None \<Longrightarrow>
    cement_blocks bc ps (bp_ledger P) = Some (L, bs, rest) \<Longrightarrow> bp_run E own g F P0 (P\<lparr>bp_ledger := L\<rparr>)"

lemma bp_run_ok:
  assumes "bp_run E own g F P0 P" "block_processor_ok E own g P0" "params_ok E" "\<not> disable_block_processor_unchecked_deletion F"
  shows "block_processor_ok E own g P"
  using assms(1)
proof (induction rule: bp_run.induct)
  case (bp_run_active P V b)
  then show ?case by (simp add: process_active_def add_ok)
next
  case (bp_run_force P b)
  then show ?case by (simp add: bp_force_def)
next
  case (bp_run_verify P n P')
  then show ?case using verify_state_blocks_ok [OF _ assms(3), of own g P n] by auto
next
  case (bp_run_one P V n u P1 P' r)
  note it = next_item_ok [OF _ bp_run_one(3)] 
  show ?case
    by (rule process_one_ok(1) [OF bp_run_one(2) _ assms(3,4) _ bp_run_one(4,5)]) (use it bp_run_one(6) same_network_processor [OF bp_run_one(2)] in auto)
next
  case (bp_run_finish P V P')
  then show ?case using finish_ok [of E own g P F V] by auto
next
  case (bp_run_local P V b w P' r)
  then show ?case using process_local_ok [OF bp_run_local(2) _ assms(3,4) bp_run_local(3), of g w] by auto
next
  case (bp_run_gap_vote P C G v c L alarms)
  then show ?case using gap_vote_processor_ok by blast
next
  case (bp_run_heights P ps bc L bs rest)
  then show ?case using cement_processor_ok by blast
qed (use assms(2) add_info_ok in auto)

text \<open>Whatever the marks on them say, the blocks that are accepted have been signed.\<close>

lemma process_one_authorised:
  assumes ok: "block_processor_ok E own g P" "item_ok E own u" and net: "same_network E (view_env V)"
    and run: "bp_process_one F V u w og P = Some (P', r)" "code r = progress"
  shows "ret_account r = Some (block_owner own (unchecked_block u)) \<and> authorised E (unchecked_block u) (block_owner own (unchecked_block u))"
proof -
  obtain L b where p: "process (view_env V) (bp_ledger P) (unchecked_block u) (verification_of (unchecked_verified u)) = Some (L, b, r)"
      "unchecked_account u \<noteq> 0 \<Longrightarrow> ret_account r = Some (unchecked_account u)"
    using run by (auto simp: bp_process_one_def Let_def bind_eq_Some_conv split: if_splits)
  note vok = ok [folded same_network_processor [OF net]]
  have "frontiers_owned own (ledger_store (bp_ledger P))"
    using frontiers_ownedI vok(1) by (auto simp: block_processor_ok_def)
  from vouched_authorised [OF p(1) run(2) vok(2) [unfolded item_ok_def] this p(2)] show ?thesis
    using net by (simp add: authorised_def same_network_def ledger_is_epoch_link_def ledger_epoch_signer_def)
qed

end
