(* ===== verification/Block_Examples.thy ===== *)
theory Block_Examples
  imports Block_Runs Examples
begin

text \<open>
  A block processor on the first ledger of \<open>Examples\<close>, at which the send of the genesis account arrives.
\<close>

definition example_bp_view :: processor_view where
  "example_bp_view = \<lparr>view_env = example_env, seconds_now = 1000, steady_clock_now = 5, arrival_recent = (\<lambda>_. True),
     insert_inserted = (\<lambda>_. True), insert_election = (\<lambda>_. True), difficulty_updated = (\<lambda>_. False),
     election_restarted = (\<lambda>_. False), being_confirmed = (\<lambda>_. False)\<rparr>"

definition example_flags :: processor_flags where
  "example_flags = \<lparr>block_processor_full_size = 65536, block_processor_batch_size = 2,
     disable_block_processor_unchecked_deletion = False, disable_block_processor_republishing = False\<rparr>"

abbreviation example_processor :: block_processor where
  "example_processor \<equiv> new_block_processor example_ledger"

definition example_arrived :: block_processor where
  "example_arrived = process_active example_flags example_bp_view example_send example_processor"

abbreviation example_item :: unchecked_info where
  "example_item \<equiv> make_unchecked_info example_send 0 1000 Sig_unknown"

lemma example_bp_view_fields [simp]: "view_env example_bp_view = example_env" "seconds_now example_bp_view = 1000"
  "disable_block_processor_unchecked_deletion example_flags = False"
  by (simp_all add: example_bp_view_def example_flags_def)

lemma example_network [simp]: "same_network E E"
  by (simp add: same_network_def)

lemma example_owned: "owned (\<lambda>_. 1) (ledger_store example_ledger)" "unchecked_ok example_env (\<lambda>_. 1) example_ledger"
proof -
  show "owned (\<lambda>_. 1) (ledger_store example_ledger)"
    by (auto simp: owned_def example_ledger_value block_get_def block_types_def table_get_def own_account_def block_account_def split: if_splits)
  show "unchecked_ok example_env (\<lambda>_. 1) example_ledger"
    by (simp add: unchecked_ok_def example_ledger_value unchecked_count_def table_ok_def)
qed

lemmas example_processor_ok = new_block_processor_ok [OF example_run example_params_ok example_owned]

lemma example_admissible: "admissible example_env (\<lambda>_. 1) example_ledger example_send"
  using example_send_hash_ok example_extends by (simp add: admissible_def block_owner_def example_send_def)

lemma example_arrived_run: "bp_run example_env (\<lambda>_. 1) 96 example_flags example_processor example_arrived"
  unfolding example_arrived_def by (rule bp_run_active [OF bp_run_start])

lemma example_arrived_ok: "block_processor_ok example_env (\<lambda>_. 1) 96 example_arrived"
  by (rule bp_run_ok [OF example_arrived_run example_processor_ok example_params_ok]) simp

lemma example_arrived_fields:
  "bp_blocks example_arrived = [example_item]" "bp_forced example_arrived = []" "bp_ledger example_arrived = example_ledger"
  "bp_state_blocks example_arrived = []" "unchecked_get (ledger_store example_ledger) h = []"
  by (simp_all add: example_arrived_def process_active_def bp_add_def bp_add_info_def Let_def needs_verification_def make_unchecked_info_def
      example_send_def type_of_def verification_of_def effects_def new_block_processor_def unchecked_get_def example_ledger_value table_lower_bound_def)

lemma example_next:
  "next_item n example_bp_view (example_arrived\<lparr>bp_events := es\<rparr>) = Some (example_item, example_arrived\<lparr>bp_events := es, bp_blocks := []\<rparr>)"
  by (simp add: next_item_def example_arrived_fields)

lemma example_one_accepted:
  obtains Q r where "bp_process_one example_flags example_bp_view example_item False Origin_remote (example_arrived\<lparr>bp_blocks := []\<rparr>) = Some (Q, r)"
    "code r = progress"
proof -
  obtain L b r where r: "process example_env example_ledger example_send Sig_unknown = Some (L, b, r)" "code r = progress"
    using example_send_progress by blast
  let ?P = "example_arrived\<lparr>bp_blocks := []\<rparr>"
  have P: "block_processor_ok example_env (\<lambda>_. 1) 96 ?P"
    using example_arrived_ok by (simp add: block_processor_ok_def queues_ok_def)
  have "announced_ok example_item r" by (simp add: announced_ok_def make_unchecked_info_def)
  then obtain Q where "bp_process_one example_flags example_bp_view example_item False Origin_remote ?P = Some (Q, r)"
    using process_one_cases(2) [of example_bp_view "\<lambda>_. 1" 96 ?P example_item example_flags L b r False Origin_remote]
      P example_params_ok example_admissible r by (auto simp: make_unchecked_info_def verification_of_def example_arrived_fields)
  with r(2) show ?thesis by (rule that [rotated])
qed

text \<open>One iteration takes the send, and the queue is empty.\<close>

lemma example_iteration:
  assumes "settles (\<lambda>n. batch_iteration n example_flags example_bp_view (example_arrived\<lparr>bp_events := []\<rparr>)) Q"
  shows "bp_blocks Q = []" "bp_forced Q = []"
proof -
  let ?P = "example_arrived\<lparr>bp_events := [], bp_blocks := []\<rparr>"
  obtain r where r: "bp_process_one example_flags example_bp_view example_item False Origin_remote ?P = Some (Q, r)"
    using assms by (auto simp: settles_def batch_iteration_def example_next bind_eq_Some_conv)
  have P: "block_processor_ok example_env (\<lambda>_. 1) 96 ?P"
    using next_item_ok(1) [of example_bp_view "\<lambda>_. 1" 96 "example_arrived\<lparr>bp_events := []\<rparr>"] events_frame [OF example_arrived_ok]
    by (auto simp: example_next events_ok_def)
  have "one_processed example_env example_item r ?P Q"
    using process_one_ok(2) [OF _ P example_params_ok _ _ _ r] example_admissible by (simp add: example_arrived_fields make_unchecked_info_def)
  then show "bp_blocks Q = []" "bp_forced Q = []"
    by (auto simp: one_processed_def Let_def example_arrived_fields split: if_splits)
qed

lemma example_batch_reach:
  assumes "batch_reach example_flags (\<lambda>_. example_bp_view) 0 (example_arrived\<lparr>bp_events := []\<rparr>) j Q"
  shows "Q = example_arrived\<lparr>bp_events := []\<rparr> \<or> (bp_blocks Q = [] \<and> bp_forced Q = [])"
  using assms
proof (induction rule: batch_reach.induct)
  case (batch_iterate j Q Q')
  have "Q = example_arrived\<lparr>bp_events := []\<rparr>"
    using batch_iterate(2,3) by (auto simp: settles_def batch_iteration_def next_item_def)
  then show ?case using example_iteration batch_iterate(2) by simp
qed simp

lemma example_batch_admissible:
  "batch_admissible (\<lambda>_. 1) example_flags (\<lambda>_. example_bp_view) 0 (example_arrived\<lparr>bp_events := []\<rparr>)"
  unfolding batch_admissible_def
proof (intro allI impI)
  fix j Q u Q'
  assume r: "batch_reach example_flags (\<lambda>_. example_bp_view) 0 (example_arrived\<lparr>bp_events := []\<rparr>) j Q"
    and n: "settles (\<lambda>n. next_item n example_bp_view Q) (u, Q')"
  have "Q = example_arrived\<lparr>bp_events := []\<rparr>"
    using example_batch_reach [OF r] n by (auto simp: settles_def next_item_def)
  then have "u = example_item" "bp_ledger Q' = example_ledger"
    using n by (auto simp: settles_def example_next example_arrived_fields)
  then show "admissible (view_env example_bp_view) (\<lambda>_. 1) (bp_ledger Q') (unchecked_block u) \<and> announced (\<lambda>_. 1) u"
    using example_admissible by (simp add: make_unchecked_info_def announced_def)
qed

text \<open>The same block, announced for account 5, with a mark that account 5 has signed it.\<close>

abbreviation example_misannounced :: unchecked_info where
  "example_misannounced \<equiv> make_unchecked_info example_send 5 1000 Sig_valid"

lemma example_misannounced_ok: "item_ok example_env (\<lambda>_. 1) example_misannounced"
  by (simp add: item_ok_def make_unchecked_info_def verification_of_def vouched_def signed_by_def example_env_fields)

lemma example_misannounced_process:
  "\<exists>L b r. process example_env example_ledger example_send Sig_valid = Some (L, b, r) \<and> \<not> announced_ok example_misannounced r"
proof -
  have "\<exists>L b r. process example_env example_ledger example_send Sig_valid = Some (L, b, r) \<and> code r = progress"
    using example_hashes example_work
    by (simp add: example_ledger_value example_env_def example_params_def example_send_def process_eval eval_defs)
  then obtain L b r where r: "process example_env example_ledger example_send Sig_valid = Some (L, b, r)" "code r = progress" by blast
  have "frontiers_owned (\<lambda>_. 1) (ledger_store example_ledger)"
    by (rule frontiers_ownedI [OF run_history_ok(1) [OF example_run example_params_ok] example_owned(1)])
  then have "ret_account r = Some 1"
    using vouched_authorised(1) [OF r, of "\<lambda>_. 1" 0]
    by (simp add: vouched_def signed_by_def example_env_fields block_owner_def example_send_def)
  with r show ?thesis by (auto simp: announced_ok_def make_unchecked_info_def)
qed

end
