(* ===== verification/Spec2Isabelle.thy ===== *)
theory Spec2Isabelle
  imports Ledger_Queries Election_Examples Accounts Message_Parser Confirmation_Examples Block_Examples
begin

text \<open>
  A verification of the ledger of futurehead-node (\<open>src/futurehead\<close>): the component that decides which
  blocks are accepted, what they do to balances, pending amounts and voting weights, and how blocks are
  undone and cemented; and of the components around it that feed it with blocks and decide between forks.

  \<^bold>\<open>The program.\<close> A block belongs to the chain of one account. \<open>ledger::process\<close> (\<open>secure/ledger.cpp\<close>)
  validates a block against the stored chains and adds it, called by the block processor (\<open>node/blockprocessor.cpp\<close>), which keeps
  the blocks that cannot be placed yet; \<open>ledger::rollback\<close> removes a block with everything
  that depends on it; the confirmation height processors (\<open>node/confirmation_height_*.cpp\<close>) fix the lower
  part of a chain for good. All of them work on the tables of the block store
  (\<open>secure/blockstore_partial.hpp\<close>), which hold the byte images of blocks (\<open>lib/blocks.cpp\<close>) and records
  (\<open>secure/common.cpp\<close>), and on a cache of voting weights (\<open>lib/rep_weights.cpp\<close>) and counts.

  \<^bold>\<open>The model.\<close> One theory per component, in the order of the calls:
  \<^item> \<open>Prelude\<close>, \<open>Byte_Codec\<close>: integers at their width, byte streams, and the locale \<open>stream_codec\<close>, the contract
    between a serializer and its deserializer.
  \<^item> \<open>Epochs\<close>, \<open>Blocks\<close>, \<open>Block_Codec\<close>, \<open>Doubles\<close>, \<open>Work\<close>: the five block classes, what is hashed, the wire format,
    the sideband, work values, thresholds and multipliers, in floating point with rounding (locale \<open>rounding\<close>).
  \<^item> \<open>Tables\<close>, \<open>Ledger_Records\<close>, \<open>Rep_Weights\<close>, \<open>Store\<close>: ordered tables (locale \<open>ordered_table\<close>), the
    records with their database images, the weights, and every operation of the block store on decoded objects.
  \<^item> \<open>Ledger\<close>, \<open>Ledger_Queries\<close>: the queries, one definition per handler of \<open>ledger_processor\<close>, \<open>process\<close>,
    and the constructor.
  \<^item> \<open>Rollback\<close>: one definition per visitor of \<open>rollback_visitor\<close>, and \<open>rollback\<close>.
  \<^item> \<open>Cementing\<close>, \<open>Confirmation\<close>, \<open>Confirmation_Queue\<close>: the unbounded confirmation height processor
    (\<open>node/confirmation_height_unbounded.cpp\<close>), first \<open>cement_blocks\<close>, which writes heights, then \<open>process\<close>, the traversal
    that finds them, and the queue of the processor with the rounds of its thread
    (\<open>node/confirmation_height_processor.cpp\<close>). Shared and weak pointers are addresses in a heap of the model; what
    other threads decide in an iteration (stop flag, clock, turn to write) is the record \<open>tick\<close>. The loop of \<open>process\<close>
    is a partial function, shown to return. \<open>Confirmation_Examples\<close> has a concrete ledger for it.
  \<^item> \<open>Online_Reps\<close>, \<open>Gap_Cache\<close>: the sampled weight of the representatives that vote (\<open>node/online_reps.cpp\<close>) and the cache of
    blocks that wait for a missing one (\<open>node/gap_cache.cpp\<close>).
  \<^item> \<open>Block_Processor\<close>: the block processor (\<open>node/blockprocessor.cpp\<close>) with the signature check in front of it
    (\<open>node/state_block_signature_verification.cpp\<close>) and the entry points of \<open>node/node.cpp\<close>: queues of blocks, unchecked blocks,
    forced blocks, batches. What it reads of the node is the record \<open>processor_view\<close>, what it makes the node do is a list of
    effects. \<open>Block_Gaps\<close> shows which hash a block with a gap waits for and what a mark on a signature means, \<open>Block_Waiting\<close> states
    the invariant of queued and waiting blocks, \<open>Block_Steps\<close> that processing one block keeps it, \<open>Block_Runs\<close> has the remaining steps,
    the relation \<open>bp_run\<close> of their interleavings and the batch. \<open>Block_Examples\<close> has a concrete processor.
  \<^item> \<open>Elections\<close>: the elections of \<open>node/election.cpp\<close>: states, votes, tally, quorum, confirmation. What an
    election reads of the node is the record \<open>node_view\<close>, what it makes the node do is a list of effects.
    \<open>Election_Tally\<close> counts the votes, \<open>Election_Life\<close> states the invariant, the decision and the steps
    (\<open>election_step\<close>, \<open>election_run\<close>), \<open>Election_Examples\<close> has a concrete election.
  \<^item> \<open>Votes\<close>, \<open>Uniquers\<close>, \<open>Accounts\<close>: votes with their two wire formats (\<open>secure/common.cpp\<close>), the uniquers that replace a block or vote by one
    in memory with the same full hash, and the text of accounts (\<open>lib/numbers.cpp\<close>). The blocks and votes in memory are the record \<open>uniquers\<close>.
  \<^item> \<open>Network_Filter\<close>, \<open>Messages\<close>, \<open>Message_Codec\<close>, \<open>Message_Payloads\<close>, \<open>Message_Parser\<close>: the filter of
    published blocks (\<open>secure/network_filter.cpp\<close>), the messages between nodes with the codecs of the header and
    of every payload, and the parser of incoming buffers (\<open>node/common.cpp\<close>). The filter's digest function is
    the parameter \<open>sip\<close>.

  Stateful code is explicit passing of the record \<open>ledger\<close> (store, cache, counters of \<open>stats\<close>). A result
  \<open>None\<close> is an abort of the code: a failed \<open>release_assert\<close>, an exception nobody catches, or an access that
  only a \<open>debug_assert\<close> guards. Loops are recursion on the data, or fuel: \<open>rollback\<close> and its loops take
  a number of rounds, and the theorems show that enough of them exist and that more change nothing.
  Third-party code is an argument: the hash function and the signature check are members of \<open>crypto\<close>, about
  which nothing is assumed; the clock is a member of \<open>env\<close>.

  \<^bold>\<open>The specification.\<close> \<open>Ledger_Spec\<close> states the well-formedness of a ledger (\<open>ledger_ok\<close>) and the abstract
  effect of an accepted block (\<open>block_applied\<close>, \<open>effect_shape\<close>). \<open>Ledger_Refinement\<close> shows that every handler
  implements it, \<open>Ledger_Checks\<close> what a result code says about signatures and work, \<open>Ledger_Invariant\<close> that
  applied blocks keep the tables, the cache and the supply. \<open>History\<close> states what the ledger remembers of
  the accepted blocks (\<open>history_ok\<close>): chains linked both ways, heights without gaps, the pending table equal
  to the uncollected sends, and a rank that grows along every dependency. \<open>History_Process\<close> shows that
  accepted blocks keep it. \<open>Undo\<close> states the abstract effect of undoing a head block (\<open>undone\<close>) and
  \<open>Undo_Steps\<close> that of many, as an inductive relation. \<open>Rollback_Visit\<close> shows that every visitor implements
  \<open>undone\<close>, \<open>Rollback_Correct\<close> that the mutually recursive loops end: the nested rollbacks go to blocks of
  higher rank, and each visit removes a block. \<open>Ledger_Runs\<close> and \<open>Ledger_Life\<close> put the steps together:
  \<open>ledger_run\<close> is the set of ledgers reachable by processing, rolling back and cementing.
  For the confirmation height processor the specification is \<open>depends_on\<close>, the transitive closure of predecessor and
  source. \<open>Confirmation_Chains\<close> numbers the blocks of an account, \<open>Confirmation_Writes\<close> states what a queue of
  writes amounts to (\<open>queued_store\<close>, \<open>writes_exact\<close>) and the invariant \<open>processor_ok\<close>, \<open>Confirmation_Collect\<close>,
  \<open>Confirmation_Frames\<close> and \<open>Confirmation_Prepare\<close> follow the stack of receives, one frame for each account on the way
  down, \<open>Confirmation_Visit\<close>, \<open>Confirmation_Process\<close> and \<open>Confirmation_Loop\<close> one iteration in each of its cases, and
  \<open>Confirmation_Traversal\<close> the loop: every iteration visits blocks for the first time or removes a receive from the stack.

  \<^bold>\<open>What is assumed of the inputs.\<close> \<open>params_ok\<close>: the burn account is zero and the epochs are listed in order.
  \<open>hash_ok\<close>: the hash of a processed block is not zero and not that of a stored block of another class (the
  handlers look a hash up in the table of their own class only). \<open>extends_ok\<close>, for the history: the hash is no
  epoch link, no account is full (\<open>2 ^ 64 - 1\<close> blocks), the epochs fit into five bits, and a state block
  for an unopened account names no predecessor; the handler of epoch blocks does not check the last one, so this is a
  restriction.
  \<open>view_ok\<close>, for elections: traversing an unordered map visits each entry once, and the random account that
  stands for the initial vote is no representative. \<open>counted\<close>: the configured quorum is at most 50 percent
  and the weights of the voters together fit into 128 bits.
  \<open>links_apart\<close>, for the traversal: the destination of a stored state send is not the hash of a stored block. The ledger does not
  check this, and the traversal takes the link of a state block for a source whenever such a block exists. \<open>never_stopped\<close>: the
  node is not stopping. \<open>writes_ok\<close>, where \<open>cement_blocks\<close> is considered alone: sources come first in the
  queue; the traversal guarantees it.
  For the block processor \<open>own\<close> gives the account of a block by its hash, and \<open>admissible\<close> says of a block that is processed that
  its hash is consistent with it (no two blocks of different accounts have the same hash), \<open>hash_ok\<close>, and \<open>extends_ok\<close> in case it is
  accepted; blocks of the unchecked table are deleted when they are queued again, which is the default (\<open>fast_bootstrap\<close> turns it off).
  \<open>live_same\<close>, for a message that is sent: what the receiver has in memory under the full hash of its vote or block is equal to it.

  \<^bold>\<open>Not modelled.\<close> The database drivers (their tables are the model \<open>Tables\<close>), transactions (every operation
  runs in one), threads and sockets, the container of the active elections, bootstrap, the bounded confirmation height
  processor, wallets, RPC, JSON, configuration files and the graphical interface. A \<open>double\<close> is a real number that
  every operation rounds to 53 bits; the range of its exponent is not modelled.
\<close>

section \<open>Processing blocks\<close>

text \<open>
  C1. \<open>ledger::process\<close> is safe: on a well-formed ledger it returns for every block (no
  \<open>release_assert\<close> fails and no missing block is dereferenced), the ledger stays well-formed, and no
  money is created or destroyed. The block's hash must not be zero nor that of a stored block of
  another class.
\<close>

theorem process_safe:
  assumes "ledger_ok L" "params_ok E" "hash_ok E L b"
  shows "\<exists>L' b' r. process E L b v = Some (L', b', r) \<and> ledger_ok L'
    \<and> total_supply (ledger_store L') = total_supply (ledger_store L)"
  using process_meets_spec [OF assms, of v] by (auto simp: process_spec_def)

theorem process_safe_witness:
  "\<exists>L' b' r. process example_env example_ledger example_send Sig_unknown = Some (L', b', r) \<and> ledger_ok L'
    \<and> total_supply (ledger_store L') = total_supply (ledger_store example_ledger)"
  by (rule process_safe [OF example_ledger_ok example_params_ok example_send_hash_ok])

text \<open>
  C2. Every ledger reached from genesis by processing blocks in any order is well-formed (tables in
  order, chains, frontiers and pending entries consistent, the cache equal to what the tables say) and
  holds exactly the genesis supply of \<open>2 ^ 128 - 1\<close> raw in balances and pending entries.
\<close>

theorem reachable_invariant:
  assumes "reachable C P L" "burn_account P = 0" "table_ok (ledger_epochs P)"
  shows "ledger_ok L \<and> total_supply (ledger_store L) = 2 ^ 128 - 1"
  by (rule reachable_ok [OF assms])

theorem reachable_invariant_witness:
  "ledger_ok example_ledger_2 \<and> total_supply (ledger_store example_ledger_2) = 2 ^ 128 - 1"
  using reachable_invariant [OF example_reachable] example_params_ok
  by (simp add: params_ok_def example_env_def)

text \<open>
  C3. An accepted block has exactly the effect of its abstract transaction \<open>block_applied\<close>: it becomes
  the head of one account, its predecessor points to it, what the account gains was pending for it and
  what it loses becomes pending under the new hash, and voting weight moves from the old representative
  to the new one. \<open>effect_shape\<close> adds what each class of block determines: the representative, which pending
  entry is added or collected, and the epoch of the account, which is also that of the block: epoch 0 for the four
  old classes; the epoch of its link for an epoch block; for a state block that collects a pending entry, the greater of
  the account's epoch and the entry's; for any other state block, the account's epoch (epoch 0 if it is new). The block's hash
  must not be zero nor that of a stored block of another class.
\<close>

theorem process_refines_spec:
  assumes "ledger_ok L" "params_ok E" "hash_ok E L b" "process E L b v = Some (L', b', r)" "code r = progress"
  shows "\<exists>L1 sb a i ch. L' = block_count_add 1 L1 \<and> b' = sideband_set sb b \<and> ret_account r = Some a
    \<and> block_applied (crypto_fns E) L b sb a i ch L1 \<and> effect_shape E (ledger_store L) b sb a i ch"
  using process_progressE [OF assms] by metis

theorem process_refines_spec_witness:
  "\<exists>b' r. process example_env example_ledger example_send Sig_unknown = Some (example_ledger_2, b', r)
    \<and> (\<exists>L1 sb a i ch. example_ledger_2 = block_count_add 1 L1 \<and> b' = sideband_set sb example_send
        \<and> ret_account r = Some a \<and> block_applied (crypto_fns example_env) example_ledger example_send sb a i ch L1
        \<and> effect_shape example_env (ledger_store example_ledger) example_send sb a i ch)"
  using example_send_progress process_refines_spec [OF example_ledger_ok example_params_ok example_send_hash_ok]
  by blast

text \<open>
  C4. A rejected block changes nothing: whatever the ledger, a result code other than \<open>progress\<close>
  leaves the ledger, its cache and the block as they were.
\<close>

theorem process_rejected_unchanged:
  assumes "process E L b v = Some (L', b', r)" "code r \<noteq> progress"
  shows "L' = L \<and> b' = b"
  using process_post [OF process_visit_unchanged assms(1)] assms(2)
  by (auto simp: unchanged_unless_progress_def)

theorem process_rejected_unchanged_witness:
  "\<exists>r. process example_env example_ledger example_orphan Sig_unknown = Some (example_ledger, example_orphan, r)
     \<and> code r = gap_previous"
proof -
  obtain L' b' r where run: "process example_env example_ledger example_orphan Sig_unknown = Some (L', b', r)"
      "code r = gap_previous"
    using example_orphan_gap by blast
  with process_rejected_unchanged [OF run(1)] show ?thesis by simp
qed



text \<open>
  C6. No block is accepted without work: an accepted block reaches the threshold its network demands
  for the details recorded in its sideband, hence at least the threshold for entering the node.
\<close>

theorem process_work_checked:
  assumes "process E L b v = Some (L', b', r)" "code r = progress"
  shows "(\<exists>sb. sideband b' = Some sb
      \<and> block_difficulty (crypto_fns E) b \<ge> work_threshold (network (params E)) (block_work_version b) (details sb))
    \<and> \<not> work_validate_entry (crypto_fns E) (network (params E)) b"
proof -
  obtain sb where sb: "sideband b' = Some sb" "sufficient_work E b (details sb)"
    using process_post [OF process_visit_checks assms(1)] assms(2)
    by (auto simp: accepted_checks_def initial_result_def)
  then show ?thesis
    using work_threshold_ge_entry [of "network (params E)" "block_work_version b" "details sb"]
    by (auto simp: sufficient_work_def work_validate_entry_def)
qed

theorem process_work_checked_witness:
  "\<not> work_validate_entry (crypto_fns example_env) (network (params example_env)) example_send"
  using example_send_progress process_work_checked [of example_env example_ledger example_send Sig_unknown]
  by blast

text \<open>
  C7. A block is accepted once: submitting an accepted block again, at any later clock and with any
  verification, reports \<open>old\<close> and changes nothing.
\<close>

theorem process_resubmitted_old:
  assumes "ledger_ok L" "params_ok E" "hash_ok E L b" "process E L b v = Some (L', b', r)" "code r = progress"
    and "params_ok F" "crypto_fns F = crypto_fns E"
  shows "\<exists>r'. process F L' b' v' = Some (L', b', r') \<and> code r' = old"
  by (rule process_twice_old [OF assms])

theorem process_resubmitted_old_witness:
  "\<exists>b' r'. process example_env example_ledger_2 b' Sig_valid = Some (example_ledger_2, b', r') \<and> code r' = old"
  using example_send_progress
    process_resubmitted_old [OF example_ledger_ok example_params_ok example_send_hash_ok _ _ example_params_ok refl]
  by blast

text \<open>
  C8. The blocks a block depends on: a block that is accepted could fit, that is, every block
  \<open>dependent_blocks\<close> names was in the ledger.
\<close>

theorem accepted_could_fit:
  assumes "ledger_ok L" "sideband b = None" "process E L b v = Some (L', b', r)" "code r = progress"
  shows "could_fit E L b = Some True"
  using process_post [OF process_visit_fits assms(3)] assms(1,2,4)
  by (auto simp: fits_if_progress_def ledger_ok_def)

theorem accepted_could_fit_witness: "could_fit example_env example_ledger example_send = Some True"
proof -
  have "sideband example_send = None" by (simp add: example_send_def sideband_def)
  with example_send_progress accepted_could_fit [OF example_ledger_ok] show ?thesis by blast
qed

section \<open>The life of a ledger: rollbacks and cementing\<close>

text \<open>
  C9. Every ledger reached from genesis by processing blocks, rolling blocks back and writing confirmation
  heights, in any order, is well-formed, holds the genesis supply, and has a history: each stored block
  is linked into the chain of one account, the pending table holds exactly the uncollected sends, and
  account records are what their head blocks say. The blocks that are processed satisfy \<open>hash_ok\<close> (the hash is not
  zero nor that of a stored block of another class) and \<open>extends_ok\<close>: the hash is no epoch link, no account has \<open>2 ^ 64 - 1\<close> blocks,
  the epochs fit into five bits, and a state block for an account without blocks names no predecessor. The last condition excludes
  blocks that the ledger accepts: an epoch block that opens an account and names a block of another chain
  overwrites the successor of that block (\<open>ledger.cpp\<close>, \<open>epoch_block_impl\<close>). Heights are written by \<open>cement_blocks\<close>, from a queue in which the
  sources of a block come before it.
\<close>

theorem ledger_life_invariant:
  assumes "ledger_run (crypto_fns E) (params E) g L" "params_ok E"
  shows "ledger_ok L \<and> total_supply (ledger_store L) = 2 ^ 128 - 1 \<and> (\<exists>rk. history_ok E g rk (ledger_store L))"
  using run_history_ok [OF assms] ledger_historyD(1,3) undo_invD(1) by blast

theorem ledger_life_invariant_witness:
  "ledger_ok example_ledger_2 \<and> total_supply (ledger_store example_ledger_2) = 2 ^ 128 - 1
    \<and> (\<exists>rk. history_ok example_env 96 rk (ledger_store example_ledger_2))"
  by (rule ledger_life_invariant [OF example_run_2 example_params_ok])

text \<open>
  C10. \<open>ledger::rollback\<close> returns: called on any stored block above the confirmation height of its account
  it ends without error (the nested rollbacks of accounts that collected the undone sends included),
  the block is gone, and the ledger keeps its invariant and its supply. Enough fuel exists, and more
  fuel gives the same result.
\<close>

theorem rollback_terminates:
  assumes "ledger_run (crypto_fns E) (params E) g L" "params_ok E"
    "block_get (ledger_store L) t = Some b" "\<not> cemented (ledger_store L) b"
  shows "\<exists>n L' lst'. (\<forall>m \<ge> n. rollback m E L t lst = Some (L', lst', False)) \<and> block_get (ledger_store L') t = None
    \<and> ledger_ok L' \<and> total_supply (ledger_store L') = 2 ^ 128 - 1"
  using run_rollback_returns [OF assms, of lst] by (auto simp: ledger_history_def)

theorem rollback_terminates_witness:
  "\<exists>n L' lst'. (\<forall>m \<ge> n. rollback m example_env example_ledger_2 80 [] = Some (L', lst', False))
    \<and> block_get (ledger_store L') 80 = None \<and> ledger_ok L' \<and> total_supply (ledger_store L') = 2 ^ 128 - 1"
  using example_send_stored rollback_terminates [OF example_run_2 example_params_ok] by blast

text \<open>
  C11. A cemented block is never rolled back: \<open>rollback\<close> reports the error and leaves the ledger and the list
  of undone blocks as they were.
\<close>

theorem rollback_refuses_cemented:
  assumes "ledger_run (crypto_fns E) (params E) g L" "params_ok E"
    "block_get (ledger_store L) t = Some b" "cemented (ledger_store L) b" "n \<ge> 3"
  shows "rollback n E L t lst = Some (L, lst, True)"
proof -
  have "n = Suc (Suc (Suc (n - 3)))" using assms(5) by simp
  then show ?thesis
    using rollback_cemented [OF _ assms(3,4)] store_okD(1) run_history_ok(1) [OF assms(1,2)]
    by (metis ledger_historyD(1) ledger_ok_def)
qed

theorem rollback_refuses_cemented_witness: "rollback 3 example_env example_ledger_2 96 [] = Some (example_ledger_2, [], True)"
proof -
  obtain rk b where "undo_inv example_env 96 rk (ledger_store example_ledger_2)"
    using ledger_historyD(3) [OF run_history_ok(1) [OF example_run_2 example_params_ok]] ..
  then obtain b where "block_get (ledger_store example_ledger_2) 96 = Some b" "cemented (ledger_store example_ledger_2) b"
    using undo_invD(3) unfolding cement_ok_def by blast
  from rollback_refuses_cemented [OF example_run_2 example_params_ok this] show ?thesis by simp
qed

text \<open>
  C12. Whatever a rollback undoes, it removes no cemented block, adds none, and changes the remaining
  blocks in their successor fields only; accounts that stay keep their confirmation height. It reports an
  error exactly when its target is cemented.
\<close>

theorem rollback_spares_cemented:
  assumes "ledger_run (crypto_fns E) (params E) g L" "params_ok E" "rollback n E L t lst = Some (L', lst', err)"
  shows "(\<forall>h b. block_get (ledger_store L) h = Some b \<and> cemented (ledger_store L) b \<longrightarrow> block_get (ledger_store L') h \<noteq> None)
    \<and> (\<forall>h b'. block_get (ledger_store L') h = Some b' \<longrightarrow> (\<exists>b. block_get (ledger_store L) h = Some b \<and> same_block b b'))
    \<and> (\<forall>a. account_get (ledger_store L') a \<noteq> None \<longrightarrow>
         confirmation_height_get (ledger_store L') a = confirmation_height_get (ledger_store L) a)
    \<and> (\<exists>b. block_get (ledger_store L) t = Some b \<and> (err \<longleftrightarrow> cemented (ledger_store L) b))"
proof -
  obtain rk where "undo_inv E g rk (ledger_store L)" using ledger_historyD(3) [OF run_history_ok(1) [OF assms(1,2)]] ..
  from rollback_returned [OF this assms(3)]
  have "\<exists>b. block_get (ledger_store L) t = Some b \<and> (err \<longleftrightarrow> cemented (ledger_store L) b)" by metis
  then show ?thesis using run_rollback_keeps [OF assms] by blast
qed

theorem rollback_spares_cemented_witness:
  "\<exists>n L' lst'. rollback n example_env example_ledger_2 80 [] = Some (L', lst', False)
    \<and> (\<forall>h b. block_get (ledger_store example_ledger_2) h = Some b \<and> cemented (ledger_store example_ledger_2) b
         \<longrightarrow> block_get (ledger_store L') h \<noteq> None)"
proof -
  obtain n L' lst' where run: "rollback n example_env example_ledger_2 80 [] = Some (L', lst', False)"
    using example_send_stored run_rollback_returns [OF example_run_2 example_params_ok, of 80 _ "[]"] by blast
  from rollback_spares_cemented [OF example_run_2 example_params_ok run] run show ?thesis by blast
qed

text \<open>
  C13. Take a ledger reached by processing, rolling back and cementing (\<open>ledger_run\<close>) and a block that is accepted, whose hash is not zero nor that of a stored block of another class nor
  an epoch link, while no account has \<open>2 ^ 64 - 1\<close> blocks and the epochs fit into five bits. Unless the block opens an account and
  names a predecessor nevertheless (an epoch block that does is accepted, and rolling it back does not restore the ledger), processing it and
  rolling it back at any later clock restores the ledger: every table is equal
  to what it was, but for the time of modification of the account, and so are the weights and counts.
\<close>

theorem process_rollback_round_trip:
  assumes "ledger_run (crypto_fns E) (params E) g L" "params_ok E" "hash_ok E L b" "extends_ok E (ledger_store L) b"
    "process E L b v = Some (L1, b', r)" "code r = progress" "same_network E F"
  shows "\<exists>n L2 lst'. (\<forall>m \<ge> n. rollback m F L1 (generate_hash (crypto_fns E) b) lst = Some (L2, lst', False))
    \<and> restored (ledger_store L) (ledger_store L2)
    \<and> (\<forall>a. representation_get (rep_weights (cache L2)) a = representation_get (rep_weights (cache L)) a)
    \<and> cache_block_count (cache L2) = cache_block_count (cache L)
    \<and> cache_account_count (cache L2) = cache_account_count (cache L)"
proof -
  note H = run_history_ok(1) [OF assms(1,2)]
  obtain n L2 lst' where r: "\<forall>m \<ge> n. rollback m F L1 (generate_hash (crypto_fns E) b) lst = Some (L2, lst', False)"
      "restored (ledger_store L) (ledger_store L2)" "ledger_history E g L2"
    using process_rollback_restored [OF H assms(2-7), of lst] by blast
  with restored_cache [OF r(2) ledger_historyD(1) [OF H] ledger_historyD(1) [OF r(3)]] show ?thesis by blast
qed

theorem process_rollback_round_trip_witness:
  "\<exists>n L2 lst'. (\<forall>m \<ge> n. rollback m example_env example_ledger_2 80 [] = Some (L2, lst', False))
    \<and> restored (ledger_store example_ledger) (ledger_store L2)"
proof -
  obtain b' r where "process example_env example_ledger example_send Sig_unknown = Some (example_ledger_2, b', r)" "code r = progress"
    using example_send_progress by blast
  from process_rollback_round_trip [OF example_run example_params_ok example_send_hash_ok example_extends this, of example_env "[]"]
  show ?thesis by (auto simp: same_network_def example_env_fields example_hashes)
qed

text \<open>
  C14. \<open>cement_blocks\<close> of the unbounded confirmation height processor: given writes in which the sources of
  the blocks to be cemented come first (as the traversal queues them), it empties the queue without error, reaches every height that was
  asked for, lowers none, and keeps the ledger's invariant.
\<close>

theorem cement_blocks_safe:
  assumes "ledger_history E g L" "writes_ok E g (ledger_store L) ps"
    "\<forall>p \<in> set ps. \<forall>h \<in> set (block_callback_data p). cached h \<noteq> None"
  shows "\<exists>L' bs. cement_blocks cached ps L = Some (L', bs, []) \<and> ledger_history E g L'
    \<and> total_supply (ledger_store L') = total_supply (ledger_store L)
    \<and> (\<forall>a c. confirmation_height_get (ledger_store L) a = Some c \<longrightarrow>
         (\<exists>c'. confirmation_height_get (ledger_store L') a = Some c' \<and> conf_height c \<le> conf_height c'
           \<and> (\<forall>p \<in> set ps. details_account p = a \<longrightarrow> details_height p \<le> conf_height c')))"
  using cement_blocks_spec [OF assms] heights_grow by metis

theorem cement_blocks_safe_witness:
  "\<exists>L' bs c. cement_blocks (\<lambda>h. Some example_send) [\<lparr>details_account = 1, details_hash = 80, details_height = 2,
      num_blocks_confirmed = 1, block_callback_data = [80], source_block_callback_data = []\<rparr>] example_ledger_2 = Some (L', bs, [])
    \<and> ledger_history example_env 96 L' \<and> confirmation_height_get (ledger_store L') 1 = Some c \<and> 2 \<le> conf_height c"
proof -
  let ?ps = "[\<lparr>details_account = 1, details_hash = 80, details_height = 2, num_blocks_confirmed = 1,
      block_callback_data = [80], source_block_callback_data = []\<rparr>]"
  note H = run_history_ok(1) [OF example_run_2 example_params_ok]
  obtain L' bs where run: "cement_blocks (\<lambda>h. Some example_send) ?ps example_ledger_2 = Some (L', bs, [])"
      "ledger_history example_env 96 L'"
      "\<forall>a c. confirmation_height_get (ledger_store example_ledger_2) a = Some c \<longrightarrow>
         (\<exists>c'. confirmation_height_get (ledger_store L') a = Some c' \<and> conf_height c \<le> conf_height c'
           \<and> (\<forall>p \<in> set ?ps. details_account p = a \<longrightarrow> details_height p \<le> conf_height c'))"
    using cement_blocks_safe [OF H example_writes_ok, of "\<lambda>h. Some example_send"] by auto
  moreover obtain c where "confirmation_height_get (ledger_store example_ledger_2) 1 = Some c" using example_confirmed ..
  ultimately show ?thesis by fastforce
qed

text \<open>
  C15. A call of \<open>confirmation_height_unbounded::process\<close> for a stored block, with nothing queued and the node not
  stopped, returns, and writing what is then queued cements exactly the dependencies of that block (the block, its
  predecessors, the sources of what they collect, and so on) beside what was cemented before. No assertion fails,
  no expired pointer is followed and no iterator leaves its range, whenever the queue is written in between. The observers are
  told of every newly cemented block once and of no other block, and the count of cemented blocks grows by as many.
  The ledger is well-formed with a history (\<open>ledger_history\<close>) and satisfies \<open>links_apart\<close>: the destination of no stored state send is the hash of
  a stored block. The ledger accepts sends to any number, and the traversal takes such a link for
  a source and cements that block too.
\<close>

theorem confirmation_traversal_exact:
  assumes "ledger_history E g (cu_ledger U)" "links_apart E (cu_store U)" "pending_empty U"
    and "block_get (cu_store U) orig \<noteq> None" and "never_stopped ticks"
  shows "\<exists>U1 U2 bs. unbounded_process E ticks orig U = Some U1 \<and> write_pending U1 = Some U2 \<and> pending_empty U2
    \<and> ledger_history E g (cu_ledger U2) \<and> block_get (cu_store U2) = block_get (cu_store U)
    \<and> (\<forall>h b. block_get (cu_store U) h = Some b \<longrightarrow>
         (cemented (cu_store U2) b \<longleftrightarrow> cemented (cu_store U) b \<or> depends_on E g (cu_store U) orig h))
    \<and> cemented_notified U2 = cemented_notified U @ bs \<and> distinct bs
    \<and> set bs = {b. \<exists>h. block_get (cu_store U) h = Some b \<and> depends_on E g (cu_store U) orig h \<and> \<not> cemented (cu_store U) b}
    \<and> cemented_count (cache (cu_ledger U2)) = cemented_count (cache (cu_ledger U)) + of_nat (length bs)"
proof -
  let ?s = "cu_store U" and ?U = "process_start U"
  obtain b0 where b0: "block_get ?s orig = Some b0" using assms(4) by blast
  obtain rk where "undo_inv E g rk ?s" using ledger_historyD(3) [OF assms(1)] ..
  then have idle: "unbounded_idle E g rk ?U" using fresh_idle [OF assms(1) _ assms(2,3)] assms(3) by (simp add: process_start_def)
  obtain U1 where U1: "unbounded_process E ticks orig U = Some U1" "processor_ok E g rk ?s U1" "advance ?s (depended_on E g ?s {orig}) U U1" "cemented (queued_store U1) b0"
    using unbounded_process_ok [OF idle b0 never_stopped_flags [OF assms(5)]] assms(5) unfolding depended_on_single by blast
  then have adv: "advance ?s (depended_on E g ?s {orig}) ?U U1" by (simp add: advance_def newly_queued_def process_start_frame)
  obtain U2 where U2: "write_pending U1 = Some U2" "processor_ok E g rk ?s U2" "queue_unchanged U1 U2" "pending_writes U2 = []"
    using write_pending_ok [OF U1(2)] by blast
  have same: "queued_store U1 = cu_store U2" "queued_notified U1 = cemented_notified U2"
      "queued_count U1 = cemented_count (cache (cu_ledger U2))"
    using U2(3,4) by (simp_all add: queue_unchanged_def queued_store_def queued_notified_def queued_count_def)
  have before: "queued_store ?U = ?s" "queued_notified ?U = cemented_notified U" "queued_count ?U = cemented_count (cache (cu_ledger U))"
    using assms(3) by (simp_all add: process_start_def clear_process_vars_def pending_empty_def queued_store_def queued_notified_def queued_count_def)
  have A: "\<forall>x \<in> {orig}. \<exists>c. block_get ?s x = Some c \<and> cemented (queued_store U1) c" using b0 U1(4) by simp
  note exact = traversal_exact [OF U1(2) A adv, unfolded same before depended_on_single]
    and news = traversal_news [OF U1(2) A adv, unfolded before depended_on_single]
  obtain bs where "cemented_notified U2 = cemented_notified U @ bs" "distinct bs" "set bs = newly_queued ?s ?U U1"
      "cemented_count (cache (cu_ledger U2)) = cemented_count (cache (cu_ledger U)) + of_nat (length bs)"
    using adv unfolding advance_def same before by blast
  then show ?thesis
    using U1(1) U2(1,4) exact news processor_okD(2) [OF U2(2)] same_blocks_frame(1) [OF processor_okD(1) [OF U2(2)]]
    by (auto simp: pending_empty_def)
qed

theorem confirmation_traversal_exact_witness:
  "\<exists>U1 U2. unbounded_process example_env (\<lambda>_. example_tick) 176 (new_unbounded example_ledger_3 16384) = Some U1 \<and> write_pending U1 = Some U2
    \<and> (\<forall>h \<in> {80, 176}. \<exists>b. block_get (cu_store U2) h = Some b \<and> cemented (cu_store U2) b)"
proof -
  let ?U = "new_unbounded example_ledger_3 16384"
  have st: "cu_ledger ?U = example_ledger_3" "pending_empty ?U" by (simp_all add: new_unbounded_def pending_empty_def)
  have stored: "\<exists>b. block_get (ledger_store example_ledger_3) h = Some b" if "h \<in> {80, 176}" for h
    using example_stored_3 [of h] that by (auto split: if_splits)
  obtain U1 U2 where run: "unbounded_process example_env (\<lambda>_. example_tick) 176 ?U = Some U1" "write_pending U1 = Some U2"
      "block_get (cu_store U2) = block_get (ledger_store example_ledger_3)"
      "\<forall>h b. block_get (ledger_store example_ledger_3) h = Some b \<longrightarrow> (cemented (cu_store U2) b \<longleftrightarrow>
         cemented (ledger_store example_ledger_3) b \<or> depends_on example_env 96 (ledger_store example_ledger_3) 176 h)"
    using confirmation_traversal_exact [OF _ _ st(2) _ example_never_stopped, of example_env 96 176, unfolded st(1)]
      example_history_3 example_links_apart stored [of 176] by auto
  moreover have "depends_on example_env 96 (ledger_store example_ledger_3) 176 h" if "h \<in> {80, 176}" for h
    using that example_claim_depends by auto
  ultimately show ?thesis using stored by metis
qed

text \<open>
  C16. The confirmation height processor on a well-formed ledger with a history (\<open>ledger_history\<close>), in which the destination of no stored state send is the hash of a stored block, and
  whose blocks do not change meanwhile. Whichever hashes of stored blocks are added to it (for any other hash the traversal fails an assertion) and
  however often it is paused and run, a hash that was
  added is being processed or its block is cemented, only dependencies of added blocks get cemented, the
  ledger keeps its invariant, and the next round of the thread does not abort while the node is not stopping.
\<close>

theorem confirmation_processor_invariant:
  assumes "processor_run E g L A Q"
  shows "ledger_history E g (cu_ledger (unbounded_processor Q))
    \<and> (\<forall>h \<in> A. is_processing_block h Q \<or> (\<exists>b. block_get (ledger_store L) h = Some b \<and> cemented (cu_store (unbounded_processor Q)) b))
    \<and> (\<forall>h b. block_get (ledger_store L) h = Some b \<longrightarrow> cemented (cu_store (unbounded_processor Q)) b \<longrightarrow>
         cemented (ledger_store L) b \<or> (\<exists>x \<in> A. depends_on E g (ledger_store L) x h))
    \<and> (\<forall>ticks. never_stopped ticks \<longrightarrow> (\<exists>Q'. run_round E ticks Q = Some Q'))"
proof -
  obtain rk where inv: "processor_inv E g rk L A Q" using processor_run_inv [OF assms] ..
  have "is_processing_block h Q \<or> (\<exists>b. block_get (ledger_store L) h = Some b \<and> cemented (cu_store (unbounded_processor Q)) b)" if "h \<in> A" for h
    using processor_invD(6) [OF inv that] by blast
  then show ?thesis
    using processor_okD(2) [OF processor_invD(1) [OF inv]] cemented_closure [OF inv] round_ok [OF inv] unfolding depended_on_def by blast
qed

theorem confirmation_processor_invariant_witness:
  "\<exists>Q. run_round example_env (\<lambda>_. example_tick) (processor_add 176 (new_processor example_ledger_3)) = Some Q"
  using confirmation_processor_invariant [OF example_processor_run] example_never_stopped by blast

text \<open>
  C17. The confirmation height processor, on a well-formed ledger with a history whose blocks do not change meanwhile, with no
  state send to the hash of a stored block and only hashes of stored blocks added, delivers: when it is not paused and the node is not stopping,
  as many rounds as there are hashes waiting
  and one more leave nothing waiting, being processed or unwritten, and the cemented blocks are exactly those
  cemented at the start and the dependencies of everything that was ever added. Each newly cemented block was
  announced exactly once.
\<close>

theorem confirmation_processor_delivers:
  assumes "processor_run E g L A Q" "\<not> processor_paused Q"
    and "\<forall>t \<in> set ts. never_stopped t" "awaiting_processing_size Q < length ts"
  shows "\<exists>Q'. run_rounds E ts Q = Some Q' \<and> awaiting_processing_size Q' = 0 \<and> (\<forall>h. \<not> is_processing_block h Q')
    \<and> ledger_history E g (cu_ledger (unbounded_processor Q'))
    \<and> (\<forall>h b. block_get (ledger_store L) h = Some b \<longrightarrow>
         (cemented (cu_store (unbounded_processor Q')) b \<longleftrightarrow> cemented (ledger_store L) b \<or> (\<exists>x \<in> A. depends_on E g (ledger_store L) x h)))
    \<and> distinct (cemented_notified (unbounded_processor Q'))
    \<and> set (cemented_notified (unbounded_processor Q')) = {b. \<exists>h. block_get (ledger_store L) h = Some b
         \<and> (\<exists>x \<in> A. depends_on E g (ledger_store L) x h) \<and> \<not> cemented (ledger_store L) b}"
proof -
  obtain rk where "processor_inv E g rk L A Q" using processor_run_inv [OF assms(1)] ..
  then obtain Q' where Q': "run_rounds E ts Q = Some Q'" "processor_inv E g rk L A Q'" "awaiting_processing Q' = []"
      "original_hashes_pending Q' = {}" "pending_writes (unbounded_processor Q') = []"
    using rounds_flush assms(2-4) unfolding awaiting_processing_size_def by blast
  then have idle: "\<forall>h. \<not> is_processing_block h Q'" by (simp add: is_processing_block_def)
  then show ?thesis
    using Q'(1,3) flushed_closure [OF Q'(2,5) idle] processor_okD(2) [OF processor_invD(1) [OF Q'(2)]]
    by (auto simp: awaiting_processing_size_def depended_on_def)
qed

theorem confirmation_processor_delivers_witness:
  "\<exists>Q'. run_rounds example_env [\<lambda>_. example_tick, \<lambda>_. example_tick] (processor_add 176 (new_processor example_ledger_3)) = Some Q'
    \<and> (\<exists>b. block_get (ledger_store example_ledger_3) 80 = Some b \<and> cemented (cu_store (unbounded_processor Q')) b)"
proof -
  have "\<exists>b. block_get (ledger_store example_ledger_3) 80 = Some b" using example_stored_3 [of 80] by auto
  moreover have "\<not> processor_paused (processor_add 176 (new_processor example_ledger_3))"
      "awaiting_processing_size (processor_add 176 (new_processor example_ledger_3)) < 2"
    by (simp_all add: processor_add_def new_processor_def awaiting_processing_size_def)
  ultimately show ?thesis
    using confirmation_processor_delivers [OF example_processor_run, of "[\<lambda>_. example_tick, \<lambda>_. example_tick]"]
      example_claim_depends example_never_stopped by auto
qed

section \<open>The block processor\<close>

text \<open>
  C18. The block processor, started on a ledger reached by processing, rolling back and cementing (\<open>ledger_run\<close>) with an unchecked table in order, keeps the ledger well-formed with the whole
  supply, whatever blocks arrive, are verified, processed, forced or come from the node itself, and whatever is cemented in between, provided that the
  blocks that are processed are admissible: they satisfy \<open>hash_ok\<close>, and \<open>extends_ok\<close> (no hash that is an epoch link, no full account, no predecessor for a first block) if they are accepted, and the
  hash of a block determines its account; and that blocks taken from the unchecked table are deleted there, as they are unless the node was started
  with the flag \<open>disable_block_processor_unchecked_deletion\<close> (which \<open>fast_bootstrap\<close> sets). The count of unchecked blocks in the cache is
  that of the table. Every unchecked block is stored under its own hash and the hash \<open>k\<close> that it waits for: \<open>k\<close> is not in the ledger, or it is
  stored but cannot be what the block takes it for, the predecessor of a state block of another account or a source that is
  neither a send nor a state block. The gap cache is in order and within its bound, and verifying signatures never aborts.
\<close>

theorem block_processor_invariant:
  assumes "bp_run E own g F (new_block_processor L) P" "ledger_run (crypto_fns E) (params E) g L" "params_ok E"
    "owned own (ledger_store L)" "unchecked_ok E own L" "\<not> disable_block_processor_unchecked_deletion F"
  shows "ledger_history E g (bp_ledger P) \<and> total_supply (ledger_store (bp_ledger P)) = 2 ^ 128 - 1
    \<and> cache_unchecked_count (cache (bp_ledger P)) = of_nat (unchecked_count (ledger_store (bp_ledger P)))
    \<and> (\<forall>k h u. ((k, h), u) \<in> set (unchecked_table (ledger_store (bp_ledger P))) \<longrightarrow>
         h = block_hash_of E (unchecked_block u) \<and> waits_for (ledger_store (bp_ledger P)) k (unchecked_block u))
    \<and> gaps_ok (bp_gap_cache P) \<and> (\<exists>P'. verify_state_blocks E n P = Some P')"
proof -
  have ok: "block_processor_ok E own g P"
    by (rule bp_run_ok [OF assms(1) new_block_processor_ok [OF assms(2-5)] assms(3,6)])
  then show ?thesis
    using verify_state_blocks_ok [OF ok assms(3), of n] by (force simp: block_processor_ok_def unchecked_ok_def entry_ok_def)
qed

theorem block_processor_invariant_witness:
  "ledger_history example_env 96 (bp_ledger example_arrived) \<and> (\<exists>P. verify_state_blocks example_env 5 example_arrived = Some P)"
  using block_processor_invariant [OF example_arrived_run example_run example_params_ok example_owned, of 5] by simp



text \<open>
  C20. \<open>process_one\<close> exactly, on a processor in order (\<open>block_processor_ok\<close>), for an admissible block (\<open>hash_ok\<close>, its hash determines its account, \<open>extends_ok\<close> if it is accepted)
  whose mark on the signature is right, with the deletion of unchecked blocks not disabled: it aborts if and only if the ledger accepts the block for another account than the one it
  was announced for. Otherwise an accepted block is stored, nothing waits for it any more, and exactly the blocks
  that did are back in the queues, those without a mark in front of the signature check; a block with the result \<open>gap_previous\<close> is now in the unchecked table under the hash of
  its predecessor, one with \<open>gap_source\<close> under the hash that \<open>ledger::block_source\<close> gives for it, with its account and the mark the ledger set,
  and the table has no other new entry; any other block changes neither the tables nor the queues.
\<close>

theorem block_processor_one:
  assumes "block_processor_ok (view_env V) own g P" "params_ok (view_env V)"
    "admissible (view_env V) own (bp_ledger P) (unchecked_block u)" "item_ok (view_env V) own u"
    "\<not> disable_block_processor_unchecked_deletion F"
    "process (view_env V) (bp_ledger P) (unchecked_block u) (verification_of (unchecked_verified u)) = Some (L, b, r)"
  shows "(bp_process_one F V u w og P = None \<longleftrightarrow>
      code r = progress \<and> unchecked_account u \<noteq> 0 \<and> ret_account r \<noteq> Some (unchecked_account u))
    \<and> (\<forall>P' r'. bp_process_one F V u w og P = Some (P', r') \<longrightarrow>
         r' = r \<and> block_processor_ok (view_env V) own g P' \<and> one_processed (view_env V) u r P P')"
  using process_one_cases [OF assms, of w og] by (cases "announced_ok u r") (auto simp: announced_ok_def)

theorem block_processor_one_witness:
  "bp_process_one example_flags example_bp_view example_misannounced False Origin_remote example_processor = None"
proof -
  obtain L b r where r: "process example_env example_ledger example_send Sig_valid = Some (L, b, r)" "\<not> announced_ok example_misannounced r"
    using example_misannounced_process by blast
  then show ?thesis
    using block_processor_one [of example_bp_view "\<lambda>_. 1" 96 example_processor example_misannounced example_flags L b r False Origin_remote]
      example_processor_ok example_params_ok example_admissible example_misannounced_ok
    by (simp add: new_block_processor_def announced_ok_def make_unchecked_info_def verification_of_def)
qed

text \<open>
  C21. A batch ends: on a processor in order (\<open>block_processor_ok\<close>), when the deadline passes at some point, and the blocks taken were announced for the accounts they belong to and are admissible when they are
  processed (\<open>hash_ok\<close>, their hash determines their account, \<open>extends_ok\<close> if they are accepted), \<open>process_batch\<close>
  returns with the invariant in place, its events included. Enough rounds of rollback for the forced blocks exist, and
  more of them change nothing. The deletion of unchecked blocks is not disabled (the flag \<open>disable_block_processor_unchecked_deletion\<close>, set by \<open>fast_bootstrap\<close>).
\<close>

theorem block_processor_batch_returns:
  assumes "\<forall>j. same_network E (view_env (V j))" "params_ok E" "\<not> disable_block_processor_unchecked_deletion F"
    "\<forall>j \<ge> N. \<not> before_deadline j" "block_processor_ok E own g P" "batch_admissible own F V 0 (P\<lparr>bp_events := []\<rparr>)"
  shows "\<exists>k P'. (\<forall>n \<ge> k. process_batch n F V before_deadline W P = Some P') \<and> block_processor_ok E own g P'"
  using process_batch_settles [of E V F N before_deadline own g P W] assms by (auto simp: settles_def)

theorem block_processor_batch_returns_witness:
  "\<exists>k P. \<forall>n \<ge> k. process_batch n example_flags (\<lambda>_. example_bp_view) (\<lambda>j. j < 7) example_bp_view example_arrived = Some P"
  using block_processor_batch_returns [of example_env "\<lambda>_. example_bp_view" example_flags 7 "\<lambda>j. j < 7" "\<lambda>_. 1" 96 example_arrived example_bp_view]
    example_params_ok example_arrived_ok example_batch_admissible by auto

section \<open>Elections\<close>

text \<open>
  C22. Elections are safe: in every state an election can reach by votes, published blocks, cached votes,
  cementation and time, its invariant holds (one vote per representative, blocks stored under their
  hashes, the winner among them), and none of its operations aborts: the tally is never empty.
\<close>

theorem election_invariant:
  assumes "election_run C a e" "view_ok C a V" "rep \<noteq> a"
  shows "election_ok C a e \<and> (\<exists>r e' fx. election_vote V rep q h e = Some (r, e', fx))
    \<and> (\<exists>r e' fx. election_publish V b e = Some (r, e', fx)) \<and> (\<exists>n e' fx. insert_inactive_votes_cache V h e = Some (n, e', fx))"
proof -
  note ok = election_run_ok [OF assms(1)]
  from vote_ok [OF ok assms(2,3), of q h] publish_ok [OF ok assms(2), of b] cached_ok [OF ok assms(2), of h] ok
  show ?thesis by metis
qed

theorem election_invariant_witness:
  "election_ok example_crypto 77 example_confirmed_election
    \<and> (\<exists>r e' fx. election_vote example_view 2 9 80 example_confirmed_election = Some (r, e', fx))"
  using election_invariant [OF example_confirmed_run example_view_ok, of 2 9 80 example_block] by simp

text \<open>
  C23. A confirmed election stays confirmed, and neither its winner nor its blocks change, whatever votes
  and blocks arrive later.
\<close>

theorem election_confirmed_for_good:
  assumes "election_run C a e" "confirmed e" "(election_step C a)\<^sup>*\<^sup>* e e'"
  shows "confirmed e' \<and> winner (status e') = winner (status e) \<and> election_blocks e' = election_blocks e"
  using confirmed_for_good [OF assms(3) election_run_ok [OF assms(1)] assms(2)] by blast

theorem election_confirmed_for_good_witness:
  "\<exists>r e' fx. transition_time (example_view\<lparr>steady_now := seconds 900\<rparr>) example_confirmed_election = (r, e', fx)
     \<and> confirmed e' \<and> winner (status e') = winner (status example_confirmed_election)"
proof -
  let ?V = "example_view\<lparr>steady_now := seconds 900\<rparr>"
  obtain r e' fx where t: "transition_time ?V example_confirmed_election = (r, e', fx)"
    by (cases "transition_time ?V example_confirmed_election")
  have "view_ok example_crypto 77 ?V" using example_view_ok by (simp add: view_ok_def order_ok_def)
  from election_step.time [OF this t] have run: "(election_step example_crypto 77)\<^sup>*\<^sup>* example_confirmed_election e'" by blast
  have "confirmed example_confirmed_election" by (rule example_vote)
  from election_confirmed_for_good [OF example_confirmed_run this run] t show ?thesis by blast
qed

text \<open>
  C24. The quorum is exact. With a margin of at most half the stake, and voters whose weight fits into 128
  bits, \<open>confirm_if_quorum\<close> confirms the election if and only if the (different) weights of the voted blocks sum up to the
  configured minimum and some block leads: it has more than the margin, and every other block either is behind
  by more than the margin or has the very same weight. The winner is then such a block. The 128-bit
  arithmetic of the margin does not wrap.
\<close>

theorem election_quorum_exact:
  assumes "election_run C a e" "view_ok C a V" "counted V e"
  shows "\<exists>e' fx. confirm_if_quorum V e = Some (e', fx)
    \<and> state_m e' = (if weight_present V e \<and> (\<exists>h. leads V e h) then Confirmed else state_m e)
    \<and> (weight_present V e \<and> (\<exists>h. leads V e h) \<longrightarrow> leads V e (generate_hash C (winner (status e'))))"
  using confirm_if_quorum_spec [OF election_run_ok [OF assms(1)] assms(2,3)] by metis

theorem election_quorum_exact_witness:
  "\<exists>e' fx. confirm_if_quorum example_view example_election = Some (e', fx) \<and> state_m e' = Idle"
proof -
  have "counted example_view example_election" "\<not> leads example_view example_election h" for h
    by (simp_all add: counted_def vote_weight_def leads_def voted_def contenders_def voted_hashes_def example_election_value)
      (simp_all add: example_view_def)
  with election_quorum_exact [OF example_election_run example_view_ok] show ?thesis by (auto simp: example_election_value(3))
qed

text \<open>
  C25. Agreement: if two elections (of two nodes, or at two times) are confirmed by quorum under the same
  weights, and the margins together are at least the weight of all representatives, then some representative
  voted for the winner of the one and for the winner of the other. Different winners need a representative that
  votes for both.
\<close>

theorem election_agreement:
  assumes "election_ok C a e" "election_ok C a e'" "view_ok C a V" "view_ok C a V'" "counted V e" "counted V' e'"
    and "confirm_if_quorum V e = Some (e1, fx)" "\<not> confirmed e" "confirmed e1"
    and "confirm_if_quorum V' e' = Some (e1', fx')" "\<not> confirmed e'" "confirmed e1'"
    and "weight V' = weight V" "finite A" "fst ` set (last_votes e) \<subseteq> A" "fst ` set (last_votes e') \<subseteq> A"
    and "(\<Sum>x \<in> A. unat (weight V x)) \<le> unat (delta V) + unat (delta V')"
  shows "\<exists>rep. rep \<in> voters (last_votes e) (generate_hash C (winner (status e1)))
    \<and> rep \<in> voters (last_votes e') (generate_hash C (winner (status e1')))"
proof -
  have "leads V e (generate_hash C (winner (status e1)))"
    by (rule confirmed_leads [OF assms(1,3,5,7,8,9)])
  moreover have "leads V' e' (generate_hash C (winner (status e1')))"
    by (rule confirmed_leads [OF assms(2,4,6,10,11,12)])
  ultimately show ?thesis using common_voter [OF _ _ assms(1,2,5,6,13-17)] by blast
qed

theorem election_agreement_witness:
  "\<exists>e fx rep. confirm_if_quorum example_view example_voted = Some (e, fx)
     \<and> rep \<in> voters (last_votes example_voted) (generate_hash example_crypto (winner (status e)))"
proof -
  obtain e fx where e: "confirm_if_quorum example_view example_voted = Some (e, fx)" "confirmed e" by (rule example_confirmation)
  have "\<not> confirmed example_voted" by (simp add: confirmed_def example_voted_def example_election_value)
  note c = example_voted_ok example_voted_ok example_view_ok example_view_ok example_counted example_counted e(1) this e(2) e(1) this e(2)
  have "(\<Sum>x \<in> {77, 1, 2}. unat (weight example_view x)) \<le> unat (delta example_view) + unat (delta example_view)"
    by (simp add: example_delta) (simp add: example_view_def)
  with election_agreement [OF c refl, of "{77, 1, 2}"] e(1) show ?thesis by (auto simp: example_voted_value(1))
qed

text \<open>
  C26. Time moves an election only along its intended path: from passive to active to broadcasting to
  backtracking, from confirmed to expired, and from unconfirmed states to expired unconfirmed. The missing
  \<open>break\<close>s of \<open>valid_change\<close> would also allow to skip states and to expire an unconfirmed election as
  confirmed, but no call asks for it.
\<close>

theorem election_time_moves:
  assumes "transition_time V e = (r, e', fx)"
  shows "state_m e' \<in> set (time_moves (state_m e)) \<and> winner (status e') = winner (status e) \<and> last_votes e' = last_votes e
    \<and> valid_change Active Backtracking \<and> valid_change Active Expired_confirmed \<and> valid_change Backtracking Expired_confirmed"
  using transition_time_frame [OF assms] by (simp add: change_defs)

theorem election_time_moves_witness:
  "state_m (fst (snd (transition_time example_view example_election))) = Idle"
proof -
  obtain r e fx where t: "transition_time example_view example_election = (r, e, fx)"
    by (cases "transition_time example_view example_election")
  from election_time_moves [OF t] t show ?thesis by (simp add: example_election_value)
qed

text \<open>
  C27. The rules for votes, with the network's principal weight factor of 1000. A vote counts on the test network, or if the weight
  of the representative is more than a thousandth of the online stake. It is a replay if and only if it counts and the recorded vote of the
  representative is not older (by sequence, then by hash); it is processed if and only if it counts and either the representative has
  no recorded vote, or an older one that was recorded at least 15 seconds ago (for a weight below a hundredth of the stake), 5 seconds ago (below
  a twentieth) or 1 second ago. A vote that is not processed changes nothing; one that is processed replaces the
  recorded vote, with the time, and then, unless the election is confirmed already, the quorum is checked.
\<close>

theorem election_vote_rules:
  assumes "election_vote V rep q h e = Some ((replay, processed), e', fx)" "principal_weight_factor V = 1000"
    and "w = unat (weight V rep)" "stake = unat (online_stake V)"
    and "counts \<longleftrightarrow> is_test_network V \<or> stake div 1000 < w"
    and "cooldown = (if w < stake div 100 then 15000000000 else if w < stake div 20 then 5000000000 else 1000000000)"
    and "recorded = e\<lparr>last_votes := AList.update rep \<lparr>vi_time = steady_now V, vi_sequence = q, vi_hash = h\<rparr> (last_votes e)\<rparr>"
  shows "(replay \<longleftrightarrow> counts \<and> (\<exists>l. map_of (last_votes e) rep = Some l
         \<and> \<not> (vi_sequence l < q \<or> vi_sequence l = q \<and> vi_hash l < h)))
    \<and> (processed \<longleftrightarrow> counts \<and> (\<forall>l. map_of (last_votes e) rep = Some l \<longrightarrow>
         (vi_sequence l < q \<or> vi_sequence l = q \<and> vi_hash l < h) \<and> vi_time l + cooldown \<le> steady_now V))
    \<and> (\<not> processed \<longrightarrow> e' = e \<and> fx = [])
    \<and> (processed \<and> confirmed e \<longrightarrow> e' = recorded)
    \<and> (processed \<and> \<not> confirmed e \<longrightarrow> (\<exists>fx'. confirm_if_quorum V recorded = Some (e', fx')))"
proof -
  have c: "votes_count V rep = counts" "cooldown_seconds stake w * 1000000000 = cooldown"
    using assms(3-6) by (simp_all add: votes_count_def cooldown_seconds_def)
  have "processed \<Longrightarrow> if confirmed e then e' = recorded \<and> fx = [Stat_inc ''vote_new'' 1]
      else \<exists>fx'. confirm_if_quorum V recorded = Some (e', fx') \<and> fx = Stat_inc ''vote_new'' 1 # fx'"
    using election_vote_recorded [OF _ assms(7)] assms(1) by simp
  then show ?thesis
    using election_vote_cases [OF assms(1,2)] c assms(3,4) unfolding newer_vote_def by (auto split: if_splits)
qed

theorem election_vote_rules_witness:
  "\<exists>fx. election_vote example_view 1 5 80 example_election = Some ((False, True), example_confirmed_election, fx)
     \<and> (\<exists>fx'. confirm_if_quorum example_view example_voted = Some (example_confirmed_election, fx'))
   \<and> election_vote example_view 1 5 80 example_voted = Some ((True, False), example_voted, [])
   \<and> election_vote example_view 1 6 80 example_voted = Some ((False, False), example_voted, [])"
proof -
  obtain fx where 1: "election_vote example_view 1 5 80 example_election = Some ((False, True), example_confirmed_election, fx)"
    by (rule example_vote)
  have view: "principal_weight_factor example_view = 1000" "steady_now example_view = 0" "unat (weight example_view 1) = 60"
      "unat (online_stake example_view) = 100" "is_test_network example_view = False"
    by (simp_all add: example_view_def)
  note rules = election_vote_rules [OF _ view(1) refl refl refl refl refl, unfolded view]
  have again: "election_vote example_view 1 q 80 example_voted = Some ((\<not> 5 < q, False), example_voted, [])" for q
  proof -
    obtain replay processed e' fx where v: "election_vote example_view 1 q 80 example_voted = Some ((replay, processed), e', fx)"
      by (rule vote_ok [OF example_voted_ok example_view_ok, of 1 q 80]) auto
    have l: "map_of (last_votes example_voted) 1 = Some \<lparr>vi_time = 0, vi_sequence = 5, vi_hash = 80\<rparr>"
      by (simp add: example_voted_value)
    have "replay \<longleftrightarrow> \<not> 5 < q" using rules [OF v, THEN conjunct1] l view(3) by simp
    moreover have "\<not> processed" using rules [OF v, THEN conjunct2, THEN conjunct1] l view(3) by simp
    ultimately show ?thesis using rules [OF v] v by simp
  qed
  have "\<not> confirmed example_election" by (simp add: confirmed_def example_election_value)
  then show ?thesis
    using 1 rules [OF 1] again [of 5] again [of 6] by (auto simp: example_voted_def)
qed

text \<open>
  C28. Sampling the online weight: \<open>sample\<close> never aborts, keeps at most as many samples as the network allows, in order of
  time, and starts collecting representatives anew. The online stake is at least the configured minimum, and the
  trend is robust: when more than half of the values (the minimum and the samples) lie in an interval, so does the trend.
\<close>

theorem online_stake_bounds:
  assumes "table_ok (online_weight (ledger_store L))"
  shows "\<exists>L' R'. sample (max_weight_samples N) now (L, R) = Some (L', R') \<and> online_list R' = []
    \<and> length (online_weight (ledger_store L')) \<le> max_weight_samples N \<and> table_ok (online_weight (ledger_store L'))
    \<and> online_minimum R \<le> stake_online R'
    \<and> (\<forall>lo hi. let items = online_minimum R # map snd (online_weight (ledger_store L')) in
         length items < 2 * length (filter (\<lambda>x. lo \<le> x \<and> x \<le> hi) items) \<longrightarrow> lo \<le> online_trended R' \<and> online_trended R' \<le> hi)"
  by (rule sample_bounds [OF _ assms]) (simp add: max_weight_samples_def)

theorem online_stake_bounds_witness:
  "\<exists>L R. sample (max_weight_samples Live_network) 1000 (example_ledger, make_online_reps example_ledger False 60000) = Some (L, R)
    \<and> 60000 \<le> stake_online R"
proof -
  have "table_ok (online_weight (ledger_store example_ledger))" by (simp add: example_ledger_value table_ok_def)
  from online_stake_bounds [OF this, of Live_network 1000 "make_online_reps example_ledger False 60000"]
  show ?thesis by (auto simp: make_online_reps_def)
qed

section \<open>Creating and querying a ledger\<close>

text \<open>
  C29. \<open>block_store::initialize\<close> on an empty store gives a well-formed ledger holding the whole supply.
\<close>

theorem genesis_well_formed:
  assumes "genesis_ok E g"
  shows "\<exists>L. genesis_ledger E g gc cb = Some L \<and> ledger_ok L \<and> total_supply (ledger_store L) = 2 ^ 128 - 1"
  by (rule genesis_ledger_ok [OF assms])

theorem genesis_well_formed_witness:
  "\<exists>L. genesis_ledger example_env example_genesis example_gc True = Some L \<and> ledger_ok L
    \<and> total_supply (ledger_store L) = 2 ^ 128 - 1"
  by (rule genesis_well_formed [OF example_genesis_ok])

text \<open>
  C30. Opening a ledger on existing tables rebuilds the cache that processing would have kept, if the constructor is asked for
  any of the weights, the account count or the epoch 2 flag (by default for all of them):
  every representative's weight is the sum of the balances delegated to it, and the block and account
  counts are those of the tables.
\<close>

theorem reopened_cache_agrees:
  assumes "gen_reps g \<or> gen_account_count g \<or> gen_epoch_2 g"
  shows "cache_agrees (make_ledger g s cb)"
  by (rule make_cache_agrees [OF assms])

theorem reopened_cache_agrees_witness: "cache_agrees (make_ledger example_gc (ledger_store example_ledger_2) False)"
  by (rule reopened_cache_agrees) (simp add: example_gc_def)

text \<open>
  C31. \<open>account_pending\<close> adds up exactly the pending entries of the account, for every account but the
  one with the highest number. For that one the end position of the loop wraps to the first entry of the table: the loop runs
  off the end of the table, or stops at once when all entries belong to that account.
\<close>

theorem account_pending_correct:
  assumes "ledger_ok L"
  shows "(a \<noteq> - 1 \<longrightarrow> account_pending L a =
      Some (table_sum pending_amount (filter (\<lambda>e. fst (fst e) = a) (pending (ledger_store L)))))
    \<and> account_pending L (- 1) =
      (let t = pending (ledger_store L) in if length (table_lower_bound t (- 1, 0)) = length t then Some 0 else None)"
  using assms store_okD(3) account_pending_sum account_pending_last by (auto simp: ledger_ok_def)

theorem account_pending_correct_witness:
  "account_pending example_ledger_2 2 =
    Some (table_sum pending_amount (filter (\<lambda>e. fst (fst e) = 2) (pending (ledger_store example_ledger_2))))"
  using account_pending_correct [of example_ledger_2 2] reachable_ok [OF example_reachable] example_params_ok
  by (simp add: params_ok_def example_env_def)

section \<open>Formats\<close>

text \<open>
  C32. The wire format of blocks is exact in both directions: reading a stream gives a block and a rest
  precisely when the stream is the written form of that block followed by that rest. Two blocks are equal
  under \<open>operator==\<close> exactly when their written forms are equal.
\<close>

theorem block_wire_format:
  "(deserialize_block s = Some (b, r) \<longleftrightarrow> sideband_m b = None \<and> s = serialize_block b @ r)
   \<and> (blocks_equal b b' \<longleftrightarrow> serialize_block b = serialize_block b')"
  by (intro conjI block_codec.dec_iff blocks_equal_serialize)

text \<open>
  C33. A sideband stored with a block is read back from the bytes after the block, of which there are
  \<open>sideband_size\<close>: the fields its block type keeps are those written, the height of an open block is
  one, the others are the defaults. The details byte: packing and unpacking are inverse as long as the
  epoch fits into five bits, and every byte is the packed form of what it unpacks to.
\<close>

theorem sideband_round_trip:
  "sideband_deserialize default_sideband t (sideband_serialize sb t @ r) = Some (sideband_stored t sb, r)
    \<and> length (sideband_serialize sb t) = sideband_size t
    \<and> packed (unpack w) = w \<and> details_ok (unpack w) \<and> (details_epoch d < 32 \<longrightarrow> unpack (packed d) = d)"
  using unpack_packed [of d] packed_unpack [of w] unpack_ok [of w] by (simp add: codec_simps details_ok_def)

theorem sideband_round_trip_witness:
  "unpack (packed \<lparr>details_epoch = epoch_2, is_send = True, is_receive = False, is_epoch = False\<rparr>) =
     \<lparr>details_epoch = epoch_2, is_send = True, is_receive = False, is_epoch = False\<rparr>"
  using sideband_round_trip [of Send_type default_sideband "[]" 0
    "\<lparr>details_epoch = epoch_2, is_send = True, is_receive = False, is_epoch = False\<rparr>"]
  by (simp add: epoch_defs)

text \<open>
  C34. Account and pending records have fixed-size database images: a read fails exactly on fewer bytes
  than that size, and otherwise returns the one record with that image. An unchecked block survives the
  database, except for its flag \<open>confirmed\<close>, which is not written and comes back false, and its sideband.
\<close>

theorem database_records:
  "(account_info_deserialize s = Some (i, r) \<longleftrightarrow> s = account_info_bytes i @ r)
    \<and> (account_info_deserialize s = None \<longleftrightarrow> length s < account_info_db_size)
    \<and> (pending_info_deserialize s = Some (p, r) \<longleftrightarrow> s = pending_info_bytes p @ r)
    \<and> (pending_info_deserialize s = None \<longleftrightarrow> length s < pending_info_db_size)
    \<and> unchecked_info_deserialize (unchecked_info_serialize u @ r) =
        Some (u\<lparr>unchecked_block := (unchecked_block u)\<lparr>sideband_m := None\<rparr>, unchecked_confirmed := False\<rparr>, r)"
proof -
  let ?u = "u\<lparr>unchecked_block := (unchecked_block u)\<lparr>sideband_m := None\<rparr>, unchecked_confirmed := False\<rparr>"
  have "unchecked_info_serialize u = unchecked_info_serialize ?u"
    by (simp add: unchecked_info_serialize_def serialize_block_def block_serialize_defs type_of_def
        split: block_hashables.splits)
  then show ?thesis
    using account_info_codec.dec_iff [of s i r] pending_info_codec.dec_iff [of s p r] account_info_codec.dec_short [of s]
      pending_info_codec.dec_short [of s] unchecked_info_codec.dec_enc [of ?u r]
    by simp
qed

section \<open>Work\<close>

text \<open>
  C35. The thresholds of every network: what a block of any epoch of the ledger must reach lies between
  the entry threshold of the node and the base threshold, and a block of an unknown epoch can never
  reach its threshold except with the highest value. In \<open>double\<close> arithmetic, with every operation rounded:
  \<open>normalized_multiplier\<close> and \<open>denormalized_multiplier\<close> are monotone and keep a multiplier of at least one at least one
  (what the code asserts). On the multipliers \<open>i / 2 ^ j\<close> of at least one with \<open>i\<close> at most \<open>2 ^ 46\<close> they are exact:
  normalizing from the threshold of epoch 1 or of an epoch 2 receive gives \<open>(m + (r - 1)) / r\<close>, where the ratio \<open>r\<close> is the share
  of nonces that reach the threshold divided by the share that reach the threshold of an epoch 2 send, and each function undoes the other.
  (Not so for all doubles: on the test network \<open>1 + 2 ^ - 52\<close> normalizes to 1 at ratio 8.) The
  multiplier of a threshold of the network over itself is one, and \<open>from_multiplier\<close> at one gives this threshold.
\<close>

theorem work_threshold_bounds:
  "work_threshold_entry N v \<le> work_threshold N v d
    \<and> (ledger_epoch (details_epoch d) \<longrightarrow> work_threshold N v d \<le> work_threshold_base N v)
    \<and> (\<not> ledger_epoch (details_epoch d) \<longrightarrow> work_threshold N v d = u64_max)
    \<and> (1 \<le> m \<longrightarrow> 1 \<le> normalized_multiplier N m t \<and> 1 \<le> denormalized_multiplier N m t)
    \<and> (m \<le> n \<longrightarrow> normalized_multiplier N m t \<le> normalized_multiplier N n t
                  \<and> denormalized_multiplier N m t \<le> denormalized_multiplier N n t)
    \<and> ((2::int) ^ j \<le> i \<and> i \<le> 2 ^ 46 \<and> m = real_of_int i / 2 ^ j
        \<longrightarrow> denormalized_multiplier N (normalized_multiplier N m t) t = m
          \<and> normalized_multiplier N (denormalized_multiplier N m t) t = m
          \<and> (\<forall>r. t \<in> {threshold_epoch_1 (publish_thresholds N), threshold_epoch_2_receive (publish_thresholds N)}
               \<and> r = real (unat (- t)) / real (unat (- threshold_epoch_2 (publish_thresholds N)))
             \<longrightarrow> normalized_multiplier N m t = (m + (r - 1)) / r))
    \<and> (t \<in> {threshold_epoch_1 (publish_thresholds N), threshold_epoch_2 (publish_thresholds N),
             threshold_epoch_2_receive (publish_thresholds N)}
        \<longrightarrow> from_multiplier 1 t = Some t \<and> to_multiplier t t = 1)"
proof -
  have "work_threshold_entry N v \<le> work_threshold N v d
    \<and> (ledger_epoch (details_epoch d) \<longrightarrow> work_threshold N v d \<le> work_threshold_base N v)
    \<and> (\<not> ledger_epoch (details_epoch d) \<longrightarrow> work_threshold N v d = u64_max)"
    using work_threshold_ge_entry [of N v d] work_threshold_le_base [of d N v]
    by (cases v) (auto simp: ledger_epoch_def work_v1_threshold_def Let_def)
  then show ?thesis
    using multiplier_ge_1 multiplier_mono multiplier_inverse normalized_exact from_multiplier_one by auto
qed

theorem work_threshold_bounds_witness:
  "work_threshold Live_network Work_1 default_details \<le> work_threshold_base Live_network Work_1
   \<and> normalized_multiplier Test_network 9 (threshold_epoch_1 publish_test) = 2
   \<and> normalized_multiplier Test_network 65 (threshold_epoch_2_receive publish_test) = 2
   \<and> denormalized_multiplier Test_network 2 (threshold_epoch_1 publish_test) = 9
   \<and> from_multiplier 1 (threshold_epoch_1 publish_full) = Some 0xfffff00000000000"
  using work_threshold_bounds [of Live_network Work_1 default_details 1 "threshold_epoch_1 publish_full" 1 0 1]
    work_threshold_bounds [of Test_network Work_1 default_details 9 "threshold_epoch_1 publish_test" 9 0 9]
    work_threshold_bounds [of Test_network Work_1 default_details 65 "threshold_epoch_2_receive publish_test" 65 0 65]
  by (auto simp: ledger_epoch_def default_details_def threshold_values)

section \<open>Votes\<close>

text \<open>
  C36. Both wire formats of a vote are exact. \<open>vote::deserialize\<close> accepts a byte string as a vote
  if and only if it is what \<open>vote::serialize\<close> writes for this vote, the vote has at least one item and its
  blocks carry no sideband; the constructor with a block type accepts exactly what \<open>serialize\<close> with this type
  writes, if every item is a hash (for \<open>not_a_block\<close>) or a block of the type. Two votes are equal
  under \<open>operator==\<close> exactly when they are written as the same bytes.
\<close>

theorem vote_wire_format:
  "(vote_deserialize s = Some v \<longleftrightarrow> vote_blocks v \<noteq> [] \<and> list_all wire_item (vote_blocks v) \<and> s = vote_serialize v)
   \<and> (vote_deserialize_type t s = Some v \<longleftrightarrow>
        vote_blocks v \<noteq> [] \<and> list_all (wire_item_type t) (vote_blocks v) \<and> s = vote_serialize_type C t v)
   \<and> (vote_eq v w \<longleftrightarrow> vote_serialize v = vote_serialize w)"
  using vote_deserialize_iff vote_deserialize_type_iff vote_eq_serialize by blast

section \<open>Account texts\<close>

text \<open>
  C37. \<open>decode_account\<close> accepts a text for an account if and only if it is the text \<open>to_account\<close> writes,
  or this text with a dash in place of the underscore: a text is read back as it was written, and no
  other text (with other capitals, digits or checksum) stands for an account. A node id is never read back: whatever
  key it was written for, \<open>decode_node_id\<close> reports an error on the text of \<open>to_node_id\<close>, and leaves the key as it was.
\<close>

theorem account_text_exact:
  "(decode_account C this s = (False, a) \<longleftrightarrow> s = to_account C a \<or> s = (to_account C a)[4 := CHR ''-''])
    \<and> decode_node_id C this (to_node_id C k) = (True, this)"
proof -
  have dash: "(to_account C a)[4 := CHR ''-''] = account_text C (CHR ''-'') a"
    by (simp add: to_account_text account_text_def)
  have "decode_node_id C this (to_node_id C k) = (True, this)"
    by (simp add: decode_node_id_def decode_account_def to_node_id_def to_account_digits Let_def)
  then show ?thesis
    unfolding dash unfolding to_account_text using decode_account_text decode_account_unique by metis
qed

section \<open>The duplicate filter\<close>

text \<open>
  C38. The filter of published blocks. \<open>apply\<close> returns on every filter that has slots, tells whether
  the digest was held, and afterwards holds this digest and of the others exactly those in other slots;
  \<open>clear\<close> removes the given digests and no other. A digest is held until it is cleared or until another digest of
  its slot is applied. (Zero marks an empty slot.)
\<close>

theorem filter_contract:
  assumes "items \<noteq> []" "d \<noteq> 0"
  shows "\<exists>existed items' items''. filter_apply sip bytes items = Some (existed, sip bytes, items')
    \<and> (existed \<longleftrightarrow> filter_holds items (sip bytes)) \<and> length items' = length items
    \<and> (filter_holds items' d \<longleftrightarrow> d = sip bytes \<or> filter_holds items d \<and> filter_index items d \<noteq> filter_index items (sip bytes))
    \<and> filter_clear_digests ds items = Some items'' \<and> (filter_holds items'' d \<longleftrightarrow> filter_holds items d \<and> d \<notin> set ds)"
proof -
  obtain existed digest items' where a: "filter_apply sip bytes items = Some (existed, digest, items')"
    using filter_returns(1) [OF assms(1), of sip bytes] by auto
  obtain items'' where c: "filter_clear_digests ds items = Some items''"
    using filter_clear_digests_returns [OF assms(1), of ds] by blast
  show ?thesis using a c filter_apply_holds [OF a] filter_clear_digests_holds [OF c assms(2)] by blast
qed

theorem filter_contract_witness:
  "\<exists>items. filter_apply (\<lambda>bs. of_nat (length bs)) [1, 2, 3] [0, 0] = Some (False, 3, items) \<and> filter_holds items 3"
proof -
  have "\<not> filter_holds [0, 0] 3" by code_simp
  then show ?thesis using filter_contract [of "[0, 0]" 3 "\<lambda>bs. of_nat (length bs)" "[1, 2, 3]" "[]"] by auto
qed

section \<open>Messages\<close>

text \<open>
  C39. The parser of incoming buffers is exact. It returns on every buffer; it reports success without
  calling the visitor for buffers over 508 bytes and only for those; and it calls the visitor with a message
  (other than telemetry data, after which further bytes are allowed) if and only if the buffer is the written
  form of a message under a header of this network whose version is not outdated, the filter did not hold the digest of a
  published block, the delivered message is the one that was read with its block or vote replaced by what the uniquers find in memory under its
  full hash (\<open>block_uniquer::unique\<close>, \<open>vote_uniquer::unique\<close>), and all blocks of the delivered message have the work to enter the node.
\<close>

theorem parser_exact:
  assumes "items \<noteq> []"
  shows "(\<exists>st v items'. deserialize_buffer C N U epoch2 sip items buffer = Some ((st, v), items')
      \<and> (st = Success \<longleftrightarrow> v \<noteq> None \<or> 508 < length buffer))
    \<and> ((\<forall>h d. e \<noteq> Visit_telemetry_ack h d) \<longrightarrow>
      ((\<exists>items'. deserialize_buffer C N U epoch2 sip items buffer = Some ((Success, Some e), items')) \<longleftrightarrow>
        length buffer \<le> 508 \<and> (\<exists>e0. buffer = header_bytes N (visit_header e0) @ visit_payload C e0
        \<and> protocol_version_min epoch2 \<le> version_using (visit_header e0)
        \<and> visit_wire sip items e0 \<and> e = visit_unique C U e0 \<and> visit_work C N e)))"
  using deserialize_buffer_success [OF assms] deserialize_buffer_iff [OF assms] unfolding delivers_def by blast

theorem parser_exact_witness:
  "\<exists>items. deserialize_buffer example_crypto Live_network no_live True (\<lambda>_. 7) [0]
     [0x52, 0x43, 0x12, 0x12, 0xff, 0xc, 0, 0] = Some ((Success, Some (Visit_telemetry_req (make_header mt_telemetry_req))), items)"
proof -
  let ?e = "Visit_telemetry_req (make_header mt_telemetry_req)"
  have "[0x52, 0x43, 0x12, 0x12, 0xff, 0xc, 0, 0] = header_bytes Live_network (visit_header ?e) @ visit_payload example_crypto ?e"
    by code_simp
  moreover have "visit_wire (\<lambda>_. 7) [0] ?e" "visit_unique example_crypto no_live ?e = ?e" "visit_work example_crypto Live_network ?e"
      "protocol_version_min True \<le> version_using (visit_header ?e)"
    by (simp_all add: protocol_version_min_def protocol_version_def)
  ultimately show ?thesis
    using parser_exact [of "[0]" example_crypto Live_network no_live True "\<lambda>_. 7" "[0x52, 0x43, 0x12, 0x12, 0xff, 0xc, 0, 0]" ?e]
    by fastforce
qed



end
